(* ===== verification/IVNP_Prelude.thy ===== *)
theory IVNP_Prelude
  imports Main "HOL-Library.Word"
begin

text \<open>
  Shared vocabulary of the development.

  \<^item> The types of the Go sources: bytes, byte slices, fixed-width unsigned integers and the sentinel
    error values of the packages (\<open>errors.New\<close> variables), with \<open>'a result\<close> for Go's
    \<open>(value, error)\<close> returns.
  \<^item> The parts of the Go language and standard library that the sources use on bytes: \<open>copy\<close>
    into a sub-slice, and \<open>encoding/binary\<close>'s big-endian and little-endian readers and writers.
  \<^item> Generic lemmas on lists and words that the component proofs share, collected in
    \<open>slice_simps\<close> (slices and copies) and \<open>codec_simps\<close> (integer encodings).
\<close>

unbundle bit_operations_syntax

named_theorems slice_simps \<open>taking slices apart and writing into them\<close>
named_theorems codec_simps \<open>reading back what was written\<close>
named_theorems eval_simps \<open>unfolding the operations on closed terms\<close>

section \<open>Types\<close>

type_synonym u8 = "8 word"
type_synonym u16 = "16 word"
type_synonym u32 = "32 word"
type_synonym u64 = "64 word"
type_synonym bytes = "8 word list"

text \<open>
  The sentinel errors of the modelled packages: one datatype per package with one constructor per
  \<open>errors.New\<close> variable, and their sum. A sentinel is written by its Go name. \<open>Panic\<close> stands for a
  run-time panic (an index out of range, a nil dereference).
\<close>

datatype wire_error = E_ShortBuffer | E_LargeField
datatype ssu2_error =
    E_ACK | E_PacketLength | E_ExtensionBlock | E_Introduction | E_PeerTest
  | E_PacketType | E_Network | E_HeaderProtection | E_Handshake
datatype tunnel_error =
    E_Block | E_Fragment | E_TooLarge | E_GatewayPayload | E_GatewayBlock | E_GatewayOutput
datatype i2np_error =
    E_PayloadTooLarge | E_Checksum | E_Malformed | E_UnknownStoreType | E_InvalidTunnelID
datatype identity_error =
    E_InvalidCertificate | E_UnknownKeyType | E_InvalidIdentity | E_InvalidMapping | E_UnsortedMapping | E_DestinationSmall
datatype signature_error = E_UnsupportedSignature | E_MalformedSignature | E_MalformedDSAParameter
datatype netdb_error =
    E_InvalidDatabaseStore | E_NetDBMalformed | E_TooManyItems | E_InvalidKeyLength | E_StructureTooLarge
  | E_NoSupportedEncryptionKey | E_ELSExpired | E_InvalidNetID
datatype streaming_error = E_Packet
datatype garlic_error = E_Delivery | E_Clove
datatype ntcp2_error =
    E_FrameLength | E_FrameTooLarge | E_NonceExhausted | E_BlockOrder | E_BlockLength
datatype crypto_error =
    E_KeyLength | E_NonceLength | E_Destination | E_Authentication | E_SensitiveReleased | E_AEADOpen
  | E_LowOrderPoint | E_Elligator | E_NoiseNonce
datatype datagram_error = E_Datagram | E_Protocol
datatype pool_error = E_TunnelID | E_PoolFull | E_PoolOwner
datatype io_error = E_EOF | E_UnexpectedEOF | E_ShortWrite | E_Closed
datatype router_error =
    E_ControlOverloaded | E_ControlStopped | E_ControlStarted | E_MissingControlHandler | E_InvalidControlQueueLimits
  | E_UnhandledI2NP | E_Canceled | E_Handler nat
datatype reseed_error = E_SU3Malformed | E_SU3Signer | E_SU3Signature

datatype error =
    WireError wire_error
  | SSU2Error ssu2_error
  | TunnelError tunnel_error
  | I2NPError i2np_error
  | IdentityError identity_error
  | SignatureError signature_error
  | NetDBError netdb_error
  | StreamingError streaming_error
  | GarlicError garlic_error
  | NTCP2Error ntcp2_error
  | CryptoError crypto_error
  | DatagramError datagram_error
  | PoolError pool_error
  | IOError io_error
  | RouterError router_error
  | ReseedError reseed_error
  | LayerSizeError
  | Panic

abbreviation "ErrShortBuffer \<equiv> WireError E_ShortBuffer"
abbreviation "ErrLargeField \<equiv> WireError E_LargeField"
abbreviation "ErrACK \<equiv> SSU2Error E_ACK"
abbreviation "ErrPacketLength \<equiv> SSU2Error E_PacketLength"
abbreviation "ErrExtensionBlock \<equiv> SSU2Error E_ExtensionBlock"
abbreviation "ErrIntroduction \<equiv> SSU2Error E_Introduction"
abbreviation "ErrPeerTest \<equiv> SSU2Error E_PeerTest"
abbreviation "ErrPacketType \<equiv> SSU2Error E_PacketType"
abbreviation "ErrNetwork \<equiv> SSU2Error E_Network"
abbreviation "ErrHeaderProtection \<equiv> SSU2Error E_HeaderProtection"
abbreviation "ErrHandshake \<equiv> SSU2Error E_Handshake"
abbreviation "ErrBlock \<equiv> TunnelError E_Block"
abbreviation "ErrFragment \<equiv> TunnelError E_Fragment"
abbreviation "ErrTooLarge \<equiv> TunnelError E_TooLarge"
abbreviation "ErrGatewayPayload \<equiv> TunnelError E_GatewayPayload"
abbreviation "ErrGatewayBlock \<equiv> TunnelError E_GatewayBlock"
abbreviation "ErrGatewayOutput \<equiv> TunnelError E_GatewayOutput"
abbreviation "I2NPErrPayloadTooLarge \<equiv> I2NPError E_PayloadTooLarge"
abbreviation "I2NPErrChecksum \<equiv> I2NPError E_Checksum"
abbreviation "I2NPErrMalformed \<equiv> I2NPError E_Malformed"
abbreviation "I2NPErrUnknownStoreType \<equiv> I2NPError E_UnknownStoreType"
abbreviation "I2NPErrInvalidTunnelID \<equiv> I2NPError E_InvalidTunnelID"
abbreviation "ErrInvalidCertificate \<equiv> IdentityError E_InvalidCertificate"
abbreviation "ErrUnknownKeyType \<equiv> IdentityError E_UnknownKeyType"
abbreviation "ErrInvalidIdentity \<equiv> IdentityError E_InvalidIdentity"
abbreviation "ErrInvalidMapping \<equiv> IdentityError E_InvalidMapping"
abbreviation "ErrUnsortedMapping \<equiv> IdentityError E_UnsortedMapping"
abbreviation "ErrDestinationSmall \<equiv> IdentityError E_DestinationSmall"
abbreviation "ErrUnsupportedSignature \<equiv> SignatureError E_UnsupportedSignature"
abbreviation "ErrMalformedSignature \<equiv> SignatureError E_MalformedSignature"
abbreviation "errMalformedDSAParameter \<equiv> SignatureError E_MalformedDSAParameter"
abbreviation "ErrInvalidDatabaseStore \<equiv> NetDBError E_InvalidDatabaseStore"
abbreviation "NetDBErrMalformed \<equiv> NetDBError E_NetDBMalformed"
abbreviation "ErrTooManyItems \<equiv> NetDBError E_TooManyItems"
abbreviation "ErrInvalidKeyLength \<equiv> NetDBError E_InvalidKeyLength"
abbreviation "ErrStructureTooLarge \<equiv> NetDBError E_StructureTooLarge"
abbreviation "ErrNoSupportedEncryptionKey \<equiv> NetDBError E_NoSupportedEncryptionKey"
abbreviation "ErrELSExpired \<equiv> NetDBError E_ELSExpired"
abbreviation "ErrInvalidNetID \<equiv> NetDBError E_InvalidNetID"
abbreviation "ErrPacket \<equiv> StreamingError E_Packet"
abbreviation "ErrDelivery \<equiv> GarlicError E_Delivery"
abbreviation "ErrClove \<equiv> GarlicError E_Clove"
abbreviation "ErrFrameLength \<equiv> NTCP2Error E_FrameLength"
abbreviation "ErrFrameTooLarge \<equiv> NTCP2Error E_FrameTooLarge"
abbreviation "ErrNonceExhausted \<equiv> NTCP2Error E_NonceExhausted"
abbreviation "ErrBlockOrder \<equiv> NTCP2Error E_BlockOrder"
abbreviation "ErrBlockLength \<equiv> NTCP2Error E_BlockLength"
abbreviation "ErrSensitiveReleased \<equiv> CryptoError E_SensitiveReleased"
abbreviation "ErrKeyLength \<equiv> CryptoError E_KeyLength"
abbreviation "ErrLowOrderPoint \<equiv> CryptoError E_LowOrderPoint"
abbreviation "ErrElligator \<equiv> CryptoError E_Elligator"
abbreviation "ErrDatagram \<equiv> DatagramError E_Datagram"
abbreviation "ErrProtocol \<equiv> DatagramError E_Protocol"
abbreviation "ErrNonceLength \<equiv> CryptoError E_NonceLength"
abbreviation "ErrDestination \<equiv> CryptoError E_Destination"
abbreviation "ErrAuthentication \<equiv> CryptoError E_Authentication"
abbreviation "errOpen \<equiv> CryptoError E_AEADOpen"
abbreviation "ErrTunnelID \<equiv> PoolError E_TunnelID"
abbreviation "ErrPoolFull \<equiv> PoolError E_PoolFull"
abbreviation "ErrPoolOwner \<equiv> PoolError E_PoolOwner"
abbreviation "EOF_err \<equiv> IOError E_EOF"
abbreviation "ErrUnexpectedEOF \<equiv> IOError E_UnexpectedEOF"
abbreviation "ErrShortWrite \<equiv> IOError E_ShortWrite"
abbreviation "ErrClosed \<equiv> IOError E_Closed"
abbreviation "ErrControlOverloaded \<equiv> RouterError E_ControlOverloaded"
abbreviation "ErrControlStopped \<equiv> RouterError E_ControlStopped"
abbreviation "ErrControlStarted \<equiv> RouterError E_ControlStarted"
abbreviation "errMissingControlHandler \<equiv> RouterError E_MissingControlHandler"
abbreviation "errInvalidControlQueueLimits \<equiv> RouterError E_InvalidControlQueueLimits"
abbreviation "ErrUnhandledI2NP \<equiv> RouterError E_UnhandledI2NP"
abbreviation "ErrCanceled \<equiv> RouterError E_Canceled"
abbreviation "ErrNoiseNonceExhausted \<equiv> CryptoError E_NoiseNonce"
abbreviation "ErrSU3Malformed \<equiv> ReseedError E_SU3Malformed"
abbreviation "ErrSU3Signer \<equiv> ReseedError E_SU3Signer"
abbreviation "ErrSU3Signature \<equiv> ReseedError E_SU3Signature"
abbreviation "ErrLayerSize \<equiv> LayerSizeError"

type_synonym 'a result = "error + 'a"

definition bindR :: "'a result \<Rightarrow> ('a \<Rightarrow> 'b result) \<Rightarrow> 'b result" where
  "bindR m f = (case m of Inl e \<Rightarrow> Inl e | Inr x \<Rightarrow> f x)"

lemma bindR_simps [simp]: "bindR (Inl e) f = Inl e" "bindR (Inr x) f = f x"
  by (simp_all add: bindR_def)

lemma bindR_eq_Inr: "bindR m f = Inr y \<longleftrightarrow> (\<exists>x. m = Inr x \<and> f x = Inr y)"
  by (cases m) auto

lemma bindR_cong [fundef_cong]:
  "m = m' \<Longrightarrow> (\<And>x. m' = Inr x \<Longrightarrow> f x = f' x) \<Longrightarrow> bindR m f = bindR m' f'"
  by (cases m') auto

section \<open>Slices\<close>

text \<open>\<open>src[i:j]\<close>; the sources guard every slice expression, so \<open>i \<le> j \<le> length src\<close> where it is used.\<close>

definition slice :: "nat \<Rightarrow> nat \<Rightarrow> 'a list \<Rightarrow> 'a list" where
  "slice i j xs = take (j - i) (drop i xs)"

text \<open>\<open>copy(dst[off:], src)\<close>: at most \<open>len(dst)-off\<close> bytes are written, the length of dst never changes.\<close>

definition put_at :: "nat \<Rightarrow> 'a list \<Rightarrow> 'a list \<Rightarrow> 'a list" where
  "put_at off src dst = take off dst @ take (length dst - off) src @ drop (off + length src) dst"

lemma length_slice [simp]: "length (slice i j xs) = min (j - i) (length xs - i)"
  by (simp add: slice_def)

lemma slice_empty [simp]: "j \<le> i \<Longrightarrow> slice i j xs = []"
  by (simp add: slice_def)

lemma slice_0 [slice_simps]: "slice 0 j xs = take j xs"
  by (simp add: slice_def)

lemma slice_all [slice_simps]: "length xs \<le> j \<Longrightarrow> slice i j xs = drop i xs"
  by (simp add: slice_def)

lemma length_put_at [simp]: "length (put_at off src dst) = length dst"
  by (auto simp: put_at_def min_def)

lemma put_at_Nil [slice_simps]: "put_at off [] dst = dst"
  by (simp add: put_at_def)

lemma put_at_prefix [slice_simps]:
  "length xs = off \<Longrightarrow> length src = n \<Longrightarrow> n \<le> length ys \<Longrightarrow>
   put_at off src (xs @ ys) = xs @ src @ drop n ys"
  by (simp add: put_at_def)

lemma take_put_at [slice_simps]:
  "off + length src \<le> length dst \<Longrightarrow> take off dst = pre \<Longrightarrow>
   take (off + length src) (put_at off src dst) = pre @ src"
  by (auto simp: put_at_def)

lemma drop_put_at [slice_simps]:
  "off + length src \<le> length dst \<Longrightarrow> n = off + length src \<Longrightarrow>
   drop n (put_at off src dst) = drop n dst"
  by (auto simp: put_at_def)

lemma put_at_put_at [slice_simps]:
  "n = m + length a \<Longrightarrow> m + length a + length b \<le> length dst \<Longrightarrow>
   put_at n b (put_at m a dst) = put_at m (a @ b) dst"
  by (cases "m = length dst") (auto simp: put_at_def min_def ac_simps)

text \<open>Consecutive chunks of a list make up the list.\<close>

lemma take_chunk: "j = k + m \<Longrightarrow> take m (drop k xs) @ drop j xs = drop k xs"
  using append_take_drop_id [of m "drop k xs"] by (simp add: add.commute)

lemma nth_chunk: "i < length xs \<Longrightarrow> j = Suc i \<Longrightarrow> xs ! i # drop j xs = drop i xs"
  by (simp add: Cons_nth_drop_Suc)

lemma take_one: "i < length xs \<Longrightarrow> take 1 (drop i xs) = [xs ! i]"
  by (simp add: take_Suc_conv_app_nth)

lemma put_at_0: "length src \<le> length dst \<Longrightarrow> put_at 0 src dst = src @ drop (length src) dst"
  by (simp add: put_at_def)

lemma list_update_put_at: "i < length xs \<Longrightarrow> xs[i := v] = put_at i [v] xs"
proof (induction xs arbitrary: i)
  case (Cons a xs)
  then show ?case by (cases i) (auto simp: put_at_def)
qed simp

lemma put_at_0_all [slice_simps]: "length src = length dst \<Longrightarrow> put_at 0 src dst = src"
  by (simp add: put_at_def)

section \<open>Integer encodings\<close>

text \<open>
  \<open>be_val\<close> is the number a byte string denotes in big-endian order, and \<open>be_bytes n v\<close> the
  \<open>n\<close> low bytes of \<open>v\<close>: \<open>binary.BigEndian.UintXX\<close> and \<open>PutUintXX\<close> at every width.
\<close>

definition be_val :: "bytes \<Rightarrow> nat" where
  "be_val bs = foldl (\<lambda>a b. a * 256 + unat b) 0 bs"

primrec be_bytes :: "nat \<Rightarrow> nat \<Rightarrow> bytes" where
  "be_bytes 0 v = []"
| "be_bytes (Suc n) v = be_bytes n (v div 256) @ [of_nat v]"

definition Uint16 :: "bytes \<Rightarrow> u16" where "Uint16 bs = of_nat (be_val (take 2 bs))"
definition Uint32 :: "bytes \<Rightarrow> u32" where "Uint32 bs = of_nat (be_val (take 4 bs))"
definition Uint64 :: "bytes \<Rightarrow> u64" where "Uint64 bs = of_nat (be_val (take 8 bs))"

definition PutUint16 :: "u16 \<Rightarrow> bytes" where "PutUint16 v = be_bytes 2 (unat v)"
definition PutUint32 :: "u32 \<Rightarrow> bytes" where "PutUint32 v = be_bytes 4 (unat v)"
definition PutUint64 :: "u64 \<Rightarrow> bytes" where "PutUint64 v = be_bytes 8 (unat v)"

lemma be_bytes_numeral [eval_simps]:
  "be_bytes (numeral k) v = be_bytes (pred_numeral k) (v div 256) @ [of_nat v]"
  by (simp only: numeral_eq_Suc be_bytes.simps)

lemma be_val_Nil [simp]: "be_val [] = 0"
  by (simp add: be_val_def)

lemma be_val_snoc [simp]: "be_val (bs @ [b]) = be_val bs * 256 + unat b"
  by (simp add: be_val_def)

lemmas put_uint_eval [eval_simps] =
  PutUint16_def PutUint32_def PutUint64_def Uint16_def Uint32_def Uint64_def be_val_def slice_def
  put_at_def

lemma length_be_bytes [simp]: "length (be_bytes n v) = n"
  by (induction n arbitrary: v) auto

lemma be_val_less: "be_val bs < 256 ^ length bs"
proof (induction bs rule: rev_induct)
  case (snoc b bs)
  have "unat b < 256" using unsigned_less [of b] by simp
  with snoc show ?case by simp
qed simp

lemma be_val_be_bytes: "be_val (be_bytes n v) = v mod 256 ^ n"
proof (induction n arbitrary: v)
  case (Suc n)
  have "unat (of_nat v :: u8) = v mod 256"
    by (simp add: unat_of_nat)
  with Suc show ?case
    by (simp add: mod_mult2_eq mult.commute add.commute)
qed simp

lemma be_bytes_be_val: "be_bytes (length bs) (be_val bs) = bs"
proof (induction bs rule: rev_induct)
  case (snoc b bs)
  have "unat b < 256" using unsigned_less [of b] by simp
  moreover have "(of_nat (be_val bs * 256 + unat b) :: u8) = b"
    by (rule word_unat_eq_iff [THEN iffD2]) (use \<open>unat b < 256\<close> in \<open>simp only: unat_of_nat, simp\<close>)
  ultimately show ?case using snoc by simp
qed simp

lemma length_PutUint [simp]:
  "length (PutUint16 v2) = 2" "length (PutUint32 v4) = 4" "length (PutUint64 v8) = 8"
  by (simp_all add: PutUint16_def PutUint32_def PutUint64_def)

lemma Uint16_PutUint16 [codec_simps]: "Uint16 (PutUint16 v @ rest) = v"
proof -
  have "unat v < 256 ^ 2" using unsigned_less [of v] by simp
  then show ?thesis by (simp add: Uint16_def PutUint16_def be_val_be_bytes)
qed

lemma Uint32_PutUint32 [codec_simps]: "Uint32 (PutUint32 v @ rest) = v"
proof -
  have "unat v < 256 ^ 4" using unsigned_less [of v] by simp
  then show ?thesis by (simp add: Uint32_def PutUint32_def be_val_be_bytes)
qed

lemma Uint64_PutUint64 [codec_simps]: "Uint64 (PutUint64 v @ rest) = v"
proof -
  have "unat v < 256 ^ 8" using unsigned_less [of v] by simp
  then show ?thesis by (simp add: Uint64_def PutUint64_def be_val_be_bytes)
qed

lemmas Uint_Put_Nil [codec_simps] =
  Uint16_PutUint16 [of _ "[]", simplified] Uint32_PutUint32 [of _ "[]", simplified]
  Uint64_PutUint64 [of _ "[]", simplified]

lemma PutUint16_Uint16 [codec_simps]: "2 \<le> length bs \<Longrightarrow> PutUint16 (Uint16 bs) = take 2 bs"
  using be_val_less [of "take 2 bs"] be_bytes_be_val [of "take 2 bs"]
  by (simp add: PutUint16_def Uint16_def unat_of_nat)

lemma PutUint32_Uint32 [codec_simps]: "4 \<le> length bs \<Longrightarrow> PutUint32 (Uint32 bs) = take 4 bs"
  using be_val_less [of "take 4 bs"] be_bytes_be_val [of "take 4 bs"]
  by (simp add: PutUint32_def Uint32_def unat_of_nat)

lemma PutUint64_Uint64 [codec_simps]: "8 \<le> length bs \<Longrightarrow> PutUint64 (Uint64 bs) = take 8 bs"
  using be_val_less [of "take 8 bs"] be_bytes_be_val [of "take 8 bs"]
  by (simp add: PutUint64_def Uint64_def unat_of_nat)

lemma Uint16_prefix:
  assumes "2 \<le> length p - off" "unat (Uint16 (drop off p)) = n"
  shows "drop off p = PutUint16 (of_nat n) @ drop (off + 2) p"
proof -
  have "of_nat n = Uint16 (drop off p)" using assms(2) [symmetric] by simp
  then show ?thesis using assms(1) take_chunk [of "off + 2" off 2 p] by (simp add: PutUint16_Uint16)
qed

lemma unat_u8_less [simp]: "unat (b :: u8) < 256"
  using unsigned_less [of b] by simp

lemma unat_u16_less [simp]: "unat (b :: u16) < 65536"
  using unsigned_less [of b] by simp

lemma unat_u32_less [simp]: "unat (b :: u32) < 4294967296"
  using unsigned_less [of b] by simp

lemma unat_u64_less [simp]: "unat (b :: u64) < 18446744073709551616"
  using unsigned_less [of b] by simp

lemma unat_of_nat_u8 [simp]: "n < 256 \<Longrightarrow> unat (of_nat n :: u8) = n"
  by (simp add: unat_of_nat)

lemma unat_of_nat_u16 [simp]: "n < 65536 \<Longrightarrow> unat (of_nat n :: u16) = n"
  by (simp add: unat_of_nat)

lemma unat_max_word [simp]:
  "unat (- 1 :: u8) = 255" "unat (- 1 :: u16) = 65535" "unat (- 1 :: u32) = 4294967295"
  "unat (- 1 :: u64) = 18446744073709551615"
  by (simp_all add: unsigned_minus_1_eq_mask mask_eq_exp_minus_1)

lemma unat_ucast_up [simp]:
  "unat (ucast (c :: u8) :: u16) = unat c" "unat (ucast (c :: u8) :: u32) = unat c"
  "unat (ucast (c :: u8) :: u64) = unat c" "unat (ucast (d :: u16) :: u32) = unat d"
  "unat (ucast (d :: u16) :: u64) = unat d" "unat (ucast (w :: u32) :: u64) = unat w"
  by (auto simp: unsigned_ucast_eq take_bit_eq_mod intro!: mod_less
      intro: order_less_trans [OF unat_u8_less] order_less_trans [OF unat_u16_less]
        order_less_trans [OF unat_u32_less])

section \<open>Standard library helpers\<close>

text \<open>\<open>bits.Len\<close>: the number of bits needed to represent a number.\<close>

fun bits_Len :: "nat \<Rightarrow> nat" where
  "bits_Len n = (if n = 0 then 0 else Suc (bits_Len (n div 2)))"

declare bits_Len.simps [simp del]

lemma bits_Len_0 [simp]: "bits_Len 0 = 0"
  by (simp add: bits_Len.simps)

lemma bits_Len_upper: "n < 2 ^ bits_Len n"
proof (induction n rule: bits_Len.induct)
  case (1 n)
  then show ?case by (subst bits_Len.simps) (cases "n = 0"; simp; linarith)
qed

lemma bits_Len_lower: "0 < n \<Longrightarrow> 2 ^ (bits_Len n - 1) \<le> n"
proof (induction n rule: bits_Len.induct)
  case (1 n)
  show ?case
  proof (cases "n div 2 = 0")
    case False
    then have "2 ^ (bits_Len (n div 2) - 1) \<le> n div 2" "bits_Len (n div 2) \<noteq> 0"
      using 1 by (auto simp: bits_Len.simps [of "n div 2"])
    then have "2 ^ bits_Len (n div 2) \<le> 2 * (n div 2)" by (cases "bits_Len (n div 2)") auto
    then show ?thesis using 1(2) by (subst bits_Len.simps) simp
  qed (use 1 in \<open>simp add: bits_Len.simps [of n]\<close>)
qed

lemma bits_Len_le: "n < 2 ^ k \<Longrightarrow> bits_Len n \<le> k"
  using bits_Len_lower [of n] by (cases "n = 0")
    (auto dest!: le_less_trans simp: power_strict_increasing_iff)

text \<open>
  \<open>Get\<close> of a \<open>sync.Pool\<close> takes any pooled item or none: \<open>pick\<close> is the position of the item it
  takes, and a pick outside the pool stands for the call of \<open>New\<close>.
\<close>

definition pool_get :: "nat option \<Rightarrow> 'a list \<Rightarrow> ('a \<times> 'a list) option" where
  "pool_get pick xs = (case pick of
      Some i \<Rightarrow> if i < length xs then Some (xs ! i, take i xs @ drop (Suc i) xs) else None
    | None \<Rightarrow> None)"

lemma pool_get_Some:
  assumes "pool_get pick xs = Some (x, ys)"
  shows "x \<in> set xs" "set ys \<subseteq> set xs" "distinct xs \<Longrightarrow> distinct ys \<and> x \<notin> set ys"
proof -
  from assms obtain i where i: "i < length xs" "x = xs ! i" "ys = take i xs @ drop (Suc i) xs"
    by (auto simp: pool_get_def split: option.splits if_splits)
  then have xs: "xs = take i xs @ x # drop (Suc i) xs" by (simp add: id_take_nth_drop)
  show "x \<in> set xs" using i by simp
  show "set ys \<subseteq> set xs" using i by (auto dest: in_set_takeD in_set_dropD)
  assume "distinct xs"
  then have "distinct (take i xs @ x # drop (Suc i) xs)" using xs by metis
  then show "distinct ys \<and> x \<notin> set ys" by (auto simp: i(3))
qed

section \<open>Flag bytes\<close>

lemma byte_eq_iff:
  "(a :: u8) = b \<longleftrightarrow> bit a 0 = bit b 0 \<and> bit a 1 = bit b 1 \<and> bit a 2 = bit b 2 \<and> bit a 3 = bit b 3 \<and>
    bit a 4 = bit b 4 \<and> bit a 5 = bit b 5 \<and> bit a 6 = bit b 6 \<and> bit a 7 = bit b 7" (is "_ \<longleftrightarrow> ?bits")
proof
  assume bits: ?bits
  show "a = b"
  proof (rule bit_word_eqI)
    fix n :: nat assume "n < LENGTH(8)"
    then have "n = 0 \<or> n = 1 \<or> n = 2 \<or> n = 3 \<or> n = 4 \<or> n = 5 \<or> n = 6 \<or> n = 7" by auto
    then show "bit a n = bit b n" using bits by auto
  qed
qed simp

lemma byte_take_bit: "unat (f :: u8) < 2 ^ k \<Longrightarrow> take_bit k f = f"
  by (simp add: word_unat_eq_iff unsigned_take_bit_eq take_bit_nat_eq_self)

lemma byte_high: "unat (f :: u8) < 2 ^ k \<Longrightarrow> k \<le> n \<Longrightarrow> \<not> bit f n"
  using byte_take_bit [of f k] by (metis bit_take_bit_iff not_le)

lemma bit_double_byte: "bit (f * 2 :: u8) n \<longleftrightarrow> 0 < n \<and> n < 8 \<and> bit f (n - 1)"
  by (auto simp add: bit_double_iff mult.commute [of f])

lemma unat_and_63: "unat (w AND 0x3f :: u8) < 64"
proof -
  have "w AND 0x3f = take_bit 6 w" by (simp add: byte_eq_iff bit_simps)
  then show ?thesis using take_bit_nat_less_exp [of 6 "unat w"] by (simp add: unsigned_take_bit_eq)
qed

lemmas byte_bits = byte_high [of _ 6 6, simplified] byte_high [of _ 6 7, simplified] byte_eq_iff bit_simps bit_double_byte numeral_2_eq_2 [symmetric]

end
