(* ===== verification/Wire.thy ===== *)
theory Wire
  imports IVNP_Prelude
begin

text \<open>
  The zero-allocation reader and writer of \<open>internal/wire/cursor.go\<close>.

  A \<open>Cursor\<close> and a \<open>Writer\<close> are a byte slice with an offset. Every method of the source is a
  function that returns the new cursor with its value, or the error; on an error the source leaves the
  offset as it was, so the caller's cursor is the one it passed in. Counts are Go \<open>int\<close>s, hence
  \<^typ>\<open>int\<close>: a negative count is a branch of the code.
\<close>

section \<open>Cursor\<close>

record Cursor =
  cur_buf :: bytes
  cur_off :: nat

definition NewCursor :: "bytes \<Rightarrow> Cursor" where
  "NewCursor buf = \<lparr>cur_buf = buf, cur_off = 0\<rparr>"

definition CursorRemaining :: "Cursor \<Rightarrow> int" where
  "CursorRemaining c = int (length (cur_buf c)) - int (cur_off c)"

definition CursorDone :: "Cursor \<Rightarrow> bool" where
  "CursorDone c \<longleftrightarrow> cur_off c = length (cur_buf c)"

definition CursorBytes :: "Cursor \<Rightarrow> bytes" where
  "CursorBytes c = drop (cur_off c) (cur_buf c)"

definition ReadU8 :: "Cursor \<Rightarrow> (u8 \<times> Cursor) result" where
  "ReadU8 c =
     (if cur_off c = length (cur_buf c) then Inl ErrShortBuffer
      else Inr (cur_buf c ! cur_off c, c\<lparr>cur_off := cur_off c + 1\<rparr>))"

definition ReadBytes :: "int \<Rightarrow> Cursor \<Rightarrow> (bytes \<times> Cursor) result" where
  "ReadBytes n c =
     (if n < 0 then Inl ErrLargeField
      else if n > int (length (cur_buf c)) - int (cur_off c) then Inl ErrShortBuffer
      else let start = cur_off c; off' = start + nat n
           in Inr (slice start off' (cur_buf c), c\<lparr>cur_off := off'\<rparr>))"

definition ReadU16 :: "Cursor \<Rightarrow> (u16 \<times> Cursor) result" where
  "ReadU16 c = bindR (ReadBytes 2 c) (\<lambda>(b, c'). Inr (Uint16 b, c'))"

definition ReadU32 :: "Cursor \<Rightarrow> (u32 \<times> Cursor) result" where
  "ReadU32 c = bindR (ReadBytes 4 c) (\<lambda>(b, c'). Inr (Uint32 b, c'))"

definition ReadU64 :: "Cursor \<Rightarrow> (u64 \<times> Cursor) result" where
  "ReadU64 c = bindR (ReadBytes 8 c) (\<lambda>(b, c'). Inr (Uint64 b, c'))"

definition CursorSkip :: "int \<Rightarrow> Cursor \<Rightarrow> Cursor result" where
  "CursorSkip n c = bindR (ReadBytes n c) (\<lambda>(_, c'). Inr c')"

section \<open>Writer\<close>

record Writer =
  wr_buf :: bytes
  wr_off :: nat

definition NewWriter :: "bytes \<Rightarrow> Writer" where
  "NewWriter dst = \<lparr>wr_buf = dst, wr_off = 0\<rparr>"

definition WriterAvailable :: "Writer \<Rightarrow> int" where
  "WriterAvailable w = int (length (wr_buf w)) - int (wr_off w)"

definition WriterBytes :: "Writer \<Rightarrow> bytes" where
  "WriterBytes w = take (wr_off w) (wr_buf w)"

text \<open>\<open>Reserve\<close> returns a writable sub-slice; the model returns its start, the callers write there.\<close>

definition Reserve :: "int \<Rightarrow> Writer \<Rightarrow> (nat \<times> Writer) result" where
  "Reserve n w =
     (if n < 0 then Inl ErrLargeField
      else if n > int (length (wr_buf w)) - int (wr_off w) then Inl ErrShortBuffer
      else Inr (wr_off w, w\<lparr>wr_off := wr_off w + nat n\<rparr>))"

definition PutU8 :: "u8 \<Rightarrow> Writer \<Rightarrow> Writer result" where
  "PutU8 v w =
     (if wr_off w = length (wr_buf w) then Inl ErrShortBuffer
      else Inr (w\<lparr>wr_buf := (wr_buf w)[wr_off w := v], wr_off := wr_off w + 1\<rparr>))"

definition write_at :: "nat \<Rightarrow> bytes \<Rightarrow> Writer \<Rightarrow> Writer" where
  "write_at start bs w = w\<lparr>wr_buf := put_at start bs (wr_buf w)\<rparr>"

definition PutU16 :: "u16 \<Rightarrow> Writer \<Rightarrow> Writer result" where
  "PutU16 v w = bindR (Reserve 2 w) (\<lambda>(b, w'). Inr (write_at b (PutUint16 v) w'))"

definition PutU32 :: "u32 \<Rightarrow> Writer \<Rightarrow> Writer result" where
  "PutU32 v w = bindR (Reserve 4 w) (\<lambda>(b, w'). Inr (write_at b (PutUint32 v) w'))"

definition PutU64 :: "u64 \<Rightarrow> Writer \<Rightarrow> Writer result" where
  "PutU64 v w = bindR (Reserve 8 w) (\<lambda>(b, w'). Inr (write_at b (PutUint64 v) w'))"

definition Put :: "bytes \<Rightarrow> Writer \<Rightarrow> Writer result" where
  "Put src w = bindR (Reserve (int (length src)) w) (\<lambda>(b, w'). Inr (write_at b src w'))"

section \<open>Well-formed cursors and what each operation consumes\<close>

definition cursor_ok :: "Cursor \<Rightarrow> bool" where
  "cursor_ok c \<longleftrightarrow> cur_off c \<le> length (cur_buf c)"

definition writer_ok :: "Writer \<Rightarrow> bool" where
  "writer_ok w \<longleftrightarrow> wr_off w \<le> length (wr_buf w)"

text \<open>Every read splits the unread bytes: what it returns, then what stays.\<close>

definition consumes :: "Cursor \<Rightarrow> bytes \<Rightarrow> Cursor \<Rightarrow> bool" where
  "consumes c bs c' \<longleftrightarrow>
     cur_buf c' = cur_buf c \<and> cursor_ok c' \<and> CursorBytes c = bs @ CursorBytes c' \<and>
     cur_off c' = cur_off c + length bs"

definition produces :: "Writer \<Rightarrow> bytes \<Rightarrow> Writer \<Rightarrow> bool" where
  "produces w bs w' \<longleftrightarrow>
     length (wr_buf w') = length (wr_buf w) \<and> writer_ok w' \<and>
     WriterBytes w' = WriterBytes w @ bs \<and> drop (wr_off w') (wr_buf w') = drop (wr_off w') (wr_buf w)"

lemma ReadBytes_Inr:
  assumes "cursor_ok c" "ReadBytes n c = Inr (bs, c')"
  shows "consumes c bs c'" "int (length bs) = n"
proof -
  from assms(2) have n: "0 \<le> n" "n \<le> int (length (cur_buf c)) - int (cur_off c)"
    and r: "bs = slice (cur_off c) (cur_off c + nat n) (cur_buf c)"
      "c' = c\<lparr>cur_off := cur_off c + nat n\<rparr>"
    by (auto simp: ReadBytes_def Let_def split: if_splits)
  show "int (length bs) = n" using n r by simp
  have "drop (cur_off c) (cur_buf c) = bs @ drop (cur_off c + nat n) (cur_buf c)"
    using append_take_drop_id [of "nat n" "drop (cur_off c) (cur_buf c)"] r(1)
    by (simp add: slice_def add.commute)
  then show "consumes c bs c'"
    using n r(2) assms(1) \<open>int (length bs) = n\<close>
    by (auto simp: consumes_def cursor_ok_def CursorBytes_def)
qed

lemma ReadBytes_take:
  assumes "CursorBytes c = bs @ rest" "cursor_ok c"
  shows "ReadBytes (int (length bs)) c = Inr (bs, c\<lparr>cur_off := cur_off c + length bs\<rparr>)"
proof -
  have len: "length (cur_buf c) - cur_off c = length bs + length rest"
    using arg_cong [OF assms(1), of length] by (simp add: CursorBytes_def)
  moreover have "take (length bs) (drop (cur_off c) (cur_buf c)) = bs"
    using assms(1) by (simp add: CursorBytes_def)
  ultimately show ?thesis
    using assms(2) by (auto simp: ReadBytes_def Let_def slice_def cursor_ok_def)
qed

lemma ReadU8_Inr:
  assumes "cursor_ok c" "ReadU8 c = Inr (v, c')"
  shows "consumes c [v] c'"
  using assms
  by (auto simp: ReadU8_def consumes_def cursor_ok_def CursorBytes_def Cons_nth_drop_Suc
      split: if_splits)

lemma ReadU8_Cons:
  assumes "CursorBytes c = v # rest" "cursor_ok c"
  shows "ReadU8 c = Inr (v, c\<lparr>cur_off := cur_off c + 1\<rparr>)"
proof -
  have lt: "cur_off c < length (cur_buf c)"
    using assms(1) by (metis CursorBytes_def drop_all linorder_not_less list.distinct(1))
  moreover have "cur_buf c ! cur_off c = v"
    using assms(1) lt by (metis CursorBytes_def hd_drop_conv_nth list.sel(1))
  ultimately show ?thesis by (simp add: ReadU8_def)
qed

lemma Reserve_write:
  assumes "writer_ok w" "Reserve (int (length bs)) w = Inr (b, w')"
  shows "produces w bs (write_at b bs w')"
  using assms
  by (auto simp: Reserve_def produces_def writer_ok_def write_at_def WriterBytes_def put_at_def
      split: if_splits)

lemma PutU8_produces:
  assumes "writer_ok w" "PutU8 v w = Inr w'"
  shows "produces w [v] w'"
  using assms
  by (auto simp: PutU8_def produces_def writer_ok_def WriterBytes_def take_Suc_conv_app_nth
      split: if_splits)

lemma Put_produces:
  assumes "writer_ok w" "Put src w = Inr w'"
  shows "produces w src w'"
  using assms by (auto simp: Put_def bindR_eq_Inr intro: Reserve_write)

lemma PutU16_produces: "writer_ok w \<Longrightarrow> PutU16 v w = Inr w' \<Longrightarrow> produces w (PutUint16 v) w'"
  and PutU32_produces: "writer_ok w \<Longrightarrow> PutU32 v4 w = Inr w' \<Longrightarrow> produces w (PutUint32 v4) w'"
  and PutU64_produces: "writer_ok w \<Longrightarrow> PutU64 v8 w = Inr w' \<Longrightarrow> produces w (PutUint64 v8) w'"
  using Reserve_write [of w "PutUint16 v"] Reserve_write [of w "PutUint32 v4"]
    Reserve_write [of w "PutUint64 v8"]
  by (auto simp: PutU16_def PutU32_def PutU64_def bindR_eq_Inr)

section \<open>Round trip over field sequences\<close>

text \<open>
  A wire structure is a sequence of fields. \<open>put_fields\<close> writes them with the writer's methods, and
  \<open>read_fields\<close> reads the same shape back with the cursor's.
\<close>

datatype wire_field = F8 u8 | F16 u16 | F32 u32 | F64 u64 | FBytes bytes

fun put_field :: "wire_field \<Rightarrow> Writer \<Rightarrow> Writer result" where
  "put_field (F8 v) w = PutU8 v w"
| "put_field (F16 v) w = PutU16 v w"
| "put_field (F32 v) w = PutU32 v w"
| "put_field (F64 v) w = PutU64 v w"
| "put_field (FBytes bs) w = Put bs w"

fun read_field :: "wire_field \<Rightarrow> Cursor \<Rightarrow> (wire_field \<times> Cursor) result" where
  "read_field (F8 _) c = bindR (ReadU8 c) (\<lambda>(v, c'). Inr (F8 v, c'))"
| "read_field (F16 _) c = bindR (ReadU16 c) (\<lambda>(v, c'). Inr (F16 v, c'))"
| "read_field (F32 _) c = bindR (ReadU32 c) (\<lambda>(v, c'). Inr (F32 v, c'))"
| "read_field (F64 _) c = bindR (ReadU64 c) (\<lambda>(v, c'). Inr (F64 v, c'))"
| "read_field (FBytes bs) c = bindR (ReadBytes (int (length bs)) c) (\<lambda>(v, c'). Inr (FBytes v, c'))"

fun put_fields :: "wire_field list \<Rightarrow> Writer \<Rightarrow> Writer result" where
  "put_fields [] w = Inr w"
| "put_fields (x # xs) w = bindR (put_field x w) (put_fields xs)"

fun read_fields :: "wire_field list \<Rightarrow> Cursor \<Rightarrow> (wire_field list \<times> Cursor) result" where
  "read_fields [] c = Inr ([], c)"
| "read_fields (x # xs) c =
     bindR (read_field x c) (\<lambda>(y, c'). bindR (read_fields xs c') (\<lambda>(ys, c''). Inr (y # ys, c'')))"

fun field_bytes :: "wire_field \<Rightarrow> bytes" where
  "field_bytes (F8 v) = [v]"
| "field_bytes (F16 v) = PutUint16 v"
| "field_bytes (F32 v) = PutUint32 v"
| "field_bytes (F64 v) = PutUint64 v"
| "field_bytes (FBytes bs) = bs"

lemma put_field_produces:
  assumes "writer_ok w" "put_field x w = Inr w'"
  shows "produces w (field_bytes x) w'"
  using assms
  by (cases x) (auto intro: PutU8_produces Put_produces PutU16_produces PutU32_produces PutU64_produces)

lemma put_fields_produces:
  assumes "writer_ok w" "put_fields xs w = Inr w'"
  shows "writer_ok w' \<and> WriterBytes w' = WriterBytes w @ concat (map field_bytes xs)"
  using assms
proof (induction xs arbitrary: w)
  case (Cons x xs)
  then obtain w1 where w1: "put_field x w = Inr w1" "put_fields xs w1 = Inr w'"
    by (auto simp: bindR_eq_Inr)
  have "produces w (field_bytes x) w1"
    using Cons.prems(1) w1(1) by (rule put_field_produces)
  then show ?case
    using Cons.IH [OF _ w1(2)] by (simp add: produces_def)
qed simp

lemma read_field_back:
  assumes "cursor_ok c" "CursorBytes c = field_bytes x @ rest"
  shows "\<exists>c'. read_field x c = Inr (x, c') \<and> consumes c (field_bytes x) c'"
proof -
  have bytes: "\<exists>c'. ReadBytes (int (length bs)) c = Inr (bs, c') \<and> consumes c bs c'"
    if "CursorBytes c = bs @ rest" for bs
    using ReadBytes_take [OF that assms(1)] ReadBytes_Inr(1) [OF assms(1)] by blast
  show ?thesis
  proof (cases x)
    case (F8 v)
    with assms show ?thesis
      using ReadU8_Cons [of c v rest] ReadU8_Inr [OF assms(1)] by auto
  qed (use assms(2) bytes [of "field_bytes x"] in
      \<open>auto simp: ReadU16_def ReadU32_def ReadU64_def codec_simps\<close>)
qed

lemma read_fields_back:
  assumes "cursor_ok c" "CursorBytes c = concat (map field_bytes xs) @ rest"
  shows "\<exists>c'. read_fields xs c = Inr (xs, c') \<and> CursorBytes c' = rest \<and> cursor_ok c'"
  using assms
proof (induction xs arbitrary: c)
  case (Cons x xs)
  obtain c1 where c1: "read_field x c = Inr (x, c1)" "consumes c (field_bytes x) c1"
    using read_field_back [OF Cons.prems(1), of x "concat (map field_bytes xs) @ rest"] Cons.prems(2)
    by auto
  then have "cursor_ok c1" "CursorBytes c1 = concat (map field_bytes xs) @ rest"
    using Cons.prems(2) by (auto simp: consumes_def)
  then obtain c2 where "read_fields xs c1 = Inr (xs, c2)" "CursorBytes c2 = rest" "cursor_ok c2"
    using Cons.IH by blast
  with c1(1) show ?case by simp
qed simp

text \<open>
  Whatever sequence of fields a writer accepts into a buffer, a cursor over the bytes written reads
  exactly those fields back and is then at its end.
\<close>

theorem wire_write_read_roundtrip:
  assumes "put_fields xs (NewWriter dst) = Inr w"
  shows "\<exists>c. read_fields xs (NewCursor (WriterBytes w)) = Inr (xs, c) \<and> CursorDone c"
proof -
  have "WriterBytes w = concat (map field_bytes xs)"
    using put_fields_produces [OF _ assms] by (simp add: writer_ok_def NewWriter_def WriterBytes_def)
  then obtain c where "read_fields xs (NewCursor (WriterBytes w)) = Inr (xs, c)"
    "CursorBytes c = []" "cursor_ok c"
    using read_fields_back [of "NewCursor (WriterBytes w)" xs "[]"]
    by (auto simp: NewCursor_def cursor_ok_def CursorBytes_def)
  then show ?thesis
    by (auto simp: CursorDone_def CursorBytes_def cursor_ok_def)
qed

theorem wire_write_read_roundtrip_witness:
  "\<exists>w c. put_fields [F8 7, F16 258, FBytes [1, 2]] (NewWriter [0, 0, 0, 0, 0, 0]) = Inr w \<and>
     WriterBytes w = [7, 1, 2, 1, 2] \<and>
     read_fields [F8 7, F16 258, FBytes [1, 2]] (NewCursor (WriterBytes w)) =
       Inr ([F8 7, F16 258, FBytes [1, 2]], c) \<and> CursorDone c"
proof -
  let ?w = "\<lparr>wr_buf = [7, 1, 2, 1, 2, 0], wr_off = 5\<rparr>"
  have w: "put_fields [F8 7, F16 258, FBytes [1, 2]] (NewWriter [0, 0, 0, 0, 0, 0]) = Inr ?w"
    by (simp add: NewWriter_def PutU8_def PutU16_def Put_def Reserve_def write_at_def eval_simps)
  show ?thesis
    using wire_write_read_roundtrip [OF w] w by (auto simp: WriterBytes_def)
qed

end
