(* ===== verification/SSU2_Ack.thy ===== *)
theory SSU2_Ack
  imports IVNP_Prelude
begin

text \<open>
  Acknowledgement ranges of the SSU2 transport (\<open>dataplane/internal/transport/ssu2/ack.go\<close>).

  \<open>ACKTracker\<close> keeps the received packet numbers as a bounded list of descending inclusive ranges. The
  source holds them in the first \<open>count\<close> slots of an array of 64; no code reads a slot past
  \<open>count\<close>, so the model is the list of the live slots and \<open>count\<close> is its length.
  \<open>MarshalACKRanges\<close> and \<open>ParseACKRanges\<close> are the wire form: the highest number, the length of
  the first range, then pairs of a gap and a length.
\<close>

section \<open>Tracker\<close>

definition MaxACKRanges :: nat where "MaxACKRanges = 64"

record ACKRange =
  rStart :: u32
  rEnd :: u32

abbreviation ack_range :: "u32 \<Rightarrow> u32 \<Rightarrow> ACKRange" where
  "ack_range s e \<equiv> \<lparr>rStart = s, rEnd = e\<rparr>"

text \<open>\<open>merge(index)\<close> joins the range at \<open>index\<close> with its successor; the model is given the list from \<open>index\<close> on.\<close>

fun ack_merge :: "ACKRange list \<Rightarrow> ACKRange list" where
  "ack_merge (r # s # rest) =
     (if rEnd s \<noteq> NOT 0 \<and> rStart r \<le> rEnd s + 1
      then (if rStart s < rStart r then r\<lparr>rStart := rStart s\<rparr> else r) # rest
      else r # s # rest)"
| "ack_merge rs = rs"

text \<open>The loop of \<open>ObserveNew\<close>: \<open>pre\<close> are the ranges passed so far, so the loop index is its length.\<close>

fun observe_loop :: "u32 \<Rightarrow> ACKRange list \<Rightarrow> ACKRange list \<Rightarrow> bool \<times> ACKRange list" where
  "observe_loop packet pre [] =
     (if length pre < MaxACKRanges then (True, pre @ [ack_range packet packet]) else (False, pre))"
| "observe_loop packet pre (r # rest) =
     (if packet \<ge> rStart r \<and> packet \<le> rEnd r then (False, pre @ r # rest)
      else if rEnd r \<noteq> NOT 0 \<and> packet = rEnd r + 1
        then (True, pre @ ack_merge (r\<lparr>rEnd := packet\<rparr> # rest))
      else if packet \<noteq> NOT 0 \<and> packet + 1 = rStart r
        then (True, pre @ ack_merge (r\<lparr>rStart := packet\<rparr> # rest))
      else if packet > rEnd r
        then (True, pre @ ack_range packet packet #
          (if length (pre @ r # rest) = MaxACKRanges then butlast (r # rest) else r # rest))
      else observe_loop packet (pre @ [r]) rest)"

definition ObserveNew :: "u32 \<Rightarrow> ACKRange list \<Rightarrow> bool \<times> ACKRange list" where
  "ObserveNew packet rs = observe_loop packet [] rs"

definition Observe :: "u32 \<Rightarrow> ACKRange list \<Rightarrow> ACKRange list" where
  "Observe packet rs = snd (ObserveNew packet rs)"

text \<open>\<open>RangesInto\<close> copies at most the capacity of the caller's slice.\<close>

definition RangesInto :: "nat \<Rightarrow> ACKRange list \<Rightarrow> ACKRange list" where
  "RangesInto cap rs = take (min cap (length rs)) rs"

section \<open>Wire form\<close>

fun validACKRanges :: "ACKRange list \<Rightarrow> bool" where
  "validACKRanges [] = True"
| "validACKRanges [r] = (rStart r \<le> rEnd r)"
| "validACKRanges (r # s # rest) =
     (rStart r \<le> rEnd r \<and> rEnd s < rStart r \<and> validACKRanges (s # rest))"

text \<open>The inner loop of the encoder: gaps above 255 are spread over pairs without a range.\<close>

function gap_loop :: "bytes \<Rightarrow> u32 \<Rightarrow> nat \<Rightarrow> nat \<Rightarrow> bytes \<times> u32 \<times> nat \<times> nat" where
  "gap_loop dst below gap pairs =
     (if gap > 255 \<and> pairs < MaxACKRanges
      then gap_loop (dst @ [255, 0]) (below - 255) (gap - 255) (pairs + 1)
      else (dst, below, gap, pairs))"
  by pat_completeness auto
termination
  by (relation "measure (\<lambda>(_, _, gap, _). gap)") auto

lemma gap_loop_pairs: "gap_loop dst below gap pairs = (d, b, g, p) \<Longrightarrow> pairs \<le> p"
  by (induction dst below gap pairs rule: gap_loop.induct)
    (subst (asm) (2) gap_loop.simps, auto split: if_splits)

declare gap_loop.simps [simp del]

text \<open>The outer loop; \<open>uint64\<close> differences of 32-bit values cannot wrap and are naturals.\<close>

function marshal_loop ::
  "ACKRange list \<Rightarrow> bytes \<Rightarrow> u32 \<Rightarrow> nat \<Rightarrow> u32 \<Rightarrow> u32 \<Rightarrow> nat \<Rightarrow> bytes result" where
  "marshal_loop ranges dst below index curStart curEnd pairs =
     (if pairs < MaxACKRanges then
        if index \<ge> length ranges then Inr dst
        else
          let (s, e) = (if curEnd < curStart \<or> curEnd \<ge> below
                then (rStart (ranges ! index), rEnd (ranges ! index)) else (curStart, curEnd))
          in if e \<ge> below then Inl ErrACK
             else
               case gap_loop dst below (unat below - unat e - 1) pairs of (dst', below', gap, pairs') \<Rightarrow>
                 if pairs' = MaxACKRanges then Inr dst'
                 else
                   let n = min (unat e - unat s + 1) 255;
                       dst'' = dst' @ [of_nat gap, of_nat n];
                       below'' = e - of_nat n + 1
                   in if below'' > s then marshal_loop ranges dst'' below'' index s (below'' - 1) (pairs' + 1)
                      else marshal_loop ranges dst'' below'' (index + 1) s e (pairs' + 1)
      else Inr dst)"
  by pat_completeness auto
termination
  by (relation "measure (\<lambda>(_, _, _, _, _, _, pairs). MaxACKRanges - pairs)")
    (auto dest!: gap_loop_pairs [OF sym])

declare marshal_loop.simps [simp del]

definition MarshalACKRanges :: "bytes \<Rightarrow> ACKRange list \<Rightarrow> bytes result" where
  "MarshalACKRanges dst ranges =
     (case ranges of [] \<Rightarrow> Inl ErrACK
      | first # _ \<Rightarrow>
        if \<not> validACKRanges ranges then Inl ErrACK
        else
          let firstCount = min (unat (rEnd first) - unat (rStart first) + 1) 256;
              dst' = dst @ PutUint32 (rEnd first) @ [of_nat (firstCount - 1)];
              below = rEnd first - of_nat firstCount + 1
          in if below > rStart first
             then marshal_loop ranges dst' below 0 (rStart first) (below - 1) 0
             else marshal_loop ranges dst' below 1 (rStart first) (rEnd first) 0)"

text \<open>\<open>cap\<close> is the capacity of the caller's slice, which is never grown.\<close>

fun parse_loop :: "nat \<Rightarrow> u32 \<Rightarrow> ACKRange list \<Rightarrow> bytes \<Rightarrow> ACKRange list result" where
  "parse_loop cap below dst (b0 # b1 # rest) =
     (let nack = (ucast b0 :: u32); ack = (ucast b1 :: u32) in
      if nack = 0 \<and> ack = 0 then Inl ErrACK
      else if nack > below then Inl ErrACK
      else if ack = 0 then parse_loop cap (below - nack) dst rest
      else if nack = below then Inl ErrACK
      else let e = below - nack - 1 in
        if ack - 1 > e \<or> length dst = cap then Inl ErrACK
        else let s = e - (ack - 1) in parse_loop cap s (dst @ [ack_range s e]) rest)"
| "parse_loop cap below dst _ = Inr dst"

definition ParseACKRanges :: "bytes \<Rightarrow> nat \<Rightarrow> ACKRange list result" where
  "ParseACKRanges data cap =
     (if length data < 5 \<or> (length data - 5) mod 2 \<noteq> 0 then Inl ErrACK
      else let through = Uint32 data; firstCount = (ucast (data ! 4) :: u32) in
        if firstCount > through then Inl ErrACK
        else if cap = 0 then Inl ErrACK
        else parse_loop cap (through - firstCount) [ack_range (through - firstCount) through] (drop 5 data))"

section \<open>The tracker as a set of packet numbers\<close>

definition acked :: "ACKRange list \<Rightarrow> nat set" where
  "acked rs = (\<Union>r \<in> set rs. {unat (rStart r)..unat (rEnd r)})"

text \<open>Descending, non-empty, and with a gap between neighbours; \<open>b\<close> bounds the first range.\<close>

fun ack_desc :: "nat \<Rightarrow> ACKRange list \<Rightarrow> bool" where
  "ack_desc b [] = True"
| "ack_desc b (r # rs) =
     (unat (rEnd r) + 1 < b \<and> unat (rStart r) \<le> unat (rEnd r) \<and> ack_desc (unat (rStart r)) rs)"

definition ack_inv :: "ACKRange list \<Rightarrow> bool" where
  "ack_inv rs \<longleftrightarrow> length rs \<le> MaxACKRanges \<and> ack_desc (2 ^ 32 + 1) rs"

lemma acked_simps [simp]:
  "acked [] = {}" "acked (r # rs) = {unat (rStart r)..unat (rEnd r)} \<union> acked rs"
  "acked (xs @ ys) = acked xs \<union> acked ys"
  by (auto simp: acked_def)

lemma ack_desc_mono: "ack_desc b rs \<Longrightarrow> b \<le> b' \<Longrightarrow> ack_desc b' rs"
  by (cases rs) auto

lemma ack_desc_butlast: "ack_desc b rs \<Longrightarrow> ack_desc b (butlast rs)"
  by (induction b rs rule: ack_desc.induct) auto

lemma ack_desc_acked_less: "ack_desc b rs \<Longrightarrow> n \<in> acked rs \<Longrightarrow> n + 1 < b"
  by (induction b rs rule: ack_desc.induct) fastforce+

text \<open>The last bound of a list of ranges: everything that may follow lies below it.\<close>

fun ack_floor :: "nat \<Rightarrow> ACKRange list \<Rightarrow> nat" where
  "ack_floor b [] = b"
| "ack_floor b (r # rs) = ack_floor (unat (rStart r)) rs"

lemma ack_desc_append:
  "ack_desc b (xs @ ys) \<longleftrightarrow> ack_desc b xs \<and> ack_desc (ack_floor b xs) ys"
  by (induction b xs rule: ack_desc.induct) auto

lemma unat_Suc_u32: "(w :: u32) \<noteq> NOT 0 \<Longrightarrow> unat (w + 1) = unat w + 1"
  using unatSuc [of w] by (simp add: add.commute add_eq_0_iff)

lemma u32_Suc_iff: "(w :: u32) \<noteq> NOT 0 \<and> v = w + 1 \<longleftrightarrow> unat v = unat w + 1"
proof (cases "w = NOT 0")
  case True
  then have "unat w = 4294967295" by simp
  then show ?thesis using True unat_u32_less [of v] by (simp del: unat_u32_less)
next
  case False
  then show ?thesis by (simp add: word_unat_eq_iff unat_Suc_u32)
qed

lemma observe_loop_Cons:
  "observe_loop packet pre (r # rest) =
     (if unat packet \<ge> unat (rStart r) \<and> unat packet \<le> unat (rEnd r) then (False, pre @ r # rest)
      else if unat packet = unat (rEnd r) + 1
        then (True, pre @ ack_merge (r\<lparr>rEnd := packet\<rparr> # rest))
      else if unat (rStart r) = unat packet + 1
        then (True, pre @ ack_merge (r\<lparr>rStart := packet\<rparr> # rest))
      else if unat (rEnd r) < unat packet
        then (True, pre @ ack_range packet packet #
          (if length (pre @ r # rest) = MaxACKRanges then butlast (r # rest) else r # rest))
      else observe_loop packet (pre @ [r]) rest)"
  unfolding observe_loop.simps(2) u32_Suc_iff [of "rEnd r" packet]
    u32_Suc_iff [of packet "rStart r", unfolded eq_commute [of "rStart r"]]
    word_le_nat_alt word_less_nat_alt
  by simp

declare observe_loop.simps(2) [simp del]

text \<open>What one observation does to a suffix of the range list, at a bound \<open>b\<close> above it.\<close>

lemma ack_merge_spec:
  assumes "unat (rEnd r) + 1 < b" "unat (rStart r) \<le> unat (rEnd r)"
    "ack_desc (unat (rStart r) + 1) rest"
  shows "ack_desc b (ack_merge (r # rest)) \<and>
    acked (ack_merge (r # rest)) = {unat (rStart r)..unat (rEnd r)} \<union> acked rest \<and>
    length (ack_merge (r # rest)) \<le> Suc (length rest)"
proof (cases rest)
  case (Cons s tail)
  have s: "unat (rEnd s) < unat (rStart r)" "unat (rStart s) \<le> unat (rEnd s)"
    "ack_desc (unat (rStart s)) tail"
    using assms(3) Cons by auto
  then have lt: "rEnd s < rStart r" "rStart s < rStart r" by (auto simp: word_less_nat_alt)
  then have nmax: "rEnd s \<noteq> NOT 0" by (metis word_order.extremum_strict bit.compl_zero)
  then have suc: "unat (rEnd s + 1) = unat (rEnd s) + 1" by (rule unat_Suc_u32)
  show ?thesis
  proof (cases "rStart r \<le> rEnd s + 1")
    case True
    with suc s(1) have "unat (rStart r) = unat (rEnd s) + 1" by (simp add: word_le_nat_alt)
    with True Cons lt nmax s assms(1,2) show ?thesis by auto
  next
    case False
    with suc have "unat (rEnd s) + 1 < unat (rStart r)" by (simp add: word_le_nat_alt)
    with False Cons nmax s assms(1,2) show ?thesis by auto
  qed
qed (use assms in auto)

definition observe_post :: "nat \<Rightarrow> bool \<Rightarrow> ACKRange list \<Rightarrow> bool \<Rightarrow> ACKRange list \<Rightarrow> bool" where
  "observe_post p full rs new rs' \<longleftrightarrow>
     (if p \<in> acked rs then \<not> new \<and> rs' = rs
      else if new
        then acked rs' = insert p (acked rs) \<or>
          (full \<and> rs \<noteq> [] \<and> acked rs' = insert p (acked (butlast rs)) \<and> length rs' = length rs)
        else full \<and> rs' = rs \<and> (\<forall>n \<in> acked rs. p < n))"

lemma observe_loop_spec:
  assumes "unat packet + 1 < b" "ack_desc b rs" "length pre + length rs \<le> MaxACKRanges"
  shows "\<exists>new rs'. observe_loop packet pre rs = (new, pre @ rs') \<and> ack_desc b rs' \<and>
    length pre + length rs' \<le> MaxACKRanges \<and>
    observe_post (unat packet) (length pre + length rs = MaxACKRanges) rs new rs'"
  using assms
proof (induction rs arbitrary: pre b)
  case Nil
  then show ?case by (auto simp: observe_post_def)
next
  case (Cons r rest)
  let ?p = "unat packet"
  have r: "unat (rEnd r) + 1 < b" "unat (rStart r) \<le> unat (rEnd r)" "ack_desc (unat (rStart r)) rest"
    using Cons.prems(2) by auto
  have below: "n + 1 < unat (rStart r)" if "n \<in> acked rest" for n
    using ack_desc_acked_less [OF r(3) that] .
  consider (inside) "unat (rStart r) \<le> ?p" "?p \<le> unat (rEnd r)"
    | (above) "?p = unat (rEnd r) + 1" | (under) "?p + 1 = unat (rStart r)"
    | (far) "unat (rEnd r) + 1 < ?p" | (lower) "?p + 1 < unat (rStart r)"
    using r(2) by linarith
  then show ?case
  proof cases
    case inside
    then have "observe_loop packet pre (r # rest) = (False, pre @ r # rest)"
      by (simp add: observe_loop_Cons)
    with inside show ?thesis
      using Cons.prems by (auto simp: observe_post_def)
  next
    case above
    then have step: "observe_loop packet pre (r # rest) = (True, pre @ ack_merge (r\<lparr>rEnd := packet\<rparr> # rest))"
      by (simp add: observe_loop_Cons)
    have "ack_desc (unat (rStart r) + 1) rest" using ack_desc_mono [OF r(3)] by simp
    then have "ack_desc b (ack_merge (r\<lparr>rEnd := packet\<rparr> # rest)) \<and>
        acked (ack_merge (r\<lparr>rEnd := packet\<rparr> # rest)) = {unat (rStart r)..?p} \<union> acked rest \<and>
        length (ack_merge (r\<lparr>rEnd := packet\<rparr> # rest)) \<le> Suc (length rest)"
      using ack_merge_spec [of "r\<lparr>rEnd := packet\<rparr>" b rest] above r Cons.prems(1) by auto
    moreover have "{unat (rStart r)..?p} \<union> acked rest = insert ?p (acked (r # rest))"
      using above r(2) by auto
    moreover have "?p \<notin> acked (r # rest)" using above r(2) below by fastforce
    ultimately show ?thesis
      using Cons.prems(3) unfolding step by (auto simp: observe_post_def)
  next
    case under
    then have step: "observe_loop packet pre (r # rest) = (True, pre @ ack_merge (r\<lparr>rStart := packet\<rparr> # rest))"
      using r(2) by (simp add: observe_loop_Cons)
    have "ack_desc (unat (rStart (r\<lparr>rStart := packet\<rparr>)) + 1) rest" using r(3) under by simp
    then have "ack_desc b (ack_merge (r\<lparr>rStart := packet\<rparr> # rest)) \<and>
        acked (ack_merge (r\<lparr>rStart := packet\<rparr> # rest)) = {?p..unat (rEnd r)} \<union> acked rest \<and>
        length (ack_merge (r\<lparr>rStart := packet\<rparr> # rest)) \<le> Suc (length rest)"
      using ack_merge_spec [of "r\<lparr>rStart := packet\<rparr>" b rest] under r by auto
    moreover have "{?p..unat (rEnd r)} \<union> acked rest = insert ?p (acked (r # rest))"
      using under r(2) by auto
    moreover have "?p \<notin> acked (r # rest)" using under r(2) below by fastforce
    ultimately show ?thesis
      using Cons.prems(3) unfolding step by (auto simp: observe_post_def)
  next
    case far
    let ?kept = "if length (pre @ r # rest) = MaxACKRanges then butlast (r # rest) else r # rest"
    have step: "observe_loop packet pre (r # rest) = (True, pre @ ack_range packet packet # ?kept)"
      using far r(2) by (simp add: observe_loop_Cons)
    have "ack_desc ?p ?kept"
      using far r ack_desc_butlast [of ?p "r # rest"] by auto
    moreover have "?p \<notin> acked (r # rest)" using far r(2) below by fastforce
    ultimately show ?thesis
      using Cons.prems unfolding step by (auto simp: observe_post_def)
  next
    case lower
    have step: "observe_loop packet pre (r # rest) = observe_loop packet (pre @ [r]) rest"
      using lower r(2) by (simp add: observe_loop_Cons)
    obtain new rs' where rs': "observe_loop packet (pre @ [r]) rest = (new, (pre @ [r]) @ rs')"
      "ack_desc (unat (rStart r)) rs'" "length (pre @ [r]) + length rs' \<le> MaxACKRanges"
      "observe_post ?p (length (pre @ [r]) + length rest = MaxACKRanges) rest new rs'"
      using Cons.IH [of "unat (rStart r)" "pre @ [r]"] lower r(3) Cons.prems(3) by auto
    have "observe_post ?p (length pre + length (r # rest) = MaxACKRanges) (r # rest) new (r # rs')"
      using rs'(4) lower r(2) by (auto simp: observe_post_def split: if_splits)
    then show ?thesis
      using rs' r Cons.prems unfolding step by auto
  qed
qed

lemma ObserveNew_spec:
  assumes "ack_inv rs" "ObserveNew packet rs = (new, rs')"
  shows "ack_inv rs' \<and> observe_post (unat packet) (length rs = MaxACKRanges) rs new rs'"
  using observe_loop_spec [of packet "2 ^ 32 + 1" rs "[]"] assms unat_u32_less [of packet]
  by (auto simp: ack_inv_def ObserveNew_def simp del: unat_u32_less)

lemma ack_inv_Nil [simp]: "ack_inv []"
  by (simp add: ack_inv_def MaxACKRanges_def)

lemma acked_butlast: "acked (butlast rs) \<subseteq> acked rs"
  by (auto simp: acked_def dest: in_set_butlastD)

lemma Observe_acked:
  assumes "ack_inv rs"
  shows "ack_inv (Observe packet rs) \<and> acked (Observe packet rs) \<subseteq> insert (unat packet) (acked rs)"
proof -
  obtain new rs' where o: "ObserveNew packet rs = (new, rs')" by (cases "ObserveNew packet rs")
  have "ack_inv rs'" "observe_post (unat packet) (length rs = MaxACKRanges) rs new rs'"
    using ObserveNew_spec [OF assms o] by auto
  with acked_butlast [of rs] show ?thesis
    by (auto simp: Observe_def o observe_post_def split: if_splits)
qed

text \<open>The tracker of a session after receiving a sequence of packets.\<close>

definition observe_all :: "u32 list \<Rightarrow> ACKRange list" where
  "observe_all packets = foldl (\<lambda>rs p. Observe p rs) [] packets"

lemma observe_all_sound:
  "ack_inv (observe_all packets) \<and> acked (observe_all packets) \<subseteq> unat ` set packets"
proof (induction packets rule: rev_induct)
  case (snoc p ps)
  then show ?case
    using Observe_acked [of "observe_all ps" p] by (auto simp: observe_all_def)
qed (simp add: observe_all_def)

lemma ack_desc_valid: "ack_desc b rs \<Longrightarrow> validACKRanges rs"
  by (induction rs arbitrary: b rule: validACKRanges.induct)
    (auto simp: word_le_nat_alt word_less_nat_alt)

section \<open>Encoding and decoding acknowledgements\<close>

text \<open>
  \<open>emits below ps outs\<close>: a parser standing at \<open>below\<close> reads the pairs \<open>ps\<close> as the ranges
  \<open>outs\<close>, whatever it has read before, if its slice has room for them.
\<close>

definition emits :: "u32 \<Rightarrow> bytes \<Rightarrow> ACKRange list \<Rightarrow> bool" where
  "emits below ps outs \<longleftrightarrow>
     (\<forall>acc cap. length acc + length outs \<le> cap \<longrightarrow> parse_loop cap below acc ps = Inr (acc @ outs))"

lemma emits_Nil: "emits below [] []"
  by (simp add: emits_def)

lemma emits_gap:
  assumes "255 \<le> unat below" "emits (below - 255) ps outs"
  shows "emits below (255 # 0 # ps) outs"
  using assms by (auto simp: emits_def word_less_nat_alt)

lemma unat_of_nat_u32: "n < 4294967296 \<Longrightarrow> unat (of_nat n :: u32) = n"
  by (simp add: unat_of_nat)

lemma unat_sub_of_nat_u32: "n \<le> unat w \<Longrightarrow> unat (w - of_nat n :: u32) = unat w - n"
  using unat_u32_less [of w]
  by (subst unat_sub) (auto simp: word_le_nat_alt unat_of_nat_u32 simp del: unat_u32_less)

lemma ucast_of_nat_u8: "n < 256 \<Longrightarrow> (ucast (of_nat n :: u8) :: u32) = of_nat n"
  by (simp add: word_unat_eq_iff unat_of_nat unsigned_ucast_eq take_bit_eq_mod)

lemma emits_range:
  assumes "gap \<le> 255" "1 \<le> n" "n \<le> 255" "gap + n \<le> unat below"
    and "emits (below - of_nat (gap + n)) ps outs"
  shows "emits below (of_nat gap # of_nat n # ps)
    (ack_range (below - of_nat (gap + n)) (below - of_nat gap - 1) # outs)"
proof -
  have u: "(ucast (of_nat gap :: u8) :: u32) = of_nat gap" "(ucast (of_nat n :: u8) :: u32) = of_nat n"
    using assms(1,3) by (auto intro: ucast_of_nat_u8)
  have nz: "(of_nat n :: u32) \<noteq> 0" "\<not> below < of_nat gap" "(of_nat gap :: u32) \<noteq> below"
    using assms(1-4) by (auto simp: word_unat_eq_iff word_less_nat_alt unat_of_nat)
  have e: "below - of_nat gap - 1 = below - of_nat (gap + 1)"
    by (simp add: algebra_simps)
  have le: "\<not> of_nat n - 1 > below - of_nat gap - (1 :: u32)"
  proof -
    have "(of_nat n - 1 :: u32) = of_nat (n - 1)" using assms(2) by (simp add: of_nat_diff)
    then have "unat (of_nat n - 1 :: u32) = n - 1" using assms(3) by (simp add: unat_of_nat_u32)
    moreover have "unat (below - of_nat gap - 1) = unat below - (gap + 1)"
      unfolding e using assms(2,4) by (intro unat_sub_of_nat_u32) simp
    ultimately show ?thesis using assms(4) by (simp add: word_less_nat_alt)
  qed
  define B where "B = below - (of_nat (gap + n) :: u32)"
  define E where "E = below - of_nat gap - (1 :: u32)"
  have s: "E - (of_nat n - 1) = B"
    by (simp add: B_def E_def algebra_simps)
  have "parse_loop cap below acc (of_nat gap # of_nat n # ps) = Inr (acc @ ack_range B E # outs)"
    if "length acc + Suc (length outs) \<le> cap" for acc cap
  proof -
    have step: "parse_loop cap below acc (of_nat gap # of_nat n # ps) =
        parse_loop cap B (acc @ [ack_range B E]) ps"
      using nz le that unfolding E_def [symmetric] parse_loop.simps(1) u Let_def
      by (simp add: s)
    have "emits B ps outs" using assms(5) by (simp add: B_def)
    with that show ?thesis unfolding step by (simp add: emits_def)
  qed
  then show ?thesis
    unfolding emits_def B_def [symmetric] E_def [symmetric] by simp
qed


lemma gap_loop_spec:
  assumes "gap_loop dst below gap pairs = (dst', below', gap', pairs')"
    and "gap < unat below" "pairs \<le> MaxACKRanges"
  shows "\<exists>zs. dst' = dst @ zs \<and> length zs = 2 * (pairs' - pairs) \<and>
    pairs \<le> pairs' \<and> pairs' \<le> MaxACKRanges \<and> (pairs' \<noteq> MaxACKRanges \<longrightarrow> gap' \<le> 255) \<and>
    gap' < unat below' \<and> below' - of_nat gap' = below - of_nat gap \<and>
    unat below' - gap' = unat below - gap \<and>
    (\<forall>ps outs. emits below' ps outs \<longrightarrow> emits below (zs @ ps) outs)"
  using assms
proof (induction dst below gap pairs rule: gap_loop.induct)
  case (1 dst below gap pairs)
  show ?case
  proof (cases "gap > 255 \<and> pairs < MaxACKRanges")
    case True
    have u: "unat (below - 255) = unat below - 255"
      using unat_sub_of_nat_u32 [of 255 below] True 1(3) by simp
    have call: "gap_loop (dst @ [255, 0]) (below - 255) (gap - 255) (pairs + 1) =
        (dst', below', gap', pairs')"
      using True 1(2) by (subst (asm) gap_loop.simps) simp
    have "gap - 255 < unat (below - 255)" "pairs + 1 \<le> MaxACKRanges" using True 1(3) u by auto
    from 1(1) [OF True call this] obtain zs where zs: "dst' = (dst @ [255, 0]) @ zs" "length zs = 2 * (pairs' - (pairs + 1))"
      "pairs + 1 \<le> pairs'" "pairs' \<le> MaxACKRanges" "pairs' \<noteq> MaxACKRanges \<longrightarrow> gap' \<le> 255"
      "gap' < unat below'" "below' - of_nat gap' = below - 255 - of_nat (gap - 255)"
      "unat below' - gap' = unat (below - 255) - (gap - 255)"
      and em: "\<And>ps outs. emits below' ps outs \<Longrightarrow> emits (below - 255) (zs @ ps) outs"
      by blast
    have "emits below ((255 # 0 # zs) @ ps) outs" if "emits below' ps outs" for ps outs
      using emits_gap [OF _ em [OF that]] True 1(3) by simp
    moreover have "below - 255 - of_nat (gap - 255) = below - (of_nat gap :: u32)"
      using True by (simp add: of_nat_diff)
    ultimately show ?thesis
      using zs True 1(3) u by (intro exI [of _ "255 # 0 # zs"]) auto
  next
    case False
    then show ?thesis
      using 1(2-) by (subst (asm) gap_loop.simps) auto
  qed
qed

text \<open>Ranges that descend below a bound but may touch, as the encoder accepts them.\<close>

fun ack_weak :: "nat \<Rightarrow> ACKRange list \<Rightarrow> bool" where
  "ack_weak b [] = True"
| "ack_weak b (r # rs) =
     (unat (rEnd r) < b \<and> unat (rStart r) \<le> unat (rEnd r) \<and> ack_weak (unat (rStart r)) rs)"

lemma valid_ack_weak:
  "validACKRanges (r # rs) \<longleftrightarrow> ack_weak (unat (rEnd r) + 1) (r # rs)"
  by (induction rs arbitrary: r) (auto simp: word_le_nat_alt word_less_nat_alt)

text \<open>What the encoder still has to emit at the head of its loop.\<close>

definition pending :: "ACKRange list \<Rightarrow> u32 \<Rightarrow> nat \<Rightarrow> u32 \<Rightarrow> u32 \<Rightarrow> ACKRange list" where
  "pending ranges below index s e =
     (if index \<ge> length ranges then []
      else if e < s \<or> e \<ge> below then drop index ranges
      else ack_range s e # drop (Suc index) ranges)"

definition encoded :: "nat \<Rightarrow> u32 \<Rightarrow> ACKRange list \<Rightarrow> bytes \<Rightarrow> ACKRange list \<Rightarrow> bool" where
  "encoded room below R ps outs \<longleftrightarrow>
     emits below ps outs \<and> even (length ps) \<and> length ps \<le> 2 * room \<and> length outs \<le> room \<and>
     acked outs \<subseteq> acked R \<and> (length ps < 2 * room \<longrightarrow> acked outs = acked R)"

lemma encoded_stop: "encoded 0 below R [] []" "encoded room below [] [] []"
  by (auto simp: encoded_def emits_Nil)

text \<open>One piece of a range: a gap spread over \<open>zs\<close>, then a pair that acknowledges \<open>n\<close> numbers up to \<open>e\<close>.\<close>

lemma encoded_piece:
  assumes zs: "length zs = 2 * k" "\<And>ps outs. emits below' ps outs \<Longrightarrow> emits below (zs @ ps) outs"
    and gap: "gap \<le> 255" "unat below' - gap = unat e + 1" "gap < unat below'"
    and n: "1 \<le> n" "n \<le> 255" "n \<le> unat e - unat s + 1" "unat s \<le> unat e"
    and rest: "encoded room (e - of_nat n + 1) R' ps outs" "room' = k + 1 + room"
    and R: "acked R = {unat e + 1 - n..unat e} \<union> acked R'"
  shows "\<exists>outs'. encoded room' below R (zs @ [of_nat gap, of_nat n] @ ps) outs'"
proof -
  have b: "below' - of_nat (gap + n) = e - of_nat n + 1" and e: "below' - of_nat gap - 1 = e"
  proof -
    have "unat (below' - of_nat gap) = unat e + 1"
      using unat_sub_of_nat_u32 [of gap below'] gap by simp
    then have "(of_nat (unat (below' - of_nat gap)) :: u32) = of_nat (unat e + 1)" by (rule arg_cong)
    then have "below' - of_nat gap = e + 1" by (simp add: add.commute)
    then show "below' - of_nat gap - 1 = e" "below' - of_nat (gap + n) = e - of_nat n + 1"
      by (simp_all add: algebra_simps)
  qed
  have u: "unat (e - of_nat n + 1) = unat e + 1 - n"
  proof -
    have "e - of_nat n + 1 = e - (of_nat (n - 1) :: u32)" using n(1) by (simp add: of_nat_diff)
    moreover have "n - 1 \<le> unat e" using n by linarith
    ultimately show ?thesis using unat_sub_of_nat_u32 [of "n - 1" e] n(1) by (simp add: algebra_simps)
  qed
  have em: "emits (e - of_nat n + 1) ps outs" using rest(1) by (simp add: encoded_def)
  have "emits below' (of_nat gap # of_nat n # ps) (ack_range (e - of_nat n + 1) e # outs)"
    using emits_range [of gap n below' ps outs] gap n em unfolding b e by auto
  then have "emits below (zs @ [of_nat gap, of_nat n] @ ps) (ack_range (e - of_nat n + 1) e # outs)"
    using zs(2) by auto
  then have "encoded room' below R (zs @ [of_nat gap, of_nat n] @ ps) (ack_range (e - of_nat n + 1) e # outs)"
    using rest zs(1) R u by (auto simp: encoded_def)
  then show ?thesis by blast
qed

lemma pending_Cons:
  assumes "index < length ranges"
  obtains s' e' where "pending ranges below index s e = ack_range s' e' # drop (Suc index) ranges"
    "(s', e') = (if e < s \<or> e \<ge> below then (rStart (ranges ! index), rEnd (ranges ! index)) else (s, e))"
proof -
  have "drop index ranges = ack_range (rStart (ranges ! index)) (rEnd (ranges ! index)) # drop (Suc index) ranges"
    using assms by (simp flip: Cons_nth_drop_Suc)
  then show ?thesis
    using assms that by (cases "e < s \<or> e \<ge> below") (auto simp: pending_def)
qed

text \<open>After a piece of a range was emitted, what is pending is the rest of that range and what follows.\<close>

lemma pending_split:
  assumes "index < length ranges" "1 \<le> n" "n \<le> unat e - unat s + 1" "unat s \<le> unat e"
    and "ack_weak (unat s) (drop (Suc index) ranges)"
  defines "below \<equiv> e - of_nat n + 1"
  defines "R \<equiv> (if below > s then pending ranges below index s (below - 1)
    else pending ranges below (index + 1) s e)"
  shows "ack_weak (unat below) R \<and>
    acked (ack_range s e # drop (Suc index) ranges) = {unat e + 1 - n..unat e} \<union> acked R"
proof -
  have eq: "below = e - (of_nat (n - 1) :: u32)" using assms(2) by (simp add: below_def of_nat_diff)
  have "n - 1 \<le> unat e" using assms(2-4) by linarith
  then have u: "unat below = unat e + 1 - n"
    unfolding eq using assms(2) by (subst unat_sub_of_nat_u32) auto
  show ?thesis
  proof (cases "below > s")
    case True
    then have "unat (below - 1) = unat below - 1"
      using unat_sub_of_nat_u32 [of 1 below] by (simp add: word_less_nat_alt)
    moreover from this True have "R = ack_range s (below - 1) # drop (Suc index) ranges"
      using assms(1) by (auto simp: R_def pending_def word_less_nat_alt word_le_nat_alt)
    ultimately show ?thesis
      using assms(2-5) True u by (auto simp: word_less_nat_alt)
  next
    case False
    then have b: "unat below = unat s" using u assms(3,4) by (simp add: word_less_nat_alt)
    then have "R = drop (Suc index) ranges"
      using False assms(4) by (auto simp: R_def pending_def word_le_nat_alt)
    then show ?thesis using assms(5) b u by auto
  qed
qed

lemma marshal_loop_spec:
  assumes "pairs \<le> MaxACKRanges" "ack_weak (unat below) (pending ranges below index s e)"
  shows "\<exists>ps outs. marshal_loop ranges dst below index s e pairs = Inr (dst @ ps) \<and>
    encoded (MaxACKRanges - pairs) below (pending ranges below index s e) ps outs"
  using assms
proof (induction ranges dst below index s e pairs rule: marshal_loop.induct)
  case (1 ranges dst below index s e pairs)
  let ?R = "pending ranges below index s e"
  consider "\<not> pairs < MaxACKRanges" | "pairs < MaxACKRanges" "index \<ge> length ranges"
    | "pairs < MaxACKRanges" "index < length ranges" by linarith
  then show ?case
  proof cases
    case 1
    then show ?thesis by (subst marshal_loop.simps) (auto intro: encoded_stop)
  next
    case 2
    then have "?R = []" by (simp add: pending_def)
    then show ?thesis using 2 by (subst marshal_loop.simps) (auto intro: encoded_stop)
  next
    case 3
    from pending_Cons [OF 3(2)] obtain s' e' where R: "?R = ack_range s' e' # drop (Suc index) ranges"
      and se: "(s', e') = (if e < s \<or> e \<ge> below then (rStart (ranges ! index), rEnd (ranges ! index)) else (s, e))"
      by blast
    with 1(4) have w: "unat e' < unat below" "unat s' \<le> unat e'" "ack_weak (unat s') (drop (Suc index) ranges)"
      by auto
    then have e': "\<not> below \<le> e'" by (simp add: word_le_nat_alt)
    obtain dst' below' gap pairs' where g:
      "gap_loop dst below (unat below - unat e' - 1) pairs = (dst', below', gap, pairs')"
      by (metis prod_cases4)
    from gap_loop_spec [OF g] w 1(3) obtain zs where zs: "dst' = dst @ zs" "length zs = 2 * (pairs' - pairs)"
      "pairs \<le> pairs'" "pairs' \<le> MaxACKRanges" "pairs' \<noteq> MaxACKRanges \<Longrightarrow> gap \<le> 255" "gap < unat below'"
      "unat below' - gap = unat e' + 1" and em: "\<And>ps outs. emits below' ps outs \<Longrightarrow> emits below (zs @ ps) outs"
      by auto
    show ?thesis
    proof (cases "pairs' = MaxACKRanges")
      case True
      then have "marshal_loop ranges dst below index s e pairs = Inr (dst @ zs)"
        using 3 g e' zs(1) by (subst marshal_loop.simps) (simp flip: se)
      moreover have "encoded (MaxACKRanges - pairs) below ?R zs []"
        using True zs em [OF emits_Nil] by (simp add: encoded_def)
      ultimately show ?thesis by blast
    next
      case False
      define n where "n = min (unat e' - unat s' + 1) 255"
      define b where "b = e' - of_nat n + 1"
      have n: "1 \<le> n" "n \<le> 255" "n \<le> unat e' - unat s' + 1" by (auto simp: n_def)
      define R' where "R' = (if b > s' then pending ranges b index s' (b - 1)
        else pending ranges b (index + 1) s' e')"
      have R': "ack_weak (unat b) R'" "acked ?R = {unat e' + 1 - n..unat e'} \<union> acked R'"
        using pending_split [OF 3(2) n(1,3) w(2,3)] unfolding R R'_def b_def by blast+
      have call: "marshal_loop ranges dst below index s e pairs =
          (if b > s' then marshal_loop ranges (dst' @ [of_nat gap, of_nat n]) b index s' (b - 1) (pairs' + 1)
           else marshal_loop ranges (dst' @ [of_nat gap, of_nat n]) b (index + 1) s' e' (pairs' + 1))"
        using 3 g e' False by (subst marshal_loop.simps) (simp add: n_def b_def Let_def flip: se)
      have "\<not> length ranges \<le> index" using 3(2) by simp
      note IH = 1(1,2) [OF 3(1) this refl se e' g [symmetric] refl refl False n_def refl b_def]
      have "\<exists>ps outs. marshal_loop ranges dst below index s e pairs = Inr (dst' @ [of_nat gap, of_nat n] @ ps) \<and>
          encoded (MaxACKRanges - (pairs' + 1)) b R' ps outs"
        using IH R'(1) 3 e' False zs(4) call unfolding R'_def by (cases "b > s'") auto
      then obtain ps outs where ps: "marshal_loop ranges dst below index s e pairs =
          Inr (dst @ zs @ [of_nat gap, of_nat n] @ ps)" "encoded (MaxACKRanges - (pairs' + 1)) b R' ps outs"
        using zs(1) by auto
      have room: "MaxACKRanges - pairs = pairs' - pairs + 1 + (MaxACKRanges - (pairs' + 1))"
        using False zs(3,4) by linarith
      note ps(1)
      moreover obtain outs' where
        "encoded (MaxACKRanges - pairs) below ?R (zs @ [of_nat gap, of_nat n] @ ps) outs'"
        using encoded_piece [OF zs(2) em zs(5) zs(7,6) n w(2) ps(2) [unfolded b_def] room R'(2)] False
        by blast
      ultimately show ?thesis by blast
    qed
  qed
qed

lemma first_count:
  fixes s e :: u32
  assumes "s \<le> e"
  defines "n \<equiv> min (unat e - unat s + 1) 256"
  shows "1 \<le> n" "n \<le> unat e - unat s + 1" "(ucast (of_nat (n - 1) :: u8) :: u32) = of_nat (n - 1)"
    "\<not> of_nat (n - 1) > e" "e - of_nat (n - 1) = e - of_nat n + 1"
    "unat (e - of_nat (n - 1)) = unat e + 1 - n"
proof -
  show n: "1 \<le> n" "n \<le> unat e - unat s + 1" by (auto simp: n_def)
  have m: "n - 1 \<le> 255" "n - 1 \<le> unat e" unfolding n_def by linarith+
  from m(1) show "(ucast (of_nat (n - 1) :: u8) :: u32) = of_nat (n - 1)" by (intro ucast_of_nat_u8) simp
  show "\<not> of_nat (n - 1) > e" using m by (simp add: word_less_nat_alt unat_of_nat_u32 del: of_nat_diff)
  show "e - of_nat (n - 1) = e - of_nat n + 1" using n(1) by (simp add: of_nat_diff)
  show "unat (e - of_nat (n - 1)) = unat e + 1 - n"
    using unat_sub_of_nat_u32 [OF m(2)] n(1) by (simp del: of_nat_diff)
qed

lemma ParseACKRanges_body:
  fixes k :: u8
  assumes "even (length ps)" "\<not> (ucast k :: u32) > e" "cap \<noteq> 0"
  shows "ParseACKRanges (PutUint32 e @ [k] @ ps) cap =
    parse_loop cap (e - ucast k) [ack_range (e - ucast k) e] ps"
  using assms by (simp add: ParseACKRanges_def Let_def codec_simps nth_append even_iff_mod_2_eq_zero)

lemma parse_loop_mono:
  "parse_loop cap below acc ps = Inr outs \<Longrightarrow> cap \<le> cap' \<Longrightarrow> length acc \<le> cap \<Longrightarrow>
    parse_loop cap' below acc ps = Inr outs"
  by (induction cap below acc ps rule: parse_loop.induct)
    (auto simp: Let_def split: if_splits)

lemma ParseACKRanges_mono:
  "ParseACKRanges data cap = Inr outs \<Longrightarrow> cap \<le> cap' \<Longrightarrow> ParseACKRanges data cap' = Inr outs"
  by (auto simp: ParseACKRanges_def Let_def split: if_splits intro: parse_loop_mono)

lemma MarshalACKRanges_spec:
  assumes "validACKRanges (r # rs)"
  obtains ps outs k where "MarshalACKRanges dst (r # rs) = Inr (dst @ PutUint32 (rEnd r) @ [k] @ ps)"
    "\<not> (ucast k :: u32) > rEnd r" "even (length ps)" "length ps \<le> 2 * MaxACKRanges" "length outs \<le> MaxACKRanges"
    "emits (rEnd r - ucast k) ps outs"
    "acked (ack_range (rEnd r - ucast k) (rEnd r) # outs) \<subseteq> acked (r # rs)"
    "length ps < 2 * MaxACKRanges \<longrightarrow> acked (ack_range (rEnd r - ucast k) (rEnd r) # outs) = acked (r # rs)"
proof -
  obtain s e where r: "r = ack_range s e" by (cases r) auto
  from assms have w: "s \<le> e" "ack_weak (unat s) rs"
    unfolding valid_ack_weak by (auto simp: r word_le_nat_alt)
  define n where "n = min (unat e - unat s + 1) 256"
  note fc = first_count [OF w(1), folded n_def]
  define b where "b = e - of_nat n + 1"
  define R where "R = (if b > s then pending (r # rs) b 0 s (b - 1) else pending (r # rs) b (0 + 1) s e)"
  have pre: "0 < length (r # rs)" "unat s \<le> unat e" "ack_weak (unat s) (drop (Suc 0) (r # rs))"
    using w by (simp_all add: word_le_nat_alt)
  note split = pending_split [OF pre(1) fc(1,2) pre(2,3), folded b_def, folded R_def]
  then have R: "ack_weak (unat b) R" "acked (r # rs) = {unat e + 1 - n..unat e} \<union> acked R"
    by (simp_all add: r)
  let ?dst = "dst @ PutUint32 e @ [of_nat (n - 1)]"
  have "MarshalACKRanges dst (r # rs) = (if b > s then marshal_loop (r # rs) ?dst b 0 s (b - 1) 0
      else marshal_loop (r # rs) ?dst b (0 + 1) s e 0)"
    using assms by (simp add: MarshalACKRanges_def Let_def r n_def b_def)
  then have "\<exists>ps outs. MarshalACKRanges dst (r # rs) = Inr (?dst @ ps) \<and> encoded (MaxACKRanges - 0) b R ps outs"
    using R(1) marshal_loop_spec [of 0 b "r # rs" 0 s "b - 1" ?dst] marshal_loop_spec [of 0 b "r # rs" "0 + 1" s e ?dst]
    unfolding R_def by (cases "b > s") simp_all
  then obtain ps outs where "MarshalACKRanges dst (r # rs) = Inr (dst @ PutUint32 e @ [of_nat (n - 1)] @ ps)"
    "encoded MaxACKRanges b R ps outs" by auto
  moreover have b: "e - of_nat (n - 1) = b" using fc(5) by (simp add: b_def)
  moreover have "acked (ack_range (e - of_nat (n - 1)) e # outs') = {unat e + 1 - n..unat e} \<union> acked outs'" for outs'
    using fc(6) by (auto simp del: of_nat_diff)
  ultimately show ?thesis
    using that [of "of_nat (n - 1)" ps outs] fc(4) R(2) b unfolding fc(3)
    by (auto simp: encoded_def r simp del: of_nat_diff)
qed

section \<open>A long run of packets\<close>

text \<open>A run of consecutive numbers is sent as pairs without a gap, one for each 255 numbers.\<close>

definition run_pairs :: "u8 list \<Rightarrow> bytes" where
  "run_pairs cs = concat (map (\<lambda>c. [0, c]) cs)"

lemma run_pairs_simps [simp]: "run_pairs [] = []" "run_pairs (c # cs) = 0 # c # run_pairs cs"
  "length (run_pairs cs) = 2 * length cs"
  by (simp_all add: run_pairs_def length_concat o_def sum_list_triv)

lemma gap_loop_small: "gap \<le> 255 \<Longrightarrow> gap_loop dst below gap pairs = (dst, below, gap, pairs)"
  by (subst gap_loop.simps) simp

lemma marshal_loop_full: "marshal_loop ranges dst below index s e MaxACKRanges = Inr dst"
  by (subst marshal_loop.simps) simp

lemma marshal_loop_run:
  assumes "pairs \<le> MaxACKRanges" "unat s + 255 * (MaxACKRanges - pairs) < unat e + 256" "unat s \<le> unat e"
    "unat e < 2 ^ 32 - 1"
  shows "\<exists>cs. marshal_loop [r] dst (e + 1) 0 s e pairs = Inr (dst @ run_pairs cs) \<and>
    length cs = MaxACKRanges - pairs \<and> 0 \<notin> set cs"
  using assms
proof (induction "MaxACKRanges - pairs" arbitrary: dst e pairs)
  case 0
  then show ?case by (subst marshal_loop.simps) simp
next
  case (Suc k)
  have "e \<noteq> NOT 0" using Suc.prems(4) by (auto simp: unat_max_word)
  then have e1: "unat (e + 1) = unat e + 1" by (rule unat_Suc_u32)
  define n where "n = min (unat e - unat s + 1) 255"
  have n: "1 \<le> n" "n \<le> 255" "n - 1 \<le> unat e" unfolding n_def by linarith+
  have "(of_nat n :: u8) \<noteq> 0" using n by (simp add: word_unat_eq_iff)
  define b where "b = e - of_nat n + 1"
  have "b = e - (of_nat (n - 1) :: u32)" using n(1) by (simp add: b_def of_nat_diff)
  then have b: "unat b = unat e + 1 - n"
    using unat_sub_of_nat_u32 [OF n(3)] n(1) by (simp del: of_nat_diff)
  have p: "pairs < MaxACKRanges" "pairs \<noteq> MaxACKRanges" using Suc.hyps(2) by auto
  have unroll: "marshal_loop [r] dst (e + 1) 0 s e pairs =
      (if b > s then marshal_loop [r] (dst @ [0, of_nat n]) b 0 s (b - 1) (pairs + 1)
       else marshal_loop [r] (dst @ [0, of_nat n]) b 1 s e (pairs + 1))"
    using p Suc.prems e1
    by (subst marshal_loop.simps) (simp add: gap_loop_small n_def b_def Let_def word_less_nat_alt word_le_nat_alt)
  show ?case
  proof (cases k)
    case 0
    then have "pairs + 1 = MaxACKRanges" using Suc.hyps(2) by simp
    then have "marshal_loop [r] dst (e + 1) 0 s e pairs = Inr (dst @ [0, of_nat n])"
      using unroll by (simp only: marshal_loop_full if_cancel)
    then show ?thesis
      using 0 Suc.hyps(2) \<open>(of_nat n :: u8) \<noteq> 0\<close> by (intro exI [of _ "[of_nat n]"]) auto
  next
    case (Suc k')
    with Suc.hyps(2) Suc.prems have "n = 255" by (simp add: n_def)
    moreover from this b Suc Suc.hyps(2) Suc.prems have "unat s < unat b" by simp
    moreover from this have b1: "unat (b - 1) = unat b - 1" using unat_sub_of_nat_u32 [of 1 b] by simp
    ultimately have "\<exists>cs. marshal_loop [r] (dst @ [0, of_nat n]) (b - 1 + 1) 0 s (b - 1) (pairs + 1) =
        Inr ((dst @ [0, of_nat n]) @ run_pairs cs) \<and> length cs = MaxACKRanges - (pairs + 1) \<and> 0 \<notin> set cs"
      using Suc.hyps Suc.prems b Suc by (intro Suc.hyps(1)) auto
    then obtain cs where "marshal_loop [r] dst (e + 1) 0 s e pairs = Inr (dst @ run_pairs (of_nat n # cs))"
      "length cs = MaxACKRanges - (pairs + 1)" "0 \<notin> set cs"
      using unroll \<open>unat s < unat b\<close> by (auto simp: word_less_nat_alt)
    then show ?thesis
      using \<open>(of_nat n :: u8) \<noteq> 0\<close> Suc.hyps(2) by (intro exI [of _ "of_nat n # cs"]) auto
  qed
qed

lemma parse_loop_run_full:
  "0 \<notin> set cs \<Longrightarrow> length acc \<le> cap \<Longrightarrow> cap < length acc + length cs \<Longrightarrow>
    parse_loop cap below acc (run_pairs cs) = Inl ErrACK"
proof (induction cs arbitrary: below acc)
  case (Cons c cs)
  have "(ucast c :: u32) \<noteq> 0" using Cons.prems(1) by (auto simp: word_unat_eq_iff)
  then show ?case
    using Cons by (cases "length acc = cap") (auto simp: Let_def)
qed simp

section \<open>Properties\<close>

text \<open>
  C20. \<open>ObserveNew\<close> implements insertion into a bounded set of packet numbers. It keeps the tracker's
  representation (at most 64 non-empty, descending ranges that do not touch); it reports a number as
  old exactly when it is already acknowledged, or when all 64 ranges are in use and the number lies
  below all of them; otherwise the number is added, and the only numbers that can be lost are those of
  the oldest range, when the table is full.
\<close>

theorem ObserveNew_refines_set:
  assumes "ack_inv rs" "ObserveNew packet rs = (new, rs')"
  shows "ack_inv rs' \<and>
    (unat packet \<in> acked rs \<longrightarrow> \<not> new \<and> rs' = rs) \<and>
    (unat packet \<notin> acked rs \<and> \<not> new \<longrightarrow>
      length rs = MaxACKRanges \<and> rs' = rs \<and> (\<forall>n \<in> acked rs. unat packet < n)) \<and>
    (unat packet \<notin> acked rs \<and> new \<longrightarrow>
      acked rs' = insert (unat packet) (acked rs) \<or>
      length rs = MaxACKRanges \<and> acked rs' = insert (unat packet) (acked (butlast rs)))"
  using ObserveNew_spec [OF assms] by (auto simp: observe_post_def)

theorem ObserveNew_refines_set_witness:
  "ack_inv [ack_range 5 6, ack_range 2 3] \<and> ObserveNew 4 [ack_range 5 6, ack_range 2 3] = (True, [ack_range 2 6]) \<and>
   ack_inv [ack_range 2 6] \<and> acked [ack_range 2 6] = insert 4 (acked [ack_range 5 6, ack_range 2 3])"
proof -
  have i: "ack_inv [ack_range 5 6, ack_range 2 3]" by (simp add: ack_inv_def MaxACKRanges_def)
  have o: "ObserveNew 4 [ack_range 5 6, ack_range 2 3] = (True, [ack_range 2 6])"
    by code_simp
  have "unat (4 :: u32) \<notin> acked [ack_range 5 6, ack_range 2 3]" by simp
  then have "ack_inv [ack_range 2 6]"
    "acked [ack_range 2 6] = insert (unat (4 :: u32)) (acked [ack_range 5 6, ack_range 2 3])"
    using ObserveNew_refines_set [OF i o] by (simp_all add: MaxACKRanges_def del: acked_simps)
  then show ?thesis using i o by (simp del: acked_simps)
qed

text \<open>
  C16. What \<open>MarshalACKRanges\<close> writes for valid ranges, \<open>ParseACKRanges\<close> reads back when its slice has
  room: the body is appended to \<open>dst\<close>, has at most 5 + 2 * 64 bytes, and decodes to ranges that
  acknowledge the newest number, nothing that was not acknowledged, and exactly the same numbers
  whenever the limit of 64 pairs was not reached.
\<close>

theorem ack_marshal_parse:
  assumes "validACKRanges (r # rs)"
  shows "\<exists>body outs. MarshalACKRanges dst (r # rs) = Inr (dst @ body) \<and>
    length body \<le> 5 + 2 * MaxACKRanges \<and> length outs \<le> 1 + MaxACKRanges \<and>
    (\<forall>cap \<ge> length outs. ParseACKRanges body cap = Inr outs) \<and>
    unat (rEnd r) \<in> acked outs \<and> acked outs \<subseteq> acked (r # rs) \<and>
    (length body < 5 + 2 * MaxACKRanges \<longrightarrow> acked outs = acked (r # rs))"
proof -
  obtain ps outs k where ps: "MarshalACKRanges dst (r # rs) = Inr (dst @ PutUint32 (rEnd r) @ [k] @ ps)"
    "\<not> (ucast k :: u32) > rEnd r" "even (length ps)" "length ps \<le> 2 * MaxACKRanges" "length outs \<le> MaxACKRanges"
    "emits (rEnd r - ucast k) ps outs"
    "acked (ack_range (rEnd r - ucast k) (rEnd r) # outs) \<subseteq> acked (r # rs)"
    "length ps < 2 * MaxACKRanges \<longrightarrow> acked (ack_range (rEnd r - ucast k) (rEnd r) # outs) = acked (r # rs)"
    by (rule MarshalACKRanges_spec [OF assms])
  let ?outs = "ack_range (rEnd r - ucast k) (rEnd r) # outs"
  have "unat (rEnd r - ucast k) \<le> unat (rEnd r)"
    using ps(2) by (simp add: unat_sub word_le_nat_alt word_less_nat_alt)
  then have "unat (rEnd r) \<in> acked ?outs" by simp
  moreover have "\<forall>cap \<ge> length ?outs. ParseACKRanges (PutUint32 (rEnd r) @ [k] @ ps) cap = Inr ?outs"
    using ps(6) by (auto simp: ParseACKRanges_body [OF ps(3,2), simplified] emits_def)
  ultimately show ?thesis
    using ps(1,4,5,7,8) by (intro exI [of _ "PutUint32 (rEnd r) @ [k] @ ps"] exI [of _ ?outs]) auto
qed

theorem ack_marshal_parse_witness:
  "\<exists>body outs. MarshalACKRanges [7] [ack_range 5 6, ack_range 2 3] = Inr ([7] @ body) \<and>
     (\<forall>cap \<ge> length outs. ParseACKRanges body cap = Inr outs) \<and>
     unat (rEnd (ack_range 5 6)) \<in> acked outs \<and> acked outs \<subseteq> acked [ack_range 5 6, ack_range 2 3]"
proof -
  have "validACKRanges [ack_range 5 6, ack_range 2 3]" by simp
  from ack_marshal_parse [OF this, of "[7]"] show ?thesis by blast
qed

text \<open>
  C18. No packet is acknowledged that was not received: whatever sequence of packet numbers the tracker
  observed, the acknowledgement marshalled from (a prefix of) its ranges decodes only to numbers of
  that sequence.
\<close>

theorem ack_end_to_end_sound:
  assumes "MarshalACKRanges dst (RangesInto room (observe_all packets)) = Inr (dst @ body)"
    and "ParseACKRanges body cap = Inr outs"
  shows "acked outs \<subseteq> unat ` set packets"
proof -
  let ?rs = "RangesInto room (observe_all packets)"
  have sub: "acked ?rs \<subseteq> unat ` set packets"
    using observe_all_sound [of packets] by (auto simp: RangesInto_def acked_def dest!: in_set_takeD)
  from assms(1) obtain r rs where rs: "?rs = r # rs" and v: "validACKRanges (r # rs)"
    by (cases ?rs) (auto simp: MarshalACKRanges_def split: if_splits)
  obtain ps outs' k where ps: "MarshalACKRanges dst (r # rs) = Inr (dst @ PutUint32 (rEnd r) @ [k] @ ps)"
    "\<not> (ucast k :: u32) > rEnd r" "even (length ps)" "emits (rEnd r - ucast k) ps outs'"
    "acked (ack_range (rEnd r - ucast k) (rEnd r) # outs') \<subseteq> acked (r # rs)"
    by (rule MarshalACKRanges_spec [OF v])
  then have body: "body = PutUint32 (rEnd r) @ [k] @ ps" using assms(1) rs by simp
  have "ParseACKRanges body (max cap (Suc (length outs'))) = Inr (ack_range (rEnd r - ucast k) (rEnd r) # outs')"
    using ps(4) by (auto simp: emits_def body ParseACKRanges_body [OF ps(3,2), simplified])
  then have "outs = ack_range (rEnd r - ucast k) (rEnd r) # outs'"
    using ParseACKRanges_mono [OF assms(2), of "max cap (Suc (length outs'))"] by simp
  then show ?thesis using subset_trans [OF ps(5)] sub rs by (simp del: acked_simps)
qed

theorem ack_end_to_end_sound_witness:
  "MarshalACKRanges [] (RangesInto 64 (observe_all [1, 2, 4])) = Inr ([] @ [0, 0, 0, 4, 0, 1, 2]) \<and>
   ParseACKRanges [0, 0, 0, 4, 0, 1, 2] 64 = Inr [ack_range 4 4, ack_range 1 2] \<and>
   acked [ack_range 4 4, ack_range 1 2] \<subseteq> unat ` set [1, 2, 4 :: u32]"
proof -
  have m: "MarshalACKRanges [] (RangesInto 64 (observe_all [1, 2, 4])) = Inr ([] @ [0, 0, 0, 4, 0, 1, 2])"
    by code_simp
  have p: "ParseACKRanges [0, 0, 0, 4, 0, 1, 2] 64 = Inr [ack_range 4 4, ack_range 1 2]" by code_simp
  show ?thesis using m p ack_end_to_end_sound [OF m p] by (simp del: acked_simps)
qed

text \<open>
  C36. The encoder can write one range more than the 64 that a slice of \<open>MaxACKRanges\<close> entries holds,
  which is the slice the session passes to the parser. For every run of at least 16322 consecutive
  packet numbers the acknowledgement is refused by such a slice, although one more entry would read it.
\<close>

theorem ack_long_run_refused:
  assumes "unat (rStart r) + 16321 \<le> unat (rEnd r)"
  shows "\<exists>body. MarshalACKRanges dst [r] = Inr (dst @ body) \<and>
    ParseACKRanges body MaxACKRanges = Inl ErrACK \<and> (\<exists>outs. ParseACKRanges body (MaxACKRanges + 1) = Inr outs)"
proof -
  define s e where r: "s = rStart r" "e = rEnd r"
  have v: "validACKRanges [r]" using assms by (simp add: word_le_nat_alt)
  obtain ps outs k where ps: "MarshalACKRanges dst [r] = Inr (dst @ PutUint32 e @ [k] @ ps)"
    "\<not> (ucast k :: u32) > e" "even (length ps)" "length outs \<le> MaxACKRanges" "emits (e - ucast k) ps outs"
    unfolding r by (rule MarshalACKRanges_spec [OF v])
  define b where "b = e - 255"
  have b: "unat b = unat e - 255" "unat (b - 1) = unat e - 256"
    using unat_sub_of_nat_u32 [of 255 e] unat_sub_of_nat_u32 [of 1 "e - 255"] assms by (auto simp: b_def r)
  have pre: "unat s + 255 * (MaxACKRanges - 0) < unat (b - 1) + 256" "unat s \<le> unat (b - 1)"
    "unat (b - 1) < 2 ^ 32 - 1"
    using assms b unat_u32_less [of e] by (simp_all add: r MaxACKRanges_def del: unat_u32_less)
  have "unat s < unat e - 255" using assms by (simp add: r)
  then have "MarshalACKRanges dst [r] = marshal_loop [r] (dst @ PutUint32 e @ [255]) (b - 1 + 1) 0 s (b - 1) 0"
    using v b by (simp add: MarshalACKRanges_def Let_def r b_def word_less_nat_alt)
  moreover obtain cs where cs: "marshal_loop [r] (dst @ PutUint32 e @ [255]) (b - 1 + 1) 0 s (b - 1) 0 =
      Inr ((dst @ PutUint32 e @ [255]) @ run_pairs cs)" "length cs = MaxACKRanges" "0 \<notin> set cs"
    using marshal_loop_run [OF _ pre, of r "dst @ PutUint32 e @ [255]"] by auto
  ultimately have eq: "ps = run_pairs cs" using ps(1) by simp
  have "ParseACKRanges (PutUint32 e @ [k] @ ps) MaxACKRanges = Inl ErrACK"
    using cs ParseACKRanges_body [OF ps(3,2), of MaxACKRanges]
    by (simp add: eq parse_loop_run_full MaxACKRanges_def)
  moreover have "ParseACKRanges (PutUint32 e @ [k] @ ps) (MaxACKRanges + 1) = Inr (ack_range (e - ucast k) e # outs)"
    using ps(4,5) ParseACKRanges_body [OF ps(3,2), of "MaxACKRanges + 1"] by (simp add: emits_def)
  ultimately show ?thesis using ps(1) by blast
qed

theorem ack_long_run_refused_witness:
  "\<exists>body. MarshalACKRanges [] [ack_range 0 16321] = Inr ([] @ body) \<and> ParseACKRanges body MaxACKRanges = Inl ErrACK"
  using ack_long_run_refused [of "ack_range 0 16321" "[]"] by auto

end
