(* ===== verification/Slab_Pool.thy ===== *)
theory Slab_Pool
  imports IVNP_Prelude
begin

text \<open>
  The slab pools of \<open>internal/pool/slab.go\<close>: power-of-two size classes, leases and plain slabs.

  A lease is an object shared by reference, so the model has a store of leases: an address is the
  position of the lease in \<open>leases\<close>, and \<open>leaseSlabs\<close> holds, for each class, the addresses a
  \<open>sync.Pool\<close> retains. Which pooled item \<open>Get\<close> answers is the argument \<open>pick\<close>. A slice is
  its backing array, as long as its capacity, together with its length.
\<close>

section \<open>State and operations\<close>

definition minClass :: nat where "minClass = 8"
definition maxClass :: nat where "maxClass = 16"
definition maxPooled :: nat where "maxPooled = 2 ^ maxClass"

record Lease =
  lbuf :: bytes
  lclass :: int
  lreleased :: bool

record slab_state =
  leases :: "Lease list"
  leaseSlabs :: "nat \<Rightarrow> nat list"
  slabs :: "nat \<Rightarrow> bytes list"

definition slab_init :: slab_state where
  "slab_init = \<lparr>leases = [], leaseSlabs = (\<lambda>_. []), slabs = (\<lambda>_. [])\<rparr>"

definition classFor :: "int \<Rightarrow> nat option" where
  "classFor n =
     (if n \<le> 0 \<or> n > int maxPooled then None
      else Some (max (bits_Len (nat (n - 1))) minClass - minClass))"

definition new_lease :: "Lease \<Rightarrow> slab_state \<Rightarrow> nat \<times> slab_state" where
  "new_lease l st = (length (leases st), st\<lparr>leases := leases st @ [l]\<rparr>)"

definition slab_size :: "nat \<Rightarrow> nat" where
  "slab_size class = 2 ^ (minClass + class)"

definition AcquireLease :: "int \<Rightarrow> nat option \<Rightarrow> slab_state \<Rightarrow> nat option \<times> slab_state" where
  "AcquireLease n pick st =
     (if n < 0 then (None, st)
      else if n = 0 then
        let (a, st') = new_lease \<lparr>lbuf = [], lclass = -1, lreleased = False\<rparr> st in (Some a, st')
      else case classFor n of
        None \<Rightarrow>
          let (a, st') = new_lease \<lparr>lbuf = replicate (nat n) 0, lclass = -1, lreleased = False\<rparr> st
          in (Some a, st')
      | Some class \<Rightarrow>
          (case pool_get pick (leaseSlabs st class) of
             Some (a, free) \<Rightarrow>
               (Some a, st\<lparr>leaseSlabs := (leaseSlabs st)(class := free),
                  leases := (leases st)[a := (leases st ! a)\<lparr>lreleased := False\<rparr>]\<rparr>)
           | None \<Rightarrow>
               let (a, st') = new_lease
                 \<lparr>lbuf = replicate (slab_size class) 0, lclass = int class, lreleased = False\<rparr> st
               in (Some a, st')))"

text \<open>A nil lease is the address \<open>None\<close>.\<close>

definition LeaseBytes :: "nat option \<Rightarrow> int \<Rightarrow> slab_state \<Rightarrow> bytes option" where
  "LeaseBytes l n st =
     (case l of None \<Rightarrow> None
      | Some a \<Rightarrow>
          if lreleased (leases st ! a) \<or> n < 0 \<or> n > int (length (lbuf (leases st ! a))) then None
          else Some (take (nat n) (lbuf (leases st ! a))))"

definition LeaseRelease :: "nat option \<Rightarrow> slab_state \<Rightarrow> slab_state" where
  "LeaseRelease l st =
     (case l of None \<Rightarrow> st
      | Some a \<Rightarrow>
          let lease = leases st ! a in
          if lreleased lease then st
          else let st' = st\<lparr>leases := (leases st)[a := lease\<lparr>lreleased := True\<rparr>]\<rparr> in
            if lclass lease < 0 then st'
            else st'\<lparr>leaseSlabs := (leaseSlabs st')(nat (lclass lease) := leaseSlabs st' (nat (lclass lease)) @ [a])\<rparr>)"

definition LeaseReleaseSensitive :: "nat option \<Rightarrow> slab_state \<Rightarrow> slab_state" where
  "LeaseReleaseSensitive l st =
     (case l of None \<Rightarrow> st
      | Some a \<Rightarrow>
          let lease = leases st ! a in
          if lreleased lease then st
          else LeaseRelease l
            (st\<lparr>leases := (leases st)[a := lease\<lparr>lbuf := replicate (length (lbuf lease)) 0\<rparr>]\<rparr>))"

record slab_slice =
  backing :: bytes
  slen :: nat

definition SlabAcquire :: "int \<Rightarrow> nat option \<Rightarrow> slab_state \<Rightarrow> slab_slice option \<times> slab_state" where
  "SlabAcquire n pick st =
     (if n < 0 then (None, st)
      else if n = 0 then (Some \<lparr>backing = [], slen = 0\<rparr>, st)
      else case classFor n of
        None \<Rightarrow> (Some \<lparr>backing = replicate (nat n) 0, slen = nat n\<rparr>, st)
      | Some class \<Rightarrow>
          (case pool_get pick (slabs st class) of
             Some (b, free) \<Rightarrow> (Some \<lparr>backing = b, slen = nat n\<rparr>, st\<lparr>slabs := (slabs st)(class := free)\<rparr>)
           | None \<Rightarrow> (Some \<lparr>backing = replicate (slab_size class) 0, slen = nat n\<rparr>, st)))"

definition SlabRelease :: "slab_slice \<Rightarrow> slab_state \<Rightarrow> slab_state" where
  "SlabRelease s st =
     (case classFor (int (length (backing s))) of
        None \<Rightarrow> st
      | Some class \<Rightarrow>
          if length (backing s) \<noteq> slab_size class then st
          else st\<lparr>slabs := (slabs st)(class := slabs st class @ [backing s])\<rparr>)"

definition SlabReleaseSensitive :: "slab_slice option \<Rightarrow> slab_state \<Rightarrow> slab_state" where
  "SlabReleaseSensitive b st =
     (case b of None \<Rightarrow> st
      | Some s \<Rightarrow> SlabRelease (s\<lparr>backing := replicate (length (backing s)) 0\<rparr>) st)"

section \<open>Size classes\<close>

lemma classFor_Some:
  assumes "classFor n = Some c"
  shows "0 < n" "c \<le> maxClass - minClass" "nat n \<le> slab_size c" "c = 0 \<or> slab_size (c - 1) < nat n"
proof -
  from assms have n: "0 < n" "nat n \<le> 2 ^ 16" and c: "c = max (bits_Len (nat (n - 1))) 8 - 8"
    by (auto simp: classFor_def maxPooled_def maxClass_def minClass_def split: if_splits)
  then show "0 < n" by simp
  have "nat (n - 1) < 2 ^ 16" using n by linarith
  then have "bits_Len (nat (n - 1)) \<le> 16" by (rule bits_Len_le)
  then show "c \<le> maxClass - minClass" by (simp add: c maxClass_def minClass_def)
  have "nat (n - 1) < 2 ^ bits_Len (nat (n - 1))" by (rule bits_Len_upper)
  also have "\<dots> \<le> 2 ^ (8 + c)" by (rule power_increasing) (auto simp: c)
  finally show "nat n \<le> slab_size c" by (simp add: slab_size_def minClass_def)
  show "c = 0 \<or> slab_size (c - 1) < nat n"
  proof (cases "c = 0")
    case False
    then have l: "bits_Len (nat (n - 1)) = 8 + c" by (simp add: c)
    then have "0 < nat (n - 1)" by (cases "nat (n - 1) = 0") auto
    from bits_Len_lower [OF this] show ?thesis using l False by (simp add: slab_size_def minClass_def)
  qed simp
qed

lemma classFor_None: "classFor n = None \<longleftrightarrow> n \<le> 0 \<or> n > int maxPooled"
  by (simp add: classFor_def)

section \<open>Invariant\<close>

definition slab_ok :: "slab_state \<Rightarrow> bool" where
  "slab_ok st \<longleftrightarrow>
     (\<forall>c. distinct (leaseSlabs st c) \<and>
       (\<forall>a \<in> set (leaseSlabs st c). a < length (leases st) \<and> lreleased (leases st ! a) \<and>
          lclass (leases st ! a) = int c)) \<and>
     (\<forall>l \<in> set (leases st). 0 \<le> lclass l \<longrightarrow>
        length (lbuf l) = slab_size (nat (lclass l)) \<and> nat (lclass l) \<le> maxClass - minClass) \<and>
     (\<forall>c. \<forall>b \<in> set (slabs st c). length b = slab_size c)"

text \<open>A lease is held when it exists and was not released; \<open>lease_cap\<close> is what \<open>Bytes\<close> can hand out.\<close>

definition lease_live :: "slab_state \<Rightarrow> nat \<Rightarrow> bool" where
  "lease_live st a \<longleftrightarrow> a < length (leases st) \<and> \<not> lreleased (leases st ! a)"

definition lease_cap :: "slab_state \<Rightarrow> nat \<Rightarrow> nat" where
  "lease_cap st a = length (lbuf (leases st ! a))"

lemma slab_ok_init: "slab_ok slab_init"
  by (simp add: slab_ok_def slab_init_def)

lemma slab_ok_pooled:
  assumes "slab_ok st" "a \<in> set (leaseSlabs st c)"
  shows "a < length (leases st)" "lreleased (leases st ! a)" "lclass (leases st ! a) = int c"
    "length (lbuf (leases st ! a)) = slab_size c" "c \<le> maxClass - minClass"
proof -
  show a: "a < length (leases st)" "lreleased (leases st ! a)" "lclass (leases st ! a) = int c"
    using assms by (auto simp: slab_ok_def)
  then have "leases st ! a \<in> set (leases st)" by simp
  then show "length (lbuf (leases st ! a)) = slab_size c" "c \<le> maxClass - minClass"
    using assms(1) a(3) by (auto simp: slab_ok_def)
qed

lemma slab_ok_alloc:
  assumes "slab_ok st" "0 \<le> lclass l \<Longrightarrow> length (lbuf l) = slab_size (nat (lclass l)) \<and> nat (lclass l) \<le> maxClass - minClass"
  shows "slab_ok (st\<lparr>leases := leases st @ [l]\<rparr>)"
  using assms by (auto simp: slab_ok_def nth_append intro: less_SucI)

lemma slab_ok_set_released:
  assumes "slab_ok st" "a < length (leases st)" "\<forall>c. a \<notin> set (leaseSlabs st c)"
  shows "slab_ok (st\<lparr>leases := (leases st)[a := (leases st ! a)\<lparr>lreleased := v\<rparr>]\<rparr>)"
  using assms by (auto simp: slab_ok_def nth_list_update dest!: set_update_subset_insert [THEN subsetD])

lemma slab_ok_unpool:
  assumes "slab_ok st" "distinct free" "set free \<subseteq> set (leaseSlabs st c)"
  shows "slab_ok (st\<lparr>leaseSlabs := (leaseSlabs st)(c := free)\<rparr>)"
  using assms by (auto simp: slab_ok_def)

lemma pooled_once:
  assumes "slab_ok st" "a \<in> set (leaseSlabs st c)" "a \<in> set (leaseSlabs st d)"
  shows "c = d"
  using slab_ok_pooled(3) [OF assms(1,2)] slab_ok_pooled(3) [OF assms(1,3)] by simp

text \<open>A lease that is handed out is not held by anyone, and has room for what was asked.\<close>

lemma AcquireLease_spec:
  assumes "slab_ok st" "0 \<le> n"
  shows "\<exists>a st'. AcquireLease n pick st = (Some a, st') \<and> slab_ok st' \<and> \<not> lease_live st a \<and>
    (\<forall>x. lease_live st' x \<longleftrightarrow> x = a \<or> lease_live st x) \<and>
    (\<forall>x. lease_live st x \<longrightarrow> leases st' ! x = leases st ! x) \<and>
    nat n \<le> lease_cap st' a \<and> (n \<le> int maxPooled \<longrightarrow> lease_cap st' a \<le> max (2 * nat n) (slab_size 0))"
proof -
  have fresh: ?thesis if l: "AcquireLease n pick st = (Some (length (leases st)), st\<lparr>leases := leases st @ [l]\<rparr>)"
    "\<not> lreleased l" "nat n \<le> length (lbuf l)" "n \<le> int maxPooled \<longrightarrow> length (lbuf l) \<le> max (2 * nat n) (slab_size 0)"
    "0 \<le> lclass l \<Longrightarrow> length (lbuf l) = slab_size (nat (lclass l)) \<and> nat (lclass l) \<le> maxClass - minClass" for l
    using that slab_ok_alloc [OF assms(1) that(5)]
    by (auto simp: lease_live_def lease_cap_def nth_append less_Suc_eq)
  have size: "slab_size c \<le> max (2 * nat n) (slab_size 0)" if "classFor n = Some c" for c
  proof (cases c)
    case (Suc d)
    then have "slab_size c = 2 * slab_size d" "slab_size d < nat n"
      using classFor_Some(4) [OF that] by (auto simp: slab_size_def)
    then show ?thesis by simp
  qed simp
  show ?thesis
  proof (cases "classFor n")
    case None
    show ?thesis
    proof (cases "n = 0")
      case True
      then show ?thesis
        by (intro fresh [of "\<lparr>lbuf = [], lclass = -1, lreleased = False\<rparr>"]) (auto simp: AcquireLease_def new_lease_def)
    next
      case False
      then show ?thesis
        using None assms(2)
        by (intro fresh [of "\<lparr>lbuf = replicate (nat n) 0, lclass = -1, lreleased = False\<rparr>"])
          (auto simp: AcquireLease_def new_lease_def)
    qed
  next
    case (Some c)
    note c = classFor_Some [OF Some] size [OF Some]
    show ?thesis
    proof (cases "pool_get pick (leaseSlabs st c)")
      case None
      then show ?thesis
        using Some c by (intro fresh [of "\<lparr>lbuf = replicate (slab_size c) 0, lclass = int c, lreleased = False\<rparr>"])
          (auto simp: AcquireLease_def new_lease_def)
    next
      case (Some r)
      then obtain a free where r: "pool_get pick (leaseSlabs st c) = Some (a, free)" by (cases r) auto
      have p: "a \<in> set (leaseSlabs st c)" "set free \<subseteq> set (leaseSlabs st c)" "distinct free" "a \<notin> set free"
        using pool_get_Some [OF r] assms(1) by (auto simp: slab_ok_def)
      note a = slab_ok_pooled [OF assms(1) p(1)]
      let ?st = "st\<lparr>leaseSlabs := (leaseSlabs st)(c := free)\<rparr>"
      let ?st' = "?st\<lparr>leases := (leases ?st)[a := (leases ?st ! a)\<lparr>lreleased := False\<rparr>]\<rparr>"
      have eq: "AcquireLease n pick st = (Some a, ?st')"
        using \<open>classFor n = Some c\<close> c(1) r by (simp add: AcquireLease_def)
      have "slab_ok ?st'"
        using slab_ok_unpool [OF assms(1) p(3,2)] a(1) p(4) pooled_once [OF assms(1) p(1)]
        by (intro slab_ok_set_released) auto
      then show ?thesis
        unfolding eq using a c by (auto simp: lease_live_def lease_cap_def nth_list_update)
    qed
  qed
qed

lemma LeaseRelease_spec:
  assumes "slab_ok st" "lease_live st a"
  shows "slab_ok (LeaseRelease (Some a) st)"
    "lease_live (LeaseRelease (Some a) st) x \<longleftrightarrow> x \<noteq> a \<and> lease_live st x"
    "x \<noteq> a \<Longrightarrow> leases (LeaseRelease (Some a) st) ! x = leases st ! x"
proof -
  let ?l = "leases st ! a"
  let ?st = "st\<lparr>leases := (leases st)[a := ?l\<lparr>lreleased := True\<rparr>]\<rparr>"
  have a: "a < length (leases st)" "\<not> lreleased ?l" using assms(2) by (auto simp: lease_live_def)
  have free: "a \<notin> set (leaseSlabs st c)" for c using slab_ok_pooled(2) [OF assms(1)] a(2) by blast
  have ok: "slab_ok ?st" using slab_ok_set_released [OF assms(1) a(1)] free by blast
  have eq: "LeaseRelease (Some a) st =
      (if lclass ?l < 0 then ?st
       else ?st\<lparr>leaseSlabs := (leaseSlabs st)(nat (lclass ?l) := leaseSlabs st (nat (lclass ?l)) @ [a])\<rparr>)"
    using a by (simp add: LeaseRelease_def Let_def)
  show "slab_ok (LeaseRelease (Some a) st)"
    unfolding eq using ok a free by (auto simp: slab_ok_def nth_list_update)
  show "lease_live (LeaseRelease (Some a) st) x \<longleftrightarrow> x \<noteq> a \<and> lease_live st x"
    unfolding eq using a by (auto simp: lease_live_def nth_list_update)
  show "x \<noteq> a \<Longrightarrow> leases (LeaseRelease (Some a) st) ! x = leases st ! x"
    unfolding eq by simp
qed

lemma LeaseRelease_released: "lreleased (leases st ! a) \<Longrightarrow> LeaseRelease (Some a) st = st"
  by (simp add: LeaseRelease_def Let_def)

lemma LeaseReleaseSensitive_spec:
  assumes "slab_ok st" "lease_live st a"
  defines "st' \<equiv> LeaseReleaseSensitive (Some a) st"
  shows "slab_ok st'" "\<not> lease_live st' a" "set (lbuf (leases st' ! a)) \<subseteq> {0}"
proof -
  let ?l = "leases st ! a"
  let ?st = "st\<lparr>leases := (leases st)[a := ?l\<lparr>lbuf := replicate (length (lbuf ?l)) 0\<rparr>]\<rparr>"
  have a: "a < length (leases st)" "\<not> lreleased ?l" using assms(2) by (auto simp: lease_live_def)
  have ok: "slab_ok ?st" "lease_live ?st a"
    using assms(1) a by (auto simp: slab_ok_def nth_list_update lease_live_def
      dest!: set_update_subset_insert [THEN subsetD])
  have st': "st' = LeaseRelease (Some a) ?st" using a by (simp add: st'_def LeaseReleaseSensitive_def Let_def)
  then show "slab_ok st'" "\<not> lease_live st' a" using LeaseRelease_spec [OF ok] by auto
  show "set (lbuf (leases st' ! a)) \<subseteq> {0}" unfolding st' using a by (auto simp: LeaseRelease_def Let_def)
qed

section \<open>The pool as a lease provider\<close>

text \<open>What a user of a pool relies on: an acquired item was held by nobody, and a release ends only its own hold.\<close>

locale lease_provider =
  fixes inv :: "'s \<Rightarrow> bool" and live :: "'s \<Rightarrow> 'a \<Rightarrow> bool" and capacity :: "'s \<Rightarrow> 'a \<Rightarrow> nat"
    and acquire :: "int \<Rightarrow> 'c \<Rightarrow> 's \<Rightarrow> 'a option \<times> 's" and release :: "'a option \<Rightarrow> 's \<Rightarrow> 's"
  assumes acquire: "inv s \<Longrightarrow> acquire n pick s = (Some a, s') \<Longrightarrow>
      inv s' \<and> \<not> live s a \<and> (\<forall>x. live s' x \<longleftrightarrow> x = a \<or> live s x) \<and> nat n \<le> capacity s' a"
    and acquire_fail: "acquire n pick s = (None, s') \<Longrightarrow> s' = s"
    and release: "inv s \<Longrightarrow> live s a \<Longrightarrow>
      inv (release (Some a) s) \<and> (\<forall>x. live (release (Some a) s) x \<longleftrightarrow> x \<noteq> a \<and> live s x)"
begin

text \<open>A client acquires, or releases the \<open>k\<close>-th item it holds.\<close>

fun client_step :: "(int \<times> 'c) + nat \<Rightarrow> 's \<times> 'a list \<Rightarrow> 's \<times> 'a list" where
  "client_step (Inl (n, pick)) (s, held) =
     (case acquire n pick s of (Some a, s') \<Rightarrow> (s', a # held) | (None, s') \<Rightarrow> (s', held))"
| "client_step (Inr k) (s, held) =
     (if k < length held then (release (Some (held ! k)) s, take k held @ drop (Suc k) held) else (s, held))"

definition owns :: "'s \<times> 'a list \<Rightarrow> bool" where
  "owns p \<longleftrightarrow> inv (fst p) \<and> distinct (snd p) \<and> set (snd p) \<subseteq> {a. live (fst p) a}"

lemma client_step_owns:
  assumes "owns (s, held)"
  shows "owns (client_step act (s, held))"
proof (cases act)
  case (Inl r)
  then show ?thesis
    using assms by (cases r) (auto simp: owns_def split: option.splits prod.splits dest: acquire acquire_fail)
next
  case (Inr k)
  show ?thesis
  proof (cases "k < length held")
    case True
    then have h: "held = take k held @ held ! k # drop (Suc k) held" by (simp add: id_take_nth_drop)
    have d: "distinct (take k held @ held ! k # drop (Suc k) held)" and sub: "set held \<subseteq> {a. live s a}"
      using assms h by (auto simp: owns_def)
    have "live s (held ! k)" using sub nth_mem [OF True] by blast
    moreover have "set (take k held @ drop (Suc k) held) \<subseteq> {a. live s a}"
      using sub by (auto dest: in_set_takeD in_set_dropD)
    ultimately show ?thesis
      using release [of s "held ! k"] assms True Inr d by (auto simp: owns_def)
  qed (use assms Inr in simp)
qed

lemma clients_own: "owns (s, held) \<Longrightarrow> owns (foldl (\<lambda>p act. client_step act p) (s, held) acts)"
proof (induction acts arbitrary: s held)
  case (Cons act acts)
  then show ?case
    using client_step_owns [of s held act] by (cases "client_step act (s, held)") simp
qed simp

end

interpretation lease_pool: lease_provider slab_ok lease_live lease_cap AcquireLease LeaseRelease
proof
  fix st st' :: slab_state and n a and pick :: "nat option"
  assume st: "slab_ok st" and acq: "AcquireLease n pick st = (Some a, st')"
  then have "0 \<le> n" by (auto simp: AcquireLease_def split: if_splits)
  from AcquireLease_spec [OF st this, of pick] acq
  show "slab_ok st' \<and> \<not> lease_live st a \<and> (\<forall>x. lease_live st' x \<longleftrightarrow> x = a \<or> lease_live st x) \<and>
    nat n \<le> lease_cap st' a" by auto
next
  show "AcquireLease n pick st = (None, st') \<Longrightarrow> st' = st" for n pick st st'
    by (auto simp: AcquireLease_def new_lease_def Let_def split: if_splits option.splits)
qed (simp add: LeaseRelease_spec)

text \<open>The clients of the lease pool: each action acquires \<open>n\<close> bytes or releases a lease that is held.\<close>

fun lease_step :: "(int \<times> nat option) + nat \<Rightarrow> slab_state \<times> nat list \<Rightarrow> slab_state \<times> nat list" where
  "lease_step (Inl (n, pick)) (st, held) =
     (case AcquireLease n pick st of (Some a, st') \<Rightarrow> (st', a # held) | (None, st') \<Rightarrow> (st', held))"
| "lease_step (Inr k) (st, held) =
     (if k < length held then (LeaseRelease (Some (held ! k)) st, take k held @ drop (Suc k) held) else (st, held))"

definition lease_run :: "((int \<times> nat option) + nat) list \<Rightarrow> slab_state \<times> nat list" where
  "lease_run acts = foldl (\<lambda>p act. lease_step act p) (slab_init, []) acts"

lemma lease_step_client: "lease_step = lease_pool.client_step"
proof (intro ext)
  show "lease_step act p = lease_pool.client_step act p" for act p
    by (cases p; cases act) (auto split: prod.splits option.splits)
qed

section \<open>Properties\<close>

text \<open>
  C30. Leases are held exclusively: after any sequence of acquisitions and of releases by the holder,
  whatever items the pools choose to hand out, no lease is held twice, every held lease is live, and
  the pools retain only released leases of their own size class.
\<close>

theorem lease_exclusive:
  "slab_ok (fst (lease_run acts)) \<and> distinct (snd (lease_run acts)) \<and>
   set (snd (lease_run acts)) \<subseteq> {a. lease_live (fst (lease_run acts)) a}"
  using lease_pool.clients_own [of slab_init "[]" acts]
  by (simp add: lease_run_def lease_step_client lease_pool.owns_def slab_ok_init)

text \<open>
  \<open>AcquireLease\<close> answers a lease from which \<open>Bytes\<close> hands out the requested bytes, whose slab is
  at most twice the request (or the smallest slab) when the request is pooled at all, and leaves every
  lease that is in use as it was.
\<close>

theorem AcquireLease_fits:
  assumes "slab_ok st" "0 \<le> n"
  shows "\<exists>a st' bs. AcquireLease n pick st = (Some a, st') \<and> LeaseBytes (Some a) n st' = Some bs \<and>
    int (length bs) = n \<and> (n \<le> int maxPooled \<longrightarrow> lease_cap st' a \<le> max (2 * nat n) (slab_size 0)) \<and>
    (\<forall>x. lease_live st x \<longrightarrow> x \<noteq> a \<and> leases st' ! x = leases st ! x)"
proof -
  from AcquireLease_spec [OF assms, of pick] obtain a st' where a: "AcquireLease n pick st = (Some a, st')"
    "\<not> lease_live st a" "lease_live st' a" "\<forall>x. lease_live st x \<longrightarrow> leases st' ! x = leases st ! x"
    "nat n \<le> lease_cap st' a" "n \<le> int maxPooled \<longrightarrow> lease_cap st' a \<le> max (2 * nat n) (slab_size 0)"
    by blast
  then have "LeaseBytes (Some a) n st' = Some (take (nat n) (lbuf (leases st' ! a)))"
    "int (length (take (nat n) (lbuf (leases st' ! a)))) = n"
    using assms(2) by (auto simp: LeaseBytes_def lease_live_def lease_cap_def)
  then show ?thesis using a by blast
qed

theorem AcquireLease_fits_witness:
  "\<exists>a st' bs. AcquireLease 300 None slab_init = (Some a, st') \<and> LeaseBytes (Some a) 300 st' = Some bs \<and>
    int (length bs) = 300 \<and> lease_cap st' a \<le> max (2 * nat 300) (slab_size 0)"
  using AcquireLease_fits [OF slab_ok_init, of 300 None] by (auto simp: maxPooled_def maxClass_def)

text \<open>
  C37. A second \<open>Release\<close> by the same holder is harmless only while nobody has taken the lease again.
  Repeated at once it changes nothing; repeated after the pool has handed the same lease to another
  holder, it releases the other holder's lease: \<open>Bytes\<close> then fails for that holder, and the lease is in
  the pool while it is still held.
\<close>

theorem stale_release:
  assumes "slab_ok st" "lease_live st a" "AcquireLease n pick (LeaseRelease (Some a) st) = (Some a, st')"
  defines "stale \<equiv> LeaseRelease (Some a) st'"
  shows "LeaseRelease (Some a) (LeaseRelease (Some a) st) = LeaseRelease (Some a) st \<and>
    lease_live st' a \<and> LeaseBytes (Some a) m stale = None \<and>
    (0 \<le> lclass (leases st' ! a) \<longrightarrow> a \<in> set (leaseSlabs stale (nat (lclass (leases st' ! a)))))"
proof -
  let ?st = "LeaseRelease (Some a) st"
  have ok: "slab_ok ?st" "\<not> lease_live ?st a" using LeaseRelease_spec [OF assms(1,2)] by auto
  have len: "length (leases ?st) = length (leases st)" by (simp add: LeaseRelease_def Let_def)
  then have "lreleased (leases ?st ! a)" using ok(2) assms(2) by (simp add: lease_live_def)
  then have idem: "LeaseRelease (Some a) ?st = ?st" by (rule LeaseRelease_released)
  have live: "lease_live st' a" using lease_pool.acquire [OF ok(1) assms(3)] by blast
  then have "a < length (leases st')" "\<not> lreleased (leases st' ! a)" by (auto simp: lease_live_def)
  then show ?thesis
    using idem live by (auto simp: stale_def LeaseBytes_def LeaseRelease_def Let_def)
qed

theorem stale_release_witness:
  "\<exists>st st'. slab_ok st \<and> lease_live st 0 \<and> AcquireLease 10 (Some 0) (LeaseRelease (Some 0) st) = (Some 0, st') \<and>
     LeaseBytes (Some 0) 10 st' \<noteq> None \<and> LeaseBytes (Some 0) 10 (LeaseRelease (Some 0) st') = None"
proof -
  let ?l = "\<lparr>lbuf = replicate (slab_size 0) 0, lclass = 0, lreleased = False\<rparr>"
  let ?st = "slab_init\<lparr>leases := [?l]\<rparr>"
  have ok: "slab_ok ?st" "lease_live ?st 0"
    by (auto simp: slab_ok_def slab_init_def lease_live_def)
  have "classFor 10 = Some 0"
    by (simp add: classFor_def maxPooled_def maxClass_def minClass_def bits_Len.simps)
  then have acq: "AcquireLease 10 (Some 0) (LeaseRelease (Some 0) ?st) = (Some 0, ?st\<lparr>leaseSlabs := (\<lambda>_. [])\<rparr>)"
    by (simp add: AcquireLease_def LeaseRelease_def Let_def slab_init_def pool_get_def fun_eq_iff)
  have "LeaseBytes (Some 0) 10 (?st\<lparr>leaseSlabs := (\<lambda>_. [])\<rparr>) \<noteq> None"
    by (simp add: LeaseBytes_def slab_size_def minClass_def)
  then show ?thesis using ok acq stale_release [OF ok acq, of 10] by blast
qed

end
