(* ===== verification/Packet_Buffer.thy ===== *)
theory Packet_Buffer
  imports Slab_Pool
begin

text \<open>
  The packet buffer of \<open>internal/packet/buffer.go\<close>: headers are pushed in front of the payload, payload
  is appended behind it, and bytes are consumed from the front, all in one leased slab.

  A buffer has a single owner, so it is a value. \<open>Push\<close>, \<open>Append\<close> and \<open>Consume\<close> answer a slice of the
  buffer's memory: the model answers its offset and length, and \<open>BufferWrite\<close> is a store through such a
  slice. A nil receiver answers every method as a released buffer does.
\<close>

section \<open>State and operations\<close>

record Buffer =
  buf :: bytes
  blease :: "nat option"
  reserved :: int
  bstart :: int
  bend :: int
  blimit :: int
  breleased :: bool

definition maxInt :: int where "maxInt = 2 ^ 63 - 1"

definition BufferAcquire ::
  "int \<Rightarrow> int \<Rightarrow> nat option \<Rightarrow> slab_state \<Rightarrow> Buffer option \<times> slab_state" where
  "BufferAcquire res payloadCapacity pick st =
     (if res < 0 \<or> payloadCapacity < 0 \<or> res > maxInt - payloadCapacity then (None, st)
      else let limit = res + payloadCapacity in
        case AcquireLease limit pick st of
          (None, st') \<Rightarrow> (None, st')
        | (Some l, st') \<Rightarrow>
            (case LeaseBytes (Some l) limit st' of
               None \<Rightarrow> (None, LeaseRelease (Some l) st')
             | Some bs \<Rightarrow>
                 (Some \<lparr>buf = bs, blease = Some l, reserved = res, bstart = res, bend = res, blimit = limit,
                   breleased = False\<rparr>, st')))"

definition released_buffer :: Buffer where
  "released_buffer = \<lparr>buf = [], blease = None, reserved = 0, bstart = 0, bend = 0, blimit = 0, breleased = True\<rparr>"

definition BufferRelease :: "Buffer \<Rightarrow> slab_state \<Rightarrow> Buffer \<times> slab_state" where
  "BufferRelease b st =
     (if breleased b then (b, st) else (released_buffer, LeaseRelease (blease b) st))"

definition buffer_live :: "Buffer \<Rightarrow> bool" where
  "buffer_live b \<longleftrightarrow> \<not> breleased b"

definition availableHeader :: "Buffer \<Rightarrow> int" where
  "availableHeader b = (if bstart b > reserved b then 0 else bstart b)"

definition BufferPush :: "int \<Rightarrow> Buffer \<Rightarrow> (nat \<times> nat) option \<times> Buffer" where
  "BufferPush n b =
     (if \<not> buffer_live b \<or> n < 0 \<or> n > availableHeader b then (None, b)
      else let b' = b\<lparr>bstart := bstart b - n\<rparr> in (Some (nat (bstart b'), nat n), b'))"

definition BufferAppend :: "int \<Rightarrow> Buffer \<Rightarrow> (nat \<times> nat) option \<times> Buffer" where
  "BufferAppend n b =
     (if \<not> buffer_live b \<or> n < 0 \<or> n > blimit b - bend b then (None, b)
      else (Some (nat (bend b), nat n), b\<lparr>bend := bend b + n\<rparr>))"

definition BufferConsume :: "int \<Rightarrow> Buffer \<Rightarrow> bytes option \<times> Buffer" where
  "BufferConsume n b =
     (if \<not> buffer_live b \<or> n < 0 \<or> n > bend b - bstart b then (None, b)
      else (Some (slice (nat (bstart b)) (nat (bstart b + n)) (buf b)), b\<lparr>bstart := bstart b + n\<rparr>))"

definition BufferHeader :: "Buffer \<Rightarrow> bytes option" where
  "BufferHeader b =
     (if \<not> buffer_live b then None
      else if bstart b \<ge> reserved b then Some (slice (nat (reserved b)) (nat (reserved b)) (buf b))
      else Some (slice (nat (bstart b)) (nat (reserved b)) (buf b)))"

definition BufferPayload :: "Buffer \<Rightarrow> bytes option" where
  "BufferPayload b =
     (if \<not> buffer_live b then None
      else Some (slice (nat (max (bstart b) (reserved b))) (nat (bend b)) (buf b)))"

definition BufferBytes :: "Buffer \<Rightarrow> bytes option" where
  "BufferBytes b = (if \<not> buffer_live b then None else Some (slice (nat (bstart b)) (nat (bend b)) (buf b)))"

definition AvailableHeader :: "Buffer \<Rightarrow> int option" where
  "AvailableHeader b = (if \<not> buffer_live b then None else Some (availableHeader b))"

definition AvailablePayload :: "Buffer \<Rightarrow> int option" where
  "AvailablePayload b = (if \<not> buffer_live b then None else Some (blimit b - bend b))"

definition BufferWrite :: "nat \<Rightarrow> bytes \<Rightarrow> Buffer \<Rightarrow> Buffer" where
  "BufferWrite off bs b = b\<lparr>buf := put_at off bs (buf b)\<rparr>"

section \<open>Invariant and the byte-string view\<close>

definition buffer_ok :: "Buffer \<Rightarrow> bool" where
  "buffer_ok b \<longleftrightarrow> buffer_live b \<longrightarrow>
     0 \<le> bstart b \<and> bstart b \<le> bend b \<and> 0 \<le> reserved b \<and> reserved b \<le> bend b \<and> bend b \<le> blimit b \<and>
     blimit b = int (length (buf b))"

lemma BufferAcquire_spec:
  assumes "slab_ok st" "0 \<le> res" "0 \<le> cap" "res + cap \<le> maxInt"
  obtains b st' where "BufferAcquire res cap pick st = (Some b, st')" "buffer_ok b" "slab_ok st'"
    "BufferBytes b = Some []" "AvailableHeader b = Some res" "AvailablePayload b = Some cap"
proof -
  obtain l st' where l: "AcquireLease (res + cap) pick st = (Some l, st')" "slab_ok st'" "lease_live st' l"
    "nat (res + cap) \<le> lease_cap st' l"
    using AcquireLease_spec [OF assms(1), of "res + cap" pick] assms(2,3) by auto
  then have bs: "LeaseBytes (Some l) (res + cap) st' = Some (take (nat (res + cap)) (lbuf (leases st' ! l)))"
    using assms(2,3) by (simp add: LeaseBytes_def lease_live_def lease_cap_def)
  show ?thesis
    using l bs assms(2-) by (intro that)
      (auto simp: BufferAcquire_def Let_def buffer_ok_def buffer_live_def BufferBytes_def AvailableHeader_def
        availableHeader_def AvailablePayload_def lease_cap_def slice_def)
qed

text \<open>The buffer that is handed out, with the lease it holds.\<close>

lemma BufferAcquire_fresh:
  assumes "slab_ok st" "0 \<le> res" "0 \<le> cap" "res + cap \<le> maxInt"
  obtains l bs st' where
    "BufferAcquire res cap pick st =
       (Some \<lparr>buf = bs, blease = Some l, reserved = res, bstart = res, bend = res, blimit = res + cap, breleased = False\<rparr>, st')"
    "length bs = nat (res + cap)" "slab_ok st'" "slab_ok (LeaseRelease (Some l) st')" "lease_live (LeaseRelease (Some l) st') = lease_live st"
proof -
  obtain l st' where l: "AcquireLease (res + cap) pick st = (Some l, st')" "slab_ok st'" "lease_live st' l" "nat (res + cap) \<le> lease_cap st' l"
    and live: "\<not> lease_live st l" "\<forall>x. lease_live st' x \<longleftrightarrow> x = l \<or> lease_live st x"
    using AcquireLease_spec [OF assms(1), of "res + cap" pick] assms(2,3) by auto
  have "lease_live (LeaseRelease (Some l) st') = lease_live st" using live LeaseRelease_spec(2) [OF l(2,3)] by (auto simp: fun_eq_iff)
  moreover have "LeaseBytes (Some l) (res + cap) st' = Some (take (nat (res + cap)) (lbuf (leases st' ! l)))"
    using l assms(2,3) by (simp add: LeaseBytes_def lease_live_def lease_cap_def)
  ultimately show ?thesis
    using l LeaseRelease_spec(1) [OF l(2,3)] assms(2-) by (intro that) (auto simp: BufferAcquire_def Let_def lease_cap_def)
qed

lemma nat_split_ok:
  assumes "buffer_ok b" "buffer_live b"
  shows "nat (bstart b) \<le> nat (bend b)" "nat (bend b) \<le> length (buf b)" "nat (reserved b) \<le> nat (bend b)"
  using assms by (auto simp: buffer_ok_def)

lemma slice_put_end:
  "i \<le> j \<Longrightarrow> j + length xs \<le> length bs \<Longrightarrow> slice i (j + length xs) (put_at j xs bs) = slice i j bs @ xs"
proof -
  assume "i \<le> j" "j + length xs \<le> length bs"
  then have "take (j + length xs) (put_at j xs bs) = take j bs @ xs" by (simp add: put_at_def)
  then show ?thesis using \<open>i \<le> j\<close> \<open>j + length xs \<le> length bs\<close> by (simp add: slice_def flip: drop_take)
qed

lemma slice_put_front:
  "i + length xs \<le> j \<Longrightarrow> j \<le> length bs \<Longrightarrow> slice i j (put_at i xs bs) = xs @ slice (i + length xs) j bs"
  by (simp add: slice_def put_at_def min_def)

lemma slice_split: "i \<le> k \<Longrightarrow> k \<le> j \<Longrightarrow> slice i j bs = slice i k bs @ slice k j bs"
proof -
  assume "i \<le> k" "k \<le> j"
  then have "j - i = (k - i) + (j - k)" "drop k bs = drop (k - i) (drop i bs)" by simp_all
  then show ?thesis by (simp only: slice_def take_add)
qed

lemma drop_slice: "drop k (slice i j bs) = slice (i + k) j bs"
  by (simp add: slice_def drop_take add.commute)

section \<open>Properties\<close>

text \<open>
  A live packet buffer is a byte string that grows at both ends: writing \<open>xs\<close> through the slice that
  \<open>Append\<close> answers adds it at the end, writing it through the slice that \<open>Push\<close> answers adds it at
  the front, and \<open>Consume\<close> removes from the front exactly the bytes it answers. Each of them succeeds
  exactly when there is room (or there are enough bytes), and each keeps the buffer well-formed.
\<close>

theorem buffer_ops_spec:
  assumes "buffer_ok b" "BufferBytes b = Some bs"
  shows "(case BufferAppend (int (length xs)) b of
      (None, b') \<Rightarrow> b' = b \<and> the (AvailablePayload b) < int (length xs)
    | (Some (off, n), b') \<Rightarrow> n = length xs \<and> buffer_ok (BufferWrite off xs b') \<and>
        BufferBytes (BufferWrite off xs b') = Some (bs @ xs))
   \<and> (case BufferPush (int (length xs)) b of
      (None, b') \<Rightarrow> b' = b \<and> the (AvailableHeader b) < int (length xs)
    | (Some (off, n), b') \<Rightarrow> n = length xs \<and> buffer_ok (BufferWrite off xs b') \<and>
        BufferBytes (BufferWrite off xs b') = Some (xs @ bs))
   \<and> (case BufferConsume (int k) b of
      (None, b') \<Rightarrow> b' = b \<and> length bs < k
    | (Some out, b') \<Rightarrow> buffer_ok b' \<and> length out = k \<and> BufferBytes b' = Some (drop k bs) \<and> bs = out @ drop k bs)"
proof -
  have live: "buffer_live b" and bs: "bs = slice (nat (bstart b)) (nat (bend b)) (buf b)"
    using assms(2) by (auto simp: BufferBytes_def split: if_splits)
  have ok: "0 \<le> bstart b" "bstart b \<le> bend b" "0 \<le> reserved b" "reserved b \<le> bend b" "bend b \<le> blimit b"
    "blimit b = int (length (buf b))" using assms(1) live by (auto simp: buffer_ok_def)
  have "nat (bend b + int (length xs)) = nat (bend b) + length xs" using ok by simp
  then have A: "case BufferAppend (int (length xs)) b of
      (None, b') \<Rightarrow> b' = b \<and> the (AvailablePayload b) < int (length xs)
    | (Some (off, n), b') \<Rightarrow> n = length xs \<and> buffer_ok (BufferWrite off xs b') \<and>
        BufferBytes (BufferWrite off xs b') = Some (bs @ xs)"
    using live ok by (auto simp: BufferAppend_def AvailablePayload_def BufferWrite_def buffer_ok_def
        buffer_live_def BufferBytes_def bs nat_add_distrib slice_put_end)
  have P: "case BufferPush (int (length xs)) b of
      (None, b') \<Rightarrow> b' = b \<and> the (AvailableHeader b) < int (length xs)
    | (Some (off, n), b') \<Rightarrow> n = length xs \<and> buffer_ok (BufferWrite off xs b') \<and>
        BufferBytes (BufferWrite off xs b') = Some (xs @ bs)"
    using live ok slice_put_front [of "nat (bstart b) - length xs" xs "nat (bend b)" "buf b"]
    by (auto simp: BufferPush_def AvailableHeader_def availableHeader_def BufferWrite_def buffer_ok_def
        buffer_live_def BufferBytes_def bs Let_def nat_diff_distrib)
  have k: "nat (bstart b + int k) = nat (bstart b) + k" using ok by simp
  have C: "case BufferConsume (int k) b of
      (None, b') \<Rightarrow> b' = b \<and> length bs < k
    | (Some out, b') \<Rightarrow> buffer_ok b' \<and> length out = k \<and> BufferBytes b' = Some (drop k bs) \<and> bs = out @ drop k bs"
    using live ok slice_split [of "nat (bstart b)" "nat (bstart b) + k" "nat (bend b)" "buf b"]
    by (auto simp: BufferConsume_def buffer_ok_def buffer_live_def BufferBytes_def bs k drop_slice)
  show ?thesis using A P C by blast
qed

theorem buffer_ops_spec_witness:
  "let b = \<lparr>buf = [9, 9, 1, 2, 9], blease = Some 0, reserved = 2, bstart = 2, bend = 4, blimit = 5, breleased = False\<rparr> in
     buffer_ok b \<and> BufferBytes b = Some [1, 2] \<and>
     (case BufferPush 1 b of (None, _) \<Rightarrow> False
      | (Some (off, n), b') \<Rightarrow> BufferBytes (BufferWrite off [7] b') = Some ([7] @ [1, 2]))"
proof -
  let ?b = "\<lparr>buf = [9, 9, 1, 2, 9], blease = Some 0, reserved = 2, bstart = 2, bend = 4, blimit = 5, breleased = False\<rparr>"
  have ok: "buffer_ok ?b" "BufferBytes ?b = Some [1, 2]"
    by (simp_all add: buffer_ok_def buffer_live_def BufferBytes_def slice_def)
  have "BufferPush 1 ?b = (Some (1, 1), ?b\<lparr>bstart := 1\<rparr>)"
    by (simp add: BufferPush_def buffer_live_def availableHeader_def)
  then show ?thesis using ok buffer_ops_spec [OF ok, of "[7]" 0] by (simp add: Let_def)
qed

end
