(* ===== verification/Iterators.thy ===== *)
theory Iterators
  imports IVNP_Prelude
begin

text \<open>
  The contract of the block iterators. Tunnel delivery blocks, SSU2 and NTCP2 blocks, garlic cloves and
  mapping entries are all read by an iterator whose \<open>Next\<close> answers an item, the end, or an error, and by
  a loop that calls it until the end. \<open>drain\<close> is that loop, with fuel; the locales state what the loop
  needs of \<open>Next\<close>: that it consumes input, so that the loop ends, and that it undoes the writer.
\<close>

fun drain :: "('s \<Rightarrow> ('a \<times> 's) option result) \<Rightarrow> nat \<Rightarrow> 's \<Rightarrow> 'a list result option" where
  "drain nxt 0 s = None"
| "drain nxt (Suc fuel) s =
     (case nxt s of
        Inl e \<Rightarrow> Some (Inl e)
      | Inr None \<Rightarrow> Some (Inr [])
      | Inr (Some (a, s')) \<Rightarrow>
          (case drain nxt fuel s' of
             None \<Rightarrow> None
           | Some (Inl e) \<Rightarrow> Some (Inl e)
           | Some (Inr as) \<Rightarrow> Some (Inr (a # as))))"

locale item_iterator =
  fixes nxt :: "'s \<Rightarrow> ('a \<times> 's) option result" and sz :: "'s \<Rightarrow> nat"
  assumes shrinks: "nxt s = Inr (Some (a, s')) \<Longrightarrow> sz s' < sz s"
begin

text \<open>The loop over the iterator ends: fuel above the size of the input is enough.\<close>

lemma drain_total: "sz s < fuel \<Longrightarrow> \<exists>r. drain nxt fuel s = Some r"
proof (induction fuel arbitrary: s)
  case (Suc fuel)
  show ?case
  proof (cases "nxt s")
    case (Inr o')
    show ?thesis
    proof (cases o')
      case (Some p)
      then obtain a s' where p: "nxt s = Inr (Some (a, s'))" using Inr by (cases p) auto
      then have "sz s' < fuel" using shrinks [OF p] Suc.prems by simp
      from Suc.IH [OF this] show ?thesis by (auto simp: p split: sum.splits)
    qed (simp add: Inr)
  qed simp
qed simp

lemma drain_fuel: "sz s < fuel \<Longrightarrow> sz s < fuel' \<Longrightarrow> drain nxt fuel s = drain nxt fuel' s"
proof (induction fuel arbitrary: s fuel')
  case (Suc fuel)
  then obtain g where g: "fuel' = Suc g" by (cases fuel') auto
  have "drain nxt fuel s' = drain nxt g s'" if "nxt s = Inr (Some (a, s'))" for a s'
    using shrinks [OF that] Suc g by (intro Suc.IH) auto
  then show ?case by (auto simp: g split: sum.splits option.splits)
qed simp

end

text \<open>
  An iterator over bytes that reads what \<open>enc\<close> writes. \<open>view\<close> is the item as the reader sees it, which
  may leave out fields that the format does not carry.
\<close>

locale item_codec = item_iterator nxt length
  for nxt :: "bytes \<Rightarrow> ('a \<times> bytes) option result" +
  fixes wf :: "'b \<Rightarrow> bool" and enc :: "'b \<Rightarrow> bytes" and view :: "'b \<Rightarrow> 'a"
  assumes next_end: "nxt [] = Inr None"
    and next_enc: "wf b \<Longrightarrow> nxt (enc b @ rest) = Inr (Some (view b, rest))"
begin

lemma enc_nonempty: "wf b \<Longrightarrow> enc b \<noteq> []"
  using next_enc [of b "[]"] next_end by auto

text \<open>A concatenation of encoded items is read back item by item, to its end.\<close>

lemma drain_encoded:
  "list_all wf bs \<Longrightarrow> length (concat (map enc bs)) < fuel \<Longrightarrow>
   drain nxt fuel (concat (map enc bs)) = Some (Inr (map view bs))"
proof (induction bs arbitrary: fuel)
  case Nil
  then show ?case by (cases fuel) (auto simp: next_end)
next
  case (Cons b bs)
  then obtain g where g: "fuel = Suc g" by (cases fuel) auto
  moreover have "length (concat (map enc bs)) < g"
    using Cons.prems g enc_nonempty [of b] by (cases "enc b") auto
  ultimately show ?case using Cons by (simp add: next_enc)
qed

end

text \<open>
  An iterator that also counts down the announced number of items. It reads what \<open>enc\<close> writes and leaves what
  follows the last item alone.
\<close>

locale counted_reader =
  fixes nxt :: "bytes \<times> u8 \<Rightarrow> ('a \<times> bytes \<times> u8) option result" and wf :: "'b \<Rightarrow> bool" and enc :: "'b \<Rightarrow> bytes" and view :: "'b \<Rightarrow> 'a"
  assumes count_end: "nxt (s, 0) = Inr None"
    and next_counted: "wf b \<Longrightarrow> k \<noteq> 0 \<Longrightarrow> nxt (enc b @ s, k) = Inr (Some (view b, (s, k - 1)))"
begin

lemma drain_counted_items:
  "list_all wf bs \<Longrightarrow> length bs \<le> 255 \<Longrightarrow> length bs < fuel \<Longrightarrow>
   drain nxt fuel (concat (map enc bs) @ rest, of_nat (length bs)) = Some (Inr (map view bs))"
proof (induction bs arbitrary: fuel)
  case Nil
  then show ?case by (cases fuel) (simp_all add: count_end)
next
  case (Cons b bs)
  then obtain g where g: "fuel = Suc g" by (cases fuel) auto
  let ?k = "of_nat (length (b # bs)) :: u8"
  have "unat ?k = length (b # bs)" using Cons.prems by (intro unat_of_nat_u8) simp
  then have "?k \<noteq> 0" by auto
  then have "nxt (enc b @ concat (map enc bs) @ rest, ?k) = Inr (Some (view b, (concat (map enc bs) @ rest, ?k - 1)))"
    using Cons.prems by (intro next_counted) simp_all
  moreover have "?k - 1 = of_nat (length bs)" by simp
  ultimately show ?case using Cons g by (simp del: of_nat_Suc)
qed

end

text \<open>The converse: an iterator that accepts nothing but encodings, so that what the loop read determines the input.\<close>

locale item_canonical =
  fixes nxt :: "bytes \<Rightarrow> ('a \<times> bytes) option result" and wf :: "'a \<Rightarrow> bool" and enc :: "'a \<Rightarrow> bytes"
  assumes next_canonical: "nxt s = Inr (Some (a, s')) \<Longrightarrow> wf a \<and> s = enc a @ s'"
    and next_done: "nxt s = Inr None \<Longrightarrow> s = []"
begin

lemma drain_canonical: "drain nxt fuel s = Some (Inr as) \<Longrightarrow> s = concat (map enc as) \<and> list_all wf as"
proof (induction fuel arbitrary: s as)
  case (Suc fuel)
  show ?case
  proof (cases "nxt s")
    case (Inr o')
    show ?thesis
    proof (cases o')
      case None
      then show ?thesis using Suc.prems Inr next_done [of s] by auto
    next
      case (Some p)
      then obtain a s' where n: "nxt s = Inr (Some (a, s'))" using Inr by (cases p) auto
      then obtain as' where "drain nxt fuel s' = Some (Inr as')" "as = a # as'"
        using Suc.prems by (auto split: option.splits sum.splits)
      then show ?thesis using next_canonical [OF n] Suc.IH by simp
    qed
  qed (use Suc.prems in simp)
qed simp

end

end
