(* ===== verification/Tunnel_Block.thy ===== *)
theory Tunnel_Block
  imports Iterators
begin

text \<open>
  Delivery blocks of the tunnel layer: the reader of \<open>dataplane/internal/tunnel/blocks.go\<close> and the writer
  \<open>marshalBlock\<close> of \<open>gateway.go\<close>. A gateway packs blocks one after another into a tunnel message, and the
  endpoint reads them back with the iterator.
\<close>

section \<open>Blocks\<close>

type_synonym DeliveryType = u8

abbreviation DeliveryLocal :: DeliveryType where "DeliveryLocal \<equiv> 0"
abbreviation DeliveryTunnel :: DeliveryType where "DeliveryTunnel \<equiv> 1"
abbreviation DeliveryRouter :: DeliveryType where "DeliveryRouter \<equiv> 2"

record Block =
  Delivery :: DeliveryType
  Gateway :: bytes
  TunnelID :: u32
  MessageID :: u32
  Fragment :: u8
  FollowOn :: bool
  Last :: bool
  Data :: bytes

abbreviation zero_hash :: bytes where "zero_hash \<equiv> replicate 32 0"

definition zero_Block :: Block where
  "zero_Block = \<lparr>Delivery = 0, Gateway = zero_hash, TunnelID = 0, MessageID = 0, Fragment = 0,
     FollowOn = False, Last = False, Data = []\<rparr>"

section \<open>The reader\<close>

text \<open>
  The iterator is the rest of the payload. \<open>Next\<close> is split at the point where its branches meet again:
  \<open>block_data\<close> reads the length and the data of a block whose header was read.
\<close>

definition block_data :: "Block \<Rightarrow> bytes \<Rightarrow> (Block \<times> bytes) option result" where
  "block_data out rest =
     (if length rest < 2 then Inl ErrShortBuffer
      else let n = unat (Uint16 rest); rest = drop 2 rest in
        if n = 0 then Inl ErrBlock
        else if n > length rest then Inl ErrBlock
        else Inr (Some (out\<lparr>Data := take n rest\<rparr>, drop n rest)))"

definition block_follow_on :: "u8 \<Rightarrow> Block \<Rightarrow> bytes \<Rightarrow> (Block \<times> bytes) option result" where
  "block_follow_on flag out rest =
     (if length rest < 6 then Inl ErrShortBuffer
      else let out = out\<lparr>MessageID := Uint32 rest, Fragment := drop_bit 1 flag AND 0x3f\<rparr> in
        if Fragment out = 0 then Inl ErrBlock
        else block_data (out\<lparr>Last := (flag AND 1 \<noteq> 0)\<rparr>) (drop 4 rest))"

definition block_target :: "Block \<Rightarrow> bytes \<Rightarrow> (Block \<times> bytes) result" where
  "block_target out rest =
     (if Delivery out = DeliveryTunnel then
        if length rest < 36 then Inl ErrShortBuffer
        else let out = out\<lparr>TunnelID := Uint32 rest\<rparr> in
          if TunnelID out = 0 then Inl ErrBlock
          else Inr (out\<lparr>Gateway := slice 4 36 rest\<rparr>, drop 36 rest)
      else if Delivery out = DeliveryRouter then
        if length rest < 32 then Inl ErrShortBuffer
        else Inr (out\<lparr>Gateway := take 32 rest\<rparr>, drop 32 rest)
      else Inr (out, rest))"

definition block_first :: "u8 \<Rightarrow> Block \<Rightarrow> bytes \<Rightarrow> (Block \<times> bytes) option result" where
  "block_first flag out rest =
     (if flag AND 0x17 \<noteq> 0 then Inl ErrBlock
      else let out = out\<lparr>Delivery := drop_bit 5 flag AND 3\<rparr> in
        if Delivery out = 3 then Inl ErrBlock
        else bindR (block_target out rest) (\<lambda>(out, rest).
          if flag AND 0x08 \<noteq> 0 then
            if length rest < 4 then Inl ErrShortBuffer
            else block_data (out\<lparr>MessageID := Uint32 rest, Last := False\<rparr>) (drop 4 rest)
          else block_data out rest))"

definition BlockNext :: "bytes \<Rightarrow> (Block \<times> bytes) option result" where
  "BlockNext rest =
     (case rest of
        [] \<Rightarrow> Inr None
      | flag # rest \<Rightarrow>
          let out = zero_Block\<lparr>FollowOn := (flag AND 0x80 \<noteq> 0), Last := True\<rparr> in
          if FollowOn out then block_follow_on flag out rest else block_first flag out rest)"

section \<open>The writer\<close>

definition firstBlockLen :: "Block \<Rightarrow> bool \<Rightarrow> nat result" where
  "firstBlockLen block fragmented =
     (if Delivery block > DeliveryRouter \<or> FollowOn block then Inl ErrGatewayBlock
      else if Delivery block = DeliveryTunnel \<and> TunnelID block = 0 then Inl ErrGatewayBlock
      else Inr (1 + 2
        + (if Delivery block = DeliveryTunnel then 36 else if Delivery block = DeliveryRouter then 32 else 0)
        + (if fragmented then 4 else 0)))"

definition blockLen :: "Block \<Rightarrow> nat result" where
  "blockLen block =
     (if length (Data block) = 0 \<or> length (Data block) > 2 ^ 16 - 1 then Inl ErrGatewayBlock
      else if FollowOn block then
        if Fragment block = 0 \<or> Fragment block > 63 then Inl ErrGatewayBlock
        else Inr (1 + 4 + 2 + length (Data block))
      else bindR (firstBlockLen block (\<not> Last block)) (\<lambda>n. Inr (n + length (Data block))))"

text \<open>\<open>dst\<close> is the slice written to; the result is its new contents and the number of bytes written.\<close>

definition marshalBlock :: "bytes \<Rightarrow> Block \<Rightarrow> (bytes \<times> nat) result" where
  "marshalBlock dst block =
     (case blockLen block of
        Inl _ \<Rightarrow> Inl ErrGatewayBlock
      | Inr n \<Rightarrow>
          if length dst < n then Inl ErrGatewayBlock
          else if FollowOn block then
            let flag = 0x80 OR push_bit 1 (Fragment block);
                flag = (if Last block then flag OR 1 else flag);
                dst = dst[0 := flag];
                dst = put_at 1 (PutUint32 (MessageID block)) dst;
                dst = put_at 5 (PutUint16 (of_nat (length (Data block)))) dst;
                dst = put_at 7 (Data block) dst
            in Inr (dst, n)
          else
            let fragmented = (\<not> Last block);
                flag = push_bit 5 (Delivery block);
                flag = (if fragmented then flag OR 0x08 else flag);
                dst = dst[0 := flag];
                (dst, off) =
                  (if Delivery block = DeliveryTunnel
                   then (put_at 5 (Gateway block) (put_at 1 (PutUint32 (TunnelID block)) dst), 37)
                   else if Delivery block = DeliveryRouter then (put_at 1 (Gateway block) dst, 33)
                   else (dst, 1));
                (dst, off) =
                  (if fragmented then (put_at off (PutUint32 (MessageID block)) dst, off + 4) else (dst, off));
                dst = put_at off (PutUint16 (of_nat (length (Data block)))) dst;
                dst = put_at (off + 2) (Data block) dst
            in Inr (dst, n))"

section \<open>The encoding as a byte string\<close>

definition block_flag :: "Block \<Rightarrow> u8" where
  "block_flag b =
     (if FollowOn b then (0x80 OR push_bit 1 (Fragment b)) OR (if Last b then 1 else 0)
      else push_bit 5 (Delivery b) OR (if Last b then 0 else 0x08))"

definition block_header :: "Block \<Rightarrow> bytes" where
  "block_header b =
     (if FollowOn b then PutUint32 (MessageID b)
      else (if Delivery b = DeliveryTunnel then PutUint32 (TunnelID b) @ Gateway b
            else if Delivery b = DeliveryRouter then Gateway b else [])
        @ (if Last b then [] else PutUint32 (MessageID b)))"

definition block_bytes :: "Block \<Rightarrow> bytes" where
  "block_bytes b = [block_flag b] @ block_header b @ PutUint16 (of_nat (length (Data b))) @ Data b"

text \<open>The block a reader sees: the fields the format does not carry are zero.\<close>

definition block_view :: "Block \<Rightarrow> Block" where
  "block_view b =
     (if FollowOn b
      then zero_Block\<lparr>FollowOn := True, Last := Last b, MessageID := MessageID b, Fragment := Fragment b, Data := Data b\<rparr>
      else zero_Block\<lparr>Last := Last b, Delivery := Delivery b, Data := Data b,
        Gateway := (if Delivery b = DeliveryLocal then zero_hash else Gateway b),
        TunnelID := (if Delivery b = DeliveryTunnel then TunnelID b else 0),
        MessageID := (if Last b then 0 else MessageID b)\<rparr>)"

definition block_wf :: "Block \<Rightarrow> bool" where
  "block_wf b \<longleftrightarrow> length (Gateway b) = 32 \<and> (\<exists>n. blockLen b = Inr n)"

lemma block_wf_cases:
  assumes "block_wf b"
  obtains (follow) "FollowOn b" "Fragment b \<noteq> 0" "unat (Fragment b) < 64"
  | (first) d where "\<not> FollowOn b" "Delivery b = d" "d = 0 \<or> d = 1 \<and> TunnelID b \<noteq> 0 \<or> d = 2"
proof -
  have "d = 0 \<or> d = 1 \<or> d = 2" if "\<not> d > 2" for d :: u8
  proof -
    have "unat d \<le> 2" using that by (simp add: word_less_nat_alt)
    then have "unat d = unat (0 :: u8) \<or> unat d = unat (1 :: u8) \<or> unat d = unat (2 :: u8)" by auto
    then show ?thesis by (simp only: word_unat_eq_iff)
  qed
  then show ?thesis
    using assms that by (auto simp: block_wf_def blockLen_def firstBlockLen_def word_less_nat_alt split: if_splits)
qed

lemma block_wf_data:
  assumes "block_wf b"
  shows "Data b \<noteq> []" "length (Data b) < 65536" "length (Gateway b) = 32"
  using assms by (auto simp: block_wf_def blockLen_def split: if_splits)

lemma length_block_bytes:
  assumes "length (Gateway b) = 32" "blockLen b = Inr n"
  shows "length (block_bytes b) = n"
  using assms
  by (auto simp: block_bytes_def block_header_def blockLen_def firstBlockLen_def bindR_eq_Inr split: if_splits)

lemma marshalBlock_eq:
  assumes "length (Gateway b) = 32" "blockLen b = Inr n" "n \<le> length dst"
  shows "marshalBlock dst b = Inr (block_bytes b @ drop n dst, n)"
proof -
  have len: "length (block_bytes b) = n" using assms(1,2) by (rule length_block_bytes)
  then have "dst \<noteq> []" using assms(3) by (auto simp: block_bytes_def)
  have "put_at 0 (block_bytes b) dst = block_bytes b @ drop n dst"
    using len assms(3) by (simp add: put_at_0)
  moreover have "marshalBlock dst b = Inr (put_at 0 (block_bytes b) dst, n)"
    using assms len \<open>dst \<noteq> []\<close>
    by (auto simp: marshalBlock_def block_bytes_def block_header_def block_flag_def Let_def list_update_put_at
        put_at_put_at [where m = 0])
  ultimately show ?thesis by simp
qed

section \<open>Reading what was written\<close>

lemma block_data_written:
  assumes "Data b \<noteq> []" "length (Data b) < 65536"
  shows "block_data out (PutUint16 (of_nat (length (Data b))) @ Data b @ rest) =
    Inr (Some (out\<lparr>Data := Data b\<rparr>, rest))"
  using assms by (simp add: block_data_def codec_simps)

lemma follow_flag:
  assumes "FollowOn b" "unat (Fragment b) < 64"
  shows "block_flag b AND 0x80 \<noteq> 0" "drop_bit 1 (block_flag b) AND 0x3f = Fragment b"
    "block_flag b AND 1 = 0 \<longleftrightarrow> \<not> Last b"
  using assms unfolding block_flag_def by (cases "Last b"; simp add: byte_bits)+

lemma first_flag:
  assumes "\<not> FollowOn b" "Delivery b = 0 \<or> Delivery b = 1 \<or> Delivery b = 2"
  shows "block_flag b AND 0x80 = 0" "block_flag b AND 0x17 = 0" "drop_bit 5 (block_flag b) AND 3 = Delivery b"
    "block_flag b AND 0x08 = 0 \<longleftrightarrow> Last b"
  using assms unfolding block_flag_def by (elim disjE; cases "Last b"; simp add: byte_bits)+

lemma BlockNext_block_bytes:
  assumes "block_wf b"
  shows "BlockNext (block_bytes b @ rest) = Inr (Some (block_view b, rest))"
  using assms
proof (cases rule: block_wf_cases)
  case follow
  note data = block_wf_data [OF assms]
  show ?thesis
    using follow data follow_flag [OF follow(1,3)]
    by (simp add: BlockNext_def block_bytes_def block_header_def block_follow_on_def Let_def
        codec_simps block_data_written block_view_def)
next
  case (first d)
  note data = block_wf_data [OF assms]
  have "Delivery b = 0 \<or> Delivery b = 1 \<or> Delivery b = 2" using first by auto
  note flag = first_flag [OF first(1) this]
  show ?thesis
    using first data flag
    by (auto simp: BlockNext_def block_bytes_def block_header_def block_first_def block_target_def
        Let_def codec_simps block_data_written block_view_def slice_def zero_Block_def)
qed

section \<open>Writing what was read\<close>

lemma block_data_Some:
  assumes "block_data out rest = Inr (Some (b, s'))"
  shows "Delivery b = Delivery out \<and> Gateway b = Gateway out \<and> TunnelID b = TunnelID out \<and>
      MessageID b = MessageID out \<and> Fragment b = Fragment out \<and> FollowOn b = FollowOn out \<and> Last b = Last out"
    "Data b \<noteq> []" "length (Data b) < 65536"
    "rest = PutUint16 (of_nat (length (Data b))) @ Data b @ s'"
proof -
  let ?n = "unat (Uint16 rest)"
  from assms have r: "2 \<le> length rest" "?n \<noteq> 0" "?n \<le> length (drop 2 rest)" "b = out\<lparr>Data := take ?n (drop 2 rest)\<rparr>"
    "s' = drop ?n (drop 2 rest)"
    by (auto simp: block_data_def Let_def split: if_splits)
  from r(4) show "Delivery b = Delivery out \<and> Gateway b = Gateway out \<and> TunnelID b = TunnelID out \<and>
      MessageID b = MessageID out \<and> Fragment b = Fragment out \<and> FollowOn b = FollowOn out \<and> Last b = Last out"
    by simp
  from r have len: "length (Data b) = ?n" by simp
  then show "Data b \<noteq> []" "length (Data b) < 65536" using r(2) by auto
  have D: "Data b = take ?n (drop 2 rest)" using r(4) by simp
  have "rest = take 2 rest @ take ?n (drop 2 rest) @ drop ?n (drop 2 rest)"
    by (metis append_take_drop_id)
  moreover have "take 2 rest = PutUint16 (of_nat ?n)" using r(1) by (simp add: codec_simps)
  ultimately have "rest = PutUint16 (of_nat ?n) @ Data b @ s'" using D r(5) by metis
  then show "rest = PutUint16 (of_nat (length (Data b))) @ Data b @ s'" by (simp only: len)
qed

lemma Uint32_split: "4 \<le> length rest \<Longrightarrow> PutUint32 (Uint32 rest) @ drop 4 rest = rest"
  by (simp add: codec_simps)

lemma follow_flag_back:
  "flag AND 0x80 \<noteq> 0 \<Longrightarrow> (0x80 OR push_bit 1 (drop_bit 1 flag AND 0x3f)) OR (if flag AND 1 \<noteq> 0 then 1 else 0) = (flag :: u8)"
  by (cases "flag AND 1 \<noteq> 0"; simp add: byte_bits)

lemma first_flag_back:
  "flag AND 0x80 = 0 \<Longrightarrow> flag AND 0x17 = 0 \<Longrightarrow>
   push_bit 5 (drop_bit 5 flag AND 3) OR (if flag AND 0x08 \<noteq> 0 then 0x08 else 0) = (flag :: u8)"
  by (cases "flag AND 0x08 \<noteq> 0"; simp add: byte_bits)

lemma two_bits: "d AND 3 = d \<Longrightarrow> d \<noteq> 3 \<Longrightarrow> d = 0 \<or> d = 1 \<or> d = (2 :: u8)"
  by (auto simp: byte_bits)

lemma block_target_Some:
  assumes "block_target out r = Inr (out', r')" "length (Gateway out) = 32"
  shows "Delivery out' = Delivery out \<and> MessageID out' = MessageID out \<and> Fragment out' = Fragment out \<and>
      FollowOn out' = FollowOn out \<and> Last out' = Last out \<and> length (Gateway out') = 32"
    "Delivery out = DeliveryTunnel \<longrightarrow> TunnelID out' \<noteq> 0"
    "r = (if Delivery out = DeliveryTunnel then PutUint32 (TunnelID out') @ Gateway out'
      else if Delivery out = DeliveryRouter then Gateway out' else []) @ r'"
proof -
  have "PutUint32 (Uint32 r) @ slice 4 36 r @ drop 36 r = r" if "36 \<le> length r"
  proof -
    have "take 32 (drop 4 r) @ drop 36 r = drop 4 r"
      using append_take_drop_id [of 32 "drop 4 r"] by simp
    then show ?thesis using Uint32_split [of r] that by (simp add: slice_def)
  qed
  then show "r = (if Delivery out = DeliveryTunnel then PutUint32 (TunnelID out') @ Gateway out'
      else if Delivery out = DeliveryRouter then Gateway out' else []) @ r'"
    using assms(1) by (auto simp: block_target_def Let_def split: if_splits)
qed (use assms in \<open>auto simp: block_target_def Let_def split: if_splits\<close>)

lemma BlockNext_canonical:
  assumes "BlockNext bs = Inr (Some (b, rest))"
  shows "block_wf b \<and> bs = block_bytes b @ rest"
proof -
  obtain flag r where bs: "bs = flag # r" using assms by (cases bs) (auto simp: BlockNext_def)
  show ?thesis
  proof (cases "flag AND 0x80 = 0")
    case False
    let ?out = "zero_Block\<lparr>FollowOn := True, MessageID := Uint32 r,
      Fragment := drop_bit 1 flag AND 0x3f, Last := (flag AND 1 \<noteq> 0)\<rparr>"
    from assms False have r: "6 \<le> length r" "drop_bit 1 flag AND 0x3f \<noteq> 0"
      and d: "block_data ?out (drop 4 r) = Inr (Some (b, rest))"
      by (auto simp: bs BlockNext_def block_follow_on_def Let_def split: if_splits)
    note data = block_data_Some [OF d]
    have b: "FollowOn b" "Fragment b = drop_bit 1 flag AND 0x3f" "MessageID b = Uint32 r"
      "Last b \<longleftrightarrow> flag AND 1 \<noteq> 0" "length (Gateway b) = 32"
      using data(1) by (simp_all add: zero_Block_def)
    have "block_wf b"
      using b data(2,3) r(2) unat_and_63 [of "drop_bit 1 flag"]
      by (simp add: block_wf_def blockLen_def word_less_nat_alt)
    moreover have "block_flag b = flag"
      using follow_flag_back [OF False] b by (simp add: block_flag_def)
    moreover have "PutUint32 (Uint32 r) @ drop 4 r = r" using r(1) by (simp add: codec_simps)
    ultimately show ?thesis using data(4) b(1,3) by (simp add: bs block_bytes_def block_header_def)
  next
    case True
    let ?out = "zero_Block\<lparr>Last := True, Delivery := drop_bit 5 flag AND 3\<rparr>"
    from assms True have flag: "flag AND 0x17 = 0" "drop_bit 5 flag AND 3 \<noteq> 3"
      by (auto simp: bs BlockNext_def block_first_def Let_def split: if_splits)
    from assms True flag obtain out r' where t: "block_target ?out r = Inr (out, r')"
      and rest: "(if flag AND 0x08 \<noteq> 0 then
            if length r' < 4 then Inl ErrShortBuffer
            else block_data (out\<lparr>MessageID := Uint32 r', Last := False\<rparr>) (drop 4 r')
          else block_data out r') = Inr (Some (b, rest))"
      by (auto simp: bs BlockNext_def block_first_def Let_def bindR_eq_Inr zero_Block_def)
    have target: "Delivery out = drop_bit 5 flag AND 3" "\<not> FollowOn out" "Last out" "length (Gateway out) = 32"
      "Delivery out = DeliveryTunnel \<longrightarrow> TunnelID out \<noteq> 0" and r: "r = (if Delivery out = DeliveryTunnel
        then PutUint32 (TunnelID out) @ Gateway out else if Delivery out = DeliveryRouter then Gateway out else []) @ r'"
      using block_target_Some [OF t] by (simp_all add: zero_Block_def)
    have d: "Delivery out = 0 \<or> Delivery out = 1 \<or> Delivery out = 2"
      using two_bits [of "drop_bit 5 flag AND 3"] flag(2) by (simp add: target(1) and.assoc)
    define l where "l \<longleftrightarrow> flag AND 0x08 = 0"
    define out2 r2 where "out2 = (if l then out else out\<lparr>MessageID := Uint32 r', Last := False\<rparr>)"
      and "r2 = (if l then r' else drop 4 r')"
    have r2: "block_data out2 r2 = Inr (Some (b, rest))" and r': "r' = (if l then [] else PutUint32 (Uint32 r')) @ r2"
      using rest Uint32_split [of r'] by (auto simp: l_def out2_def r2_def split: if_splits)
    note data = block_data_Some [OF r2]
    have b: "Delivery b = Delivery out" "Gateway b = Gateway out" "TunnelID b = TunnelID out" "\<not> FollowOn b"
      "Last b \<longleftrightarrow> l" "\<not> l \<longrightarrow> MessageID b = Uint32 r'"
      using data(1) target by (simp_all add: out2_def)
    have "\<not> Delivery b > DeliveryRouter" using d b(1) by (auto simp: word_less_nat_alt)
    then have "block_wf b"
      using b data(2,3) target(4,5) by (auto simp: block_wf_def blockLen_def firstBlockLen_def)
    moreover have "block_flag b = flag"
      using first_flag_back [OF True flag(1)] b target(1) by (auto simp: block_flag_def l_def split: if_splits)
    ultimately show ?thesis
      using data(4) b r r' by (auto simp: bs block_bytes_def block_header_def split: if_splits)
  qed
qed

lemma BlockNext_shrinks: "BlockNext bs = Inr (Some (b, rest)) \<Longrightarrow> length rest < length bs"
  by (drule BlockNext_canonical) (auto simp: block_bytes_def)

interpretation tunnel_blocks: item_codec BlockNext block_wf block_bytes block_view
proof
  show "BlockNext [] = Inr None" by (simp add: BlockNext_def)
qed (auto intro: BlockNext_shrinks BlockNext_block_bytes)

interpretation tunnel_blocks_back: item_canonical BlockNext block_wf block_bytes
proof
  show "BlockNext s = Inr (Some (a, s')) \<Longrightarrow> block_wf a \<and> s = block_bytes a @ s'" for s a s' by (rule BlockNext_canonical)
  show "BlockNext s = Inr None \<Longrightarrow> s = []" for s
    by (auto simp: BlockNext_def Let_def block_follow_on_def block_first_def block_data_def bindR_eq_Inr split: list.splits if_splits)
qed

section \<open>Properties\<close>

text \<open>
  C10. A block written by \<open>marshalBlock\<close> into any slice is read back by the iterator as the same block
  (up to the fields its kind does not carry), with the iterator standing right behind the bytes written
  and those behind them unchanged; and the writer accepts exactly the blocks whose length it can compute
  when the slice is long enough.
\<close>

theorem marshalBlock_BlockNext:
  assumes "length (Gateway b) = 32"
  shows "case marshalBlock dst b of
      Inr (dst', n) \<Rightarrow> blockLen b = Inr n \<and> n \<le> length dst \<and> length dst' = length dst \<and>
        drop n dst' = drop n dst \<and> BlockNext dst' = Inr (Some (block_view b, drop n dst))
    | Inl e \<Rightarrow> e = ErrGatewayBlock \<and> (\<forall>n. blockLen b = Inr n \<longrightarrow> length dst < n)"
proof (cases "blockLen b")
  case (Inl e)
  then show ?thesis by (simp add: marshalBlock_def)
next
  case (Inr n)
  show ?thesis
  proof (cases "n \<le> length dst")
    case True
    note m = marshalBlock_eq [OF assms Inr True]
    have "block_wf b" using assms Inr by (simp add: block_wf_def)
    then show ?thesis
      using True Inr BlockNext_block_bytes [of b] length_block_bytes [OF assms Inr] by (simp add: m)
  next
    case False
    then show ?thesis using Inr by (simp add: marshalBlock_def)
  qed
qed

theorem marshalBlock_BlockNext_witness:
  "let b = zero_Block\<lparr>FollowOn := True, Fragment := 5, MessageID := 7, Data := [1, 2]\<rparr> in
     length (Gateway b) = 32 \<and> blockLen b = Inr 9 \<and>
     (case marshalBlock [0, 0, 0, 0, 0, 0, 0, 0, 0, 8] b of
        Inr (dst', n) \<Rightarrow> BlockNext dst' = Inr (Some (block_view b, drop n [0, 0, 0, 0, 0, 0, 0, 0, 0, 8]))
      | Inl e \<Rightarrow> False)"
proof -
  let ?b = "zero_Block\<lparr>FollowOn := True, Fragment := 5, MessageID := 7, Data := [1, 2]\<rparr>"
  let ?d = "[0, 0, 0, 0, 0, 0, 0, 0, 0, 8] :: bytes"
  have g: "length (Gateway ?b) = 32" by (simp add: zero_Block_def)
  have n: "blockLen ?b = Inr 9" by (simp add: blockLen_def zero_Block_def)
  show ?thesis using g n marshalBlock_BlockNext [OF g, of ?d] by (auto simp: Let_def split: sum.splits)
qed

text \<open>
  The format is canonical: whatever the iterator accepts, \<open>marshalBlock\<close> writes back byte for byte.
  So two different byte strings never stand for the same block.
\<close>

theorem BlockNext_marshalBlock:
  assumes "BlockNext bs = Inr (Some (b, rest))" "length dst = length bs - length rest"
  shows "marshalBlock dst b = Inr (take (length dst) bs, length dst)"
proof -
  have b: "block_wf b" "bs = block_bytes b @ rest" using BlockNext_canonical [OF assms(1)] by auto
  then obtain n where n: "length (Gateway b) = 32" "blockLen b = Inr n" by (auto simp: block_wf_def)
  have "length (block_bytes b) = n" using n by (rule length_block_bytes)
  then show ?thesis using marshalBlock_eq [OF n, of dst] b(2) assms(2) by simp
qed

theorem BlockNext_marshalBlock_witness:
  "\<exists>b. BlockNext [0x00, 0, 2, 7, 8, 9] = Inr (Some (b, [9])) \<and>
     marshalBlock [0, 0, 0, 0, 0] b = Inr ([0x00, 0, 2, 7, 8], 5)"
proof -
  let ?b = "zero_Block\<lparr>Last := True, Data := [7, 8]\<rparr>"
  have n: "BlockNext [0x00, 0, 2, 7, 8, 9] = Inr (Some (?b, [9]))"
    by (simp add: BlockNext_def block_first_def block_target_def block_data_def zero_Block_def Let_def eval_simps)
  then show ?thesis using BlockNext_marshalBlock [OF n, of "[0, 0, 0, 0, 0]"] by auto
qed

end
