(* ===== verification/Bounded_Store.thy ===== *)
theory Bounded_Store
  imports IVNP_Prelude "HOL-Library.AList" "HOL-Library.Multiset"
begin

text \<open>
  Stores of bounded size that make room by dropping their oldest entry. The tunnel reassembler, the
  delivery metadata of a tunnel endpoint and the garlic tag store all use the same scan over a Go map:
  it keeps the first entry that is strictly older than all before it, starting from the id 0 and the
  largest time. \<open>order\<close> is the order in which the range loop visits the map.
\<close>

definition oldest_entry :: "('k::zero \<times> u64) list \<Rightarrow> 'k" where
  "oldest_entry xs =
     fst (foldl (\<lambda>(oldestID, oldest) (k, c). if c < oldest then (k, c) else (oldestID, oldest)) (0, NOT 0) xs)"

definition drop_oldest ::
  "(('k::zero \<times> 'v) list \<Rightarrow> ('k \<times> 'v) list) \<Rightarrow> ('v \<Rightarrow> u64) \<Rightarrow> ('k \<times> 'v) list \<Rightarrow> ('k \<times> 'v) list" where
  "drop_oldest order age xs = AList.delete (oldest_entry (map (\<lambda>(k, v). (k, age v)) (order xs))) xs"

text \<open>A range loop visits every entry once.\<close>

definition visits_all :: "('a list \<Rightarrow> 'a list) \<Rightarrow> bool" where
  "visits_all order \<longleftrightarrow> (\<forall>xs. mset (order xs) = mset xs)"

lemma visits_all_set: "visits_all order \<Longrightarrow> set (order xs) = set xs"
  unfolding visits_all_def using mset_eq_setD by blast

lemma visits_all_id [simp]: "visits_all (\<lambda>xs. xs)"
  by (simp add: visits_all_def)

lemma oldest_scan:
  fixes xs :: "('k::zero \<times> u64) list"
  assumes "foldl (\<lambda>(i, a) (k, c). if c < a then (k, c) else (i, a)) s xs = (k, c)"
  shows "c \<le> snd s \<and> (\<forall>p \<in> set xs. c \<le> snd p) \<and> ((k, c) \<in> set xs \<or> (k, c) = s)"
  using assms
proof (induction xs arbitrary: s)
  case (Cons p xs)
  from Cons.IH [of "case s of (i, a) \<Rightarrow> case p of (k, c) \<Rightarrow> if c < a then (k, c) else (i, a)"] Cons.prems
  show ?case by (cases s; cases p) (auto split: if_splits)
qed simp

text \<open>Unless every entry has the largest time, the scan answers a key of the map with the least time.\<close>

lemma oldest_entry_least:
  assumes "(k, c) \<in> set xs" "c \<noteq> NOT 0"
  obtains c' where "(oldest_entry xs, c') \<in> set xs" "\<And>k d. (k, d) \<in> set xs \<Longrightarrow> c' \<le> d"
proof -
  obtain k' c' where s: "foldl (\<lambda>(i, a) (k, c). if c < a then (k, c) else (i, a)) (0, NOT 0) xs = (k', c')"
    by (rule prod.exhaust)
  note scan = oldest_scan [OF s]
  have "c' \<le> c" using scan assms(1) by auto
  then have "c' \<noteq> NOT 0"
    using assms(2) unat_u64_less [of c] by (auto simp: word_le_nat_alt word_unat_eq_iff simp del: unat_u64_less)
  then have "(k', c') \<in> set xs" using scan by auto
  moreover have "oldest_entry xs = k'" by (simp only: oldest_entry_def s fst_conv)
  ultimately show ?thesis using that [of c'] scan by fastforce
qed

lemma oldest_entry_none: "\<forall>p \<in> set xs. snd p = NOT 0 \<Longrightarrow> oldest_entry xs = 0"
proof -
  assume "\<forall>p \<in> set xs. snd p = NOT 0"
  then have "foldl (\<lambda>(i, a) (k, c). if c < a then (k, c) else (i, a)) (0, NOT 0) xs = (0, NOT 0)" by (induction xs) auto
  then show ?thesis by (simp only: oldest_entry_def fst_conv)
qed

lemma length_delete_distinct:
  "distinct (map fst xs) \<Longrightarrow> k \<in> fst ` set xs \<Longrightarrow> length (AList.delete k xs) = length xs - 1"
proof (induction xs)
  case (Cons p xs)
  show ?case
  proof (cases "fst p = k")
    case True
    then have "k \<notin> fst ` set xs" using Cons.prems(1) by auto
    then have "AList.delete k xs = xs" by (rule AList.delete_id)
    then show ?thesis using True by (cases p) simp
  next
    case False
    then have "k \<in> fst ` set xs" using Cons.prems(2) by auto
    then have "xs \<noteq> []" by auto
    then show ?thesis using False Cons \<open>k \<in> fst ` set xs\<close> by (cases p; cases xs) auto
  qed
qed simp

lemma drop_oldest_spec:
  assumes "visits_all order" "distinct (map fst xs)" "(k, v) \<in> set xs" "age v \<noteq> NOT 0"
  obtains k' v' where "(k', v') \<in> set xs" "drop_oldest order age xs = AList.delete k' xs"
    "length (drop_oldest order age xs) = length xs - 1" "\<And>k d. (k, d) \<in> set xs \<Longrightarrow> age v' \<le> age d"
proof -
  let ?ys = "map (\<lambda>(k, v). (k, age v)) (order xs)"
  have set: "set ?ys = (\<lambda>(k, v). (k, age v)) ` set xs" using visits_all_set [OF assms(1)] by auto
  then have "(k, age v) \<in> set ?ys" using assms(3) by force
  from oldest_entry_least [OF this assms(4)] obtain c' where
    c': "(oldest_entry ?ys, c') \<in> set ?ys" "\<And>k d. (k, d) \<in> set ?ys \<Longrightarrow> c' \<le> d" by blast
  then obtain v' where v': "(oldest_entry ?ys, v') \<in> set xs" "age v' = c'" using set by auto
  then have len: "length (drop_oldest order age xs) = length xs - 1"
    unfolding drop_oldest_def by (intro length_delete_distinct assms(2)) force
  have "age v' \<le> age d" if "(k, d) \<in> set xs" for k d
  proof -
    have "(k, age d) \<in> set ?ys" using that set by force
    then show ?thesis using c'(2) v'(2) by simp
  qed
  then show ?thesis using that [OF v'(1) _ len] by (simp add: drop_oldest_def)
qed

lemma distinct_drop_oldest: "distinct (map fst xs) \<Longrightarrow> distinct (map fst (drop_oldest order age xs))"
  by (simp add: drop_oldest_def distinct_delete)

end
