(* ===== verification/Tunnel_Reassembly.thy ===== *)
theory Tunnel_Reassembly
  imports Slab_Pool Bounded_Store
begin

text \<open>
  The fragment reassembler of \<open>dataplane/internal/tunnel/reassembly.go\<close>.

  The map of partial messages is an association list with distinct keys, and \<open>order\<close> is the order in
  which a range loop over it visits the entries. Every part is a copy that lives in a lease of the slab
  pool: the model keeps the contents of the part and the address of its lease, and threads the state of
  the pool. \<open>partialPool\<close> hands out only zeroed partial messages, so it has no state of its own.
\<close>

section \<open>State and operations\<close>

record ReasmFragment =
  fMessageID :: u32
  fNumber :: u8
  fLast :: bool
  fData :: bytes

record partial =
  parts :: "bytes list"
  pleases :: "nat option list"
  seen :: u64
  terminal :: u64
  last :: u8
  hasLast :: bool
  size :: int
  created :: u64

definition zero_partial :: partial where
  "zero_partial = \<lparr>parts = replicate 64 [], pleases = replicate 64 None, seen = 0, terminal = 0, last = 0,
     hasLast = False, size = 0, created = 0\<rparr>"

record Reassembler =
  maxEntries :: int
  maxMessage :: int
  entries :: "(u32 \<times> partial) list"
  rpool :: slab_state

definition NewReassembler :: "int \<Rightarrow> int \<Rightarrow> slab_state \<Rightarrow> Reassembler" where
  "NewReassembler maxE maxM st =
     \<lparr>maxEntries = (if maxE \<le> 0 then 128 else maxE), maxMessage = (if maxM \<le> 0 then 62690 else maxM),
      entries = [], rpool = st\<rparr>"

definition reasm_remove :: "u32 \<Rightarrow> Reassembler \<Rightarrow> Reassembler" where
  "reasm_remove messageID r =
     (case map_of (entries r) messageID of
        None \<Rightarrow> r
      | Some entry \<Rightarrow>
          r\<lparr>entries := AList.delete messageID (entries r),
            rpool := foldl (\<lambda>st lease. if lease = None then st else LeaseRelease lease st) (rpool r) (pleases entry)\<rparr>)"

type_synonym visit_order = "(u32 \<times> partial) list \<Rightarrow> (u32 \<times> partial) list"

definition evictOldest :: "visit_order \<Rightarrow> Reassembler \<Rightarrow> Reassembler" where
  "evictOldest order r = reasm_remove (oldest_entry (map (\<lambda>(k, e). (k, created e)) (order (entries r)))) r"

text \<open>The entry of the fragment's message, created when there is none.\<close>

definition reasm_entry :: "visit_order \<Rightarrow> u32 \<Rightarrow> u64 \<Rightarrow> Reassembler \<Rightarrow> partial \<times> Reassembler" where
  "reasm_entry order messageID nowMillis r =
     (case map_of (entries r) messageID of
        Some entry \<Rightarrow> (entry, r)
      | None \<Rightarrow>
          let r = (if int (length (entries r)) = maxEntries r then evictOldest order r else r);
              entry = zero_partial\<lparr>created := nowMillis\<rparr>
          in (entry, r\<lparr>entries := (messageID, entry) # entries r\<rparr>))"

text \<open>The copy of the fragment into the entry: the part, its lease, the bit masks and the size.\<close>

definition reasm_store :: "nat option \<Rightarrow> ReasmFragment \<Rightarrow> partial \<Rightarrow> slab_state \<Rightarrow> partial \<times> slab_state" where
  "reasm_store pick fragment entry st =
     (let (lease, st) = AcquireLease (int (length (fData fragment))) pick st;
          i = unat (fNumber fragment);
          bit = push_bit i 1
      in (entry\<lparr>parts := (parts entry)[i := fData fragment], pleases := (pleases entry)[i := lease],
            seen := seen entry OR bit,
            terminal := (if fLast fragment then terminal entry OR bit else terminal entry),
            size := size entry + int (length (fData fragment))\<rparr>, st))"

definition reasm_message :: "partial \<Rightarrow> bytes" where
  "reasm_message entry = concat (map (\<lambda>i. parts entry ! i) [0..<Suc (unat (last entry))])"

definition requiredMask :: "partial \<Rightarrow> u64" where
  "requiredMask entry = drop_bit (63 - unat (last entry)) (NOT 0)"

text \<open>What follows the copy: the checks of a last fragment, and the message when nothing is missing.\<close>

definition reasm_finish :: "ReasmFragment \<Rightarrow> partial \<Rightarrow> Reassembler \<Rightarrow> bytes option result \<times> Reassembler" where
  "reasm_finish fragment entry r =
     (let messageID = fMessageID fragment in
      if fLast fragment \<and> hasLast entry \<and> last entry \<noteq> fNumber fragment
      then (Inl ErrFragment, reasm_remove messageID r)
      else if fLast fragment \<and> drop_bit (unat (fNumber fragment) + 1) (seen entry) \<noteq> 0
      then (Inl ErrFragment, reasm_remove messageID r)
      else
        let entry = (if fLast fragment then entry\<lparr>last := fNumber fragment, hasLast := True\<rparr> else entry);
            r = r\<lparr>entries := AList.update messageID entry (entries r)\<rparr>
        in if \<not> hasLast entry then (Inr None, r)
           else if seen entry AND requiredMask entry \<noteq> requiredMask entry then (Inr None, r)
           else (Inr (Some (reasm_message entry)), reasm_remove messageID r))"

definition reasm_Add ::
  "visit_order \<Rightarrow> nat option \<Rightarrow> ReasmFragment \<Rightarrow> u64 \<Rightarrow> Reassembler \<Rightarrow> bytes option result \<times> Reassembler" where
  "reasm_Add order pick fragment nowMillis r =
     (if fData fragment = [] \<or> fNumber fragment > 63 then (Inl ErrFragment, r)
      else
        let messageID = fMessageID fragment;
            (entry, r) = reasm_entry order messageID nowMillis r;
            i = unat (fNumber fragment);
            bit = push_bit i 1
        in if hasLast entry \<and> fNumber fragment > last entry then (Inl ErrFragment, reasm_remove messageID r)
           else if seen entry AND bit \<noteq> 0 then
             if (terminal entry AND bit \<noteq> 0) \<noteq> fLast fragment \<or> parts entry ! i \<noteq> fData fragment
             then (Inl ErrFragment, reasm_remove messageID r)
             else (Inr None, r)
           else if size entry > maxMessage r - int (length (fData fragment))
             then (Inl ErrTooLarge, reasm_remove messageID r)
           else
             let (entry, st) = reasm_store pick fragment entry (rpool r)
             in reasm_finish fragment entry
               (r\<lparr>entries := AList.update messageID entry (entries r), rpool := st\<rparr>))"

text \<open>\<open>Expire\<close> visits the entries and removes those created at or before the cutoff.\<close>

definition reasm_Expire :: "visit_order \<Rightarrow> u64 \<Rightarrow> Reassembler \<Rightarrow> nat \<times> Reassembler" where
  "reasm_Expire order cutoff r =
     foldl (\<lambda>(removed, r) (k, entry). if created entry \<le> cutoff then (removed + 1, reasm_remove k r) else (removed, r))
       (0, r) (order (entries r))"

section \<open>Bit masks of fragments\<close>

lemma and_push_bit_1: "w AND push_bit i 1 \<noteq> 0 \<longleftrightarrow> bit w i" for w :: u64
  using and_exp_eq_0_iff_not_bit [of w i] by (simp add: push_bit_eq_mult)

lemma bit_push_bit_1: "bit (push_bit i (1 :: u64)) n \<longleftrightarrow> n = i \<and> i < 64"
  by (auto simp: bit_simps)

lemma drop_bit_zero_iff: "drop_bit k w = 0 \<longleftrightarrow> (\<forall>n. bit w n \<longrightarrow> n < k)" for w :: u64
proof
  assume z: "drop_bit k w = 0"
  show "\<forall>n. bit w n \<longrightarrow> n < k"
  proof (intro allI impI, rule ccontr)
    fix n assume "bit w n" "\<not> n < k"
    then have "bit (drop_bit k w) (n - k)" by (simp add: bit_drop_bit_eq)
    then show False using z by simp
  qed
next
  assume "\<forall>n. bit w n \<longrightarrow> n < k"
  then show "drop_bit k w = 0" by (auto simp: bit_eq_iff bit_drop_bit_eq)
qed

lemma requiredMask_iff:
  assumes "unat (last e) < 64"
  shows "seen e AND requiredMask e = requiredMask e \<longleftrightarrow> (\<forall>i \<le> unat (last e). bit (seen e) i)"
proof -
  have "bit (requiredMask e) i \<longleftrightarrow> i \<le> unat (last e)" for i
    using assms by (auto simp: requiredMask_def bit_simps)
  then show ?thesis using assms by (auto simp: bit_eq_iff bit_simps) (meson le_less_trans)
qed

section \<open>Invariant\<close>

text \<open>
  A retained entry has a part exactly where the bit of \<open>seen\<close> is set, at most one fragment marked as the
  last, nothing behind it, something missing before it, and counts its bytes in \<open>size\<close>.
\<close>

definition entry_inv :: "int \<Rightarrow> partial \<Rightarrow> bool" where
  "entry_inv limit e \<longleftrightarrow>
     length (parts e) = 64 \<and> length (pleases e) = 64 \<and>
     (\<forall>i < 64. bit (seen e) i \<longleftrightarrow> parts e ! i \<noteq> []) \<and>
     (\<forall>i < 64. bit (seen e) i \<longleftrightarrow> pleases e ! i \<noteq> None) \<and>
     (\<forall>i. bit (terminal e) i \<longrightarrow> hasLast e \<and> i = unat (last e)) \<and>
     (hasLast e \<longrightarrow> unat (last e) < 64 \<and> bit (terminal e) (unat (last e)) \<and> bit (seen e) (unat (last e)) \<and>
       (\<forall>i. bit (seen e) i \<longrightarrow> i \<le> unat (last e)) \<and> (\<exists>i \<le> unat (last e). \<not> bit (seen e) i)) \<and>
     size e = int (length (concat (parts e))) \<and> size e \<le> limit"

lemma entry_inv_zero: "0 \<le> limit \<Longrightarrow> entry_inv limit (zero_partial\<lparr>created := t\<rparr>)"
  by (simp add: entry_inv_def zero_partial_def)

text \<open>The lease that holds part \<open>i\<close> of message \<open>k\<close>.\<close>

definition lease_at :: "Reassembler \<Rightarrow> u32 \<Rightarrow> nat \<Rightarrow> nat option" where
  "lease_at r k i = (case map_of (entries r) k of Some e \<Rightarrow> if i < 64 then pleases e ! i else None | None \<Rightarrow> None)"

definition pool_inv :: "Reassembler \<Rightarrow> bool" where
  "pool_inv r \<longleftrightarrow> slab_ok (rpool r) \<and>
     (\<forall>k i a. lease_at r k i = Some a \<longrightarrow> lease_live (rpool r) a) \<and>
     (\<forall>k i k' i' a. lease_at r k i = Some a \<longrightarrow> lease_at r k' i' = Some a \<longrightarrow> k = k' \<and> i = i')"

definition reasm_core :: "Reassembler \<Rightarrow> bool" where
  "reasm_core r \<longleftrightarrow>
     distinct (map fst (entries r)) \<and> int (length (entries r)) \<le> maxEntries r \<and> 0 < maxEntries r \<and> 0 \<le> maxMessage r \<and>
     (\<forall>k e. map_of (entries r) k = Some e \<longrightarrow> entry_inv (maxMessage r) e) \<and> pool_inv r"

text \<open>
  The scan for the oldest entry starts from the largest time, so it finds nothing among entries of that time. The store can make room for the message \<open>k\<close> when it
  has it already, when it is not full, or when some entry is older than that.
\<close>

definition late_set :: "Reassembler \<Rightarrow> u32 set" where
  "late_set r = {k. \<exists>e. map_of (entries r) k = Some e \<and> created e = NOT 0}"

definition evictable :: "visit_order \<Rightarrow> u32 \<Rightarrow> Reassembler \<Rightarrow> bool" where
  "evictable order k r \<longleftrightarrow> (map_of (entries r) k = None \<and> int (length (entries r)) = maxEntries r \<longrightarrow>
     visits_all order \<and> (\<exists>k e. map_of (entries r) k = Some e \<and> created e \<noteq> NOT 0))"

text \<open>The leases that other users of the pool hold.\<close>

definition foreign_live :: "Reassembler \<Rightarrow> nat \<Rightarrow> bool" where
  "foreign_live r a \<longleftrightarrow> lease_live (rpool r) a \<and> (\<forall>k i. lease_at r k i \<noteq> Some a)"

section \<open>Removing entries\<close>

definition release_all :: "slab_state \<Rightarrow> nat option list \<Rightarrow> slab_state" where
  "release_all st ls = foldl (\<lambda>st lease. if lease = None then st else LeaseRelease lease st) st ls"

lemma release_all_spec:
  assumes "slab_ok st" "\<And>i a. i < length ls \<Longrightarrow> ls ! i = Some a \<Longrightarrow> lease_live st a"
    and "\<And>i j a. i < length ls \<Longrightarrow> j < length ls \<Longrightarrow> ls ! i = Some a \<Longrightarrow> ls ! j = Some a \<Longrightarrow> i = j"
  shows "slab_ok (release_all st ls) \<and> (\<forall>x. lease_live (release_all st ls) x \<longleftrightarrow> lease_live st x \<and> Some x \<notin> set ls)"
  using assms
proof (induction ls arbitrary: st)
  case (Cons l ls)
  have IH: "slab_ok (release_all st' ls) \<and> (\<forall>x. lease_live (release_all st' ls) x \<longleftrightarrow> lease_live st' x \<and> Some x \<notin> set ls)"
    if "slab_ok st'" "\<And>a. Some a \<in> set ls \<Longrightarrow> lease_live st' a" for st'
  proof (rule Cons.IH [OF that(1)])
    fix i j a
    show "i < length ls \<Longrightarrow> ls ! i = Some a \<Longrightarrow> lease_live st' a" using that(2) nth_mem by metis
    show "i < length ls \<Longrightarrow> j < length ls \<Longrightarrow> ls ! i = Some a \<Longrightarrow> ls ! j = Some a \<Longrightarrow> i = j"
      using Cons.prems(3) [of "Suc i" "Suc j" a] by simp
  qed
  have live: "lease_live st a" if "Some a \<in> set ls" for a
    using that Cons.prems(2) [of "Suc _" a] by (auto simp: in_set_conv_nth)
  show ?case
  proof (cases l)
    case None
    then show ?thesis using IH [OF Cons.prems(1) live] by (simp add: release_all_def)
  next
    case (Some a)
    have "lease_live st a" using Cons.prems(2) [of 0 a] Some by simp
    note rel = LeaseRelease_spec [OF Cons.prems(1) this]
    have "Some a \<notin> set ls"
      using Cons.prems(3) [of 0 "Suc _" a] Some by (auto simp: in_set_conv_nth)
    then show ?thesis
      using IH [OF rel(1)] rel(2) live Some by (auto simp: release_all_def)
  qed
qed (simp add: release_all_def)

lemma reasm_remove_fields [simp]:
  "maxEntries (reasm_remove k r) = maxEntries r" "maxMessage (reasm_remove k r) = maxMessage r"
  by (simp_all add: reasm_remove_def split: option.splits)

lemma map_of_reasm_remove: "map_of (entries (reasm_remove k r)) = (map_of (entries r))(k := None)"
  by (auto simp: reasm_remove_def delete_conv' split: option.splits)

lemma reasm_remove_pool:
  assumes "map_of (entries r) k = Some e"
  shows "rpool (reasm_remove k r) = release_all (rpool r) (pleases e)"
  using assms by (simp add: reasm_remove_def release_all_def)

lemma lease_at_remove: "lease_at (reasm_remove k r) k' i = (if k' = k then None else lease_at r k' i)"
  by (simp add: lease_at_def map_of_reasm_remove)

lemma pool_inv_remove:
  assumes "pool_inv r" "\<And>e. map_of (entries r) k = Some e \<Longrightarrow> length (pleases e) = 64"
  shows "pool_inv (reasm_remove k r) \<and> foreign_live (reasm_remove k r) = foreign_live r"
proof (cases "map_of (entries r) k")
  case None
  then show ?thesis using assms by (simp add: reasm_remove_def)
next
  case (Some e)
  have at: "lease_at r k i = pleases e ! i" if "i < 64" for i using Some that by (simp add: lease_at_def)
  have len: "length (pleases e) = 64" using assms(2) Some by blast
  have rel: "slab_ok (release_all (rpool r) (pleases e)) \<and>
      (\<forall>x. lease_live (release_all (rpool r) (pleases e)) x \<longleftrightarrow> lease_live (rpool r) x \<and> Some x \<notin> set (pleases e))"
    using assms(1) at len unfolding pool_inv_def by (intro release_all_spec) (metis, metis, metis)
  have mem: "Some x \<in> set (pleases e) \<longleftrightarrow> (\<exists>i. lease_at r k i = Some x)" for x
    using at len Some by (auto simp: in_set_conv_nth lease_at_def split: if_splits)
  have "k' \<noteq> k \<Longrightarrow> lease_at r k' i = Some x \<Longrightarrow> Some x \<notin> set (pleases e)" for k' i x
    using assms(1) mem unfolding pool_inv_def by metis
  then have "pool_inv (reasm_remove k r)"
    using assms(1) rel by (auto simp: pool_inv_def lease_at_remove reasm_remove_pool [OF Some])
  moreover have "foreign_live (reasm_remove k r) x = foreign_live r x" for x
  proof -
    have "(\<forall>k' i. lease_at r k' i \<noteq> Some x) \<longleftrightarrow>
        (\<forall>i. lease_at r k i \<noteq> Some x) \<and> (\<forall>k' i. k' \<noteq> k \<longrightarrow> lease_at r k' i \<noteq> Some x)" by metis
    then show ?thesis using rel mem by (auto simp: foreign_live_def lease_at_remove reasm_remove_pool [OF Some])
  qed
  ultimately show ?thesis by blast
qed

text \<open>While a fragment is added, its own entry may be in any state; the rest of the store stays as it should.\<close>

definition reasm_core_but :: "u32 \<Rightarrow> Reassembler \<Rightarrow> bool" where
  "reasm_core_but k r \<longleftrightarrow>
     distinct (map fst (entries r)) \<and> int (length (entries r)) \<le> maxEntries r \<and> 0 < maxEntries r \<and> 0 \<le> maxMessage r \<and>
     (\<forall>k' e. map_of (entries r) k' = Some e \<longrightarrow>
       (k' \<noteq> k \<longrightarrow> entry_inv (maxMessage r) e) \<and> length (pleases e) = 64) \<and> pool_inv r"

lemma entry_inv_leases: "entry_inv limit e \<Longrightarrow> length (pleases e) = 64"
  by (simp add: entry_inv_def)

lemma entry_inv_unseen:
  "entry_inv limit e \<Longrightarrow> i < 64 \<Longrightarrow> \<not> bit (seen e) i \<Longrightarrow> pleases e ! i = None \<and> parts e ! i = []"
  unfolding entry_inv_def by blast

lemma reasm_core_weaken: "reasm_core r \<Longrightarrow> reasm_core_but k r"
  unfolding reasm_core_def reasm_core_but_def using entry_inv_leases by blast

lemma reasm_core_strengthen:
  "reasm_core_but k r \<Longrightarrow> map_of (entries r) k = Some e \<Longrightarrow> entry_inv (maxMessage r) e \<Longrightarrow> reasm_core r"
  by (auto simp: reasm_core_def reasm_core_but_def split: if_splits) (metis option.inject map_of_eq_Some_iff)+

lemma reasm_core_remove:
  assumes "reasm_core_but k r"
  shows "reasm_core (reasm_remove k r)" "foreign_live (reasm_remove k r) = foreign_live r"
proof -
  have len: "length (entries (reasm_remove k r)) \<le> length (entries r)"
    by (simp add: reasm_remove_def length_delete_le split: option.splits)
  have dist: "distinct (map fst (entries (reasm_remove k r)))"
    using assms by (simp add: reasm_core_but_def reasm_remove_def distinct_delete split: option.splits)
  have p: "pool_inv (reasm_remove k r) \<and> foreign_live (reasm_remove k r) = foreign_live r"
    using assms by (intro pool_inv_remove) (auto simp: reasm_core_but_def)
  then show "foreign_live (reasm_remove k r) = foreign_live r" by simp
  show "reasm_core (reasm_remove k r)"
    using assms p len dist by (auto simp: reasm_core_def reasm_core_but_def map_of_reasm_remove)
qed

section \<open>Adding fragments\<close>

lemma evictOldest_entries:
  "entries (evictOldest order r) = drop_oldest order created (entries r)"
  by (auto simp: evictOldest_def drop_oldest_def reasm_remove_def delete_id map_of_eq_None_iff split: option.splits)

lemma evictOldest_fields [simp]:
  "maxEntries (evictOldest order r) = maxEntries r" "maxMessage (evictOldest order r) = maxMessage r"
  by (simp_all add: evictOldest_def)

lemma evictOldest_spec:
  assumes "reasm_core r" "visits_all order" "map_of (entries r) k = Some e" "created e \<noteq> NOT 0"
  shows "reasm_core (evictOldest order r)" "foreign_live (evictOldest order r) = foreign_live r"
    "length (entries (evictOldest order r)) < length (entries r)"
proof -
  show "reasm_core (evictOldest order r)" "foreign_live (evictOldest order r) = foreign_live r"
    using reasm_core_remove [OF reasm_core_weaken [OF assms(1)]] by (simp_all add: evictOldest_def)
  have d: "distinct (map fst (entries r))" using assms(1) by (simp add: reasm_core_def)
  have m: "(k, e) \<in> set (entries r)" using assms(3) by (rule map_of_SomeD)
  have "length (drop_oldest order created (entries r)) = length (entries r) - 1"
    using assms(4) by (rule drop_oldest_spec [OF assms(2) d m])
  moreover have "0 < length (entries r)" using m by (rule length_pos_if_in_set)
  ultimately show "length (entries (evictOldest order r)) < length (entries r)" by (simp add: evictOldest_entries)
qed

lemma map_of_evictOldest:
  "map_of (entries r) k = None \<Longrightarrow> map_of (entries (evictOldest order r)) k = None"
  by (simp add: evictOldest_def map_of_reasm_remove)

lemma reasm_entry_spec:
  assumes "reasm_core r" "evictable order k r" "reasm_entry order k now r = (e, r')"
  shows "reasm_core r' \<and> foreign_live r' = foreign_live r \<and> map_of (entries r') k = Some e \<and>
    maxEntries r' = maxEntries r \<and> maxMessage r' = maxMessage r"
proof (cases "map_of (entries r) k")
  case (Some e')
  then show ?thesis using assms by (simp add: reasm_entry_def)
next
  case None
  let ?s = "if int (length (entries r)) = maxEntries r then evictOldest order r else r"
  let ?e = "zero_partial\<lparr>created := now\<rparr>"
  have eq: "e = ?e" "r' = ?s\<lparr>entries := (k, ?e) # entries ?s\<rparr>"
    using assms(3) None by (auto simp: reasm_entry_def Let_def)
  have len: "int (length (entries r)) \<le> maxEntries r" using assms(1) by (simp add: reasm_core_def)
  have s: "reasm_core ?s" "foreign_live ?s = foreign_live r" "int (length (entries ?s)) < maxEntries ?s"
    "map_of (entries ?s) k = None" "maxEntries ?s = maxEntries r" "maxMessage ?s = maxMessage r"
  proof -
    show "maxEntries ?s = maxEntries r" "maxMessage ?s = maxMessage r" "map_of (entries ?s) k = None" using None by (simp_all add: map_of_evictOldest)
    have "reasm_core ?s \<and> foreign_live ?s = foreign_live r \<and> int (length (entries ?s)) < maxEntries ?s"
    proof (cases "int (length (entries r)) = maxEntries r")
      case True
      then obtain k' e' where "visits_all order" "map_of (entries r) k' = Some e'" "created e' \<noteq> NOT 0" using assms(2) None unfolding evictable_def by blast
      then show ?thesis using evictOldest_spec [OF assms(1), of order k' e'] True by simp
    qed (use assms(1) len in simp)
    then show "reasm_core ?s" "foreign_live ?s = foreign_live r" "int (length (entries ?s)) < maxEntries ?s" by blast+
  qed
  have at: "lease_at r' k' i = lease_at ?s k' i" for k' i
    using s(4) by (simp add: eq lease_at_def zero_partial_def)
  have "pool_inv r'" "foreign_live r' = foreign_live ?s"
    using s(1) at by (auto simp: reasm_core_def pool_inv_def foreign_live_def eq(2) fun_eq_iff)
  moreover have "entry_inv (maxMessage r) ?e" using s(1,6) by (intro entry_inv_zero) (simp add: reasm_core_def)
  ultimately show ?thesis
    using s by (auto simp: reasm_core_def eq map_of_eq_None_iff)
qed

lemma length_concat_update:
  "i < length xs \<Longrightarrow> xs ! i = [] \<Longrightarrow> length (concat (xs[i := d])) = length (concat xs) + length d"
proof (induction xs arbitrary: i)
  case (Cons x xs)
  then show ?case by (cases i) auto
qed simp

lemma length_AList_update: "k \<in> fst ` set xs \<Longrightarrow> length (AList.update k v xs) = length xs"
proof -
  assume "k \<in> fst ` set xs"
  then have "map fst (AList.update k v xs) = map fst xs" by (simp add: update_keys)
  then show ?thesis by (metis length_map)
qed

lemma map_of_dom: "map_of xs k = Some v \<Longrightarrow> k \<in> fst ` set xs"
  by (metis domI dom_map_of_conv_image_fst)

text \<open>A state that differs only in the entry of one message, with a lease more or the same leases.\<close>

lemma reasm_core_but_update:
  assumes "reasm_core_but k r" "map_of (entries r) k = Some e" "length (pleases e') = 64" "created e' = created e"
    and "pool_inv (r\<lparr>entries := AList.update k e' (entries r), rpool := st\<rparr>)"
  shows "reasm_core_but k (r\<lparr>entries := AList.update k e' (entries r), rpool := st\<rparr>)"
  using assms map_of_dom [OF assms(2)]
  by (auto simp: reasm_core_but_def distinct_update length_AList_update update_conv' split: if_splits)

lemma reasm_store_fields:
  assumes "reasm_store pick f e st = (e', st')" "unat (fNumber f) < 64"
  shows "parts e' = (parts e)[unat (fNumber f) := fData f]" "hasLast e' = hasLast e" "last e' = last e"
    "created e' = created e" "size e' = size e + int (length (fData f))" "length (pleases e') = length (pleases e)"
    "bit (seen e') n \<longleftrightarrow> bit (seen e) n \<or> n = unat (fNumber f)"
    "bit (terminal e') n \<longleftrightarrow> bit (terminal e) n \<or> (fLast f \<and> n = unat (fNumber f))"
  using assms by (auto simp: reasm_store_def Let_def bit_or_iff bit_exp_iff split: prod.splits if_splits)

lemma reasm_store_spec:
  assumes "reasm_core r" "map_of (entries r) k = Some e" "unat (fNumber f) < 64" "\<not> bit (seen e) (unat (fNumber f))"
    and "reasm_store pick f e (rpool r) = (e', st)"
  defines "r2 \<equiv> r\<lparr>entries := AList.update k e' (entries r), rpool := st\<rparr>"
  shows "reasm_core_but k r2" "foreign_live r2 = foreign_live r"
    "\<And>n. n < 64 \<Longrightarrow> pleases e' ! n \<noteq> None \<longleftrightarrow> pleases e ! n \<noteq> None \<or> n = unat (fNumber f)"
proof -
  let ?i = "unat (fNumber f)"
  have pool: "slab_ok (rpool r)" "pool_inv r" and e: "entry_inv (maxMessage r) e"
    using assms(1,2) unfolding reasm_core_def pool_inv_def by auto
  obtain a st1 where acq: "AcquireLease (int (length (fData f))) pick (rpool r) = (Some a, st1)"
    "slab_ok st1" "\<not> lease_live (rpool r) a" "\<And>x. lease_live st1 x \<longleftrightarrow> x = a \<or> lease_live (rpool r) x"
    using AcquireLease_spec [OF pool(1), of "int (length (fData f))" pick] by (metis of_nat_0_le_iff)
  then have "st1 = st" using assms(5) by (simp add: reasm_store_def Let_def)
  note a = acq [unfolded this]
  have e': "pleases e' = (pleases e)[?i := Some a]"
    using assms(5) a(1) by (auto simp: reasm_store_def Let_def)
  have len: "length (pleases e) = 64" and none: "pleases e ! ?i = None"
    using entry_inv_leases [OF e] entry_inv_unseen [OF e assms(3,4)] by auto
  show "pleases e' ! n \<noteq> None \<longleftrightarrow> pleases e ! n \<noteq> None \<or> n = ?i" if "n < 64" for n
    using len assms(3) that by (cases "n = ?i") (auto simp: e')
  have at: "lease_at r2 k' n = (if k' = k \<and> n = ?i then Some a else lease_at r k' n)" for k' n
    using len assms(2,3) by (auto simp: r2_def lease_at_def e' update_conv' nth_list_update)
  have none_at: "lease_at r k ?i = None" using assms(2,3) none by (simp add: lease_at_def)
  have not_a: "lease_at r k' n \<noteq> Some a" for k' n using pool(2) a(3) unfolding pool_inv_def by blast
  have "pool_inv r2"
    using pool(2) a(2,4) not_a at unfolding pool_inv_def by (auto simp: r2_def split: if_splits)
  then show "reasm_core_but k r2"
    unfolding r2_def using assms(2,5) reasm_core_weaken [OF assms(1)] len e' reasm_store_fields(4) [OF assms(5,3)]
    by (intro reasm_core_but_update) auto
  have "foreign_live r2 x = foreign_live r x" for x
    using a(3,4) at none_at not_a by (auto simp: foreign_live_def r2_def split: if_splits) (metis option.distinct(1))+
  then show "foreign_live r2 = foreign_live r" by blast
qed

text \<open>The entry after a fragment was stored and, for a last one, recorded as such.\<close>

definition stored_entry :: "ReasmFragment \<Rightarrow> partial \<Rightarrow> partial" where
  "stored_entry f e = (if fLast f then e\<lparr>last := fNumber f, hasLast := True\<rparr> else e)"

lemma entry_inv_stored:
  assumes e: "entry_inv limit e" and i: "unat (fNumber f) < 64" "\<not> bit (seen e) (unat (fNumber f))" "fData f \<noteq> []"
    and st: "reasm_store pick f e st = (e', st')"
    and size: "\<not> size e > limit - int (length (fData f))"
    and behind: "\<not> (hasLast e \<and> fNumber f > last e)"
    and final: "fLast f \<Longrightarrow> \<not> (hasLast e' \<and> last e' \<noteq> fNumber f) \<and> drop_bit (unat (fNumber f) + 1) (seen e') = 0"
    and leases: "\<And>n. n < 64 \<Longrightarrow> pleases e' ! n \<noteq> None \<longleftrightarrow> pleases e ! n \<noteq> None \<or> n = unat (fNumber f)"
    and missing: "hasLast (stored_entry f e') \<Longrightarrow>
      \<exists>i \<le> unat (last (stored_entry f e')). \<not> bit (seen (stored_entry f e')) i"
  shows "entry_inv limit (stored_entry f e')"
proof -
  let ?i = "unat (fNumber f)" and ?e = "stored_entry f e'"
  note fields = reasm_store_fields [OF st i(1)]
  have e1: "length (parts e) = 64" "length (pleases e) = 64" "\<And>i. i < 64 \<Longrightarrow> bit (seen e) i \<longleftrightarrow> parts e ! i \<noteq> []"
    "\<And>i. i < 64 \<Longrightarrow> bit (seen e) i \<longleftrightarrow> pleases e ! i \<noteq> None"
    "\<And>i. bit (terminal e) i \<Longrightarrow> hasLast e \<and> i = unat (last e)" "size e = int (length (concat (parts e)))"
    using e unfolding entry_inv_def by blast+
  have e2: "hasLast e \<Longrightarrow> unat (last e) < 64 \<and> bit (terminal e) (unat (last e)) \<and> bit (seen e) (unat (last e)) \<and>
      (\<forall>i. bit (seen e) i \<longrightarrow> i \<le> unat (last e))" using e unfolding entry_inv_def by blast
  have same: "parts ?e = parts e'" "pleases ?e = pleases e'" "seen ?e = seen e'" "terminal ?e = terminal e'" "size ?e = size e'"
    by (simp_all add: stored_entry_def)
  have p: "parts e ! ?i = []" using e1(3) [OF i(1)] i(2) by blast
  have sz: "size e' = int (length (concat (parts e')))" "size e' \<le> limit"
    using size e1(1,6) p i(1) by (simp_all add: fields(1,5) length_concat_update)
  have l: "hasLast ?e \<Longrightarrow> unat (last ?e) < 64 \<and> bit (terminal e') (unat (last ?e)) \<and> bit (seen e') (unat (last ?e)) \<and>
      (\<forall>i. bit (seen e') i \<longrightarrow> i \<le> unat (last ?e))"
  proof (cases "fLast f")
    case True
    then show ?thesis using final i(1) by (auto simp: stored_entry_def fields drop_bit_zero_iff less_Suc_eq_le)
  next
    case False
    then show "hasLast ?e \<Longrightarrow> ?thesis"
      using e2 behind by (auto simp: stored_entry_def fields word_less_nat_alt)
  qed
  have t: "bit (terminal e') n \<Longrightarrow> hasLast ?e \<and> n = unat (last ?e)" for n
    using e1(5) e2 final i(2) by (auto simp: stored_entry_def fields split: if_splits)
  have ps: "bit (seen e') n \<longleftrightarrow> parts e' ! n \<noteq> []" "bit (seen e') n \<longleftrightarrow> pleases e' ! n \<noteq> None" if "n < 64" for n
    using e1(1,3,4) leases that i(1,3) by (auto simp: fields nth_list_update)
  have len: "length (parts e') = 64" "length (pleases e') = 64" using e1(1,2) by (simp_all add: fields)
  show ?thesis
    unfolding entry_inv_def same using len sz t l ps missing [unfolded same] by blast
qed

text \<open>
  What a valid fragment does to the store: it ends with a removal of its entry, or with the entry kept in
  the state \<open>e''\<close>; the verdicts are those of the code.
\<close>

lemma reasm_finish_spec:
  assumes ok: "reasm_core_but k r" and k: "k = fMessageID f" and e: "map_of (entries r) k = Some e'"
    and inv: "\<lbrakk>fLast f \<Longrightarrow> \<not> (hasLast e' \<and> last e' \<noteq> fNumber f) \<and> drop_bit (unat (fNumber f) + 1) (seen e') = 0;
      hasLast (stored_entry f e') \<Longrightarrow>
        seen (stored_entry f e') AND requiredMask (stored_entry f e') \<noteq> requiredMask (stored_entry f e')\<rbrakk>
      \<Longrightarrow> entry_inv (maxMessage r) (stored_entry f e')"
    and fin: "reasm_finish f e' r = (res, r')"
  shows "reasm_core r' \<and> foreign_live r' = foreign_live r \<and> maxMessage r' = maxMessage r \<and> maxEntries r' = maxEntries r"
proof -
  let ?e = "stored_entry f e'"
  let ?r = "r\<lparr>entries := AList.update k ?e (entries r)\<rparr>"
  have at: "lease_at ?r k' n = lease_at r k' n" for k' n
    using e by (auto simp: lease_at_def update_conv' stored_entry_def)
  have "pool_inv ?r" using ok at by (simp add: reasm_core_but_def pool_inv_def)
  moreover have "length (pleases ?e) = 64" "created ?e = created e'"
    using ok e unfolding reasm_core_but_def by (auto simp: stored_entry_def)
  ultimately have but: "reasm_core_but k ?r"
    using reasm_core_but_update [OF ok e, of ?e "rpool r"] by simp
  have "foreign_live ?r = foreign_live r" using at by (simp add: foreign_live_def fun_eq_iff)
  moreover have "r' = reasm_remove k r \<or> r' = reasm_remove k ?r \<or> r' = ?r \<and> entry_inv (maxMessage r) ?e"
    using fin inv by (auto simp: reasm_finish_def Let_def k stored_entry_def split: if_splits)
  moreover have "entry_inv (maxMessage r) ?e \<Longrightarrow> reasm_core ?r"
    using but by (intro reasm_core_strengthen [of k ?r ?e]) (auto simp: update_conv')
  ultimately show ?thesis
    using reasm_core_remove [OF ok] reasm_core_remove [OF but] by auto
qed

lemma reasm_Add_eq:
  assumes "fData f \<noteq> []" "\<not> fNumber f > 63" "reasm_entry order (fMessageID f) now r = (e, r1)"
    and "reasm_store pick f e (rpool r1) = (e', st)"
  shows "reasm_Add order pick f now r =
    (if hasLast e \<and> fNumber f > last e then (Inl ErrFragment, reasm_remove (fMessageID f) r1)
     else if bit (seen e) (unat (fNumber f)) then
       if bit (terminal e) (unat (fNumber f)) \<noteq> fLast f \<or> parts e ! unat (fNumber f) \<noteq> fData f
       then (Inl ErrFragment, reasm_remove (fMessageID f) r1) else (Inr None, r1)
     else if size e > maxMessage r1 - int (length (fData f)) then (Inl ErrTooLarge, reasm_remove (fMessageID f) r1)
     else reasm_finish f e' (r1\<lparr>entries := AList.update (fMessageID f) e' (entries r1), rpool := st\<rparr>))"
  using assms by (simp add: reasm_Add_def Let_def and_exp_eq_0_iff_not_bit)

lemma reasm_Add_core:
  assumes ok: "reasm_core r" and room: "fData f \<noteq> [] \<Longrightarrow> \<not> fNumber f > 63 \<Longrightarrow> evictable order (fMessageID f) r"
    and add: "reasm_Add order pick f now r = (res, r')"
  shows "reasm_core r' \<and> foreign_live r' = foreign_live r \<and> maxMessage r' = maxMessage r \<and> maxEntries r' = maxEntries r"
proof (cases "fData f = [] \<or> fNumber f > 63")
  case True
  then show ?thesis using add ok by (simp add: reasm_Add_def)
next
  case False
  let ?k = "fMessageID f" and ?i = "unat (fNumber f)"
  have i: "?i < 64" "fData f \<noteq> []" using False by (auto simp: word_less_nat_alt)
  obtain e r1 where ent: "reasm_entry order ?k now r = (e, r1)" by (rule prod.exhaust)
  have "evictable order ?k r" using False by (intro room) simp_all
  note r1 = reasm_entry_spec [OF ok this ent]
  then have ok1: "reasm_core r1" and e: "map_of (entries r1) ?k = Some e" by auto
  then have inv: "entry_inv (maxMessage r1) e" unfolding reasm_core_def by blast
  obtain e' st where store: "reasm_store pick f e (rpool r1) = (e', st)" by (rule prod.exhaust)
  let ?r2 = "r1\<lparr>entries := AList.update ?k e' (entries r1), rpool := st\<rparr>"
  have eq: "reasm_Add order pick f now r =
    (if hasLast e \<and> fNumber f > last e then (Inl ErrFragment, reasm_remove ?k r1)
     else if bit (seen e) ?i then
       if bit (terminal e) ?i \<noteq> fLast f \<or> parts e ! ?i \<noteq> fData f
       then (Inl ErrFragment, reasm_remove ?k r1) else (Inr None, r1)
     else if size e > maxMessage r1 - int (length (fData f)) then (Inl ErrTooLarge, reasm_remove ?k r1)
     else reasm_finish f e' ?r2)"
    using False by (intro reasm_Add_eq [OF _ _ ent store]) auto
  show ?thesis
  proof (cases "(hasLast e \<and> fNumber f > last e) \<or> bit (seen e) ?i \<or> size e > maxMessage r1 - int (length (fData f))")
    case True
    then have "r' = reasm_remove ?k r1 \<or> r' = r1"
      using add unfolding eq by (auto split: if_splits)
    then show ?thesis using r1 reasm_core_remove [OF reasm_core_weaken [OF ok1]] by auto
  next
    case F: False
    then have fin: "reasm_finish f e' ?r2 = (res, r')"
      using add unfolding eq by (auto split: if_splits)
    have unseen: "\<not> bit (seen e) ?i" using F by blast
    note st = reasm_store_spec [OF ok1 e i(1) unseen store]
    have "reasm_core r' \<and> foreign_live r' = foreign_live ?r2 \<and> maxMessage r' = maxMessage ?r2 \<and> maxEntries r' = maxEntries ?r2"
    proof (rule reasm_finish_spec [OF st(1) refl _ _ fin])
      assume final: "fLast f \<Longrightarrow> \<not> (hasLast e' \<and> last e' \<noteq> fNumber f) \<and> drop_bit (?i + 1) (seen e') = 0"
        and part: "hasLast (stored_entry f e') \<Longrightarrow>
          seen (stored_entry f e') AND requiredMask (stored_entry f e') \<noteq> requiredMask (stored_entry f e')"
      have "unat (last (stored_entry f e')) < 64" if "hasLast (stored_entry f e')"
        using inv that i(1) reasm_store_fields [OF store i(1)]
        by (cases "fLast f") (auto simp: entry_inv_def stored_entry_def)
      then have "entry_inv (maxMessage r1) (stored_entry f e')"
        using F final part requiredMask_iff [of "stored_entry f e'"]
        by (intro entry_inv_stored [OF inv i(1) unseen i(2) store _ _ _ st(3)]) blast+
      then show "entry_inv (maxMessage ?r2) (stored_entry f e')" by simp
    qed (simp add: update_conv')
    then show ?thesis using r1 st(2) by simp
  qed
qed

section \<open>One message among others\<close>

text \<open>Fragments of other messages do not touch an entry, unless they make the store evict it.\<close>

lemma reasm_entry_mem: "reasm_entry order k now r = (e, r1) \<Longrightarrow> k \<in> fst ` set (entries r1)"
  by (auto simp: reasm_entry_def Let_def split: option.splits dest: map_of_dom)

lemma reasm_entry_own: "reasm_entry order k now r = (e, r1) \<Longrightarrow> map_of (entries r1) k = Some e"
  by (auto simp: reasm_entry_def Let_def split: option.splits)

lemma reasm_store_created: "reasm_store pick f e st = (e', st') \<Longrightarrow> created e' = created e"
  by (auto simp: reasm_store_def Let_def split: prod.splits)

lemma length_reasm_remove: "length (entries (reasm_remove k r)) \<le> length (entries r)"
  by (simp add: reasm_remove_def length_delete_le split: option.splits)

lemma reasm_finish_frame:
  assumes "reasm_finish f e r = (res, r')" "fMessageID f \<in> fst ` set (entries r)"
  shows "(\<forall>k. k \<noteq> fMessageID f \<longrightarrow> map_of (entries r') k = map_of (entries r) k) \<and> length (entries r') \<le> length (entries r)"
    "map_of (entries r') (fMessageID f) = Some e' \<Longrightarrow> created e' = created e"
proof -
  define e2 where "e2 = (if fLast f then e\<lparr>last := fNumber f, hasLast := True\<rparr> else e)"
  let ?r = "r\<lparr>entries := AList.update (fMessageID f) e2 (entries r)\<rparr>"
  have "r' = reasm_remove (fMessageID f) r \<or> r' = ?r \<or> r' = reasm_remove (fMessageID f) ?r"
    using assms(1) by (auto simp: reasm_finish_def Let_def e2_def split: if_splits)
  moreover have "length (entries ?r) = length (entries r)" using assms(2) by (simp add: length_AList_update)
  ultimately show "(\<forall>k. k \<noteq> fMessageID f \<longrightarrow> map_of (entries r') k = map_of (entries r) k) \<and> length (entries r') \<le> length (entries r)"
    "map_of (entries r') (fMessageID f) = Some e' \<Longrightarrow> created e' = created e"
    using length_reasm_remove [of "fMessageID f" r] length_reasm_remove [of "fMessageID f" ?r]
    by (auto simp: map_of_reasm_remove update_conv' e2_def)
qed

lemma reasm_Add_frame:
  assumes "reasm_Add order pick f now r = (res, r')" "fData f \<noteq> []" "\<not> fNumber f > 63"
    and "reasm_entry order (fMessageID f) now r = (e, r1)"
  shows "(\<forall>k. k \<noteq> fMessageID f \<longrightarrow> map_of (entries r') k = map_of (entries r1) k) \<and> length (entries r') \<le> length (entries r1) \<and>
    (\<forall>e2. map_of (entries r') (fMessageID f) = Some e2 \<longrightarrow> created e2 = created e)"
proof -
  obtain e' st where store: "reasm_store pick f e (rpool r1) = (e', st)" by (rule prod.exhaust)
  let ?r = "r1\<lparr>entries := AList.update (fMessageID f) e' (entries r1), rpool := st\<rparr>"
  note mem = reasm_entry_mem [OF assms(4)]
  consider "r' = r1" | "r' = reasm_remove (fMessageID f) r1" | "reasm_finish f e' ?r = (res, r')"
    using assms(1) unfolding reasm_Add_eq [OF assms(2-4) store] by (auto split: if_splits)
  then show ?thesis
  proof cases
    case 3
    have "fMessageID f \<in> fst ` set (entries ?r)" using mem by (simp add: dom_update)
    from reasm_finish_frame [OF 3 this] show ?thesis
      using mem reasm_store_created [OF store] by (auto simp: update_conv' length_AList_update)
  qed (use length_reasm_remove [of "fMessageID f" r1] reasm_entry_own [OF assms(4)] in \<open>auto simp: map_of_reasm_remove\<close>)
qed

text \<open>A fragment that makes the store evict: a valid one of a new message that finds the store full.\<close>

definition forces_eviction :: "ReasmFragment \<Rightarrow> Reassembler \<Rightarrow> bool" where
  "forces_eviction f r \<longleftrightarrow>
     fData f \<noteq> [] \<and> fNumber f \<le> 63 \<and> map_of (entries r) (fMessageID f) = None \<and> int (length (entries r)) = maxEntries r"

lemma evictable_unforced: "\<not> forces_eviction f r \<Longrightarrow> fData f \<noteq> [] \<Longrightarrow> \<not> fNumber f > 63 \<Longrightarrow> evictable order (fMessageID f) r"
  by (auto simp: forces_eviction_def evictable_def)

lemma reasm_Add_other:
  assumes "reasm_Add order pick f now r = (res, r')" "\<not> forces_eviction f r" "k \<noteq> fMessageID f"
  shows "map_of (entries r') k = map_of (entries r) k"
proof (cases "fData f = [] \<or> fNumber f > 63")
  case True
  then show ?thesis using assms(1) by (simp add: reasm_Add_def)
next
  case False
  obtain e r1 where ent: "reasm_entry order (fMessageID f) now r = (e, r1)" by (rule prod.exhaust)
  have "map_of (entries r1) k = map_of (entries r) k"
    using ent assms(2,3) False by (auto simp: reasm_entry_def Let_def forces_eviction_def split: option.splits if_splits)
  then show ?thesis using reasm_Add_frame [OF assms(1) _ _ ent] False assms(3) by simp
qed

text \<open>The entries of the largest time are at most those before, and one more if the fragment has it.\<close>

lemma late_set_Add:
  assumes "reasm_Add order pick f now r = (res, r')"
  shows "late_set r' \<subseteq> late_set r \<union> (if now = NOT 0 then {fMessageID f} else {})"
proof (cases "fData f = [] \<or> fNumber f > 63")
  case True
  then show ?thesis using assms by (auto simp: reasm_Add_def)
next
  case False
  obtain e r1 where ent: "reasm_entry order (fMessageID f) now r = (e, r1)" by (rule prod.exhaust)
  have "late_set r1 \<subseteq> late_set r \<union> (if now = NOT 0 then {fMessageID f} else {})"
  proof (cases "map_of (entries r) (fMessageID f)")
    case None
    then have "map_of (entries r1) x = Some y \<Longrightarrow> x = fMessageID f \<and> created y = now \<or> map_of (entries r) x = Some y" for x y
      using ent by (auto simp: reasm_entry_def Let_def evictOldest_def map_of_reasm_remove split: if_splits)
    then show ?thesis unfolding late_set_def by fastforce
  qed (use ent in \<open>simp add: reasm_entry_def\<close>)
  moreover have "late_set r' \<subseteq> late_set r1"
  proof
    fix k assume "k \<in> late_set r'"
    then obtain e' where e': "map_of (entries r') k = Some e'" "created e' = NOT 0" by (auto simp: late_set_def)
    note fr = reasm_Add_frame [OF assms _ _ ent]
    show "k \<in> late_set r1"
    proof (cases "k = fMessageID f")
      case True
      then have "created e = NOT 0" using fr e' False by auto
      then show ?thesis using True reasm_entry_own [OF ent] by (simp add: late_set_def)
    next
      case N: False
      then show ?thesis using fr e' False by (auto simp: late_set_def)
    qed
  qed
  ultimately show ?thesis by blast
qed

lemma card_late_le: "reasm_core r \<Longrightarrow> finite (late_set r) \<and> (late_set r = fst ` set (entries r) \<longrightarrow> card (late_set r) = length (entries r))"
proof -
  assume "reasm_core r"
  then have d: "distinct (map fst (entries r))" by (simp add: reasm_core_def)
  have "late_set r \<subseteq> fst ` set (entries r)" by (auto simp: late_set_def dest: map_of_dom)
  then show ?thesis using finite_subset distinct_card [OF d] by auto
qed

text \<open>While fewer entries than the limit have the largest time, there is always one to evict.\<close>

lemma late_evictable:
  assumes "reasm_core r" "visits_all order" "int (card (late_set r)) < maxEntries r"
  shows "evictable order k r"
proof -
  have "\<exists>k e. map_of (entries r) k = Some e \<and> created e \<noteq> NOT 0" if full: "int (length (entries r)) = maxEntries r"
  proof (rule ccontr)
    assume "\<not> ?thesis"
    then have "late_set r = dom (map_of (entries r))" by (auto simp: late_set_def)
    then have "card (late_set r) = length (entries r)" using card_late_le [OF assms(1)] by (simp add: dom_map_of_conv_image_fst)
    then show False using full assms(3) by simp
  qed
  then show ?thesis using assms(2) by (simp add: evictable_def)
qed

section \<open>Reassembly in any order\<close>

text \<open>Fragment \<open>i\<close> of a message that was cut into \<open>pieces\<close>.\<close>

definition piece_frag :: "u32 \<Rightarrow> bytes list \<Rightarrow> nat \<Rightarrow> ReasmFragment" where
  "piece_frag k pieces i =
     \<lparr>fMessageID = k, fNumber = of_nat i, fLast = (i + 1 = length pieces), fData = pieces ! i\<rparr>"

definition cuttable :: "int \<Rightarrow> bytes list \<Rightarrow> bool" where
  "cuttable limit pieces \<longleftrightarrow> pieces \<noteq> [] \<and> length pieces \<le> 64 \<and> [] \<notin> set pieces \<and> int (length (concat pieces)) \<le> limit"

text \<open>The entry holds exactly the pieces in \<open>S\<close>.\<close>

definition tracks :: "bytes list \<Rightarrow> nat set \<Rightarrow> partial \<Rightarrow> bool" where
  "tracks pieces S e \<longleftrightarrow>
     (\<forall>i. bit (seen e) i \<longleftrightarrow> i \<in> S) \<and> (\<forall>i \<in> S. parts e ! i = pieces ! i) \<and>
     (hasLast e \<longleftrightarrow> length pieces - 1 \<in> S) \<and> (hasLast e \<longrightarrow> unat (last e) = length pieces - 1)"

lemma tracks_zero: "pieces \<noteq> [] \<Longrightarrow> tracks pieces {} (zero_partial\<lparr>created := t\<rparr>)"
  by (simp add: tracks_def zero_partial_def)

lemma length_concat_sum: "length (concat xs) = (\<Sum>i < length xs. length (xs ! i))"
  by (simp add: length_concat sum_list_sum_nth atLeast0LessThan)

lemma tracks_room:
  assumes "entry_inv limit e" "tracks pieces S e" "S \<subseteq> {..<length pieces}" "i < length pieces" "i \<notin> S" "cuttable limit' pieces"
  shows "size e + int (length (pieces ! i)) \<le> limit'"
proof -
  have len: "length pieces \<le> 64" and tot: "int (length (concat pieces)) \<le> limit'"
    using assms(6) by (auto simp: cuttable_def)
  have e: "length (parts e) = 64" "size e = int (length (concat (parts e)))"
    "\<And>i. i < 64 \<Longrightarrow> bit (seen e) i \<longleftrightarrow> parts e ! i \<noteq> []"
    using assms(1) unfolding entry_inv_def by blast+
  have "(\<Sum>j < 64. length (parts e ! j)) = (\<Sum>j \<in> S. length (pieces ! j))"
  proof (rule sum.mono_neutral_cong_right)
    show "S \<subseteq> {..<64}" using assms(3) len by auto
    show "\<forall>j \<in> {..<64} - S. length (parts e ! j) = 0" using e(3) assms(2) by (auto simp: tracks_def)
  qed (use assms(2) in \<open>auto simp: tracks_def\<close>)
  then have "length (concat (parts e)) + length (pieces ! i) = (\<Sum>j \<in> insert i S. length (pieces ! j))"
    using assms(3,5) e(1) finite_subset [OF assms(3)] by (simp add: length_concat_sum)
  also have "\<dots> \<le> (\<Sum>j < length pieces. length (pieces ! j))"
    using assms(3,4) by (intro sum_mono2) auto
  finally have "length (concat (parts e)) + length (pieces ! i) \<le> length (concat pieces)"
    by (simp only: length_concat_sum)
  then show ?thesis using tot e(2) by linarith
qed

lemma reasm_finish_piece:
  assumes "tracks pieces (insert i S) (stored_entry (piece_frag k pieces i) e')" "S \<subseteq> {..<length pieces}"
    and "i < length pieces" "length pieces \<le> 64" "i \<notin> S" "hasLast e' \<longleftrightarrow> length pieces - 1 \<in> S"
  shows "reasm_finish (piece_frag k pieces i) e' r =
    (let e = stored_entry (piece_frag k pieces i) e'; r' = r\<lparr>entries := AList.update k e (entries r)\<rparr> in
     if insert i S = {..<length pieces} then (Inr (Some (concat pieces)), reasm_remove k r') else (Inr None, r'))"
proof -
  let ?f = "piece_frag k pieces i" let ?e = "stored_entry ?f e'"
  have f: "unat (fNumber ?f) = i" "fMessageID ?f = k" "fLast ?f \<longleftrightarrow> i + 1 = length pieces"
    using assms(3,4) by (auto simp: piece_frag_def)
  have seen: "bit (seen e') n \<longleftrightarrow> n \<in> insert i S" for n
    using assms(1) by (simp add: tracks_def stored_entry_def split: if_splits)
  have c1: "\<not> (fLast ?f \<and> hasLast e')" using assms(5,6) f(3) by (metis add_diff_cancel_right')
  have c2: "fLast ?f \<Longrightarrow> drop_bit (i + 1) (seen e') = 0"
    using assms(2,3) f(3) by (auto simp: drop_bit_zero_iff seen)
  have e: "hasLast ?e \<longleftrightarrow> length pieces - 1 \<in> insert i S" "hasLast ?e \<Longrightarrow> unat (last ?e) = length pieces - 1"
    "seen ?e = seen e'" using assms(1) by (auto simp: tracks_def stored_entry_def)
  have full: "seen ?e AND requiredMask ?e = requiredMask ?e \<longleftrightarrow> insert i S = {..<length pieces}" if "hasLast ?e"
  proof -
    obtain m where m: "length pieces = Suc m" using assms(3) by (cases "length pieces") auto
    have "insert i S \<subseteq> {..<Suc m}" using assms(2,3) m by auto
    then have "(\<forall>j \<le> m. j \<in> insert i S) \<longleftrightarrow> insert i S = {..<Suc m}"
      unfolding lessThan_Suc_atMost by blast
    then have "(\<forall>j \<le> length pieces - 1. j \<in> insert i S) \<longleftrightarrow> insert i S = {..<length pieces}" by (simp only: m) simp
    then show ?thesis using requiredMask_iff [of ?e] e(2) [OF that] assms(3,4) e(3) seen by simp
  qed
  have msg: "reasm_message ?e = concat pieces" if "insert i S = {..<length pieces}"
  proof -
    have "hasLast ?e" using e(1) that assms(3) by auto
    then have "Suc (unat (last ?e)) = length pieces" using e(2) assms(3) by simp
    moreover have "parts ?e ! j = pieces ! j" if "j < length pieces" for j
      using assms(1) \<open>insert i S = _\<close> that unfolding tracks_def by blast
    then have "map (\<lambda>j. parts ?e ! j) [0..<length pieces] = map (\<lambda>j. pieces ! j) [0..<length pieces]" by simp
    ultimately show ?thesis by (simp only: reasm_message_def map_nth)
  qed
  have "insert i S = {..<length pieces} \<Longrightarrow> hasLast ?e" using e(1) assms(3) by auto
  then show ?thesis
    using c1 c2 full msg f(1,2)
    by (auto simp: reasm_finish_def Let_def stored_entry_def [symmetric] simp del: insert_iff)
qed

text \<open>The state of one message: nothing received yet and no entry, or an entry that holds \<open>S\<close>.\<close>

definition progress :: "u32 \<Rightarrow> bytes list \<Rightarrow> nat set \<Rightarrow> Reassembler \<Rightarrow> bool" where
  "progress k pieces S r \<longleftrightarrow>
     (case map_of (entries r) k of None \<Rightarrow> S = {} | Some e \<Rightarrow> tracks pieces S e)"

lemma tracks_stored:
  assumes "tracks pieces S e" "length (parts e) = 64" "i < length pieces" "length pieces \<le> 64" "i \<notin> S"
    and store: "reasm_store pick (piece_frag k pieces i) e st = (e', st')"
  shows "tracks pieces (insert i S) (stored_entry (piece_frag k pieces i) e')"
proof -
  let ?f = "piece_frag k pieces i"
  have f: "unat (fNumber ?f) = i" "fData ?f = pieces ! i" "i < 64" using assms(3,4) by (auto simp: piece_frag_def)
  note fields = reasm_store_fields [OF store, unfolded f, OF f(3)]
  have seen: "\<forall>n. bit (seen e') n \<longleftrightarrow> n \<in> insert i S" using assms(1) fields(7) by (auto simp: tracks_def)
  have parts: "\<forall>n \<in> insert i S. parts e' ! n = pieces ! n"
    using assms(1,2,5) f(3) fields(1) by (auto simp: tracks_def nth_list_update)
  show ?thesis
  proof (cases "i + 1 = length pieces")
    case True
    then have "stored_entry ?f e' = e'\<lparr>last := fNumber ?f, hasLast := True\<rparr>" "length pieces - 1 = i"
      by (simp_all add: stored_entry_def piece_frag_def)
    then show ?thesis using seen parts f(1) by (simp add: tracks_def)
  next
    case False
    then have "stored_entry ?f e' = e'" "length pieces - 1 \<noteq> i"
      using assms(3) by (auto simp: stored_entry_def piece_frag_def)
    then show ?thesis using seen parts assms(1) fields(2,3) by (simp add: tracks_def)
  qed
qed

lemma reasm_Add_piece_core:
  assumes ok: "reasm_core r" "evictable order k r" and cut: "cuttable (maxMessage r) pieces"
    and S: "S \<subseteq> {..<length pieces}" "i < length pieces" "i \<notin> S" and pr: "progress k pieces S r"
    and add: "reasm_Add order pick (piece_frag k pieces i) now r = (res, r')"
  shows "if insert i S = {..<length pieces} then res = Inr (Some (concat pieces))
    else res = Inr None \<and> progress k pieces (insert i S) r'"
proof -
  let ?f = "piece_frag k pieces i"
  have pieces: "pieces \<noteq> []" "length pieces \<le> 64" "pieces ! i \<noteq> []"
    using cut S(2) nth_mem [OF S(2)] unfolding cuttable_def by metis+
  have f: "unat (fNumber ?f) = i" "fMessageID ?f = k" "fData ?f = pieces ! i" "fLast ?f \<longleftrightarrow> i + 1 = length pieces" "i < 64"
    using S(2) pieces(2) by (auto simp: piece_frag_def)
  obtain e r1 where ent: "reasm_entry order k now r = (e, r1)" by (rule prod.exhaust)
  note r1 = reasm_entry_spec [OF ok ent]
  have e: "tracks pieces S e"
  proof (cases "map_of (entries r) k")
    case None
    then have "e = zero_partial\<lparr>created := now\<rparr>" using ent by (auto simp: reasm_entry_def Let_def)
    then show ?thesis using pr None tracks_zero [OF pieces(1)] by (simp add: progress_def)
  qed (use ent pr in \<open>auto simp: reasm_entry_def progress_def\<close>)
  have inv: "entry_inv (maxMessage r1) e" using r1 unfolding reasm_core_def by blast
  obtain e' st where store: "reasm_store pick ?f e (rpool r1) = (e', st)" by (rule prod.exhaust)
  note fields = reasm_store_fields [OF store, unfolded f, OF f(5)]
  let ?e = "stored_entry ?f e'"
  have len: "length (parts e) = 64" using inv by (simp add: entry_inv_def)
  note stored = tracks_stored [OF e len S(2) pieces(2) S(3) store]
  note fin = reasm_finish_piece [OF stored S(1,2) pieces(2) S(3)]
  have "hasLast e \<Longrightarrow> i \<le> unat (last e)" using e S(2) by (simp add: tracks_def)
  then have c: "\<not> (hasLast e \<and> fNumber ?f > last e)" "\<not> bit (seen e) (unat (fNumber ?f))"
    using e S(3) f(1) by (auto simp: word_less_nat_alt tracks_def)
  have "size e + int (length (pieces ! i)) \<le> maxMessage r"
    using tracks_room [OF inv e S(1,2,3)] cut by blast
  then have "reasm_Add order pick ?f now r =
      reasm_finish ?f e' (r1\<lparr>entries := AList.update k e' (entries r1), rpool := st\<rparr>)"
    using c pieces(3) f r1 reasm_Add_eq [of ?f order now r e r1 pick e' st, unfolded f(2,3), OF _ _ ent store]
    by (auto simp: word_less_nat_alt)
  moreover have "hasLast e' \<longleftrightarrow> length pieces - 1 \<in> S" using e fields(2) by (simp add: tracks_def)
  ultimately show ?thesis
    using add fin stored
    by (auto simp: Let_def progress_def update_conv' split: if_splits)
qed

text \<open>A stream of fragments with the choices of the pool and the arrival times.\<close>

fun reasm_run ::
  "visit_order \<Rightarrow> (ReasmFragment \<times> nat option \<times> u64) list \<Rightarrow> Reassembler \<Rightarrow> (u32 \<times> bytes option result) list" where
  "reasm_run order [] r = []"
| "reasm_run order ((f, pick, now) # fs) r =
     (case reasm_Add order pick f now r of (res, r') \<Rightarrow> (fMessageID f, res) # reasm_run order fs r')"

definition outcomes :: "u32 \<Rightarrow> (u32 \<times> bytes option result) list \<Rightarrow> bytes option result list" where
  "outcomes k rs = map snd (filter (\<lambda>p. fst p = k) rs)"

lemma reasm_run_silent:
  "filter (\<lambda>f. fMessageID f = k) (map fst fs) = [] \<Longrightarrow> outcomes k (reasm_run order fs r) = []"
  by (induction fs arbitrary: r) (auto simp: outcomes_def split: prod.splits if_splits)

text \<open>No fragment of the stream forces an eviction when it arrives.\<close>

fun no_eviction :: "visit_order \<Rightarrow> (ReasmFragment \<times> nat option \<times> u64) list \<Rightarrow> Reassembler \<Rightarrow> bool" where
  "no_eviction order [] r = True"
| "no_eviction order ((f, pick, now) # fs) r = (\<not> forces_eviction f r \<and> no_eviction order fs (snd (reasm_Add order pick f now r)))"

lemma piece_frag_valid:
  assumes "cuttable limit pieces" "i < length pieces"
  shows "fData (piece_frag k pieces i) \<noteq> []" "\<not> fNumber (piece_frag k pieces i) > 63" "fMessageID (piece_frag k pieces i) = k"
proof -
  have "length pieces \<le> 64" "pieces ! i \<noteq> []" using assms nth_mem [OF assms(2)] unfolding cuttable_def by metis+
  then show "fData (piece_frag k pieces i) \<noteq> []" "\<not> fNumber (piece_frag k pieces i) > 63" "fMessageID (piece_frag k pieces i) = k"
    using assms(2) by (auto simp: piece_frag_def word_less_nat_alt)
qed

lemma reasm_run_progress:
  assumes "reasm_core r" "no_eviction order fs r" "cuttable (maxMessage r) pieces"
    and "filter (\<lambda>f. fMessageID f = k) (map fst fs) = map (piece_frag k pieces) js"
    and "js \<noteq> []" "distinct js" "S \<inter> set js = {}" "S \<union> set js = {..<length pieces}" "progress k pieces S r"
  shows "outcomes k (reasm_run order fs r) =
    replicate (length js - 1) (Inr None) @ [Inr (Some (concat pieces))]"
  using assms
proof (induction fs arbitrary: r S js)
  case (Cons p fs)
  obtain f pick now where p: "p = (f, pick, now)" by (cases p)
  obtain res r' where add: "reasm_Add order pick f now r = (res, r')" by (rule prod.exhaust)
  have room: "\<not> forces_eviction f r" and later: "no_eviction order fs r'" using Cons.prems(2) by (simp_all add: p add)
  have ok: "reasm_core r'" "maxMessage r' = maxMessage r"
    using reasm_Add_core [OF Cons.prems(1) evictable_unforced [OF room] add] by auto
  show ?case
  proof (cases "fMessageID f = k")
    case False
    then have "progress k pieces S r'"
      using Cons.prems(9) reasm_Add_other [OF add room, of k] by (simp add: progress_def)
    from Cons.IH [OF ok(1) later _ _ Cons.prems(5-8) this] Cons.prems(3,4) False ok(2)
    show ?thesis by (simp add: p add outcomes_def)
  next
    case True
    then obtain i ks where js: "js = i # ks" and f: "f = piece_frag k pieces i"
      and rest: "filter (\<lambda>f. fMessageID f = k) (map fst fs) = map (piece_frag k pieces) ks"
      using Cons.prems(4) p by (cases js) auto
    have i: "S \<subseteq> {..<length pieces}" "i < length pieces" "i \<notin> S" using Cons.prems(7,8) js by auto
    have "evictable order k r" using evictable_unforced [OF room] piece_frag_valid [OF Cons.prems(3) i(2)] f by metis
    note piece = reasm_Add_piece_core [OF Cons.prems(1) this Cons.prems(3) i Cons.prems(9) add [unfolded f]]
    show ?thesis
    proof (cases "ks = []")
      case True
      then have "insert i S = {..<length pieces}" using Cons.prems(8) js by simp
      then have "res = Inr (Some (concat pieces))" using piece by simp
      moreover have "outcomes k (reasm_run order fs r') = []" using rest True by (intro reasm_run_silent) simp
      ultimately show ?thesis
        using True js \<open>fMessageID f = k\<close> by (simp add: p add outcomes_def)
    next
      case False
      then have hd: "hd ks \<in> set ks" by simp
      then have "hd ks \<notin> insert i S" using Cons.prems(6,7) js by auto
      moreover have "hd ks \<in> {..<length pieces}" using hd unfolding Cons.prems(8) [symmetric] js by simp
      ultimately have "insert i S \<noteq> {..<length pieces}" by blast
      then have "res = Inr None" "progress k pieces (insert i S) r'" using piece by auto
      moreover have part: "distinct ks" "insert i S \<inter> set ks = {}" "insert i S \<union> set ks = {..<length pieces}"
        using Cons.prems(6,7) js unfolding Cons.prems(8) [symmetric] by auto
      ultimately have "outcomes k (reasm_run order fs r') =
          replicate (length ks - 1) (Inr None) @ [Inr (Some (concat pieces))]"
        using Cons.prems(3) ok(2) by (intro Cons.IH [OF ok(1) later _ rest False]) simp_all
      then show ?thesis
        using \<open>res = Inr None\<close> False \<open>fMessageID f = k\<close> by (cases ks) (simp_all add: p add outcomes_def js)
    qed
  qed
qed simp

section \<open>Expiry\<close>

lemma expire_fold:
  assumes "foldl (\<lambda>(removed, r) (k, entry). if created entry \<le> cutoff then (removed + 1, reasm_remove k r) else (removed, r))
      (n, r) xs = (n', r')" "reasm_core r"
  shows "reasm_core r' \<and> foreign_live r' = foreign_live r \<and> maxMessage r' = maxMessage r \<and> maxEntries r' = maxEntries r \<and>
    n' = n + length (filter (\<lambda>(k, e). created e \<le> cutoff) xs) \<and>
    map_of (entries r') = (\<lambda>k. if \<exists>e. (k, e) \<in> set xs \<and> created e \<le> cutoff then None else map_of (entries r) k)"
  using assms
proof (induction xs arbitrary: n r)
  case (Cons p xs)
  obtain k e where p: "p = (k, e)" by (cases p)
  show ?case
  proof (cases "created e \<le> cutoff")
    case True
    note rm = reasm_core_remove [OF reasm_core_weaken [OF Cons.prems(2)], of k]
    show ?thesis
      using Cons.IH [of "n + 1" "reasm_remove k r"] Cons.prems(1) rm True
      by (auto simp: p map_of_reasm_remove fun_eq_iff)
  next
    case False
    then show ?thesis using Cons.IH [of n r] Cons.prems by (auto simp: p fun_eq_iff)
  qed
qed simp

lemma reasm_Expire_core:
  assumes "reasm_core r" "visits_all order" "reasm_Expire order cutoff r = (n, r')"
  shows "reasm_core r' \<and> foreign_live r' = foreign_live r \<and> maxMessage r' = maxMessage r \<and> maxEntries r' = maxEntries r \<and>
    n = length (filter (\<lambda>(k, e). created e \<le> cutoff) (entries r)) \<and>
    map_of (entries r') k = (case map_of (entries r) k of
      Some e \<Rightarrow> if created e \<le> cutoff then None else Some e | None \<Rightarrow> None)"
proof -
  have "mset (order (entries r)) = mset (entries r)" using assms(2) by (simp add: visits_all_def)
  then have "mset (filter P (order (entries r))) = mset (filter P (entries r))" for P by simp
  then have len: "length (filter P (order (entries r))) = length (filter P (entries r))" for P
    by (metis size_mset)
  have mem: "(k, e) \<in> set (order (entries r)) \<longleftrightarrow> map_of (entries r) k = Some e" for e
    using assms(1) visits_all_set [OF assms(2)] by (auto simp: reasm_core_def)
  from expire_fold [OF assms(3) [unfolded reasm_Expire_def] assms(1)] show ?thesis
    by (auto simp: len mem split: option.splits)
qed

section \<open>Sequences of operations\<close>

datatype reasm_act =
    ActAdd visit_order "nat option" ReasmFragment u64
  | ActExpire visit_order u64

fun reasm_step :: "reasm_act \<Rightarrow> Reassembler \<Rightarrow> Reassembler" where
  "reasm_step (ActAdd order pick f now) r = snd (reasm_Add order pick f now r)"
| "reasm_step (ActExpire order cutoff) r = snd (reasm_Expire order cutoff r)"

fun act_visits :: "reasm_act \<Rightarrow> bool" where
  "act_visits (ActAdd order pick f now) \<longleftrightarrow> visits_all order"
| "act_visits (ActExpire order cutoff) \<longleftrightarrow> visits_all order"

text \<open>Fragments that arrive at the largest time.\<close>

fun act_late :: "reasm_act \<Rightarrow> bool" where
  "act_late (ActAdd order pick f now) \<longleftrightarrow> now = NOT 0"
| "act_late (ActExpire order cutoff) \<longleftrightarrow> False"

lemma reasm_step_core:
  assumes "reasm_core r" "act_visits act" "int (card (late_set r)) < maxEntries r"
  shows "reasm_core (reasm_step act r) \<and> foreign_live (reasm_step act r) = foreign_live r \<and>
    maxMessage (reasm_step act r) = maxMessage r \<and> maxEntries (reasm_step act r) = maxEntries r \<and>
    card (late_set (reasm_step act r)) \<le> card (late_set r) + of_bool (act_late act)"
proof (cases act)
  case (ActAdd order pick f now)
  obtain res r' where add: "reasm_Add order pick f now r = (res, r')" by (rule prod.exhaust)
  have "evictable order (fMessageID f) r" using assms ActAdd by (intro late_evictable) simp_all
  note ok = reasm_Add_core [OF assms(1) this add]
  have fin: "finite (late_set r)" using card_late_le [OF assms(1)] by blast
  have "card (late_set r') \<le> card (late_set r \<union> (if now = NOT 0 then {fMessageID f} else {}))"
    using fin late_set_Add [OF add] by (intro card_mono) auto
  also have "\<dots> \<le> card (late_set r) + of_bool (now = NOT 0)" using card_Un_le [of "late_set r" "{fMessageID f}"] by simp
  finally show ?thesis using ok ActAdd add by simp
next
  case (ActExpire order cutoff)
  obtain n r' where ex: "reasm_Expire order cutoff r = (n, r')" by (rule prod.exhaust)
  have "visits_all order" using assms(2) ActExpire by simp
  note ok = reasm_Expire_core [OF assms(1) this ex]
  have "map_of (entries r') k = Some e \<Longrightarrow> map_of (entries r) k = Some e" for k e using ok [of k] by (auto split: option.splits if_splits)
  then have "late_set r' \<subseteq> late_set r" unfolding late_set_def by blast
  then have "card (late_set r') \<le> card (late_set r)" using card_late_le [OF assms(1)] by (intro card_mono) blast+
  then show ?thesis using ok ActExpire ex by simp
qed

lemma reasm_steps_core:
  assumes "reasm_core r" "list_all act_visits acts" "int (card (late_set r) + length (filter act_late acts)) < maxEntries r"
  shows "reasm_core (foldl (\<lambda>r act. reasm_step act r) r acts) \<and>
    foreign_live (foldl (\<lambda>r act. reasm_step act r) r acts) = foreign_live r \<and>
    maxMessage (foldl (\<lambda>r act. reasm_step act r) r acts) = maxMessage r \<and>
    maxEntries (foldl (\<lambda>r act. reasm_step act r) r acts) = maxEntries r \<and>
    int (card (late_set (foldl (\<lambda>r act. reasm_step act r) r acts))) < maxEntries r"
  using assms
proof (induction acts arbitrary: r)
  case (Cons act acts)
  have "reasm_core (reasm_step act r) \<and> foreign_live (reasm_step act r) = foreign_live r \<and> maxMessage (reasm_step act r) = maxMessage r \<and>
      maxEntries (reasm_step act r) = maxEntries r \<and> card (late_set (reasm_step act r)) \<le> card (late_set r) + of_bool (act_late act)"
    using Cons.prems by (intro reasm_step_core) simp_all
  then show ?case using Cons.IH [of "reasm_step act r"] Cons.prems(2,3) by (cases "act_late act") simp_all
qed simp

lemma reasm_core_New: "slab_ok st \<Longrightarrow> reasm_core (NewReassembler maxE maxM st)" "late_set (NewReassembler maxE maxM st) = {}"
  by (simp_all add: reasm_core_def NewReassembler_def pool_inv_def lease_at_def late_set_def)

lemma map_nth_take: "n \<le> length xs \<Longrightarrow> map (\<lambda>i. xs ! i) [0..<n] = take n xs"
  by (rule nth_equalityI) auto

lemma length_reasm_message:
  assumes "unat (last e) < length (parts e)"
  shows "length (reasm_message e) \<le> length (concat (parts e))"
proof -
  have "reasm_message e = concat (take (Suc (unat (last e))) (parts e))"
    unfolding reasm_message_def using assms by (subst map_nth_take) auto
  moreover have "concat (take n (parts e)) @ concat (drop n (parts e)) = concat (parts e)" for n
    by (metis append_take_drop_id concat_append)
  from this [of "Suc (unat (last e))", symmetric] have "length (concat (take (Suc (unat (last e))) (parts e))) \<le> length (concat (parts e))"
    by (simp only: length_append)
  ultimately show ?thesis by simp
qed

text \<open>A message that is handed out is never longer than the limit.\<close>

lemma reasm_Add_size:
  assumes ok: "reasm_core r" "evictable order (fMessageID f) r" and add: "reasm_Add order pick f now r = (Inr (Some msg), r')"
  shows "int (length msg) \<le> maxMessage r"
proof -
  have valid: "fData f \<noteq> []" "\<not> fNumber f > 63" using add by (auto simp: reasm_Add_def split: if_splits)
  then have i: "unat (fNumber f) < 64" by (simp add: word_less_nat_alt)
  obtain e r1 where ent: "reasm_entry order (fMessageID f) now r = (e, r1)" by (rule prod.exhaust)
  note r1 = reasm_entry_spec [OF ok ent]
  then have inv: "entry_inv (maxMessage r) e" unfolding reasm_core_def by metis
  obtain e' st where store: "reasm_store pick f e (rpool r1) = (e', st)" by (rule prod.exhaust)
  note fields = reasm_store_fields [OF store i]
  let ?e = "stored_entry f e'"
  have "\<not> bit (seen e) (unat (fNumber f))" "\<not> size e > maxMessage r - int (length (fData f))"
    and fin: "reasm_finish f e' (r1\<lparr>entries := AList.update (fMessageID f) e' (entries r1), rpool := st\<rparr>) = (Inr (Some msg), r')"
    using add r1 unfolding reasm_Add_eq [OF valid ent store] by (auto split: if_splits)
  moreover have "size e = int (length (concat (parts e)))" "length (parts e) = 64"
    using inv unfolding entry_inv_def by blast+
  ultimately have "int (length (concat (parts e'))) \<le> maxMessage r" "length (parts ?e) = 64"
    using entry_inv_unseen [OF inv i] i by (auto simp: fields length_concat_update stored_entry_def)
  moreover have "msg = reasm_message ?e" "hasLast ?e"
    using fin by (auto simp: reasm_finish_def Let_def stored_entry_def split: if_splits)
  moreover from this have "unat (last ?e) < 64"
    using inv i by (cases "fLast f") (auto simp: stored_entry_def fields entry_inv_def)
  ultimately show ?thesis using length_reasm_message [of ?e] by (simp add: stored_entry_def split: if_splits)
qed

section \<open>Stores that outgrow their limit\<close>

text \<open>A valid fragment that opens a message and does not end it.\<close>

definition opens_message :: "int \<Rightarrow> ReasmFragment \<Rightarrow> bool" where
  "opens_message limit f \<longleftrightarrow> fMessageID f \<noteq> 0 \<and> fData f \<noteq> [] \<and> fNumber f \<le> 63 \<and> \<not> fLast f \<and> int (length (fData f)) \<le> limit"

text \<open>No entry can be evicted: the store is beyond its limit, or has only entries of the largest time.\<close>

definition unevictable :: "Reassembler \<Rightarrow> bool" where
  "unevictable r \<longleftrightarrow> maxEntries r < int (length (entries r)) \<or> (\<forall>p \<in> set (entries r). created (snd p) = NOT 0 \<and> fst p \<noteq> 0)"

lemma reasm_entry_unevictable:
  assumes "visits_all order" "unevictable r" "map_of (entries r) k = None"
  shows "reasm_entry order k now r = (zero_partial\<lparr>created := now\<rparr>, r\<lparr>entries := (k, zero_partial\<lparr>created := now\<rparr>) # entries r\<rparr>)"
proof -
  have "evictOldest order r = r" if "int (length (entries r)) = maxEntries r"
  proof -
    have v: "\<forall>p \<in> set (entries r). created (snd p) = NOT 0 \<and> fst p \<noteq> 0" using assms(2) that by (auto simp: unevictable_def)
    then have "oldest_entry (map (\<lambda>(k, e). (k, created e)) (order (entries r))) = 0"
      using visits_all_set [OF assms(1), of "entries r"] by (intro oldest_entry_none) auto
    moreover have "map_of (entries r) 0 = None" using v by (auto simp: map_of_eq_None_iff)
    ultimately show ?thesis by (simp add: evictOldest_def reasm_remove_def)
  qed
  then show ?thesis using assms(3) by (simp add: reasm_entry_def Let_def)
qed

lemma reasm_Add_unevictable:
  assumes "visits_all order" "unevictable r" "map_of (entries r) (fMessageID f) = None" "opens_message (maxMessage r) f"
  obtains e st where "reasm_Add order pick f now r = (Inr None, r\<lparr>entries := (fMessageID f, e) # entries r, rpool := st\<rparr>)" "created e = now"
proof -
  let ?e = "zero_partial\<lparr>created := now\<rparr>"
  note f = assms(4) [unfolded opens_message_def]
  obtain e st where store: "reasm_store pick f ?e (rpool r) = (e, st)" by (rule prod.exhaust)
  have i: "unat (fNumber f) < 64" using f by (simp add: word_le_nat_alt)
  have h: "\<not> hasLast e" "created e = now" using reasm_store_fields(2) [OF store i] reasm_store_created [OF store] by (simp_all add: zero_partial_def)
  have "reasm_Add order pick f now r = reasm_finish f e (r\<lparr>entries := (fMessageID f, e) # entries r, rpool := st\<rparr>)"
    using f store by (subst reasm_Add_eq [OF _ _ reasm_entry_unevictable [OF assms(1-3)]]) (auto simp: zero_partial_def not_less)
  then have "reasm_Add order pick f now r = (Inr None, r\<lparr>entries := (fMessageID f, e) # entries r, rpool := st\<rparr>)"
    using f h(1) by (simp add: reasm_finish_def Let_def)
  then show ?thesis using that h(2) by blast
qed

lemma reasm_outgrow_run:
  assumes "visits_all order"
  shows "unevictable r \<Longrightarrow> distinct (map (\<lambda>(f, now). fMessageID f) fs) \<Longrightarrow> \<forall>(f, now) \<in> set fs. map_of (entries r) (fMessageID f) = None \<Longrightarrow>
    \<forall>(f, now) \<in> set fs. opens_message (maxMessage r) f \<Longrightarrow> \<forall>j < length fs. int (length (entries r) + j) < maxEntries r \<longrightarrow> snd (fs ! j) = NOT 0 \<Longrightarrow>
    length (entries (foldl (\<lambda>r act. reasm_step act r) r (map (\<lambda>(f, now). ActAdd order pick f now) fs))) = length (entries r) + length fs"
proof (induction fs arbitrary: r)
  case (Cons p fs)
  obtain f now where p: "p = (f, now)" by (cases p)
  have new: "map_of (entries r) (fMessageID f) = None" and opens: "opens_message (maxMessage r) f" using Cons.prems(3,4) p by auto
  obtain e st where add: "reasm_Add order pick f now r = (Inr None, r\<lparr>entries := (fMessageID f, e) # entries r, rpool := st\<rparr>)" "created e = now"
    by (rule reasm_Add_unevictable [OF assms Cons.prems(1) new opens])
  let ?r = "r\<lparr>entries := (fMessageID f, e) # entries r, rpool := st\<rparr>"
  have "int (length (entries r)) < maxEntries r \<Longrightarrow> now = NOT 0" using Cons.prems(5) [rule_format, of 0] p by simp
  then have "unevictable ?r" using Cons.prems(1) opens add(2) by (auto simp: unevictable_def opens_message_def)
  moreover have "\<forall>j < length fs. int (length (entries ?r) + j) < maxEntries ?r \<longrightarrow> snd (fs ! j) = NOT 0"
    using Cons.prems(5) [rule_format, of "Suc j" for j] by simp
  ultimately show ?case using Cons.IH [of ?r] Cons.prems(2-4) p add(1) by (fastforce simp: image_iff)
qed simp

section \<open>Stores without entries of the largest time\<close>

definition reasm_ok :: "Reassembler \<Rightarrow> bool" where
  "reasm_ok r \<longleftrightarrow> reasm_core r \<and> late_set r = {}"

lemma reasm_ok_evictable: "reasm_ok r \<Longrightarrow> visits_all order \<Longrightarrow> evictable order k r"
  by (rule late_evictable) (auto simp: reasm_ok_def reasm_core_def)

lemma reasm_Add_ok:
  assumes "reasm_ok r" "visits_all order" "now \<noteq> NOT 0" "reasm_Add order pick f now r = (res, r')"
  shows "reasm_ok r' \<and> foreign_live r' = foreign_live r \<and> maxMessage r' = maxMessage r \<and> maxEntries r' = maxEntries r"
  using reasm_Add_core [OF _ reasm_ok_evictable [OF assms(1,2)] assms(4)] late_set_Add [OF assms(4)] assms(1,3) by (simp add: reasm_ok_def)

lemma reasm_Add_piece:
  assumes "reasm_ok r" "visits_all order" "now \<noteq> NOT 0" "cuttable (maxMessage r) pieces" "S \<subseteq> {..<length pieces}" "i < length pieces" "i \<notin> S"
    "progress k pieces S r" "reasm_Add order pick (piece_frag k pieces i) now r = (res, r')"
  shows "if insert i S = {..<length pieces} then res = Inr (Some (concat pieces))
    else res = Inr None \<and> progress k pieces (insert i S) r'"
  using reasm_Add_piece_core [OF _ reasm_ok_evictable [OF assms(1,2)] assms(4-9)] assms(1) by (simp add: reasm_ok_def)

lemma reasm_Expire_spec:
  assumes "reasm_ok r" "visits_all order" "reasm_Expire order cutoff r = (n, r')"
  shows "reasm_ok r' \<and> foreign_live r' = foreign_live r \<and> maxMessage r' = maxMessage r \<and> maxEntries r' = maxEntries r \<and>
    n = length (filter (\<lambda>(k, e). created e \<le> cutoff) (entries r)) \<and>
    map_of (entries r') k = (case map_of (entries r) k of
      Some e \<Rightarrow> if created e \<le> cutoff then None else Some e | None \<Rightarrow> None)"
proof -
  have c: "reasm_core r" "late_set r = {}" using assms(1) by (simp_all add: reasm_ok_def)
  note e = reasm_Expire_core [OF c(1) assms(2,3)]
  have "map_of (entries r') x = Some y \<Longrightarrow> map_of (entries r) x = Some y" for x y using e [of x] by (auto split: option.splits if_splits)
  then have "late_set r' = {}" using c(2) unfolding late_set_def by blast
  then show ?thesis using e by (simp add: reasm_ok_def)
qed

lemma reasm_ok_New: "slab_ok st \<Longrightarrow> reasm_ok (NewReassembler maxE maxM st)"
  by (simp add: reasm_ok_def reasm_core_New)

section \<open>Properties\<close>

text \<open>
  C3. Reassembly is complete in any order: when the fragments of a message arrive in any permutation,
  interleaved with any fragments of other messages (valid or not) at any times, and no fragment of the stream is a valid one of a new
  message that finds the store full, which would force an eviction, then
  every fragment but the last to arrive answers nothing, and the last one answers exactly the
  concatenation of the pieces.
\<close>

theorem reassembly_any_order:
  assumes "reasm_core r" "map_of (entries r) k = None" "cuttable (maxMessage r) pieces" "no_eviction order fs r"
    and "filter (\<lambda>f. fMessageID f = k) (map fst fs) = map (piece_frag k pieces) js"
    and "distinct js" "set js = {..<length pieces}"
  shows "outcomes k (reasm_run order fs r) =
    replicate (length pieces - 1) (Inr None) @ [Inr (Some (concat pieces))]"
proof -
  have "length js = length pieces" using distinct_card [OF assms(6)] assms(7) by simp
  moreover have "js \<noteq> []" using calculation assms(3) by (auto simp: cuttable_def)
  ultimately show ?thesis
    using reasm_run_progress [OF assms(1,4,3,5) _ assms(6), of "{}"] assms(2,7)
    by (simp add: progress_def)
qed

text \<open>Two fragments in a store of one entry, with a fragment that is not valid between them.\<close>

theorem reassembly_any_order_witness:
  "outcomes 7 (reasm_run (\<lambda>xs. xs)
     [(piece_frag 7 [[1], [2, 3]] 1, None, 5), (\<lparr>fMessageID = 9, fNumber = 64, fLast = False, fData = [4]\<rparr>, None, 6), (piece_frag 7 [[1], [2, 3]] 0, None, NOT 0)]
     (NewReassembler 1 100 slab_init)) = [Inr None, Inr (Some [1, 2, 3])]"
proof -
  let ?r = "NewReassembler 1 100 slab_init" and ?x = "\<lparr>fMessageID = 9, fNumber = 64, fLast = False, fData = [4]\<rparr>"
  let ?fs = "[(piece_frag 7 [[1], [2, 3]] 1, None, 5), (?x, None, 6), (piece_frag 7 [[1], [2, 3]] 0, None, NOT 0)]"
  have r: "reasm_core ?r" "map_of (entries ?r) 7 = None" "cuttable (maxMessage ?r) [[1], [2, 3]]"
    using reasm_core_New(1) [OF slab_ok_init, of 1 100] by (simp_all add: NewReassembler_def cuttable_def)
  obtain res r1 where a: "reasm_Add (\<lambda>xs. xs) None (piece_frag 7 [[1], [2, 3]] 1) 5 ?r = (res, r1)" by (rule prod.exhaust)
  have first: "\<not> forces_eviction (piece_frag 7 [[1], [2, 3]] 1) ?r" by (simp add: forces_eviction_def NewReassembler_def)
  have "progress 7 [[1], [2, 3]] {1} r1"
    using reasm_Add_piece_core [OF r(1) _ r(3), of "\<lambda>xs. xs" 7 "{}" 1] a r(2) by (simp add: evictable_def NewReassembler_def progress_def lessThan_Suc)
  then have "map_of (entries r1) 7 \<noteq> None" unfolding progress_def by (cases "map_of (entries r1) 7") auto
  then have "no_eviction (\<lambda>xs. xs) ?fs ?r" using first a by (auto simp: forces_eviction_def piece_frag_def reasm_Add_def [of _ _ ?x])
  from reassembly_any_order [OF r this, of "[1, 0]"] show ?thesis by (simp add: piece_frag_def lessThan_Suc insert_commute)
qed

text \<open>
  C4. The reassembler is bounded and keeps to itself: after any sequence of added fragments and expiries in which fewer
  than \<open>maxEntries\<close> fragments arrive at the time \<open>2 ^ 64 - 1\<close>,
  it retains at most \<open>maxEntries\<close> partial messages, each of at most \<open>maxMessage\<close> bytes (as its counter
  says), every message it hands out is at most that long, and the leases of all other users of the slab
  pool are exactly those held before, so no foreign lease was released and none of its own is leaked.
  With more fragments of that time the bound can fail, as the next property shows.
\<close>

theorem reassembler_bounded:
  fixes maxE maxM :: int
  assumes "slab_ok st" "list_all act_visits acts" "int (length (filter act_late acts)) < (if maxE \<le> 0 then 128 else maxE)"
  defines "r \<equiv> foldl (\<lambda>r act. reasm_step act r) (NewReassembler maxE maxM st) acts"
  shows "int (length (entries r)) \<le> (if maxE \<le> 0 then 128 else maxE) \<and>
    (map_of (entries r) k = Some e \<longrightarrow>
      size e = int (length (concat (parts e))) \<and> size e \<le> (if maxM \<le> 0 then 62690 else maxM)) \<and>
    (visits_all order \<and> reasm_Add order pick f now r = (Inr (Some msg), r') \<longrightarrow>
      int (length msg) \<le> (if maxM \<le> 0 then 62690 else maxM)) \<and>
    foreign_live r = lease_live st"
proof -
  let ?n = "NewReassembler maxE maxM st"
  have lim: "maxEntries ?n = (if maxE \<le> 0 then 128 else maxE)" "maxMessage ?n = (if maxM \<le> 0 then 62690 else maxM)" by (simp_all add: NewReassembler_def)
  have "int (card (late_set ?n) + length (filter act_late acts)) < maxEntries ?n" using assms(3) by (simp add: reasm_core_New lim)
  note ok = reasm_steps_core [OF reasm_core_New(1) [OF assms(1)] assms(2) this, folded r_def]
  have "foreign_live ?n = lease_live st" by (simp add: foreign_live_def lease_at_def NewReassembler_def fun_eq_iff)
  moreover have "int (length (entries r)) \<le> maxEntries r" using ok by (simp add: reasm_core_def)
  moreover have "size e = int (length (concat (parts e))) \<and> size e \<le> maxMessage r" if "map_of (entries r) k = Some e"
    using ok that unfolding reasm_core_def entry_inv_def by blast
  moreover have "int (length msg) \<le> maxMessage r" if "visits_all order" "reasm_Add order pick f now r = (Inr (Some msg), r')"
    using ok that by (intro reasm_Add_size [OF _ late_evictable that(2)]) simp_all
  ultimately show ?thesis unfolding lim [symmetric] using ok by auto
qed

text \<open>A store of two entries, and one fragment at the largest time.\<close>

theorem reassembler_bounded_witness:
  "int (length (entries (reasm_step (ActAdd (\<lambda>xs. xs) None (piece_frag 7 [[1], [2]] 0) (NOT 0)) (NewReassembler 2 10 slab_init)))) \<le> 2"
  using reassembler_bounded [OF slab_ok_init, of "[ActAdd (\<lambda>xs. xs) None (piece_frag 7 [[1], [2]] 0) (NOT 0)]" 2 10]
  by simp

text \<open>
  C35. The condition on times is needed. The scan for the oldest entry starts from the time \<open>2 ^ 64 - 1\<close> and takes only earlier ones, so in a
  store filled with fragments of that time it finds none and removes message 0 instead, which is not there; and since the code compares the
  number of entries with the limit for equality, nothing is evicted from then on. Hence, if the first \<open>maxEntries\<close> fragments
  arrive at that time, the store holds as many partial messages as there were fragments, however many: here fragments that each open a message of their own other than 0,
  within the size limit and not marked as the last, the later ones at any times.
\<close>

theorem reassembler_outgrows:
  fixes maxE maxM :: int
  assumes "visits_all order" "distinct (map (\<lambda>(f, now). fMessageID f) fs)"
    "\<forall>(f, now) \<in> set fs. opens_message (if maxM \<le> 0 then 62690 else maxM) f"
    "\<forall>j < length fs. int j < (if maxE \<le> 0 then 128 else maxE) \<longrightarrow> snd (fs ! j) = NOT 0"
  shows "length (entries (foldl (\<lambda>r act. reasm_step act r) (NewReassembler maxE maxM st) (map (\<lambda>(f, now). ActAdd order pick f now) fs))) = length fs"
proof -
  let ?r = "NewReassembler maxE maxM st"
  have r: "entries ?r = []" "maxEntries ?r = (if maxE \<le> 0 then 128 else maxE)" "maxMessage ?r = (if maxM \<le> 0 then 62690 else maxM)"
    by (simp_all add: NewReassembler_def)
  have "length (entries (foldl (\<lambda>r act. reasm_step act r) ?r (map (\<lambda>(f, now). ActAdd order pick f now) fs))) = length (entries ?r) + length fs"
    using assms unfolding r(2,3) [symmetric] by (intro reasm_outgrow_run) (auto simp: r(1) unevictable_def)
  then show ?thesis by (simp add: r(1))
qed

text \<open>Three entries in a store of one: the first fragment at the largest time, the others at earlier ones.\<close>

theorem reassembler_outgrows_witness:
  "length (entries (foldl (\<lambda>r act. reasm_step act r) (NewReassembler 1 10 slab_init)
     [ActAdd (\<lambda>xs. xs) None (piece_frag 7 [[1], [2]] 0) (NOT 0), ActAdd (\<lambda>xs. xs) None (piece_frag 8 [[1], [2]] 0) 5,
      ActAdd (\<lambda>xs. xs) None (piece_frag 9 [[1], [2]] 0) 6])) = 3"
  using reassembler_outgrows [of "\<lambda>xs. xs" "[(piece_frag 7 [[1], [2]] 0, NOT 0), (piece_frag 8 [[1], [2]] 0, 5), (piece_frag 9 [[1], [2]] 0, 6)]" 10 1 slab_init None]
  by (simp add: opens_message_def piece_frag_def less_Suc_eq)

text \<open>
  \<open>Expire\<close> removes exactly the partial messages created at or before the cutoff, answers how many
  they were, and leaves all others as they are, in whatever order the map is visited.
\<close>

theorem reasm_Expire_exact:
  assumes "reasm_core r" "visits_all order" "reasm_Expire order cutoff r = (n, r')"
  shows "n = length (filter (\<lambda>(k, e). created e \<le> cutoff) (entries r)) \<and>
    map_of (entries r') k = (case map_of (entries r) k of
      Some e \<Rightarrow> if created e \<le> cutoff then None else Some e | None \<Rightarrow> None)"
  using reasm_Expire_core [OF assms] by blast

theorem reasm_Expire_exact_witness:
  "\<exists>r n r'. reasm_core r \<and> entries r \<noteq> [] \<and> reasm_Expire (\<lambda>xs. xs) 9 r = (n, r') \<and> n = 1 \<and> map_of (entries r') 7 = None"
proof -
  let ?e = "zero_partial\<lparr>created := 5\<rparr>"
  let ?r = "(NewReassembler 1 10 slab_init)\<lparr>entries := [(7, ?e)]\<rparr>"
  have inv: "entry_inv 10 ?e" by (rule entry_inv_zero) simp
  have at: "lease_at ?r k i = None" for k i by (simp add: lease_at_def zero_partial_def)
  have ok: "reasm_core ?r"
    using inv at slab_ok_init by (auto simp: reasm_core_def NewReassembler_def pool_inv_def split: if_splits)
  obtain n r' where ex: "reasm_Expire (\<lambda>xs. xs) 9 ?r = (n, r')" by (rule prod.exhaust)
  have "entries ?r \<noteq> []" by simp
  then show ?thesis using ok ex reasm_Expire_exact [OF ok _ ex, of 7] by (intro exI [of _ ?r] exI [of _ n] exI [of _ r']) simp
qed

end
