(* ===== verification/Sha256.thy ===== *)
theory Sha256
  imports IVNP_Prelude
begin

text \<open>
  The SHA-256 function of the Go standard library (\<open>crypto/sha256\<close>, FIPS 180-4), which the message
  formats use for checksums and identity hashes. The development relies only on the length of the digest.
\<close>

text \<open>
  The constants of the algorithm are the leading fractional bits of the cube roots (round constants) and of
  the square roots (initial state) of the first primes. \<open>root_bits k n b 0\<close> finds the largest number below
  \<open>2 ^ b\<close> whose \<open>k\<close>-th power is at most \<open>n\<close>, bit by bit.
\<close>

fun root_bits :: "nat \<Rightarrow> nat \<Rightarrow> nat \<Rightarrow> nat \<Rightarrow> nat" where
  "root_bits k n 0 acc = acc"
| "root_bits k n (Suc b) acc = root_bits k n b (if (acc + 2 ^ b) ^ k \<le> n then acc + 2 ^ b else acc)"

definition small_primes :: "nat list" where
  "small_primes = filter (\<lambda>n. list_all (\<lambda>d. n mod d \<noteq> 0) [2..<n]) [2..<312]"

definition K256 :: "u32 list" where
  "K256 = map (\<lambda>p. of_nat (root_bits 3 (p * 2 ^ 96) 36 0)) small_primes"

definition init256 :: "u32 list" where
  "init256 = map (\<lambda>p. of_nat (root_bits 2 (p * 2 ^ 64) 37 0)) (take 8 small_primes)"

definition small_sigma0 :: "u32 \<Rightarrow> u32" where
  "small_sigma0 x = word_rotr 7 x XOR word_rotr 18 x XOR drop_bit 3 x"

definition small_sigma1 :: "u32 \<Rightarrow> u32" where
  "small_sigma1 x = word_rotr 17 x XOR word_rotr 19 x XOR drop_bit 10 x"

text \<open>The message schedule, newest word first.\<close>

fun schedule :: "nat \<Rightarrow> u32 list \<Rightarrow> u32 list" where
  "schedule 0 ws = ws"
| "schedule (Suc n) ws =
     schedule n ((small_sigma1 (ws ! 1) + ws ! 6 + small_sigma0 (ws ! 14) + ws ! 15) # ws)"

fun sha_round :: "u32 list \<Rightarrow> u32 \<times> u32 \<Rightarrow> u32 list" where
  "sha_round [a, b, c, d, e, f, g, h] (k, w) =
     (let s1 = word_rotr 6 e XOR word_rotr 11 e XOR word_rotr 25 e;
          ch = (e AND f) XOR (NOT e AND g);
          t1 = h + s1 + ch + k + w;
          s0 = word_rotr 2 a XOR word_rotr 13 a XOR word_rotr 22 a;
          maj = (a AND b) XOR (a AND c) XOR (b AND c)
      in [t1 + (s0 + maj), a, b, c, d + t1, e, f, g])"
| "sha_round st _ = st"

definition sha_block :: "u32 list \<Rightarrow> bytes \<Rightarrow> u32 list" where
  "sha_block st block =
     (let ws = rev (schedule 48 (rev (map (\<lambda>i. Uint32 (drop (4 * i) block)) [0..<16])))
      in map2 (+) st (foldl sha_round st (zip K256 ws)))"

fun sha_blocks :: "nat \<Rightarrow> u32 list \<Rightarrow> bytes \<Rightarrow> u32 list" where
  "sha_blocks 0 st bs = st"
| "sha_blocks (Suc n) st bs = sha_blocks n (sha_block st (take 64 bs)) (drop 64 bs)"

definition sha_pad :: "bytes \<Rightarrow> bytes" where
  "sha_pad bs = bs @ [0x80] @ replicate ((119 - length bs mod 64) mod 64) 0 @ PutUint64 (of_nat (8 * length bs))"

definition sha256_Sum256 :: "bytes \<Rightarrow> bytes" where
  "sha256_Sum256 bs =
     (let padded = sha_pad bs;
          st = init256
      in concat (map PutUint32 (sha_blocks (length padded div 64) st padded)))"

lemma length_sha_round: "length (sha_round st p) = length st"
  by (cases "(st, p)" rule: sha_round.cases) (auto simp: Let_def)

lemma length_sha_block: "length (sha_block st block) = length st"
proof -
  have "length (foldl sha_round st ps) = length st" for ps
    by (induction ps arbitrary: st) (simp_all add: length_sha_round)
  then show ?thesis by (simp add: sha_block_def Let_def)
qed

lemma length_prefix: "xs = ys @ zs \<Longrightarrow> length ys \<le> length xs"
  by simp

lemma length_init256: "length init256 = 8"
proof -
  let ?P = "\<lambda>n :: nat. list_all (\<lambda>d. n mod d \<noteq> 0) [2..<n]"
  have p: "filter ?P [2..<20] = [2, 3, 5, 7, 11, 13, 17, 19]" by (simp add: upt_rec)
  have "[2..<20 + 292] = [2..<20] @ [20..<20 + 292 :: nat]" by (rule upt_add_eq_append) simp
  then have "small_primes = filter ?P [2..<20] @ filter ?P [20..<20 + 292]"
    unfolding small_primes_def by (simp only: filter_append [symmetric] arith_simps)
  from length_prefix [OF this [unfolded p]] have "8 \<le> length small_primes" by simp
  then show ?thesis by (simp add: init256_def)
qed

lemma length_sha256 [simp]: "length (sha256_Sum256 bs) = 32"
proof -
  have "length (sha_blocks n st p) = length st" for n st p
    by (induction n arbitrary: st p) (simp_all add: length_sha_block)
  then show ?thesis
    by (simp add: sha256_Sum256_def Let_def length_concat o_def sum_list_triv length_init256)
qed

end
