(* ===== verification/I2NP.thy ===== *)
theory I2NP
  imports Sha256
begin

text \<open>
  The I2NP message codec of \<open>foundation/internal/i2np/i2np.go\<close>: the standard, legacy short and transport
  headers, the parsers of all payload kinds, and the payload check. Slices of the input are the bytes they
  hold; the length fields and limits are those of the source.
\<close>

section \<open>Constants and headers\<close>

definition StandardHeaderLen :: nat where "StandardHeaderLen = 16"
definition LegacyShortHeaderLen :: nat where "LegacyShortHeaderLen = 5"
definition TransportHeaderLen :: nat where "TransportHeaderLen = 9"
definition MaxWirePayload :: nat where "MaxWirePayload = 2 ^ 16 - 1"
definition I2PDMessageBufferBytes :: nat where "I2PDMessageBufferBytes = 62708"
definition I2PDReservedPrefix :: nat where "I2PDReservedPrefix = 2"
definition I2PDMaxPayload :: nat where
  "I2PDMaxPayload = I2PDMessageBufferBytes - I2PDReservedPrefix - StandardHeaderLen"
definition TunnelDataPayloadLen :: nat where "TunnelDataPayloadLen = 1024"
definition TunnelDataMessageLen :: nat where "TunnelDataMessageLen = 4 + TunnelDataPayloadLen"
definition TunnelGatewayHeaderLen :: nat where "TunnelGatewayHeaderLen = 6"
definition MaxTunnelGatewayEmbedded :: nat where "MaxTunnelGatewayEmbedded = I2PDMaxPayload - TunnelGatewayHeaderLen"
definition BuildRecordLen :: nat where "BuildRecordLen = 528"
definition ShortBuildRecordLen :: nat where "ShortBuildRecordLen = 218"
definition FixedBuildRecords :: nat where "FixedBuildRecords = 8"
definition MaxVariableBuildRecords :: nat where "MaxVariableBuildRecords = 8"
definition MaxDatabaseLookupExcluded :: nat where "MaxDatabaseLookupExcluded = 512"
definition MaxDatabaseReplyTags :: nat where "MaxDatabaseReplyTags = 32"
definition MaxDatabaseSearchPeers :: nat where "MaxDatabaseSearchPeers = 255"
definition MaxDatabaseLookupPayload :: nat where "MaxDatabaseLookupPayload = 17512"
definition MaxDatabaseSearchReplyPayload :: nat where
  "MaxDatabaseSearchReplyPayload = 32 + 1 + MaxDatabaseSearchPeers * 32 + 32"

lemmas i2np_consts =
  StandardHeaderLen_def LegacyShortHeaderLen_def TransportHeaderLen_def MaxWirePayload_def
  I2PDMessageBufferBytes_def I2PDReservedPrefix_def I2PDMaxPayload_def TunnelDataPayloadLen_def
  TunnelDataMessageLen_def TunnelGatewayHeaderLen_def MaxTunnelGatewayEmbedded_def BuildRecordLen_def
  ShortBuildRecordLen_def FixedBuildRecords_def MaxVariableBuildRecords_def MaxDatabaseLookupExcluded_def
  MaxDatabaseReplyTags_def MaxDatabaseSearchPeers_def MaxDatabaseLookupPayload_def
  MaxDatabaseSearchReplyPayload_def

type_synonym MessageType = u8

abbreviation DatabaseStore :: MessageType where "DatabaseStore \<equiv> 1"
abbreviation DatabaseLookup :: MessageType where "DatabaseLookup \<equiv> 2"
abbreviation DatabaseSearchReply :: MessageType where "DatabaseSearchReply \<equiv> 3"
abbreviation DeliveryStatus :: MessageType where "DeliveryStatus \<equiv> 10"
abbreviation Garlic :: MessageType where "Garlic \<equiv> 11"
abbreviation TunnelData :: MessageType where "TunnelData \<equiv> 18"
abbreviation TunnelGateway :: MessageType where "TunnelGateway \<equiv> 19"
abbreviation DataType :: MessageType where "DataType \<equiv> 20"
abbreviation TunnelBuild :: MessageType where "TunnelBuild \<equiv> 21"
abbreviation TunnelBuildReply :: MessageType where "TunnelBuildReply \<equiv> 22"
abbreviation VariableTunnelBuild :: MessageType where "VariableTunnelBuild \<equiv> 23"
abbreviation VariableTunnelBuildReply :: MessageType where "VariableTunnelBuildReply \<equiv> 24"
abbreviation ShortTunnelBuild :: MessageType where "ShortTunnelBuild \<equiv> 25"
abbreviation OutboundTunnelBuildReply :: MessageType where "OutboundTunnelBuildReply \<equiv> 26"
abbreviation TunnelTest :: MessageType where "TunnelTest \<equiv> 231"

record Header =
  hType :: MessageType
  hID :: u32
  hExpiration :: u64

record Message =
  mHeader :: Header
  mPayload :: bytes

definition EncodedLen :: "Message \<Rightarrow> nat" where
  "EncodedLen m = StandardHeaderLen + length (mPayload m)"

definition parseStandard :: "bytes \<Rightarrow> nat \<Rightarrow> bool \<Rightarrow> (Message \<times> nat) result" where
  "parseStandard src payloadLimit checksum =
     (if length src < StandardHeaderLen then Inl ErrShortBuffer
      else let payloadLen = unat (Uint16 (drop 13 src)) in
        if payloadLen > payloadLimit then Inl I2NPErrPayloadTooLarge
        else if payloadLen > length src - StandardHeaderLen then Inl ErrShortBuffer
        else let payload = slice StandardHeaderLen (StandardHeaderLen + payloadLen) src in
          if checksum \<and> sha256_Sum256 payload ! 0 \<noteq> src ! 15 then Inl I2NPErrChecksum
          else Inr (\<lparr>mHeader = \<lparr>hType = src ! 0, hID = Uint32 (drop 1 src), hExpiration = Uint64 (drop 5 src)\<rparr>,
            mPayload = payload\<rparr>, StandardHeaderLen + payloadLen))"

definition Parse :: "bytes \<Rightarrow> (Message \<times> nat) result" where
  "Parse src = parseStandard src I2PDMaxPayload True"

definition ParseWire :: "bytes \<Rightarrow> (Message \<times> nat) result" where
  "ParseWire src = parseStandard src MaxWirePayload True"

definition ParseUnchecked :: "bytes \<Rightarrow> (Message \<times> nat) result" where
  "ParseUnchecked src = parseStandard src I2PDMaxPayload False"

definition marshalStandard :: "bytes \<Rightarrow> Header \<Rightarrow> bytes \<Rightarrow> nat \<Rightarrow> (bytes \<times> nat) result" where
  "marshalStandard dst header payload payloadLimit =
     (if length payload > payloadLimit then Inl I2NPErrPayloadTooLarge
      else if length dst < StandardHeaderLen + length payload then Inl ErrShortBuffer
      else let dst = dst[0 := hType header];
               dst = put_at 1 (PutUint32 (hID header)) dst;
               dst = put_at 5 (PutUint64 (hExpiration header)) dst;
               dst = put_at 13 (PutUint16 (of_nat (length payload))) dst;
               dst = dst[15 := sha256_Sum256 payload ! 0];
               dst = put_at StandardHeaderLen payload dst
           in Inr (dst, StandardHeaderLen + length payload))"

definition MarshalTo :: "Message \<Rightarrow> bytes \<Rightarrow> (bytes \<times> nat) result" where
  "MarshalTo m dst = marshalStandard dst (mHeader m) (mPayload m) I2PDMaxPayload"

definition MarshalWireTo :: "Message \<Rightarrow> bytes \<Rightarrow> (bytes \<times> nat) result" where
  "MarshalWireTo m dst = marshalStandard dst (mHeader m) (mPayload m) MaxWirePayload"

definition EncodeTransportExpiration :: "u64 \<Rightarrow> u32 option" where
  "EncodeTransportExpiration milliseconds =
     (if milliseconds > 4294967295 * 1000 + 499 then None
      else Some (ucast ((milliseconds + 500) div 1000)))"

definition DecodeTransportExpiration :: "u32 \<Rightarrow> u64" where
  "DecodeTransportExpiration seconds = ucast seconds * 1000 + 500"

record ShortHeader =
  shType :: MessageType
  shExpiration :: u64

definition ParseLegacyShortHeader :: "bytes \<Rightarrow> ShortHeader result" where
  "ParseLegacyShortHeader src =
     (if length src < LegacyShortHeaderLen then Inl ErrShortBuffer
      else Inr \<lparr>shType = src ! 0, shExpiration = DecodeTransportExpiration (Uint32 (drop 1 src))\<rparr>)"

record TransportHeader =
  thType :: MessageType
  thID :: u32
  thExpiration :: u64

definition ParseTransportHeader :: "bytes \<Rightarrow> TransportHeader result" where
  "ParseTransportHeader src =
     (if length src < TransportHeaderLen then Inl ErrShortBuffer
      else Inr \<lparr>thType = src ! 0, thID = Uint32 (drop 1 src),
        thExpiration = DecodeTransportExpiration (Uint32 (drop 5 src))\<rparr>)"

section \<open>Payloads\<close>

abbreviation zero_Hash :: bytes where "zero_Hash \<equiv> replicate 32 0"

type_synonym StoreType = u8

abbreviation StoreRouterInfo :: StoreType where "StoreRouterInfo \<equiv> 0"
abbreviation StoreLeaseSet :: StoreType where "StoreLeaseSet \<equiv> 1"
abbreviation StoreLeaseSet2 :: StoreType where "StoreLeaseSet2 \<equiv> 3"
abbreviation StoreEncryptedLeaseSet :: StoreType where "StoreEncryptedLeaseSet \<equiv> 5"
abbreviation StoreMetaLeaseSet :: StoreType where "StoreMetaLeaseSet \<equiv> 7"

record DatabaseStoreMessage =
  dsKey :: bytes
  dsType :: StoreType
  dsRawType :: u8
  dsReplyToken :: u32
  dsReplyTunnelID :: u32
  dsReplyGateway :: bytes
  dsData :: bytes

text \<open>The reply fields follow the fixed part when the token is not zero.\<close>

definition store_reply :: "bytes \<Rightarrow> u32 \<Rightarrow> (u32 \<times> bytes \<times> nat) result" where
  "store_reply payload token =
     (if token \<noteq> 0 then
        if length payload - 37 < 36 then Inl ErrShortBuffer
        else Inr (Uint32 (drop 37 payload), slice 41 73 payload, 73)
      else Inr (0, zero_Hash, 37))"

definition ParseDatabaseStore :: "bytes \<Rightarrow> DatabaseStoreMessage result" where
  "ParseDatabaseStore payload =
     (if length payload > I2PDMaxPayload then Inl I2NPErrPayloadTooLarge
      else if length payload < 37 then Inl ErrShortBuffer
      else let key = take 32 payload; rawType = payload ! 32; typeID = rawType AND 0x0f;
               token = Uint32 (drop 33 payload) in
        if key = zero_Hash then Inl I2NPErrMalformed
        else if typeID \<notin> {StoreRouterInfo, StoreLeaseSet, StoreLeaseSet2, StoreEncryptedLeaseSet, StoreMetaLeaseSet}
        then Inl I2NPErrUnknownStoreType
        else bindR (store_reply payload token) (\<lambda>(tunnelID, gateway, off).
          bindR (if typeID = StoreRouterInfo then
              if length payload - off < 2 then Inl ErrShortBuffer
              else if unat (Uint16 (drop off payload)) \<noteq> length payload - (off + 2) then Inl I2NPErrMalformed
              else Inr (off + 2)
            else Inr off) (\<lambda>off.
              if off = length payload then Inl I2NPErrMalformed
              else Inr \<lparr>dsKey = key, dsType = typeID, dsRawType = rawType, dsReplyToken = token,
                dsReplyTunnelID = tunnelID, dsReplyGateway = gateway, dsData = drop off payload\<rparr>)))"

abbreviation lookupDelivery :: u8 where "lookupDelivery \<equiv> 1"
abbreviation lookupEncrypted :: u8 where "lookupEncrypted \<equiv> 2"
abbreviation lookupTypeMask :: u8 where "lookupTypeMask \<equiv> 0x0c"
abbreviation lookupECIES :: u8 where "lookupECIES \<equiv> 16"

record DatabaseLookupMessage =
  dlKey :: bytes
  dlFrom :: bytes
  dlFlags :: u8
  dlReplyTunnelID :: u32
  dlExcluded :: bytes
  dlReplyKey :: bytes
  dlReplyTags :: bytes
  dlReplyTagLen :: u8
  dlReplyPublicKey :: bytes

definition ExcludedCount :: "DatabaseLookupMessage \<Rightarrow> nat" where
  "ExcludedCount m = length (dlExcluded m) div 32"

definition ReplyTagCount :: "DatabaseLookupMessage \<Rightarrow> nat" where
  "ReplyTagCount m = (if dlReplyTagLen m = 0 then 0 else length (dlReplyTags m) div unat (dlReplyTagLen m))"

definition ReplyThroughTunnel :: "DatabaseLookupMessage \<Rightarrow> bool" where
  "ReplyThroughTunnel m \<longleftrightarrow> dlFlags m AND lookupDelivery \<noteq> 0"

definition ReplyEncrypted :: "DatabaseLookupMessage \<Rightarrow> bool" where
  "ReplyEncrypted m \<longleftrightarrow> dlFlags m AND (lookupEncrypted OR lookupECIES) \<noteq> 0"

definition ReplyUsesECIES :: "DatabaseLookupMessage \<Rightarrow> bool" where
  "ReplyUsesECIES m \<longleftrightarrow> dlFlags m AND (lookupEncrypted OR lookupECIES) = lookupECIES"

definition ReplyUsesECIESPublicKey :: "DatabaseLookupMessage \<Rightarrow> bool" where
  "ReplyUsesECIESPublicKey m \<longleftrightarrow> dlFlags m AND (lookupEncrypted OR lookupECIES) = (lookupEncrypted OR lookupECIES)"

definition ReplyEncryptionMode :: "DatabaseLookupMessage \<Rightarrow> u8" where
  "ReplyEncryptionMode m = dlFlags m AND (lookupEncrypted OR lookupECIES)"

definition LookupType :: "DatabaseLookupMessage \<Rightarrow> u8" where
  "LookupType m = drop_bit 2 (dlFlags m AND lookupTypeMask)"

text \<open>The reply keys behind the excluded peers, for each of the four flag combinations.\<close>

definition lookup_reply :: "bytes \<Rightarrow> nat \<Rightarrow> DatabaseLookupMessage \<Rightarrow> DatabaseLookupMessage result" where
  "lookup_reply payload off out =
     (if dlFlags out AND (lookupEncrypted OR lookupECIES) = 0 then
        if off \<noteq> length payload then Inl I2NPErrMalformed else Inr out
      else if ReplyUsesECIESPublicKey out then
        if length payload - off < 32 then Inl ErrShortBuffer
        else if length payload - off \<noteq> 32 then Inl I2NPErrMalformed
        else Inr (out\<lparr>dlReplyPublicKey := drop off payload\<rparr>)
      else if length payload - off < 33 then Inl ErrShortBuffer
      else
        let out = out\<lparr>dlReplyKey := slice off (off + 32) payload\<rparr>;
            tags = unat (payload ! (off + 32));
            off = off + 33
        in if dlFlags out AND lookupECIES \<noteq> 0 \<and> tags \<noteq> 1 then Inl I2NPErrMalformed
           else if dlFlags out AND lookupECIES = 0 \<and> (tags = 0 \<or> tags > MaxDatabaseReplyTags) then Inl I2NPErrMalformed
           else
             let tagLen = (if dlFlags out AND lookupECIES \<noteq> 0 then 8 else 32);
                 tagsLen = tags * tagLen
             in if tagsLen > length payload - off then Inl ErrShortBuffer
                else if tagsLen \<noteq> length payload - off then Inl I2NPErrMalformed
                else Inr (out\<lparr>dlReplyTags := slice off (off + tagsLen) payload, dlReplyTagLen := of_nat tagLen\<rparr>))"

definition lookup_tunnel :: "bytes \<Rightarrow> u8 \<Rightarrow> (u32 \<times> nat) result" where
  "lookup_tunnel payload flags =
     (if flags AND lookupDelivery \<noteq> 0 then
        if length payload - 65 < 4 then Inl ErrShortBuffer
        else if Uint32 (drop 65 payload) = 0 then Inl I2NPErrInvalidTunnelID
        else Inr (Uint32 (drop 65 payload), 69)
      else Inr (0, 65))"

definition ParseDatabaseLookup :: "bytes \<Rightarrow> DatabaseLookupMessage result" where
  "ParseDatabaseLookup payload =
     (if length payload > MaxDatabaseLookupPayload \<or> length payload > I2PDMaxPayload then Inl I2NPErrPayloadTooLarge
      else if length payload < 67 then Inl ErrShortBuffer
      else bindR (lookup_tunnel payload (payload ! 64)) (\<lambda>(tunnelID, off).
        if length payload - off < 2 then Inl ErrShortBuffer
        else let excludedCount = unat (Uint16 (drop off payload)) in
          if excludedCount > MaxDatabaseLookupExcluded then Inl I2NPErrPayloadTooLarge
          else let off = off + 2; excludedLen = excludedCount * 32 in
            if excludedLen > length payload - off then Inl ErrShortBuffer
            else lookup_reply payload (off + excludedLen)
              \<lparr>dlKey = take 32 payload, dlFrom = slice 32 64 payload, dlFlags = payload ! 64, dlReplyTunnelID = tunnelID,
               dlExcluded = slice off (off + excludedLen) payload, dlReplyKey = [], dlReplyTags = [], dlReplyTagLen = 0,
               dlReplyPublicKey = []\<rparr>))"

record DatabaseSearchReplyMessage =
  srKey :: bytes
  srPeers :: bytes
  srFrom :: bytes

definition PeerCount :: "DatabaseSearchReplyMessage \<Rightarrow> nat" where
  "PeerCount m = length (srPeers m) div 32"

definition ParseDatabaseSearchReply :: "bytes \<Rightarrow> DatabaseSearchReplyMessage result" where
  "ParseDatabaseSearchReply payload =
     (if length payload > MaxDatabaseSearchReplyPayload then Inl I2NPErrPayloadTooLarge
      else if length payload < 65 then Inl ErrShortBuffer
      else let count = unat (payload ! 32); expected = 32 + 1 + count * 32 + 32 in
        if length payload \<noteq> expected then Inl I2NPErrMalformed
        else Inr \<lparr>srKey = take 32 payload, srPeers = slice 33 (33 + count * 32) payload,
          srFrom = drop (length payload - 32) payload\<rparr>)"

record DeliveryStatusMessage =
  stMessageID :: u32
  stTimestamp :: u64

definition ParseDeliveryStatus :: "bytes \<Rightarrow> DeliveryStatusMessage result" where
  "ParseDeliveryStatus payload =
     (if length payload \<noteq> 12 then Inl I2NPErrMalformed
      else Inr \<lparr>stMessageID = Uint32 payload, stTimestamp = Uint64 (drop 4 payload)\<rparr>)"

definition ParseTunnelTest :: "bytes \<Rightarrow> DeliveryStatusMessage result" where
  "ParseTunnelTest payload = ParseDeliveryStatus payload"

record GarlicMessage =
  gEncrypted :: bytes

definition ParseGarlic :: "bytes \<Rightarrow> GarlicMessage result" where
  "ParseGarlic payload =
     (if length payload < 4 then Inl ErrShortBuffer
      else let n = unat (Uint32 payload) in
        if n > I2PDMaxPayload - 4 then Inl I2NPErrPayloadTooLarge
        else if n \<noteq> length payload - 4 then Inl I2NPErrMalformed
        else Inr \<lparr>gEncrypted = drop 4 payload\<rparr>)"

record TunnelDataMessage =
  tdTunnelID :: u32
  tdData :: bytes

definition ParseTunnelData :: "bytes \<Rightarrow> TunnelDataMessage result" where
  "ParseTunnelData payload =
     (if length payload \<noteq> TunnelDataMessageLen then Inl I2NPErrMalformed
      else if Uint32 payload = 0 then Inl I2NPErrInvalidTunnelID
      else Inr \<lparr>tdTunnelID = Uint32 payload, tdData = drop 4 payload\<rparr>)"

record TunnelGatewayMessage =
  tgTunnelID :: u32
  tgEmbedded :: Message

definition ParseTunnelGateway :: "bytes \<Rightarrow> TunnelGatewayMessage result" where
  "ParseTunnelGateway payload =
     (if length payload < TunnelGatewayHeaderLen then Inl ErrShortBuffer
      else if Uint32 payload = 0 then Inl I2NPErrInvalidTunnelID
      else let n = unat (Uint16 (drop 4 payload)) in
        if n > MaxTunnelGatewayEmbedded then Inl I2NPErrPayloadTooLarge
        else if n \<noteq> length payload - TunnelGatewayHeaderLen then Inl I2NPErrMalformed
        else bindR (ParseUnchecked (drop TunnelGatewayHeaderLen payload)) (\<lambda>(embedded, used).
          if used \<noteq> n then Inl I2NPErrMalformed
          else Inr \<lparr>tgTunnelID = Uint32 payload, tgEmbedded = embedded\<rparr>))"

record DataMessage =
  dmData :: bytes

definition ParseData :: "bytes \<Rightarrow> DataMessage result" where
  "ParseData payload =
     (if length payload < 4 then Inl ErrShortBuffer
      else let n = unat (Uint32 payload) in
        if n > I2PDMaxPayload - 4 then Inl I2NPErrPayloadTooLarge
        else if n \<noteq> length payload - 4 then Inl I2NPErrMalformed
        else Inr \<lparr>dmData = drop 4 payload\<rparr>)"

record BuildRecords =
  brCount :: u8
  brRecordLen :: u16
  brRecords :: bytes

text \<open>The number of records, their length and the length of the count prefix, by the kind of the message.\<close>

definition build_layout :: "MessageType \<Rightarrow> bytes \<Rightarrow> (nat \<times> nat \<times> nat) result" where
  "build_layout kind payload =
     (if kind \<in> {TunnelBuild, TunnelBuildReply} then Inr (FixedBuildRecords, BuildRecordLen, 0)
      else if kind \<in> {VariableTunnelBuild, VariableTunnelBuildReply} then
        if payload = [] then Inl ErrShortBuffer else Inr (unat (payload ! 0), BuildRecordLen, 1)
      else if kind \<in> {ShortTunnelBuild, OutboundTunnelBuildReply} then
        if payload = [] then Inl ErrShortBuffer else Inr (unat (payload ! 0), ShortBuildRecordLen, 1)
      else Inl I2NPErrMalformed)"

definition ParseBuildRecords :: "MessageType \<Rightarrow> bytes \<Rightarrow> BuildRecords result" where
  "ParseBuildRecords kind payload =
     bindR (build_layout kind payload) (\<lambda>(count, recordLen, prefix).
       if count < 1 \<or> count > MaxVariableBuildRecords then Inl I2NPErrMalformed
       else if length payload \<noteq> prefix + count * recordLen then Inl I2NPErrMalformed
       else Inr \<lparr>brCount = of_nat count, brRecordLen = of_nat recordLen, brRecords = drop prefix payload\<rparr>)"

text \<open>Only the error of the parser counts.\<close>

definition parse_error :: "'a result \<Rightarrow> unit result" where
  "parse_error m = bindR m (\<lambda>_. Inr ())"

definition ValidatePayload :: "MessageType \<Rightarrow> bytes \<Rightarrow> unit result" where
  "ValidatePayload kind payload =
     (if kind = DatabaseStore then parse_error (ParseDatabaseStore payload)
      else if kind = DatabaseLookup then parse_error (ParseDatabaseLookup payload)
      else if kind = DatabaseSearchReply then parse_error (ParseDatabaseSearchReply payload)
      else if kind = DeliveryStatus then parse_error (ParseDeliveryStatus payload)
      else if kind = Garlic then parse_error (ParseGarlic payload)
      else if kind = TunnelData then parse_error (ParseTunnelData payload)
      else if kind = TunnelGateway then parse_error (ParseTunnelGateway payload)
      else if kind = DataType then parse_error (ParseData payload)
      else if kind \<in> {TunnelBuild, TunnelBuildReply, VariableTunnelBuild, VariableTunnelBuildReply,
        ShortTunnelBuild, OutboundTunnelBuildReply} then parse_error (ParseBuildRecords kind payload)
      else if kind = TunnelTest then parse_error (ParseTunnelTest payload)
      else Inl I2NPErrMalformed)"

section \<open>The standard header\<close>

definition standard_bytes :: "Header \<Rightarrow> bytes \<Rightarrow> bytes" where
  "standard_bytes h payload =
     [hType h] @ PutUint32 (hID h) @ PutUint64 (hExpiration h) @ PutUint16 (of_nat (length payload))
     @ [sha256_Sum256 payload ! 0] @ payload"

lemma length_standard_bytes [simp]: "length (standard_bytes h payload) = StandardHeaderLen + length payload"
  by (simp add: standard_bytes_def StandardHeaderLen_def)

lemma marshalStandard_eq:
  assumes "length payload \<le> limit" "StandardHeaderLen + length payload \<le> length dst"
  shows "marshalStandard dst h payload limit =
    Inr (standard_bytes h payload @ drop (StandardHeaderLen + length payload) dst, StandardHeaderLen + length payload)"
proof -
  have "put_at 0 (standard_bytes h payload) dst = standard_bytes h payload @ drop (StandardHeaderLen + length payload) dst"
    using assms(2) by (simp add: put_at_def standard_bytes_def StandardHeaderLen_def)
  moreover have "16 + length payload \<le> length dst" "dst \<noteq> []" using assms(2) by (auto simp: StandardHeaderLen_def)
  ultimately show ?thesis
    using assms(1) by (simp add: marshalStandard_def Let_def list_update_put_at StandardHeaderLen_def
        put_at_put_at [where m = 0] standard_bytes_def)
qed

lemma parseStandard_bytes:
  assumes "length payload \<le> limit" "length payload < 65536"
  shows "parseStandard (standard_bytes h payload @ rest) limit checksum =
    Inr (\<lparr>mHeader = h, mPayload = payload\<rparr>, StandardHeaderLen + length payload)"
  using assms
  by (simp add: parseStandard_def standard_bytes_def StandardHeaderLen_def Let_def codec_simps slice_def nth_append)

lemma parseStandard_Some:
  assumes "parseStandard src limit True = Inr (m, n)"
  shows "n = StandardHeaderLen + length (mPayload m)" "length (mPayload m) \<le> limit" "n \<le> length src"
    "src = standard_bytes (mHeader m) (mPayload m) @ drop n src"
proof -
  let ?n = "unat (Uint16 (drop 13 src))"
  from assms have p: "16 \<le> length src" "?n \<le> limit" "?n \<le> length src - 16" "n = 16 + ?n"
    "m = \<lparr>mHeader = \<lparr>hType = src ! 0, hID = Uint32 (drop 1 src), hExpiration = Uint64 (drop 5 src)\<rparr>,
      mPayload = slice 16 (16 + ?n) src\<rparr>" "sha256_Sum256 (slice 16 (16 + ?n) src) ! 0 = src ! 15"
    by (auto simp: parseStandard_def StandardHeaderLen_def Let_def split: if_splits)
  then have len: "length (mPayload m) = ?n" by simp
  then show "n = StandardHeaderLen + length (mPayload m)" "length (mPayload m) \<le> limit" "n \<le> length src"
    using p by (auto simp: StandardHeaderLen_def)
  have "src = take 1 src @ take 4 (drop 1 src) @ take 8 (drop 5 src) @ take 2 (drop 13 src) @ take 1 (drop 15 src)
      @ take ?n (drop 16 src) @ drop n src"
    unfolding p(4) by (simp add: take_chunk)
  moreover have "src \<noteq> []" using p(1) by auto
  moreover have "take 1 src = [src ! 0]" "take 1 (drop 15 src) = [src ! 15]"
    using p(1) \<open>src \<noteq> []\<close> take_one [of 0 src] take_one [of 15 src] by auto
  ultimately show "src = standard_bytes (mHeader m) (mPayload m) @ drop n src"
    using p by (simp add: standard_bytes_def len codec_simps slice_def)
qed

section \<open>Database stores\<close>

text \<open>\<open>MarshalDatabaseStore\<close> of \<open>foundation/internal/netdb/store.go\<close>, which checks its own output with the parser.\<close>

definition MarshalDatabaseStore :: "bytes \<Rightarrow> StoreType \<Rightarrow> bytes \<Rightarrow> u32 \<Rightarrow> bytes \<Rightarrow> u32 \<Rightarrow> bytes result" where
  "MarshalDatabaseStore key typeID data token gateway tunnelID =
     (if data = [] \<or> token \<noteq> 0 \<and> gateway = zero_Hash then Inl ErrInvalidDatabaseStore
      else if typeID \<notin> {StoreRouterInfo, StoreLeaseSet, StoreLeaseSet2, StoreMetaLeaseSet, StoreEncryptedLeaseSet}
      then Inl ErrInvalidDatabaseStore
      else if typeID = StoreRouterInfo \<and> length data > 0xffff then Inl ErrInvalidDatabaseStore
      else
        let len = 37 + length data + (if token \<noteq> 0 then 36 else 0) + (if typeID = StoreRouterInfo then 2 else 0) in
        if len > I2PDMaxPayload then Inl ErrInvalidDatabaseStore
        else
          let payload = replicate len 0;
              payload = put_at 0 key payload;
              payload = payload[32 := typeID];
              payload = put_at 33 (PutUint32 token) payload;
              off = 37;
              (payload, off) = (if token \<noteq> 0
                then (put_at (off + 4) gateway (put_at off (PutUint32 tunnelID) payload), off + 4 + 32)
                else (payload, off));
              (payload, off) = (if typeID = StoreRouterInfo
                then (put_at off (PutUint16 (of_nat (length data))) payload, off + 2) else (payload, off));
              payload = put_at off data payload
          in bindR (ParseDatabaseStore payload) (\<lambda>_. Inr payload))"

definition store_bytes :: "bytes \<Rightarrow> u8 \<Rightarrow> u32 \<Rightarrow> u32 \<Rightarrow> bytes \<Rightarrow> bytes \<Rightarrow> bytes" where
  "store_bytes key rawType token tunnelID gateway data =
     key @ [rawType] @ PutUint32 token @ (if token \<noteq> 0 then PutUint32 tunnelID @ gateway else [])
     @ (if rawType AND 0x0f = StoreRouterInfo then PutUint16 (of_nat (length data)) else []) @ data"

definition store_type_ok :: "StoreType \<Rightarrow> bool" where
  "store_type_ok t \<longleftrightarrow> t \<in> {StoreRouterInfo, StoreLeaseSet, StoreLeaseSet2, StoreEncryptedLeaseSet, StoreMetaLeaseSet}"

lemma ParseDatabaseStore_bytes:
  assumes "length key = 32" "key \<noteq> zero_Hash" "store_type_ok (rawType AND 0x0f)" "length gateway = 32" "data \<noteq> []"
    and "length (store_bytes key rawType token tunnelID gateway data) \<le> I2PDMaxPayload"
  shows "ParseDatabaseStore (store_bytes key rawType token tunnelID gateway data) =
    Inr \<lparr>dsKey = key, dsType = rawType AND 0x0f, dsRawType = rawType, dsReplyToken = token,
      dsReplyTunnelID = (if token = 0 then 0 else tunnelID), dsReplyGateway = (if token = 0 then zero_Hash else gateway),
      dsData = data\<rparr>"
proof -
  have "length data < 65536" using assms(1,6) by (simp add: store_bytes_def i2np_consts)
  then show ?thesis
    using assms by (auto simp: ParseDatabaseStore_def store_bytes_def store_reply_def store_type_ok_def Let_def
        codec_simps slice_def nth_append)
qed

lemma ParseDatabaseStore_Some:
  assumes "ParseDatabaseStore p = Inr m"
  shows "p = store_bytes (dsKey m) (dsRawType m) (dsReplyToken m) (dsReplyTunnelID m) (dsReplyGateway m) (dsData m)"
    "length p \<le> I2PDMaxPayload" "length (dsKey m) = 32" "dsKey m \<noteq> zero_Hash" "dsType m = dsRawType m AND 0x0f"
    "store_type_ok (dsType m)" "length (dsReplyGateway m) = 32" "dsData m \<noteq> []"
proof -
  let ?token = "Uint32 (drop 33 p)" and ?ty = "p ! 32 AND 0x0f"
  obtain tid gw off where reply: "store_reply p ?token = Inr (tid, gw, off)"
    using assms by (cases "store_reply p ?token") (auto simp: ParseDatabaseStore_def Let_def split: if_splits)
  let ?off = "if ?ty = StoreRouterInfo then off + 2 else off"
  have len: "37 \<le> length p" "length p \<le> I2PDMaxPayload"
    using assms by (auto simp: ParseDatabaseStore_def Let_def split: if_splits)
  have ok: "take 32 p \<noteq> zero_Hash" "store_type_ok ?ty"
    "?ty = StoreRouterInfo \<Longrightarrow> 2 \<le> length p - off \<and> unat (Uint16 (drop off p)) = length p - (off + 2)"
    and m: "m = \<lparr>dsKey = take 32 p, dsType = ?ty, dsRawType = p ! 32, dsReplyToken = ?token,
      dsReplyTunnelID = tid, dsReplyGateway = gw, dsData = drop ?off p\<rparr>" and ne: "?off \<noteq> length p"
    using assms reply
    by (auto simp: ParseDatabaseStore_def Let_def store_type_ok_def bindR_eq_Inr split: if_splits)
  have off: "off \<le> length p" "length gw = 32"
    and r: "drop 37 p = (if ?token \<noteq> 0 then PutUint32 tid @ gw else []) @ drop off p"
    using reply len by (auto simp: store_reply_def codec_simps slice_def take_chunk split: if_splits)
  have "?off \<le> length p" using off ok(3) by auto
  show "length p \<le> I2PDMaxPayload" "length (dsKey m) = 32" "dsKey m \<noteq> zero_Hash" "dsType m = dsRawType m AND 0x0f"
    "store_type_ok (dsType m)" "length (dsReplyGateway m) = 32" "dsData m \<noteq> []"
    using len ok off ne \<open>?off \<le> length p\<close> by (auto simp: m)
  have "drop off p = (if ?ty = StoreRouterInfo then PutUint16 (of_nat (length (drop ?off p))) else []) @ drop ?off p"
    using ok(3) Uint16_prefix [of p off "length p - (off + 2)"] by auto
  moreover have "p = take 32 p @ [p ! 32] @ PutUint32 ?token @ drop 37 p"
    using len by (simp add: codec_simps take_chunk nth_chunk)
  ultimately show "p = store_bytes (dsKey m) (dsRawType m) (dsReplyToken m) (dsReplyTunnelID m) (dsReplyGateway m) (dsData m)"
    using r by (simp add: m store_bytes_def)
qed

lemma length_store_bytes:
  assumes "length key = 32" "length gateway = 32" "rawType AND 0x0f = rawType"
  shows "length (store_bytes key rawType token tunnelID gateway data) =
    37 + length data + (if token \<noteq> 0 then 36 else 0) + (if rawType = StoreRouterInfo then 2 else 0)"
  using assms by (simp add: store_bytes_def)

lemma MarshalDatabaseStore_eq:
  assumes "length key = 32" "length gateway = 32" "data \<noteq> []" "token \<noteq> 0 \<longrightarrow> gateway \<noteq> zero_Hash"
    and "store_type_ok typeID" "length (store_bytes key typeID token tunnelID gateway data) \<le> I2PDMaxPayload"
    and "typeID AND 0x0f = typeID"
  shows "MarshalDatabaseStore key typeID data token gateway tunnelID =
    (if key = zero_Hash then Inl I2NPErrMalformed else Inr (store_bytes key typeID token tunnelID gateway data))"
proof -
  let ?b = "store_bytes key typeID token tunnelID gateway data"
  let ?n = "37 + length data + (if token \<noteq> 0 then 36 else 0) + (if typeID = StoreRouterInfo then 2 else 0)"
  have len: "length ?b = ?n" by (rule length_store_bytes) fact+
  have small: "length data \<le> 0xffff" using assms(6) unfolding len by (simp add: i2np_consts)
  have "MarshalDatabaseStore key typeID data token gateway tunnelID =
      bindR (ParseDatabaseStore (put_at 0 ?b (replicate ?n 0))) (\<lambda>_. Inr (put_at 0 ?b (replicate ?n 0)))"
    using assms len small
    by (auto simp: MarshalDatabaseStore_def Let_def store_type_ok_def list_update_put_at put_at_put_at [where m = 0]
        store_bytes_def)
  also have "put_at 0 ?b (replicate ?n 0) = ?b" using len by (intro put_at_0_all) simp
  finally have eq: "MarshalDatabaseStore key typeID data token gateway tunnelID = bindR (ParseDatabaseStore ?b) (\<lambda>_. Inr ?b)" .
  show ?thesis
  proof (cases "key = zero_Hash")
    case True
    then have "ParseDatabaseStore ?b = Inl I2NPErrMalformed"
      using assms(6) len by (simp add: ParseDatabaseStore_def Let_def store_bytes_def)
    then show ?thesis using eq True by simp
  next
    case False
    then show ?thesis using eq assms ParseDatabaseStore_bytes [OF assms(1) False _ assms(2,3,6)] by simp
  qed
qed

lemma MarshalDatabaseStore_Some:
  assumes "MarshalDatabaseStore key typeID data token gateway tunnelID = Inr p"
  shows "data \<noteq> []" "token \<noteq> 0 \<longrightarrow> gateway \<noteq> zero_Hash" "store_type_ok typeID"
    "37 + length data + (if token \<noteq> 0 then 36 else 0) + (if typeID = StoreRouterInfo then 2 else 0) \<le> I2PDMaxPayload"
  using assms by (auto simp: MarshalDatabaseStore_def Let_def store_type_ok_def split: if_splits)

lemma store_type_low: "store_type_ok t \<Longrightarrow> t AND 0x0f = t"
  by (auto simp: store_type_ok_def byte_bits)

section \<open>Database lookups\<close>

definition lookup_reply_bytes :: "DatabaseLookupMessage \<Rightarrow> bytes" where
  "lookup_reply_bytes m =
     (if \<not> ReplyEncrypted m then []
      else if ReplyUsesECIESPublicKey m then dlReplyPublicKey m
      else dlReplyKey m @ [of_nat (ReplyTagCount m)] @ dlReplyTags m)"

definition lookup_bytes :: "DatabaseLookupMessage \<Rightarrow> bytes" where
  "lookup_bytes m =
     dlKey m @ dlFrom m @ [dlFlags m] @ (if ReplyThroughTunnel m then PutUint32 (dlReplyTunnelID m) else [])
     @ PutUint16 (of_nat (ExcludedCount m)) @ dlExcluded m @ lookup_reply_bytes m"

definition lookup_ok :: "DatabaseLookupMessage \<Rightarrow> bool" where
  "lookup_ok m \<longleftrightarrow>
     length (dlKey m) = 32 \<and> length (dlFrom m) = 32 \<and> (dlReplyTunnelID m \<noteq> 0 \<longleftrightarrow> ReplyThroughTunnel m) \<and>
     length (dlExcluded m) = 32 * ExcludedCount m \<and> ExcludedCount m \<le> MaxDatabaseLookupExcluded \<and>
     (ReplyUsesECIESPublicKey m \<longrightarrow> length (dlReplyPublicKey m) = 32) \<and>
     (ReplyUsesECIES m \<longrightarrow> length (dlReplyKey m) = 32 \<and> ReplyTagCount m = 1 \<and> length (dlReplyTags m) = 8) \<and>
     (ReplyEncrypted m \<and> \<not> ReplyUsesECIES m \<and> \<not> ReplyUsesECIESPublicKey m \<longrightarrow> length (dlReplyKey m) = 32 \<and>
        1 \<le> ReplyTagCount m \<and> ReplyTagCount m \<le> MaxDatabaseReplyTags \<and> length (dlReplyTags m) = 32 * ReplyTagCount m)"

lemma lookup_mode_bits:
  "flags AND (lookupEncrypted OR lookupECIES) = 0 \<longleftrightarrow> \<not> bit flags 1 \<and> \<not> bit flags 4"
  "flags AND (lookupEncrypted OR lookupECIES) = (lookupEncrypted OR lookupECIES) \<longleftrightarrow> bit flags 1 \<and> bit flags 4"
  "flags AND (lookupEncrypted OR lookupECIES) = lookupECIES \<longleftrightarrow> \<not> bit flags 1 \<and> bit flags 4"
  "flags AND lookupECIES = 0 \<longleftrightarrow> \<not> bit flags 4"
  by (auto simp: byte_bits)

lemma lookup_reply_Some:
  assumes "lookup_reply p off out = Inr m" "off \<le> length p"
    and "dlReplyKey out = []" "dlReplyTags out = []" "dlReplyTagLen out = 0" "dlReplyPublicKey out = []"
  shows "drop off p = lookup_reply_bytes m"
    "dlKey m = dlKey out \<and> dlFrom m = dlFrom out \<and> dlFlags m = dlFlags out \<and> dlReplyTunnelID m = dlReplyTunnelID out \<and>
      dlExcluded m = dlExcluded out"
    "ReplyUsesECIESPublicKey m \<longrightarrow> length (dlReplyPublicKey m) = 32"
    "ReplyUsesECIES m \<longrightarrow> length (dlReplyKey m) = 32 \<and> ReplyTagCount m = 1 \<and> length (dlReplyTags m) = 8"
    "ReplyEncrypted m \<and> \<not> ReplyUsesECIES m \<and> \<not> ReplyUsesECIESPublicKey m \<longrightarrow> length (dlReplyKey m) = 32 \<and>
        1 \<le> ReplyTagCount m \<and> ReplyTagCount m \<le> MaxDatabaseReplyTags \<and> length (dlReplyTags m) = 32 * ReplyTagCount m"
proof -
  let ?f = "dlFlags out" and ?t = "unat (p ! (off + 32))"
  note defs = lookup_reply_def ReplyUsesECIESPublicKey_def ReplyUsesECIES_def ReplyEncrypted_def lookup_mode_bits [simplified]
  consider (plain) "\<not> bit ?f 1" "\<not> bit ?f 4" | (pub) "bit ?f 1" "bit ?f 4" | (tags) "bit ?f 1 \<noteq> bit ?f 4" by blast
  then have "drop off p = lookup_reply_bytes m \<and>
    dlKey m = dlKey out \<and> dlFrom m = dlFrom out \<and> dlFlags m = dlFlags out \<and> dlReplyTunnelID m = dlReplyTunnelID out \<and>
      dlExcluded m = dlExcluded out \<and>
    (ReplyUsesECIESPublicKey m \<longrightarrow> length (dlReplyPublicKey m) = 32) \<and>
    (ReplyUsesECIES m \<longrightarrow> length (dlReplyKey m) = 32 \<and> ReplyTagCount m = 1 \<and> length (dlReplyTags m) = 8) \<and>
    (ReplyEncrypted m \<and> \<not> ReplyUsesECIES m \<and> \<not> ReplyUsesECIESPublicKey m \<longrightarrow> length (dlReplyKey m) = 32 \<and>
        1 \<le> ReplyTagCount m \<and> ReplyTagCount m \<le> MaxDatabaseReplyTags \<and> length (dlReplyTags m) = 32 * ReplyTagCount m)"
  proof cases
    case plain
    then show ?thesis using assms by (simp add: defs lookup_reply_bytes_def split: if_splits)
  next
    case pub
    then show ?thesis using assms by (auto simp: defs lookup_reply_bytes_def split: if_splits)
  next
    case tags
    define len where "len = (if bit ?f 4 then 8 else 32 :: nat)"
    from assms(1) tags have r: "33 \<le> length p - off" "bit ?f 4 \<Longrightarrow> ?t = 1"
      "\<not> bit ?f 4 \<Longrightarrow> ?t \<noteq> 0 \<and> ?t \<le> MaxDatabaseReplyTags" "?t * len = length p - (off + 33)"
      "m = out\<lparr>dlReplyKey := slice off (off + 32) p, dlReplyTags := slice (off + 33) (off + 33 + ?t * len) p,
        dlReplyTagLen := of_nat len\<rparr>"
      by (auto simp: defs Let_def len_def split: if_splits)
    have tags_m: "dlReplyTags m = drop (off + 33) p" using r(4) by (simp add: r(5) slice_def)
    have "ReplyTagCount m = ?t" "length (dlReplyTags m) = ?t * len" "length (dlReplyKey m) = 32"
      using r(1,4) unfolding ReplyTagCount_def tags_m by (auto simp: r(5) len_def)
    moreover have "drop off p = slice off (off + 32) p @ [p ! (off + 32)] @ drop (off + 33) p"
      using r(1) by (simp add: slice_def nth_chunk take_chunk)
    moreover have "dlReplyKey m = slice off (off + 32) p" by (simp add: r(5))
    ultimately show ?thesis
      using tags r(2,3) tags_m by (auto simp: defs lookup_reply_bytes_def len_def r(5))
  qed
  then show "drop off p = lookup_reply_bytes m"
    "dlKey m = dlKey out \<and> dlFrom m = dlFrom out \<and> dlFlags m = dlFlags out \<and> dlReplyTunnelID m = dlReplyTunnelID out \<and>
      dlExcluded m = dlExcluded out"
    "ReplyUsesECIESPublicKey m \<longrightarrow> length (dlReplyPublicKey m) = 32"
    "ReplyUsesECIES m \<longrightarrow> length (dlReplyKey m) = 32 \<and> ReplyTagCount m = 1 \<and> length (dlReplyTags m) = 8"
    "ReplyEncrypted m \<and> \<not> ReplyUsesECIES m \<and> \<not> ReplyUsesECIESPublicKey m \<longrightarrow> length (dlReplyKey m) = 32 \<and>
        1 \<le> ReplyTagCount m \<and> ReplyTagCount m \<le> MaxDatabaseReplyTags \<and> length (dlReplyTags m) = 32 * ReplyTagCount m"
    by blast+
qed

section \<open>Expiration times\<close>

lemma unat_Decode: "unat (DecodeTransportExpiration s) = 1000 * unat s + 500"
proof -
  have "unat (ucast s * 1000 :: u64) = unat s * 1000"
    using unat_u32_less [of s] by (subst unat_word_ariths) (simp del: unat_u32_less)
  then show ?thesis
    unfolding DecodeTransportExpiration_def using unat_u32_less [of s]
    by (subst unat_word_ariths) (simp del: unat_u32_less)
qed

lemma Encode_Some:
  assumes "unat ms \<le> 4294967295499"
  shows "\<exists>s. EncodeTransportExpiration ms = Some s \<and> unat s = (unat ms + 500) div 1000"
proof -
  have "\<not> ms > 4294967295 * 1000 + 499" using assms by (simp add: word_less_nat_alt)
  moreover have "unat (ms + 500) = unat ms + 500"
    using assms by (subst unat_word_ariths) simp
  then have "unat (ucast ((ms + 500) div 1000) :: u32) = (unat ms + 500) div 1000"
    using assms by (simp add: unsigned_ucast_eq take_bit_eq_mod unat_div_distrib)
  ultimately show ?thesis by (simp add: EncodeTransportExpiration_def)
qed

section \<open>Payload bounds\<close>

definition payload_ok :: "bytes \<Rightarrow> bool" where
  "payload_ok payload \<longleftrightarrow> payload \<noteq> [] \<and> length payload \<le> I2PDMaxPayload"

lemma parse_error_Inr: "parse_error r = Inr () \<longleftrightarrow> (\<exists>m. r = Inr m)"
  by (cases r) (simp_all add: parse_error_def)

lemma parsers_payload_ok:
  "ParseDatabaseStore payload = Inr ds \<Longrightarrow> payload_ok payload"
  "ParseDatabaseLookup payload = Inr dl \<Longrightarrow> payload_ok payload"
  "ParseDatabaseSearchReply payload = Inr sr \<Longrightarrow> payload_ok payload"
  "ParseDeliveryStatus payload = Inr st \<Longrightarrow> payload_ok payload"
  "ParseGarlic payload = Inr g \<Longrightarrow> payload_ok payload"
  "ParseTunnelData payload = Inr td \<Longrightarrow> payload_ok payload"
  "ParseTunnelGateway payload = Inr tg \<Longrightarrow> payload_ok payload"
  "ParseData payload = Inr dm \<Longrightarrow> payload_ok payload"
  "ParseTunnelTest payload = Inr st \<Longrightarrow> payload_ok payload"
  unfolding payload_ok_def ParseDatabaseStore_def ParseDatabaseLookup_def ParseDatabaseSearchReply_def ParseDeliveryStatus_def
    ParseGarlic_def ParseTunnelData_def ParseTunnelGateway_def ParseData_def ParseTunnelTest_def
  by (auto simp: i2np_consts Let_def split: if_splits)

lemma ParseBuildRecords_payload_ok:
  assumes "ParseBuildRecords kind payload = Inr br"
  shows "payload_ok payload"
proof -
  obtain count recordLen pre where l: "build_layout kind payload = Inr (count, recordLen, pre)"
    "1 \<le> count" "count \<le> MaxVariableBuildRecords" "length payload = pre + count * recordLen"
    using assms by (auto simp: ParseBuildRecords_def bindR_eq_Inr split: if_splits prod.splits)
  have r: "recordLen \<in> {BuildRecordLen, ShortBuildRecordLen}" "pre \<le> 1"
    using l(1) by (auto simp: build_layout_def split: if_splits)
  have "count * recordLen \<le> 8 * 528" "0 < count * recordLen"
    using l(2,3) r(1) by (auto simp: i2np_consts)
  then show ?thesis using l(4) r(2) by (auto simp: payload_ok_def i2np_consts)
qed

section \<open>Properties\<close>

text \<open>
  C7. A standard I2NP message that \<open>MarshalTo\<close> writes is read back by \<open>Parse\<close> with its checksum verified,
  the bytes behind it are not touched, and \<open>MarshalTo\<close> fails only for a payload above the limit or a
  destination that is too short. The wire variants agree up to their own limit.
\<close>

theorem MarshalTo_Parse:
  "(case MarshalTo m dst of
      Inr (dst', n) \<Rightarrow> Parse dst' = Inr (m, n) \<and> n = EncodedLen m \<and> drop n dst' = drop n dst
    | Inl e \<Rightarrow> e = I2NPErrPayloadTooLarge \<and> length (mPayload m) > I2PDMaxPayload \<or> e = ErrShortBuffer \<and> length dst < EncodedLen m)
   \<and> (case MarshalWireTo m dst of
      Inr (dst', n) \<Rightarrow> ParseWire dst' = Inr (m, n) \<and> n = EncodedLen m \<and> drop n dst' = drop n dst
    | Inl e \<Rightarrow> e = I2NPErrPayloadTooLarge \<and> length (mPayload m) > MaxWirePayload \<or> e = ErrShortBuffer \<and> length dst < EncodedLen m)"
proof -
  have limits: "I2PDMaxPayload \<le> MaxWirePayload" by (simp add: i2np_consts)
  have "case marshalStandard dst (mHeader m) (mPayload m) limit of
      Inr (dst', n) \<Rightarrow> parseStandard dst' limit True = Inr (m, n) \<and> n = EncodedLen m \<and> drop n dst' = drop n dst
    | Inl e \<Rightarrow> e = I2NPErrPayloadTooLarge \<and> length (mPayload m) > limit \<or> e = ErrShortBuffer \<and> length dst < EncodedLen m"
    if "limit \<le> MaxWirePayload" for limit
  proof (cases "length (mPayload m) \<le> limit \<and> EncodedLen m \<le> length dst")
    case True
    then have l: "length (mPayload m) \<le> limit" "StandardHeaderLen + length (mPayload m) \<le> length dst"
      "length (mPayload m) < 65536" using that by (auto simp: EncodedLen_def MaxWirePayload_def)
    show ?thesis
      using l by (simp add: marshalStandard_eq parseStandard_bytes EncodedLen_def)
  qed (auto simp: marshalStandard_def EncodedLen_def Let_def)
  from this [of I2PDMaxPayload] this [of MaxWirePayload] limits show ?thesis
    unfolding MarshalTo_def MarshalWireTo_def Parse_def ParseWire_def by simp
qed

text \<open>
  The frame format is canonical: re-encoding what \<open>Parse\<close> accepts reproduces the bytes it consumed.
\<close>

theorem Parse_MarshalTo:
  assumes "Parse src = Inr (m, n)"
  shows "n \<le> length src \<and> n = EncodedLen m \<and> MarshalTo m (take n src) = Inr (take n src, n)"
proof -
  note p = parseStandard_Some [OF assms [unfolded Parse_def]]
  have "take n src = take n (standard_bytes (mHeader m) (mPayload m) @ drop n src)" by (rule arg_cong [OF p(4)])
  also have "\<dots> = standard_bytes (mHeader m) (mPayload m)" using p(1) by simp
  finally have eq: "take n src = standard_bytes (mHeader m) (mPayload m)" .
  show ?thesis
    using p(1,3) marshalStandard_eq [OF p(2), of "take n src"] unfolding eq by (simp add: MarshalTo_def EncodedLen_def)
qed

theorem Parse_MarshalTo_witness:
  "let m = \<lparr>mHeader = \<lparr>hType = 20, hID = 7, hExpiration = 9\<rparr>, mPayload = [1, 2, 3]\<rparr>; src = standard_bytes (mHeader m) (mPayload m) in
     Parse src = Inr (m, 19) \<and> MarshalTo m (take 19 src) = Inr (take 19 src, 19)"
proof -
  let ?m = "\<lparr>mHeader = \<lparr>hType = 20, hID = 7, hExpiration = 9\<rparr>, mPayload = [1, 2, 3]\<rparr>"
  let ?s = "standard_bytes (mHeader ?m) (mPayload ?m)"
  have "Parse (?s @ []) = Inr (?m, 19)"
    unfolding Parse_def by (subst parseStandard_bytes) (simp_all add: i2np_consts)
  then have p: "Parse ?s = Inr (?m, 19)" by simp
  from Parse_MarshalTo [OF p] p show ?thesis by (simp add: Let_def)
qed

text \<open>
  A database store that \<open>MarshalDatabaseStore\<close> accepts is read back by \<open>ParseDatabaseStore\<close> with the
  same key, type, data and reply fields (which are zero without a reply token), and the message stays within
  the payload limit. Conversely every accepted payload whose type byte carries no extra bits, and whose reply
  gateway is not zero when there is a token, is marshalled back byte for byte.
\<close>

theorem database_store_roundtrip:
  assumes "length key = 32" "length gateway = 32"
  shows "(MarshalDatabaseStore key typeID data token gateway tunnelID = Inr p \<longrightarrow>
      length p \<le> I2PDMaxPayload \<and> ParseDatabaseStore p =
        Inr \<lparr>dsKey = key, dsType = typeID, dsRawType = typeID, dsReplyToken = token,
          dsReplyTunnelID = (if token = 0 then 0 else tunnelID), dsReplyGateway = (if token = 0 then zero_Hash else gateway),
          dsData = data\<rparr>)
    \<and> (ParseDatabaseStore p = Inr m \<and> dsRawType m = dsType m \<and> (dsReplyToken m \<noteq> 0 \<longrightarrow> dsReplyGateway m \<noteq> zero_Hash) \<longrightarrow>
      MarshalDatabaseStore (dsKey m) (dsType m) (dsData m) (dsReplyToken m) (dsReplyGateway m) (dsReplyTunnelID m) = Inr p)"
proof (intro conjI impI; (elim conjE)?)
  assume M: "MarshalDatabaseStore key typeID data token gateway tunnelID = Inr p"
  note c = MarshalDatabaseStore_Some [OF M]
  let ?b = "store_bytes key typeID token tunnelID gateway data"
  have low: "typeID AND 0x0f = typeID" using c(3) by (rule store_type_low)
  have len: "length ?b \<le> I2PDMaxPayload" using c(4) by (subst length_store_bytes [OF assms low])
  have "key \<noteq> zero_Hash" "p = ?b"
    using M MarshalDatabaseStore_eq [OF assms c(1-3) len low] by (auto split: if_splits)
  then show "length p \<le> I2PDMaxPayload" "ParseDatabaseStore p =
      Inr \<lparr>dsKey = key, dsType = typeID, dsRawType = typeID, dsReplyToken = token,
        dsReplyTunnelID = (if token = 0 then 0 else tunnelID), dsReplyGateway = (if token = 0 then zero_Hash else gateway),
        dsData = data\<rparr>"
    using len low ParseDatabaseStore_bytes [OF assms(1) _ _ assms(2) c(1) len] c(3) by auto
next
  assume P: "ParseDatabaseStore p = Inr m" and t: "dsRawType m = dsType m"
    and g: "dsReplyToken m \<noteq> 0 \<longrightarrow> dsReplyGateway m \<noteq> zero_Hash"
  note c = ParseDatabaseStore_Some [OF P]
  have "length (store_bytes (dsKey m) (dsType m) (dsReplyToken m) (dsReplyTunnelID m) (dsReplyGateway m) (dsData m)) \<le> I2PDMaxPayload"
    using c(1,2) t by simp
  from MarshalDatabaseStore_eq [OF c(3,7,8) g c(6) this store_type_low [OF c(6)]] c(1,4) t
  show "MarshalDatabaseStore (dsKey m) (dsType m) (dsData m) (dsReplyToken m) (dsReplyGateway m) (dsReplyTunnelID m) = Inr p"
    by simp
qed

theorem database_store_roundtrip_witness:
  "ParseDatabaseStore (store_bytes (replicate 32 1) 1 9 4 (replicate 32 2) [7, 8]) =
     Inr \<lparr>dsKey = replicate 32 1, dsType = 1, dsRawType = 1, dsReplyToken = 9, dsReplyTunnelID = 4,
       dsReplyGateway = replicate 32 2, dsData = [7, 8]\<rparr>"
proof -
  have c: "length (replicate 32 1 :: bytes) = 32" "length (replicate 32 2 :: bytes) = 32" "(replicate 32 (1 :: u8)) \<noteq> zero_Hash"
    "(replicate 32 (2 :: u8)) \<noteq> zero_Hash" by (auto simp: numeral_eq_Suc)
  have "MarshalDatabaseStore (replicate 32 1) 1 [7, 8] 9 (replicate 32 2) 4 =
      Inr (store_bytes (replicate 32 1) 1 9 4 (replicate 32 2) [7, 8])"
    using c by (subst MarshalDatabaseStore_eq) (auto simp: store_type_ok_def store_bytes_def i2np_consts)
  with database_store_roundtrip [OF c(1,2), of 1 "[7, 8]" 9 4] show ?thesis by auto
qed

text \<open>
  \<open>ParseDatabaseLookup\<close> accepts only complete, canonical lookups: the payload is exactly the encoding of
  the fields it answers, without trailing bytes; at most 512 excluded peers, at most 32 reply tags, a nonzero
  reply tunnel exactly when the delivery flag asks for one, and the reply fields of the encryption mode that
  the flags select.
\<close>

theorem database_lookup_canonical:
  assumes "ParseDatabaseLookup p = Inr m"
  shows "p = lookup_bytes m \<and> lookup_ok m"
proof -
  let ?f = "p ! 64"
  obtain tid off where t: "lookup_tunnel p ?f = Inr (tid, off)"
    using assms by (cases "lookup_tunnel p ?f") (auto simp: ParseDatabaseLookup_def split: if_splits)
  let ?c = "unat (Uint16 (drop off p))"
  let ?out = "\<lparr>dlKey = take 32 p, dlFrom = slice 32 64 p, dlFlags = ?f, dlReplyTunnelID = tid,
    dlExcluded = slice (off + 2) (off + 2 + ?c * 32) p, dlReplyKey = [], dlReplyTags = [], dlReplyTagLen = 0, dlReplyPublicKey = []\<rparr>"
  have r: "67 \<le> length p" "2 \<le> length p - off" "?c \<le> MaxDatabaseLookupExcluded" "?c * 32 \<le> length p - (off + 2)"
    "lookup_reply p (off + 2 + ?c * 32) ?out = Inr m"
    using assms t by (auto simp: ParseDatabaseLookup_def Let_def split: if_splits)
  have off: "drop 65 p = (if ?f AND lookupDelivery \<noteq> 0 then PutUint32 tid else []) @ drop off p"
    "tid \<noteq> 0 \<longleftrightarrow> ?f AND lookupDelivery \<noteq> 0"
    using t r(1) by (auto simp: lookup_tunnel_def codec_simps take_chunk split: if_splits)
  have "off + 2 + ?c * 32 \<le> length p" using r(2,4) by linarith
  note reply = lookup_reply_Some [OF r(5) this, simplified]
  have m: "dlKey m = take 32 p" "dlFrom m = slice 32 64 p" "dlFlags m = ?f" "dlReplyTunnelID m = tid"
    "dlExcluded m = slice (off + 2) (off + 2 + ?c * 32) p" and rest: "drop (off + 2 + ?c * 32) p = lookup_reply_bytes m"
    using reply(1,2) by auto
  have ex: "length (dlExcluded m) = 32 * ?c" "ExcludedCount m = ?c"
    using r(4) m(5) by (auto simp: ExcludedCount_def)
  have "p = take 32 p @ slice 32 64 p @ [?f] @ drop 65 p"
    using r(1) by (simp add: slice_def nth_chunk take_chunk)
  also note off(1)
  also have "drop off p = PutUint16 (of_nat ?c) @ drop (off + 2) p" using r(2) by (intro Uint16_prefix) auto
  also have "drop (off + 2) p = dlExcluded m @ lookup_reply_bytes m"
    by (simp only: m(5) slice_def take_chunk flip: rest)
  finally have "p = lookup_bytes m"
    unfolding lookup_bytes_def ReplyThroughTunnel_def m(1-4) ex(2) by (simp only: append_assoc)
  moreover have "lookup_ok m"
    unfolding lookup_ok_def
  proof (intro conjI reply(3-5))
    show "length (dlKey m) = 32" "length (dlFrom m) = 32" using r(1) by (auto simp: m(1,2))
    show "dlReplyTunnelID m \<noteq> 0 \<longleftrightarrow> ReplyThroughTunnel m" using off(2) unfolding ReplyThroughTunnel_def m(3,4) .
    show "length (dlExcluded m) = 32 * ExcludedCount m" "ExcludedCount m \<le> MaxDatabaseLookupExcluded"
      using ex r(3) by auto
  qed (use reply in auto)
  ultimately show ?thesis by simp
qed

theorem database_lookup_canonical_witness:
  "replicate 32 1 @ replicate 32 2 @ [1, 0, 0, 0, 5, 0, 1] @ replicate 32 3 =
     lookup_bytes \<lparr>dlKey = replicate 32 1, dlFrom = replicate 32 2, dlFlags = 1, dlReplyTunnelID = 5, dlExcluded = replicate 32 3,
       dlReplyKey = [], dlReplyTags = [], dlReplyTagLen = 0, dlReplyPublicKey = []\<rparr>"
  by (rule database_lookup_canonical [THEN conjunct1])
    (simp add: ParseDatabaseLookup_def lookup_tunnel_def lookup_reply_def i2np_consts slice_def nth_append eval_simps)

text \<open>
  A transport expiration (whole seconds) stays within half a second of the millisecond time it encodes,
  and is refused only beyond the 32-bit range. Decoding adds half a second, so re-encoding a decoded time
  gives the next second: a message that is decoded and encoded again on every hop gains a second each time.
\<close>

theorem transport_expiration_drift:
  "(case EncodeTransportExpiration ms of
      Some s \<Rightarrow> unat s * 1000 \<le> unat ms + 500 \<and> unat ms < unat s * 1000 + 500 \<and> unat ms \<le> unat (DecodeTransportExpiration s)
    | None \<Rightarrow> unat ms > 4294967295499)
   \<and> EncodeTransportExpiration (DecodeTransportExpiration s) = (if s = - 1 then None else Some (s + 1))"
proof
  show "case EncodeTransportExpiration ms of
      Some s \<Rightarrow> unat s * 1000 \<le> unat ms + 500 \<and> unat ms < unat s * 1000 + 500 \<and> unat ms \<le> unat (DecodeTransportExpiration s)
    | None \<Rightarrow> unat ms > 4294967295499"
  proof (cases "unat ms \<le> 4294967295499")
    case True
    then obtain s where "EncodeTransportExpiration ms = Some s" "unat s = (unat ms + 500) div 1000"
      using Encode_Some by blast
    then show ?thesis unfolding unat_Decode by simp linarith
  next
    case False
    then have "ms > 4294967295 * 1000 + 499" by (simp add: word_less_nat_alt)
    then show ?thesis using False by (simp add: EncodeTransportExpiration_def)
  qed
  have max: "s = - 1 \<longleftrightarrow> unat s = 4294967295" 
    unfolding word_unat_eq_iff by (simp add: unsigned_minus_1_eq_mask mask_eq_exp_minus_1)
  show "EncodeTransportExpiration (DecodeTransportExpiration s) = (if s = - 1 then None else Some (s + 1))"
  proof (cases "s = - 1")
    case True
    then have "DecodeTransportExpiration s > 4294967295 * 1000 + 499"
      using max by (simp add: word_less_nat_alt unat_Decode del: word_less_nat_alt [symmetric])
    then show ?thesis using True by (simp add: EncodeTransportExpiration_def)
  next
    case False
    then have l: "unat s \<le> 4294967294" using unat_u32_less [of s] unfolding max by linarith
    then obtain t where t: "EncodeTransportExpiration (DecodeTransportExpiration s) = Some t" "unat t = (1000 * unat s + 1000) div 1000"
      using Encode_Some [of "DecodeTransportExpiration s"] unfolding unat_Decode by auto
    have "unat t = unat (s + 1)" using l t(2) by (simp add: unat_word_ariths)
    then show ?thesis using t(1) False by (simp add: word_unat_eq_iff)
  qed
qed

text \<open>
  A payload that \<open>ValidatePayload\<close> admits is of a known kind, stays within the payload limit and is not
  empty.
\<close>

theorem ValidatePayload_bounds:
  assumes "ValidatePayload kind payload = Inr ()"
  shows "kind \<in> {DatabaseStore, DatabaseLookup, DatabaseSearchReply, DeliveryStatus, Garlic, TunnelData, TunnelGateway, DataType,
      TunnelBuild, TunnelBuildReply, VariableTunnelBuild, VariableTunnelBuildReply, ShortTunnelBuild, OutboundTunnelBuildReply,
      TunnelTest} \<and> length payload \<le> I2PDMaxPayload \<and> payload \<noteq> []"
proof -
  have "payload_ok payload"
    using assms parsers_payload_ok ParseBuildRecords_payload_ok unfolding ValidatePayload_def
    by (auto simp: parse_error_Inr split: if_splits)
  moreover have "kind \<in> {DatabaseStore, DatabaseLookup, DatabaseSearchReply, DeliveryStatus, Garlic, TunnelData, TunnelGateway, DataType,
      TunnelBuild, TunnelBuildReply, VariableTunnelBuild, VariableTunnelBuildReply, ShortTunnelBuild, OutboundTunnelBuildReply,
      TunnelTest}"
    using assms unfolding ValidatePayload_def by (auto split: if_splits)
  ultimately show ?thesis by (simp add: payload_ok_def)
qed

theorem ValidatePayload_bounds_witness:
  "ValidatePayload DataType [0, 0, 0, 1, 7] = Inr () \<and> length [0, 0, 0, 1, 7 :: u8] \<le> I2PDMaxPayload"
proof -
  have v: "ValidatePayload DataType [0, 0, 0, 1, 7] = Inr ()"
    by (simp add: ValidatePayload_def parse_error_def ParseData_def i2np_consts eval_simps)
  show ?thesis using ValidatePayload_bounds [OF v] v by simp
qed

end
