(* ===== verification/Tunnel_Gateway.thy ===== *)
theory Tunnel_Gateway
  imports Packet_Buffer Tunnel_Block Tunnel_Reassembly I2NP
begin

text \<open>
  The two ends of a tunnel of \<open>dataplane/internal/tunnel/gateway.go\<close>: the gateway packs delivery blocks
  into fixed-size messages and cuts long messages into fragments, the endpoint checks and unpacks the
  messages and feeds fragments to the reassembler.

  A reader is the bytes that it still delivers before it ends. \<open>rand.Reader\<close> is such a reader in the state
  of the gateway. The buffers passed to \<open>Fragment\<close> are distinct, so a list of buffers stands for the slice of
  pointers. The layer encryption between the two ends is not part of this file.
\<close>

section \<open>The gateway\<close>

definition TunnelPayloadLen :: nat where "TunnelPayloadLen = TunnelDataPayloadLen"
definition tunnelIVLen :: nat where "tunnelIVLen = 16"
definition tunnelChecksumLen :: nat where "tunnelChecksumLen = 4"
definition maxBlockBytes :: nat where
  "maxBlockBytes = TunnelPayloadLen - tunnelIVLen - tunnelChecksumLen - 1"

lemmas tunnel_consts = TunnelPayloadLen_def tunnelIVLen_def tunnelChecksumLen_def maxBlockBytes_def
  TunnelDataPayloadLen_def TunnelDataMessageLen_def

type_synonym reader = bytes

definition io_ReadFull :: "nat \<Rightarrow> reader \<Rightarrow> bytes \<times> reader \<times> error option" where
  "io_ReadFull n rd =
     (take n rd, drop n rd,
      if n \<le> length rd then None else if rd = [] then Some EOF_err else Some ErrUnexpectedEOF)"

record gateway_state =
  padding :: "reader option"
  randReader :: reader

definition NewGateway :: "reader option \<Rightarrow> reader \<Rightarrow> gateway_state" where
  "NewGateway pad rnd = \<lparr>padding = (case pad of None \<Rightarrow> Some rnd | Some p \<Rightarrow> Some p), randReader = rnd\<rparr>"

definition gateway_read :: "nat \<Rightarrow> gateway_state \<Rightarrow> bytes \<times> gateway_state \<times> error option" where
  "gateway_read n g =
     (case padding g of
        Some p \<Rightarrow> (let (bs, p', err) = io_ReadFull n p in (bs, g\<lparr>padding := Some p'\<rparr>, err))
      | None \<Rightarrow> (let (bs, p', err) = io_ReadFull n (randReader g) in (bs, g\<lparr>randReader := p'\<rparr>, err)))"

definition nonzero :: "bytes \<Rightarrow> bytes" where
  "nonzero bs = map (\<lambda>b. if b = 0 then 1 else b) bs"

definition readNonZero :: "nat \<Rightarrow> reader \<Rightarrow> bytes \<times> reader \<times> error option" where
  "readNonZero n rd =
     (let (bs, rd, err) = io_ReadFull n rd
      in case err of Some e \<Rightarrow> (bs, rd, Some e) | None \<Rightarrow> (nonzero bs, rd, None))"

definition tunnelChecksum :: "bytes \<Rightarrow> bytes \<Rightarrow> bytes" where
  "tunnelChecksum blocks iv = sha256_Sum256 (take (TunnelPayloadLen + tunnelIVLen) (blocks @ iv))"

text \<open>The total length of the blocks, refused when one is malformed or the sum exceeds a message.\<close>

fun blocks_len :: "Block list \<Rightarrow> nat \<Rightarrow> nat result" where
  "blocks_len [] n = Inr n"
| "blocks_len (b # bs) n =
     (case blockLen b of
        Inl _ \<Rightarrow> Inl ErrGatewayBlock
      | Inr m \<Rightarrow> if m > maxBlockBytes - n then Inl ErrGatewayBlock else blocks_len bs (n + m))"

fun marshal_blocks :: "Block list \<Rightarrow> nat \<Rightarrow> bytes \<Rightarrow> bytes" where
  "marshal_blocks [] offset encoded = encoded"
| "marshal_blocks (b # bs) offset encoded =
     (case marshalBlock (drop offset encoded) b of
        Inl _ \<Rightarrow> marshal_blocks bs offset encoded
      | Inr (rest, m) \<Rightarrow> marshal_blocks bs (offset + m) (put_at offset rest encoded))"

text \<open>What \<open>Encode\<close> writes into the tunnel region: \<open>filled\<close> is the region after the entropy read.\<close>

definition encode_data :: "Block list \<Rightarrow> nat \<Rightarrow> bytes \<Rightarrow> bytes" where
  "encode_data blocks n filled =
     (let paddingStart = tunnelIVLen + tunnelChecksumLen;
          paddingEnd = length filled - n - 1;
          data = put_at paddingStart (nonzero (slice paddingStart paddingEnd filled)) filled;
          blocksStart = paddingEnd + 1;
          data = data[blocksStart - 1 := 0];
          encoded = marshal_blocks blocks 0 (drop blocksStart data);
          data = put_at blocksStart encoded data;
          checksum = tunnelChecksum encoded (take tunnelIVLen data)
      in put_at tunnelIVLen (take tunnelChecksumLen checksum) data)"

definition GatewayEncode ::
  "u32 \<Rightarrow> Block list \<Rightarrow> Buffer option \<Rightarrow> gateway_state \<Rightarrow> error option \<times> Buffer option \<times> gateway_state" where
  "GatewayEncode tunnelID blocks dst g =
     (if tunnelID = 0 then (Some I2NPErrInvalidTunnelID, dst, g)
      else case dst of
        None \<Rightarrow> (Some ErrGatewayOutput, dst, g)
      | Some b \<Rightarrow>
          (case AvailablePayload b of
             None \<Rightarrow> (Some ErrGatewayOutput, dst, g)
           | Some available \<Rightarrow>
               if available < int TunnelDataMessageLen then (Some ErrGatewayOutput, dst, g)
               else case blocks_len blocks 0 of
                 Inl e \<Rightarrow> (Some e, dst, g)
               | Inr n \<Rightarrow>
                   (case BufferAppend (int TunnelDataMessageLen) b of
                      (None, b) \<Rightarrow> (Some ErrGatewayOutput, Some b, g)
                    | (Some (off, len), b) \<Rightarrow>
                        let b = BufferWrite off (PutUint32 tunnelID) b;
                            data = slice (off + 4) (off + len) (buf b);
                            (bs, g, err) = gateway_read (length data - n - 1) g;
                            filled = put_at 0 bs data
                        in case err of
                             Some e \<Rightarrow> (Some e, Some (BufferWrite (off + 4) filled b), g)
                           | None \<Rightarrow> (None, Some (BufferWrite (off + 4) (encode_data blocks n filled) b), g))))"

text \<open>The loop of \<open>Fragment\<close> over the follow-on blocks; the result is the count, the error and the state.\<close>

function fragment_loop ::
  "u32 \<Rightarrow> Block \<Rightarrow> nat \<Rightarrow> nat \<Rightarrow> nat \<Rightarrow> Buffer option list \<Rightarrow> gateway_state \<Rightarrow>
    nat \<times> error option \<times> Buffer option list \<times> gateway_state" where
  "fragment_loop tunnelID block needed fragment offset dst g =
     (if offset < length (Data block) then
        let end = min (offset + maxBlockBytes - 7) (length (Data block));
            follow = zero_Block\<lparr>FollowOn := True, MessageID := MessageID block, Fragment := of_nat fragment,
              Last := (end = length (Data block)), Data := slice offset end (Data block)\<rparr>
        in if fragment \<ge> length dst then (fragment, Some Panic, dst, g)
           else let (err, b, g) = GatewayEncode tunnelID [follow] (dst ! fragment) g;
                    dst = dst[fragment := b]
                in case err of
                     Some e \<Rightarrow> (fragment, Some e, dst, g)
                   | None \<Rightarrow> fragment_loop tunnelID block needed (fragment + 1) end dst g
      else (needed, None, dst, g))"
  by pat_completeness auto
termination
  by (relation "measure (\<lambda>(_, block, _, _, offset, _, _). length (Data block) - offset)")
    (auto simp: tunnel_consts)

definition fragments_needed :: "nat \<Rightarrow> nat \<Rightarrow> nat" where
  "fragments_needed firstData n = 1 + (n - firstData + maxBlockBytes - 7 - 1) div (maxBlockBytes - 7)"

text \<open>
  The message identifier of a fragmented block. A zero identifier is replaced by four nonzero bytes of the
  gateway's own reader, whose absence is a nil interface call.
\<close>

definition fragment_id :: "Block \<Rightarrow> gateway_state \<Rightarrow> u32 \<times> error option \<times> gateway_state" where
  "fragment_id block g =
     (if MessageID block = 0 then
        case padding g of
          None \<Rightarrow> (0, Some Panic, g)
        | Some p \<Rightarrow> (let (bs, p, err) = readNonZero 4 p in (Uint32 bs, err, g\<lparr>padding := Some p\<rparr>))
      else (MessageID block, None, g))"

definition GatewayFragment ::
  "u32 \<Rightarrow> Block \<Rightarrow> Buffer option list \<Rightarrow> gateway_state \<Rightarrow>
    nat \<times> error option \<times> Buffer option list \<times> gateway_state" where
  "GatewayFragment tunnelID block dst g =
     (if tunnelID = 0 then (0, Some I2NPErrInvalidTunnelID, dst, g)
      else if FollowOn block \<or> Delivery block > DeliveryRouter \<or> Data block = [] \<or> length (Data block) > I2PDMaxPayload
      then (0, Some ErrGatewayBlock, dst, g)
      else case firstBlockLen block True of
        Inl e \<Rightarrow> (0, Some e, dst, g)
      | Inr firstHeader \<Rightarrow>
          if length (Data block) \<le> maxBlockBytes - firstHeader then
            if dst = [] then (0, Some ErrGatewayOutput, dst, g)
            else let (err, b, g) = GatewayEncode tunnelID [block\<lparr>Last := True\<rparr>] (dst ! 0) g
                 in (1, err, dst[0 := b], g)
          else
            let firstData = maxBlockBytes - firstHeader;
                needed = fragments_needed firstData (length (Data block))
            in if needed > 64 \<or> length dst < needed then (0, Some ErrGatewayOutput, dst, g)
               else let (msgID, err, g) = fragment_id block g
                    in case err of
                         Some e \<Rightarrow> (0, Some e, dst, g)
                       | None \<Rightarrow>
                           let block = block\<lparr>MessageID := msgID\<rparr>;
                               first = block\<lparr>Last := False, Data := take firstData (Data block)\<rparr>;
                               (err, b, g) = GatewayEncode tunnelID [first] (dst ! 0) g;
                               dst = dst[0 := b]
                           in case err of
                                Some e \<Rightarrow> (0, Some e, dst, g)
                              | None \<Rightarrow> fragment_loop tunnelID block needed 1 firstData dst g)"

section \<open>The endpoint\<close>

record deliveryMeta =
  mblock :: Block
  mcreated :: u64

record Endpoint =
  reasm :: Reassembler
  maxMeta :: int
  meta :: "(u32 \<times> deliveryMeta) list"

definition NewEndpoint :: "int \<Rightarrow> int \<Rightarrow> slab_state \<Rightarrow> Endpoint" where
  "NewEndpoint maxE maxM st =
     (let maxE = (if maxE \<le> 0 then 128 else maxE)
      in \<lparr>reasm = NewReassembler maxE maxM st, maxMeta = maxE, meta = []\<rparr>)"

text \<open>
  What a call leaves to the run-time system: the orders of the two range loops and the pooled slab that
  the lease of a fragment gets. Each block of a message has its own choices.
\<close>

record choices =
  entry_order :: visit_order
  meta_order :: "(u32 \<times> deliveryMeta) list \<Rightarrow> (u32 \<times> deliveryMeta) list"
  slab_pick :: "nat option"

definition remember :: "choices \<Rightarrow> Block \<Rightarrow> u64 \<Rightarrow> Endpoint \<Rightarrow> error option \<times> Endpoint" where
  "remember ch block nowMillis e =
     (let block = block\<lparr>Data := []\<rparr> in
      case map_of (meta e) (MessageID block) of
        Some prior \<Rightarrow>
          if Delivery (mblock prior) \<noteq> Delivery block \<or> Gateway (mblock prior) \<noteq> Gateway block \<or>
             TunnelID (mblock prior) \<noteq> TunnelID block
          then (Some ErrFragment, e)
          else (None, e\<lparr>meta := AList.update (MessageID block) prior (meta e)\<rparr>)
      | None \<Rightarrow>
          let m = (if int (length (meta e)) = maxMeta e then drop_oldest (meta_order ch) mcreated (meta e) else meta e)
          in (None, e\<lparr>meta := AList.update (MessageID block) \<lparr>mblock = block, mcreated = nowMillis\<rparr> m\<rparr>))"

type_synonym parse_result = "(nat \<times> error option) \<times> Block list \<times> Endpoint"

text \<open>A completed message leaves with the delivery fields of its first fragment.\<close>

definition deliver :: "u32 \<Rightarrow> Block \<Rightarrow> bytes \<Rightarrow> Block list \<Rightarrow> nat \<Rightarrow> Endpoint \<Rightarrow> parse_result" where
  "deliver messageID block complete out n e =
     (if n = length out then ((n, Some ErrGatewayOutput), out, e)
      else ((n + 1, None), out[n := block\<lparr>Data := complete, Last := True\<rparr>],
        e\<lparr>meta := AList.delete messageID (meta e)\<rparr>))"

definition appendFragmentedBlockLocked ::
  "choices \<Rightarrow> Block \<Rightarrow> Block list \<Rightarrow> nat \<Rightarrow> u64 \<Rightarrow> Endpoint \<Rightarrow> parse_result" where
  "appendFragmentedBlockLocked ch block out n nowMillis e =
     (if \<not> FollowOn block \<and> Last block then
        if n = length out then ((n, Some ErrGatewayOutput), out, e)
        else ((n + 1, None), out[n := block], e)
      else if FollowOn block then
        if Fragment block = 0 then ((n, Some ErrGatewayBlock), out, e)
        else
          let (res, r) = reasm_Add (entry_order ch) (slab_pick ch)
                \<lparr>fMessageID = MessageID block, fNumber = Fragment block, fLast = Last block, fData = Data block\<rparr> nowMillis (reasm e);
              e = e\<lparr>reasm := r\<rparr>
          in case res of
               Inl err \<Rightarrow> ((n, Some err), out, e)
             | Inr None \<Rightarrow> ((n, None), out, e)
             | Inr (Some complete) \<Rightarrow>
                 (case map_of (meta e) (MessageID block) of
                    None \<Rightarrow> ((n, Some ErrFragment), out, e)
                  | Some m \<Rightarrow> deliver (MessageID block) (mblock m) complete out n e)
      else
        case remember ch block nowMillis e of
          (Some err, e) \<Rightarrow> ((n, Some err), out, e)
        | (None, e) \<Rightarrow>
            let (res, r) = reasm_Add (entry_order ch) (slab_pick ch)
                  \<lparr>fMessageID = MessageID block, fNumber = 0, fLast = False, fData = Data block\<rparr> nowMillis (reasm e);
                e = e\<lparr>reasm := r\<rparr>
            in case res of
                 Inl err \<Rightarrow> ((n, Some err), out, e)
               | Inr None \<Rightarrow> ((n, None), out, e)
               | Inr (Some complete) \<Rightarrow>
                   let m = (case map_of (meta e) (MessageID block) of Some m \<Rightarrow> m | None \<Rightarrow> \<lparr>mblock = zero_Block, mcreated = 0\<rparr>)
                   in deliver (MessageID block) (mblock m) complete out n e)"

function parseFragmented ::
  "(nat \<Rightarrow> choices) \<Rightarrow> nat \<Rightarrow> Block \<Rightarrow> bytes \<Rightarrow> Block list \<Rightarrow> nat \<Rightarrow> u64 \<Rightarrow> Endpoint \<Rightarrow> parse_result" where
  "parseFragmented ch k block rest out n nowMillis e =
     (case appendFragmentedBlockLocked (ch k) block out n nowMillis e of
        ((n, Some err), out, e) \<Rightarrow> ((n, Some err), out, e)
      | ((n, None), out, e) \<Rightarrow>
          (case BlockNext rest of
             Inl err \<Rightarrow> ((n, Some err), out, e)
           | Inr None \<Rightarrow> ((n, None), out, e)
           | Inr (Some (block, rest)) \<Rightarrow> parseFragmented ch (k + 1) block rest out n nowMillis e))"
  by pat_completeness auto
termination
  by (relation "measure (\<lambda>(_, _, _, rest, _). length rest)") (auto dest: BlockNext_shrinks)

function endpoint_loop ::
  "(nat \<Rightarrow> choices) \<Rightarrow> bytes \<Rightarrow> Block list \<Rightarrow> nat \<Rightarrow> u64 \<Rightarrow> Endpoint \<Rightarrow> parse_result" where
  "endpoint_loop ch rest out n nowMillis e =
     (case BlockNext rest of
        Inl err \<Rightarrow> ((n, Some err), out, e)
      | Inr None \<Rightarrow> ((n, None), out, e)
      | Inr (Some (block, rest)) \<Rightarrow>
          if \<not> FollowOn block \<and> Last block then
            if n = length out then ((n, Some ErrGatewayOutput), out, e)
            else endpoint_loop ch rest (out[n := block]) (n + 1) nowMillis e
          else parseFragmented ch 0 block rest out n nowMillis e)"
  by pat_completeness auto
termination
  by (relation "measure (\<lambda>(_, rest, _). length rest)") (auto dest: BlockNext_shrinks)

declare endpoint_loop.simps [simp del] parseFragmented.simps [simp del] fragment_loop.simps [simp del]

definition EndpointParse ::
  "(nat \<Rightarrow> choices) \<Rightarrow> bytes \<Rightarrow> Block list \<Rightarrow> u64 \<Rightarrow> Endpoint \<Rightarrow> parse_result" where
  "EndpointParse ch payload out nowMillis e =
     (case ParseTunnelData payload of
        Inl err \<Rightarrow> ((0, Some err), out, e)
      | Inr message \<Rightarrow>
          let data = tdData message in
          if length data \<noteq> TunnelPayloadLen then ((0, Some ErrGatewayPayload), out, e)
          else
            let checksum = slice tunnelIVLen (tunnelIVLen + tunnelChecksumLen) data;
                iv = take tunnelIVLen data;
                start = tunnelIVLen + tunnelChecksumLen;
                start = start + length (takeWhile (\<lambda>b. b \<noteq> 0) (drop start data))
            in if start = length data then ((0, Some ErrGatewayPayload), out, e)
               else
                 let blocks = drop (start + 1) data;
                     expected = tunnelChecksum blocks iv
                 in if checksum \<noteq> take tunnelChecksumLen expected then ((0, Some ErrGatewayPayload), out, e)
                    else endpoint_loop ch blocks out 0 nowMillis e)"

definition EndpointExpire :: "choices \<Rightarrow> u64 \<Rightarrow> Endpoint \<Rightarrow> nat \<times> Endpoint" where
  "EndpointExpire ch cutoff e =
     (let (removed, r) = reasm_Expire (entry_order ch) cutoff (reasm e)
      in foldl (\<lambda>(removed, e) (k, item). if mcreated item \<le> cutoff
             then (removed + 1, e\<lparr>meta := AList.delete k (meta e)\<rparr>) else (removed, e))
           (removed, e\<lparr>reasm := r\<rparr>) (meta_order ch (meta e)))"

section \<open>What a message looks like\<close>

definition blocks_bytes :: "Block list \<Rightarrow> bytes" where
  "blocks_bytes blocks = concat (map block_bytes blocks)"

definition tunnel_message :: "u32 \<Rightarrow> bytes \<Rightarrow> bytes \<Rightarrow> Block list \<Rightarrow> bytes" where
  "tunnel_message tunnelID iv pad blocks =
     PutUint32 tunnelID @ iv @ take 4 (tunnelChecksum (blocks_bytes blocks) iv) @ pad @ [0] @ blocks_bytes blocks"

text \<open>The parts that are free: an initialization vector and padding without zero bytes that fills the message.\<close>

definition filler_ok :: "bytes \<Rightarrow> bytes \<Rightarrow> Block list \<Rightarrow> bool" where
  "filler_ok iv pad blocks \<longleftrightarrow>
     length iv = 16 \<and> 0 \<notin> set pad \<and> length pad + length (blocks_bytes blocks) = maxBlockBytes"

lemma length_nonzero [simp]: "length (nonzero bs) = length bs"
  by (simp add: nonzero_def)

lemma nonzero_no_zero: "0 \<notin> set (nonzero bs)"
  by (auto simp: nonzero_def)

lemma blocks_len_spec:
  assumes "blocks_len blocks n = Inr k" "list_all (\<lambda>b. length (Gateway b) = 32) blocks" "n \<le> maxBlockBytes"
  shows "k = n + length (blocks_bytes blocks) \<and> k \<le> maxBlockBytes \<and> list_all block_wf blocks"
  using assms
proof (induction blocks n rule: blocks_len.induct)
  case (2 b bs n)
  then obtain m where m: "blockLen b = Inr m" "\<not> m > maxBlockBytes - n" "blocks_len bs (n + m) = Inr k"
    by (auto split: sum.splits if_splits)
  then have "n + m \<le> maxBlockBytes" using 2(4) by linarith
  then have "k = n + m + length (blocks_bytes bs) \<and> k \<le> maxBlockBytes \<and> list_all block_wf bs"
    using m 2(3) by (intro 2(1) [OF m(1,2)]) auto
  moreover have "block_wf b" using 2(3) m(1) by (simp add: block_wf_def)
  ultimately show ?case using 2(3) m(1) by (simp add: blocks_bytes_def length_block_bytes)
qed (simp add: blocks_bytes_def)

lemma marshal_blocks_eq:
  assumes "list_all block_wf blocks" "length pre = offset" "length (blocks_bytes blocks) \<le> length rest"
  shows "marshal_blocks blocks offset (pre @ rest) =
    pre @ blocks_bytes blocks @ drop (length (blocks_bytes blocks)) rest"
  using assms
proof (induction blocks arbitrary: pre offset rest)
  case (Cons b bs)
  then obtain m where m: "length (Gateway b) = 32" "blockLen b = Inr m" by (auto simp: block_wf_def)
  note len = length_block_bytes [OF m]
  have "marshalBlock rest b = Inr (block_bytes b @ drop m rest, m)"
    using m Cons.prems(3) len by (intro marshalBlock_eq) (auto simp: blocks_bytes_def)
  then have "marshal_blocks (b # bs) offset (pre @ rest) =
      marshal_blocks bs (offset + m) ((pre @ block_bytes b) @ drop m rest)"
    using Cons.prems len by (simp add: put_at_def blocks_bytes_def)
  also have "\<dots> = (pre @ block_bytes b) @ blocks_bytes bs @ drop (length (blocks_bytes bs)) (drop m rest)"
    using Cons.prems len by (intro Cons.IH) (auto simp: blocks_bytes_def)
  finally show ?case using len by (simp add: blocks_bytes_def add.commute)
qed (simp add: blocks_bytes_def)

lemma encode_data_eq:
  assumes "length iv = 16" "length ck = 4" "length tail = n" "n = length (blocks_bytes blocks)" "n \<le> maxBlockBytes"
    and "list_all block_wf blocks"
  shows "encode_data blocks n (iv @ ck @ pad @ [z] @ tail) =
    iv @ take 4 (tunnelChecksum (blocks_bytes blocks) iv) @ nonzero pad @ [0] @ blocks_bytes blocks"
proof -
  let ?f = "iv @ ck @ pad @ [z] @ tail" and ?p = "20 + length pad"
  have len: "length ?f - n - 1 = ?p" using assms(1-3) by simp
  have pad: "slice 20 ?p ?f = pad" using assms(1,2) by (simp add: slice_def)
  have d1: "put_at 20 (nonzero pad) ?f = (iv @ ck @ nonzero pad) @ [z] @ tail"
    using assms(1,2) by (simp add: put_at_def)
  have d2: "((iv @ ck @ nonzero pad) @ [z] @ tail)[?p + 1 - 1 := 0] = (iv @ ck @ nonzero pad @ [0]) @ tail"
    using assms(1,2) by (simp add: list_update_append)
  have d3: "drop (?p + 1) ((iv @ ck @ nonzero pad @ [0]) @ tail) = tail" using assms(1,2) by simp
  have enc: "marshal_blocks blocks 0 tail = blocks_bytes blocks"
    using marshal_blocks_eq [OF assms(6), of "[]" 0 tail] assms(3,4) by simp
  have d4: "put_at (?p + 1) (blocks_bytes blocks) ((iv @ ck @ nonzero pad @ [0]) @ tail) =
      iv @ ck @ nonzero pad @ [0] @ blocks_bytes blocks"
    using assms(1-4) by (simp add: put_at_def)
  have d5: "put_at 16 c (iv @ ck @ nonzero pad @ [0] @ blocks_bytes blocks) = iv @ c @ nonzero pad @ [0] @ blocks_bytes blocks"
    if "length c = 4" for c using assms(1,2) that by (simp add: put_at_def)
  have "take 16 (iv @ ck @ nonzero pad @ [0] @ blocks_bytes blocks) = iv" "16 + 4 = (20 :: nat)"
    using assms(1) by simp_all
  note steps = len this(2) pad d1 d2 d3 enc d4 this(1)
  show ?thesis
    unfolding encode_data_def tunnelIVLen_def tunnelChecksumLen_def Let_def steps
    by (rule d5) (simp add: tunnelChecksum_def)
qed

section \<open>The gateway writes such messages\<close>

definition reader_left :: "gateway_state \<Rightarrow> nat" where
  "reader_left g = (case padding g of Some p \<Rightarrow> length p | None \<Rightarrow> length (randReader g))"

lemma gateway_read_spec:
  assumes "n \<le> reader_left g"
  obtains bs g' where "gateway_read n g = (bs, g', None)" "length bs = n" "reader_left g' = reader_left g - n"
    "(padding g' = None) = (padding g = None)"
  using assms that by (cases "padding g") (auto simp: gateway_read_def io_ReadFull_def reader_left_def)

text \<open>A buffer that can take one message: what it holds already stays in front of it.\<close>

definition takes_message :: "bytes \<Rightarrow> Buffer option \<Rightarrow> bool" where
  "takes_message old dst \<longleftrightarrow>
     (\<exists>b a. dst = Some b \<and> buffer_ok b \<and> BufferBytes b = Some old \<and> AvailablePayload b = Some a \<and> int TunnelDataMessageLen \<le> a)"

definition holds_message :: "bytes \<Rightarrow> bytes \<Rightarrow> Buffer option \<Rightarrow> bool" where
  "holds_message old msg dst \<longleftrightarrow> (\<exists>b. dst = Some b \<and> buffer_ok b \<and> BufferBytes b = Some (old @ msg))"

lemma append_write:
  assumes "buffer_ok b" "BufferBytes b = Some old" "AvailablePayload b = Some a" "int m \<le> a"
  obtains off b' where "BufferAppend (int m) b = (Some (off, m), b')" "off + m \<le> length (buf b')"
    "\<And>msg. length msg = m \<Longrightarrow> holds_message old msg (Some (BufferWrite off msg b'))"
proof -
  let ?b = "b\<lparr>bend := bend b + int m\<rparr>"
  have live: "buffer_live b" "a = blimit b - bend b" "old = slice (nat (bstart b)) (nat (bend b)) (buf b)"
    using assms(2,3) by (auto simp: BufferBytes_def AvailablePayload_def split: if_splits)
  then have ok: "0 \<le> bstart b" "bstart b \<le> bend b" "0 \<le> reserved b" "reserved b \<le> bend b" "bend b + int m \<le> int (length (buf b))"
    "blimit b = int (length (buf b))"
    using assms(1,4) by (auto simp: buffer_ok_def)
  show ?thesis
  proof (rule that)
    show "BufferAppend (int m) b = (Some (nat (bend b), m), ?b)"
      using live assms(4) by (simp add: BufferAppend_def)
    show "nat (bend b) + m \<le> length (buf ?b)" using ok by simp
    fix msg :: bytes assume m: "length msg = m"
    have "nat (bend b + int m) = nat (bend b) + length msg" using ok m by simp
    then have "slice (nat (bstart b)) (nat (bend b + int m)) (put_at (nat (bend b)) msg (buf b)) = old @ msg"
      using slice_put_end [of "nat (bstart b)" "nat (bend b)" msg "buf b"] ok m live(3) by simp
    then show "holds_message old msg (Some (BufferWrite (nat (bend b)) msg ?b))"
      using live ok by (auto simp: holds_message_def BufferWrite_def buffer_ok_def buffer_live_def BufferBytes_def)
  qed
qed

lemma BufferWrite_BufferWrite:
  "length xs = n \<Longrightarrow> off + n + length ys \<le> length (buf b) \<Longrightarrow>
   BufferWrite (off + n) ys (BufferWrite off xs b) = BufferWrite off (xs @ ys) b"
  by (simp add: BufferWrite_def put_at_put_at [where m = off])

lemma filled_region:
  assumes "length bs = 1023 - n" "n \<le> maxBlockBytes" "length data = 1024"
  obtains iv ck pad z tail where "put_at 0 bs data = iv @ ck @ pad @ [z] @ tail"
    "length iv = 16" "length ck = 4" "length pad = maxBlockBytes - n" "length tail = n"
proof -
  let ?rest = "drop (1023 - n) data"
  have n: "n \<le> 1003" using assms(2) by (simp add: tunnel_consts)
  have len: "length ?rest = Suc n" using assms n by simp
  then obtain z tail where r: "?rest = z # tail" by (cases ?rest) auto
  have "put_at 0 bs data = bs @ ?rest" using assms n by (simp add: put_at_def)
  also have "\<dots> = take 16 bs @ slice 16 20 bs @ drop 20 bs @ [z] @ tail"
    unfolding r by (simp add: slice_def take_chunk)
  finally show ?thesis using that [of "take 16 bs" "slice 16 20 bs" "drop 20 bs" z tail] assms n len r
    by (simp add: tunnel_consts)
qed

lemma GatewayEncode_spec:
  assumes "tunnelID \<noteq> 0" "takes_message old dst" "list_all (\<lambda>b. length (Gateway b) = 32) blocks"
    and "blocks_len blocks 0 = Inr n" "1024 \<le> reader_left g"
  obtains iv pad dst' g' where "GatewayEncode tunnelID blocks dst g = (None, dst', g')"
    "holds_message old (tunnel_message tunnelID iv pad blocks) dst'" "filler_ok iv pad blocks"
    "reader_left g - 1024 \<le> reader_left g'" "(padding g' = None) = (padding g = None)"
proof -
  obtain b a where b: "dst = Some b" "buffer_ok b" "BufferBytes b = Some old" "AvailablePayload b = Some a"
    "int TunnelDataMessageLen \<le> a" using assms(2) by (auto simp: takes_message_def)
  obtain off b' where app: "BufferAppend (int TunnelDataMessageLen) b = (Some (off, TunnelDataMessageLen), b')"
    "off + TunnelDataMessageLen \<le> length (buf b')"
    and wr: "\<And>msg. length msg = TunnelDataMessageLen \<Longrightarrow> holds_message old msg (Some (BufferWrite off msg b'))"
    by (rule append_write [OF b(2-5)]) (rule that)
  have n: "n = length (blocks_bytes blocks)" "n \<le> maxBlockBytes" "list_all block_wf blocks"
    using blocks_len_spec [OF assms(4,3)] by auto
  let ?b = "BufferWrite off (PutUint32 tunnelID) b'"
  let ?data = "slice (off + 4) (off + TunnelDataMessageLen) (buf ?b)"
  have data: "length ?data = 1024" using app(2) by (simp add: BufferWrite_def tunnel_consts)
  have need: "1024 - n - 1 \<le> reader_left g" using assms(5) by linarith
  obtain bs g' where rd: "gateway_read (1024 - n - 1) g = (bs, g', None)" "length bs = 1024 - n - 1"
    "reader_left g' = reader_left g - (1024 - n - 1)" "(padding g' = None) = (padding g = None)"
    by (rule gateway_read_spec [OF need]) (rule that)
  have "length bs = 1023 - n" using rd(2) by simp
  from filled_region [OF this n(2) data] obtain iv ck pad z tail where
    f: "put_at 0 bs ?data = iv @ ck @ pad @ [z] @ tail" "length iv = 16" "length ck = 4" "length pad = maxBlockBytes - n"
      "length tail = n" by blast
  note enc = encode_data_eq [OF f(2,3,5) n, of pad z]
  have "GatewayEncode tunnelID blocks dst g = (None, Some (BufferWrite (off + 4) (encode_data blocks n (iv @ ck @ pad @ [z] @ tail)) ?b), g')"
    using b(1,4,5) assms(1,4) app(1) data rd(1) f(1) by (simp add: GatewayEncode_def Let_def)
  also have "BufferWrite (off + 4) (encode_data blocks n (iv @ ck @ pad @ [z] @ tail)) ?b =
      BufferWrite off (tunnel_message tunnelID iv (nonzero pad) blocks) b'"
    unfolding enc tunnel_message_def using app(2) f n
    by (intro BufferWrite_BufferWrite) (auto simp: tunnel_consts tunnelChecksum_def)
  finally have e: "GatewayEncode tunnelID blocks dst g = (None, Some (BufferWrite off (tunnel_message tunnelID iv (nonzero pad) blocks) b'), g')" .
  show ?thesis
    using e f n rd(3,4) nonzero_no_zero [of pad]
    by (intro that [OF e wr]) (auto simp: filler_ok_def tunnel_message_def tunnel_consts tunnelChecksum_def)
qed

section \<open>The endpoint reads them\<close>

lemma takeWhile_nonzero: "0 \<notin> set pad \<Longrightarrow> takeWhile (\<lambda>b. b \<noteq> 0) (pad @ 0 # rest) = pad"
  by (induction pad) auto

lemma EndpointParse_message:
  assumes "tunnelID \<noteq> 0" "filler_ok iv pad blocks"
  shows "EndpointParse ch (tunnel_message tunnelID iv pad blocks) out now e = endpoint_loop ch (blocks_bytes blocks) out 0 now e"
proof -
  let ?bb = "blocks_bytes blocks" and ?ck = "take 4 (tunnelChecksum (blocks_bytes blocks) iv)"
  let ?data = "iv @ ?ck @ pad @ [0] @ ?bb"
  have l: "length iv = 16" "0 \<notin> set pad" "length pad + length ?bb = 1003" "length ?ck = 4"
    using assms(2) by (auto simp: filler_ok_def tunnel_consts tunnelChecksum_def)
  have p: "ParseTunnelData (tunnel_message tunnelID iv pad blocks) = Inr \<lparr>tdTunnelID = tunnelID, tdData = ?data\<rparr>"
    using assms(1) l by (simp add: ParseTunnelData_def tunnel_message_def tunnel_consts codec_simps)
  have d: "length ?data = 1024" "slice 16 20 ?data = ?ck" "take 16 ?data = iv" "drop 20 ?data = pad @ 0 # ?bb"
    using l by (auto simp: slice_def)
  have k: "20 + length (takeWhile (\<lambda>b. b \<noteq> 0) (pad @ 0 # ?bb)) = 20 + length pad"
    by (simp only: takeWhile_nonzero [OF l(2)])
  have r: "drop (20 + length pad + 1) ?data = ?bb" using l by simp
  have s: "16 + 4 = (20 :: nat)" "20 + length pad \<noteq> length ?data" using l by simp_all
  show ?thesis
    unfolding EndpointParse_def p tunnelIVLen_def tunnelChecksumLen_def TunnelPayloadLen_def TunnelDataPayloadLen_def Let_def
    using d s by (simp only: sum.case TunnelDataMessage.simps s(1) d k r) simp
qed

lemma parse_single:
  assumes "block_wf b"
  shows "endpoint_loop ch (blocks_bytes [b]) out 0 now e = appendFragmentedBlockLocked (ch 0) (block_view b) out 0 now e"
proof -
  have n: "BlockNext (blocks_bytes [b]) = Inr (Some (block_view b, []))"
    using BlockNext_block_bytes [OF assms, of "[]"] by (simp add: blocks_bytes_def)
  have e: "BlockNext [] = Inr None" by (simp add: BlockNext_def)
  show ?thesis
  proof (cases "\<not> FollowOn (block_view b) \<and> Last (block_view b)")
    case True
    then have "endpoint_loop ch (blocks_bytes [b]) out 0 now e =
        (if out = [] then ((0, Some ErrGatewayOutput), out, e) else endpoint_loop ch [] (out[0 := block_view b]) 1 now e)"
      by (subst endpoint_loop.simps) (simp add: n)
    also have "endpoint_loop ch [] (out[0 := block_view b]) 1 now e = ((1, None), out[0 := block_view b], e)"
      by (subst endpoint_loop.simps) (simp add: e)
    finally show ?thesis using True by (simp add: appendFragmentedBlockLocked_def)
  next
    case False
    then have "endpoint_loop ch (blocks_bytes [b]) out 0 now e = parseFragmented ch 0 (block_view b) [] out 0 now e"
      by (subst endpoint_loop.simps) (auto simp: n)
    also have "\<dots> = appendFragmentedBlockLocked (ch 0) (block_view b) out 0 now e"
      by (subst parseFragmented.simps) (auto simp: e split: prod.splits option.splits)
    finally show ?thesis .
  qed
qed

section \<open>Cutting a message\<close>

function chunks :: "nat \<Rightarrow> 'a list \<Rightarrow> 'a list list" where
  "chunks m xs = (if m = 0 \<or> xs = [] then [] else take m xs # chunks m (drop m xs))"
  by pat_completeness auto
termination
  by (relation "measure (\<lambda>(_, xs). length xs)") auto

declare chunks.simps [simp del]

lemma chunks_Nil [simp]: "chunks m [] = []"
  by (subst chunks.simps) simp

lemma chunks_Cons: "m \<noteq> 0 \<Longrightarrow> xs \<noteq> [] \<Longrightarrow> chunks m xs = take m xs # chunks m (drop m xs)"
  by (subst chunks.simps) simp

lemma chunks_eq_Nil: "m \<noteq> 0 \<Longrightarrow> chunks m xs = [] \<longleftrightarrow> xs = []"
  by (cases "xs = []") (simp_all add: chunks_Cons)

lemma chunks_spec:
  assumes "m \<noteq> 0"
  shows "concat (chunks m xs) = xs" "list_all (\<lambda>c. c \<noteq> [] \<and> length c \<le> m) (chunks m xs)"
    "length (chunks m xs) = (length xs + m - 1) div m"
  using assms
proof (induction m xs rule: chunks.induct)
  case (1 m xs)
  {
    case 1 then show ?case using "1.IH"(1) by (cases "xs = []") (auto simp: chunks_Cons)
  next
    case 2 then show ?case using "1.IH"(2) by (cases "xs = []") (auto simp: chunks_Cons)
  next
    case 3
    show ?case
    proof (cases "xs = []")
      case False
      then have "length (chunks m xs) = Suc ((length xs - m + m - 1) div m)"
        using "1.IH"(3) 3 by (simp add: chunks_Cons)
      also have "\<dots> = (length xs + m - 1) div m"
      proof -
        obtain k where k: "length xs = Suc k" using False by (cases xs) auto
        have "(k + m) div m = Suc (k div m)" using div_add_self2 [of m k] 3 by simp
        moreover have "Suc ((length xs - m + m - 1) div m) = Suc (k div m)"
        proof (cases "m \<le> length xs")
          case False
          then have "k div m = 0" "(m - 1) div m = 0" "length xs - m = 0" using k 3 by simp_all
          then show ?thesis by simp
        qed (simp add: k)
        ultimately show ?thesis by (simp add: k)
      qed
      finally show ?thesis .
    qed (use 3 in simp)
  }
qed

definition follow_block :: "u32 \<Rightarrow> nat \<Rightarrow> bool \<Rightarrow> bytes \<Rightarrow> Block" where
  "follow_block messageID i lst chunk =
     zero_Block\<lparr>FollowOn := True, MessageID := messageID, Fragment := of_nat i, Last := lst, Data := chunk\<rparr>"

lemma blocks_len_follow:
  assumes "chunk \<noteq> []" "length chunk \<le> 996" "1 \<le> i" "i < 64"
  shows "blocks_len [follow_block messageID i lst chunk] 0 = Inr (7 + length chunk)"
proof -
  have "unat (of_nat i :: u8) = i" using assms(4) by simp
  then have "(of_nat i :: u8) \<noteq> 0" "\<not> (of_nat i :: u8) > 63"
    using assms(3,4) by (auto simp: word_less_nat_alt simp del: unat_of_nat_u8)
  then show ?thesis using assms(1,2) by (simp add: follow_block_def blockLen_def zero_Block_def tunnel_consts)
qed

text \<open>The message that carries one block, with some filler.\<close>

definition carries :: "u32 \<Rightarrow> Block \<Rightarrow> bytes \<Rightarrow> bool" where
  "carries tunnelID b msg \<longleftrightarrow> block_wf b \<and> (\<exists>iv pad. filler_ok iv pad [b] \<and> msg = tunnel_message tunnelID iv pad [b])"

lemma GatewayEncode_one:
  assumes "tunnelID \<noteq> 0" "takes_message [] dst" "length (Gateway b) = 32" "blocks_len [b] 0 = Inr n" "1024 \<le> reader_left g"
  obtains msg dst' g' where "GatewayEncode tunnelID [b] dst g = (None, dst', g')" "holds_message [] msg dst'"
    "carries tunnelID b msg" "reader_left g - 1024 \<le> reader_left g'" "(padding g' = None) = (padding g = None)"
proof -
  have wf: "block_wf b" using blocks_len_spec [OF assms(4)] assms(3) by simp
  obtain iv pad dst' g' where enc: "GatewayEncode tunnelID [b] dst g = (None, dst', g')"
    "holds_message [] (tunnel_message tunnelID iv pad [b]) dst'" "filler_ok iv pad [b]"
    "reader_left g - 1024 \<le> reader_left g'" "(padding g' = None) = (padding g = None)"
    by (rule GatewayEncode_spec [OF assms(1,2) _ assms(4,5)]) (use assms(3) in auto)
  have "carries tunnelID b (tunnel_message tunnelID iv pad [b])" using wf enc(3) unfolding carries_def by blast
  then show ?thesis by (rule that [OF enc(1,2) _ enc(4,5)])
qed

lemma fragment_loop_spec:
  assumes "cs = chunks 996 (drop offset (Data block))" "tunnelID \<noteq> 0" "1 \<le> fragment" "fragment + length cs \<le> 64"
    and "fragment + length cs \<le> length dst" "\<And>i. i < length cs \<Longrightarrow> takes_message [] (dst ! (fragment + i))"
    and "1024 * length cs \<le> reader_left g"
  shows "\<exists>dst' g'. fragment_loop tunnelID block needed fragment offset dst g = (needed, None, dst', g') \<and>
    length dst' = length dst \<and> (\<forall>i < fragment. dst' ! i = dst ! i) \<and>
    (\<forall>i < length cs. \<exists>msg. holds_message [] msg (dst' ! (fragment + i)) \<and>
      carries tunnelID (follow_block (MessageID block) (fragment + i) (Suc i = length cs) (cs ! i)) msg)"
  using assms
proof (induction cs arbitrary: fragment offset dst g)
  case Nil
  then have "\<not> offset < length (Data block)" by (auto simp: chunks_Cons)
  then show ?case by (subst fragment_loop.simps) simp
next
  case (Cons c cs)
  let ?rest = "drop offset (Data block)" and ?upto = "min (offset + maxBlockBytes - 7) (length (Data block))"
  have rest: "?rest \<noteq> []" using Cons.prems(1) by auto
  then have c: "c = take 996 ?rest" "cs = chunks 996 (drop (offset + 996) (Data block))"
    using Cons.prems(1) by (simp_all add: chunks_Cons add.commute)
  have cut: "c = slice offset ?upto (Data block)" "cs = chunks 996 (drop ?upto (Data block))"
    unfolding c slice_def by (auto simp: tunnel_consts min_def ac_simps)
  have lst: "?upto = length (Data block) \<longleftrightarrow> cs = []"
    unfolding cut(2) by (simp add: chunks_eq_Nil) linarith
  let ?b = "follow_block (MessageID block) fragment (cs = []) c"
  have cl: "c \<noteq> []" "length c \<le> 996" unfolding c using rest by auto
  have "blocks_len [?b] 0 = Inr (7 + length c)" using cl Cons.prems(3,4) by (intro blocks_len_follow) auto
  moreover have "takes_message [] (dst ! fragment)" using Cons.prems(6) [of 0] by simp
  ultimately obtain msg b' g' where enc: "GatewayEncode tunnelID [?b] (dst ! fragment) g = (None, b', g')"
    "holds_message [] msg b'" "carries tunnelID ?b msg" "reader_left g - 1024 \<le> reader_left g'"
    using Cons.prems(2,7) by (elim GatewayEncode_one [rotated 3]) (auto simp: follow_block_def zero_Block_def)
  let ?dst = "dst[fragment := b']"
  have "\<exists>dst' g''. fragment_loop tunnelID block needed (fragment + 1) ?upto ?dst g' = (needed, None, dst', g'') \<and>
    length dst' = length ?dst \<and> (\<forall>i < fragment + 1. dst' ! i = ?dst ! i) \<and>
    (\<forall>i < length cs. \<exists>msg. holds_message [] msg (dst' ! (fragment + 1 + i)) \<and>
      carries tunnelID (follow_block (MessageID block) (fragment + 1 + i) (Suc i = length cs) (cs ! i)) msg)"
    using Cons.prems(2-7) enc(4)
    by (intro Cons.IH [OF cut(2)]) (auto dest: Cons.prems(6) [of "Suc _", simplified])
  then obtain dst' g'' where ih: "fragment_loop tunnelID block needed (fragment + 1) ?upto ?dst g' = (needed, None, dst', g'')"
    "length dst' = length ?dst" "\<And>i. i < fragment + 1 \<Longrightarrow> dst' ! i = ?dst ! i"
    "\<And>i. i < length cs \<Longrightarrow> \<exists>msg. holds_message [] msg (dst' ! (fragment + 1 + i)) \<and>
      carries tunnelID (follow_block (MessageID block) (fragment + 1 + i) (Suc i = length cs) (cs ! i)) msg"
    by blast
  have eq: "fragment_loop tunnelID block needed fragment offset dst g = (needed, None, dst', g'')"
    using Cons.prems(5) rest enc(1) ih(1) cut(1) lst
    by (subst fragment_loop.simps) (simp add: Let_def follow_block_def)
  have msgs: "\<exists>msg. holds_message [] msg (dst' ! (fragment + i)) \<and>
      carries tunnelID (follow_block (MessageID block) (fragment + i) (Suc i = length (c # cs)) ((c # cs) ! i)) msg"
    if "i < length (c # cs)" for i
  proof (cases i)
    case 0
    then show ?thesis using enc(2,3) ih(3) [of fragment] Cons.prems(5) by auto
  next
    case (Suc j)
    then show ?thesis using ih(4) [of j] that by simp
  qed
  show ?case
    using eq ih(2,3) msgs by auto
qed

section \<open>What the gateway sends\<close>

definition sendable :: "Block \<Rightarrow> bool" where
  "sendable b \<longleftrightarrow> \<not> FollowOn b \<and> Delivery b \<le> DeliveryRouter \<and> (Delivery b = DeliveryTunnel \<longrightarrow> TunnelID b \<noteq> 0) \<and>
     length (Gateway b) = 32 \<and> Data b \<noteq> [] \<and> length (Data b) \<le> I2PDMaxPayload"

definition first_room :: "Block \<Rightarrow> nat" where
  "first_room b = maxBlockBytes - (7 + (if Delivery b = DeliveryTunnel then 36 else if Delivery b = DeliveryRouter then 32 else 0))"

definition tunnel_pieces :: "Block \<Rightarrow> bytes list" where
  "tunnel_pieces b =
     (if length (Data b) \<le> first_room b then [Data b]
      else take (first_room b) (Data b) # chunks 996 (drop (first_room b) (Data b)))"

definition piece_block :: "Block \<Rightarrow> u32 \<Rightarrow> nat \<Rightarrow> Block" where
  "piece_block b messageID i =
     (let pieces = tunnel_pieces b in
      if i = 0 then b\<lparr>MessageID := (if length pieces = 1 then MessageID b else messageID), Last := (length pieces = 1),
        Data := pieces ! 0\<rparr>
      else follow_block messageID i (Suc i = length pieces) (pieces ! i))"

lemma first_room_bounds: "960 \<le> first_room b" "first_room b \<le> 996"
  by (auto simp: first_room_def tunnel_consts)

lemma tunnel_pieces_spec:
  assumes "sendable b"
  shows "concat (tunnel_pieces b) = Data b" "1 \<le> length (tunnel_pieces b)" "length (tunnel_pieces b) \<le> 63"
    "[] \<notin> set (tunnel_pieces b)"
    "length (Data b) > first_room b \<Longrightarrow> fragments_needed (first_room b) (length (Data b)) = length (tunnel_pieces b)"
    "length (Data b) > first_room b \<Longrightarrow> 2 \<le> length (tunnel_pieces b)"
proof -
  let ?d = "drop (first_room b) (Data b)"
  note cs = chunks_spec [of 996 ?d, simplified] and room = first_room_bounds [of b]
  have len: "length (Data b) \<le> 62690" "Data b \<noteq> []" using assms by (auto simp: sendable_def i2np_consts)
  show "concat (tunnel_pieces b) = Data b" "1 \<le> length (tunnel_pieces b)" using cs(1) by (auto simp: tunnel_pieces_def)
  have "length (chunks 996 ?d) \<le> 62" unfolding cs(3) using len(1) room(1) by simp
  then show "length (tunnel_pieces b) \<le> 63" by (simp add: tunnel_pieces_def)
  show "[] \<notin> set (tunnel_pieces b)" using cs(2) len(2) room by (auto simp: tunnel_pieces_def list_all_iff)
  show "fragments_needed (first_room b) (length (Data b)) = length (tunnel_pieces b)" if "length (Data b) > first_room b"
    using that cs(3) by (simp add: tunnel_pieces_def fragments_needed_def tunnel_consts)
  show "2 \<le> length (tunnel_pieces b)" if "length (Data b) > first_room b"
    using that by (simp add: tunnel_pieces_def chunks_eq_Nil Suc_le_eq)
qed

lemma firstBlockLen_sendable:
  assumes "sendable b"
  shows "firstBlockLen (b\<lparr>MessageID := i, Last := l, Data := d\<rparr>) fragmented =
    Inr (maxBlockBytes - first_room b - (if fragmented then 0 else 4))"
  using assms by (auto simp: sendable_def firstBlockLen_def first_room_def tunnel_consts)

lemma blocks_len_first:
  assumes "sendable b" "d \<noteq> []" "length d \<le> first_room b"
  shows "\<exists>n. blocks_len [b\<lparr>MessageID := i, Last := l, Data := d\<rparr>] 0 = Inr n"
proof -
  have "\<not> FollowOn b" using assms(1) by (simp add: sendable_def)
  moreover have "maxBlockBytes - first_room b - k + length d \<le> maxBlockBytes" for k
    using assms(3) first_room_bounds [of b] by (simp add: tunnel_consts)
  ultimately show ?thesis
    using assms first_room_bounds [of b] firstBlockLen_sendable [OF assms(1)]
    by (auto simp: blockLen_def not_less)
qed

lemma GatewayFragment_spec:
  assumes "sendable block" "tunnelID \<noteq> 0" "63 \<le> length dst" "list_all (takes_message []) dst" "padding g = Some p" "65536 \<le> length p"
  obtains dst' g' where
    "GatewayFragment tunnelID block dst g = (length (tunnel_pieces block), None, dst', g')"
    "\<And>i. i < length (tunnel_pieces block) \<Longrightarrow> \<exists>msg. holds_message [] msg (dst' ! i) \<and>
      carries tunnelID (piece_block block (fst (fragment_id block g)) i) msg"
proof -
  let ?f = "first_room block" and ?ps = "tunnel_pieces block"
  define mid where "mid = fst (fragment_id block g)"
  note ps = tunnel_pieces_spec [OF assms(1)]
  have guard: "\<not> (FollowOn block \<or> Delivery block > DeliveryRouter \<or> Data block = [] \<or> length (Data block) > I2PDMaxPayload)"
    "length (Gateway block) = 32"
    using assms(1) by (auto simp: sendable_def)
  have fl: "firstBlockLen block True = Inr (maxBlockBytes - ?f)"
    using firstBlockLen_sendable [OF assms(1), where i = "MessageID block" and l = "Last block" and d = "Data block" and fragmented = True] by simp
  have f: "maxBlockBytes - (maxBlockBytes - ?f) = ?f" using first_room_bounds [of block] by (simp add: tunnel_consts)
  have takes: "takes_message [] (dst ! i)" if "i < 63" for i using that assms(3,4) by (simp add: list_all_length)
  show ?thesis
  proof (cases "length (Data block) \<le> ?f")
    case True
    let ?b = "block\<lparr>Last := True\<rparr>"
    have ps1: "?ps = [Data block]" using True by (simp add: tunnel_pieces_def)
    obtain n where "blocks_len [?b] 0 = Inr n"
      using blocks_len_first [OF assms(1) _ True, where i = "MessageID block" and l = True] guard by auto
    then obtain msg b' g' where enc: "GatewayEncode tunnelID [?b] (dst ! 0) g = (None, b', g')" "holds_message [] msg b'"
      "carries tunnelID ?b msg"
      using assms(2,5,6) guard(2) takes [of 0] by (elim GatewayEncode_one [rotated 3]) (auto simp: reader_left_def)
    have "GatewayFragment tunnelID block dst g = (1, None, dst[0 := b'], g')"
      using assms(2,3) guard(1) fl f True enc(1) by (auto simp: GatewayFragment_def)
    moreover have "carries tunnelID (piece_block block mid 0) msg"
      using enc(3) by (simp add: ps1 piece_block_def)
    moreover have "dst[0 := b'] ! 0 = b'" using assms(3) by (intro nth_list_update_eq) linarith
    ultimately show ?thesis using enc(2) ps1 by (intro that) (auto simp: mid_def)
  next
    case False
    let ?cs = "chunks 996 (drop ?f (Data block))"
    have needed: "fragments_needed ?f (length (Data block)) = length ?ps" "length ?ps = Suc (length ?cs)"
      using ps(5) False by (simp_all add: tunnel_pieces_def)
    obtain g2 where id: "fragment_id block g = (mid, None, g2)" "65532 \<le> reader_left g2"
      using assms(5,6) by (cases "MessageID block = 0")
        (auto simp: mid_def fragment_id_def readNonZero_def io_ReadFull_def reader_left_def)
    let ?blk = "block\<lparr>MessageID := mid\<rparr>"
    let ?b = "?blk\<lparr>Last := False, Data := take ?f (Data block)\<rparr>"
    obtain n where "blocks_len [?b] 0 = Inr n"
      using blocks_len_first [OF assms(1), where i = mid and l = False and d = "take ?f (Data block)"] guard(1)
        first_room_bounds [of block] by fastforce
    then obtain msg b' g3 where enc: "GatewayEncode tunnelID [?b] (dst ! 0) g2 = (None, b', g3)" "holds_message [] msg b'"
      "carries tunnelID ?b msg" "reader_left g2 - 1024 \<le> reader_left g3"
      using assms(2) id(2) guard(2) takes [of 0] by (elim GatewayEncode_one [rotated 3]) auto
    have "dst[0 := b'] ! 0 = b'" using assms(3) by (intro nth_list_update_eq) linarith
    have "\<exists>dst' g'. fragment_loop tunnelID ?blk (length ?ps) 1 ?f (dst[0 := b']) g3 = (length ?ps, None, dst', g') \<and>
      length dst' = length (dst[0 := b']) \<and> (\<forall>i < 1. dst' ! i = dst[0 := b'] ! i) \<and>
      (\<forall>i < length ?cs. \<exists>msg. holds_message [] msg (dst' ! (1 + i)) \<and>
        carries tunnelID (follow_block (MessageID ?blk) (1 + i) (Suc i = length ?cs) (?cs ! i)) msg)"
    proof (rule fragment_loop_spec)
      show "takes_message [] (dst[0 := b'] ! (1 + i))" if "i < length ?cs" for i
        using takes [of "Suc i"] that ps(3) needed(2) by simp
      show "1024 * length ?cs \<le> reader_left g3" using id(2) enc(4) ps(3) needed(2) by linarith
    qed (use assms(2,3) ps(3) needed(2) in simp_all)
    then obtain dst' g' where loop: "fragment_loop tunnelID ?blk (length ?ps) 1 ?f (dst[0 := b']) g3 = (length ?ps, None, dst', g')"
      "dst' ! 0 = b'" "\<And>i. i < length ?cs \<Longrightarrow> \<exists>msg. holds_message [] msg (dst' ! (1 + i)) \<and>
        carries tunnelID (follow_block mid (1 + i) (Suc i = length ?cs) (?cs ! i)) msg"
      using \<open>dst[0 := b'] ! 0 = b'\<close> by (elim exE conjE) simp
    have eq: "GatewayFragment tunnelID block dst g = (length ?ps, None, dst', g')"
      using assms(2,3) guard(1) fl f False needed(1) ps(3) id(1) enc(1) loop(1) by (auto simp: GatewayFragment_def Let_def)
    have "\<exists>msg. holds_message [] msg (dst' ! i) \<and> carries tunnelID (piece_block block mid i) msg" if "i < length ?ps" for i
    proof (cases i)
      case 0
      then have "piece_block block mid i = ?b" using False ps(6) by (simp add: piece_block_def tunnel_pieces_def chunks_eq_Nil)
      then show ?thesis using 0 enc(2,3) loop(2) by auto
    next
      case (Suc j)
      then have "piece_block block mid i = follow_block mid (1 + j) (Suc j = length ?cs) (?cs ! j)"
        using False by (simp add: piece_block_def tunnel_pieces_def)
      then show ?thesis using Suc loop(3) [of j] that needed(2) by simp
    qed
    then show ?thesis by (rule that [OF eq, folded mid_def])
  qed
qed

section \<open>What the endpoint delivers\<close>

text \<open>The endpoint holds exactly the pieces in \<open>S\<close> of the message, and its delivery fields once the first has come.\<close>

definition collecting :: "Block \<Rightarrow> u32 \<Rightarrow> nat set \<Rightarrow> Endpoint \<Rightarrow> bool" where
  "collecting b messageID S e \<longleftrightarrow>
     reasm_ok (reasm e) \<and> int (length (Data b)) \<le> maxMessage (reasm e) \<and> progress messageID (tunnel_pieces b) S (reasm e) \<and>
     map_option mblock (map_of (meta e) messageID) =
       (if 0 \<in> S then Some ((block_view (piece_block b messageID 0))\<lparr>Data := []\<rparr>) else None)"

definition delivered_as :: "Block \<Rightarrow> Block \<Rightarrow> bool" where
  "delivered_as b d \<longleftrightarrow> Delivery d = Delivery b \<and> Data d = Data b \<and> Last d \<and> \<not> FollowOn d \<and>
     (Delivery b = DeliveryTunnel \<longrightarrow> TunnelID d = TunnelID b) \<and>
     (Delivery b \<noteq> DeliveryLocal \<longrightarrow> Gateway d = Gateway b)"

lemma first_fragment:
  fixes b :: Block and messageID :: u32
  assumes "2 \<le> length (tunnel_pieces b)" "sendable b"
  defines "v \<equiv> block_view (piece_block b messageID 0)"
  shows "\<not> FollowOn v" "\<not> Last v" "MessageID v = messageID" "Data v = tunnel_pieces b ! 0"
    "delivered_as b (v\<lparr>Data := Data b, Last := True\<rparr>)"
  using assms(1,2) by (auto simp: v_def block_view_def piece_block_def Let_def sendable_def delivered_as_def zero_Block_def)

lemma later_fragment:
  fixes b :: Block and messageID :: u32
  assumes "0 < i"
  defines "v \<equiv> block_view (piece_block b messageID i)"
  shows "FollowOn v" "MessageID v = messageID" "Fragment v = of_nat i" "Last v \<longleftrightarrow> Suc i = length (tunnel_pieces b)"
    "Data v = tunnel_pieces b ! i"
  using assms(1) by (simp_all add: v_def block_view_def piece_block_def follow_block_def zero_Block_def Let_def)

lemma cuttable_pieces: "sendable b \<Longrightarrow> int (length (Data b)) \<le> limit \<Longrightarrow> cuttable limit (tunnel_pieces b)"
  using tunnel_pieces_spec [of b] by (auto simp: cuttable_def)

lemma remember_new:
  assumes "map_of (meta e) (MessageID v) = None"
  shows "\<exists>m. remember ch v now e = (None, e\<lparr>meta := m\<rparr>) \<and> map_option mblock (map_of m (MessageID v)) = Some (v\<lparr>Data := []\<rparr>)"
  using assms by (auto simp: remember_def Let_def update_conv')

text \<open>One piece arrives: nothing is delivered, or the whole message is.\<close>

lemma append_piece:
  assumes b: "sendable b" "2 \<le> length (tunnel_pieces b)"
    and col: "collecting b messageID S e" "S \<subseteq> {..<length (tunnel_pieces b)}" "i < length (tunnel_pieces b)" "i \<notin> S"
    and env: "visits_all (entry_order ch)" "now \<noteq> NOT 0" "out \<noteq> []"
  shows "\<exists>n out' e'. appendFragmentedBlockLocked ch (block_view (piece_block b messageID i)) out 0 now e = ((n, None), out', e') \<and>
    (if insert i S = {..<length (tunnel_pieces b)} then \<exists>d. take n out' = [d] \<and> delivered_as b d
     else n = 0 \<and> collecting b messageID (insert i S) e')"
proof -
  let ?ps = "tunnel_pieces b" and ?v = "block_view (piece_block b messageID i)" and ?first = "block_view (piece_block b messageID 0)"
  have ok: "reasm_ok (reasm e)" "int (length (Data b)) \<le> maxMessage (reasm e)" "progress messageID ?ps S (reasm e)"
    using col(1) by (auto simp: collecting_def)
  obtain res r where add: "reasm_Add (entry_order ch) (slab_pick ch) (piece_frag messageID ?ps i) now (reasm e) = (res, r)"
    by (rule prod.exhaust)
  note step = reasm_Add_piece [OF ok(1) env(1,2) cuttable_pieces [OF b(1) ok(2)] col(2-4) ok(3) add]
  note keep = reasm_Add_ok [OF ok(1) env(1,2) add]
  note concat = tunnel_pieces_spec(1) [OF b(1)]
  have deliver: "\<exists>n out' e'. deliver messageID (?first\<lparr>Data := []\<rparr>) (Data b) out 0 e1 = ((n, None), out', e') \<and>
      (\<exists>d. take n out' = [d] \<and> delivered_as b d)" for e1
    using env(3) first_fragment(5) [OF b(2,1), of messageID] by (cases out) (auto simp: deliver_def)
  show ?thesis
  proof (cases "i = 0")
    case iz: True
    note v = first_fragment [OF b(2,1), of messageID]
    have frag: "\<lparr>fMessageID = MessageID ?v, fNumber = 0, fLast = False, fData = Data ?v\<rparr> = piece_frag messageID ?ps i"
      using v b(2) iz by (simp add: piece_frag_def)
    have "map_of (meta e) (MessageID ?v) = None" using col(1,4) iz v(3) by (simp add: collecting_def)
    from remember_new [OF this, of ch now] obtain m where
      m: "remember ch ?v now e = (None, e\<lparr>meta := m\<rparr>)" "map_option mblock (map_of m messageID) = Some (?first\<lparr>Data := []\<rparr>)"
      using v(3) iz by auto
    then obtain mm where mm: "map_of m messageID = Some mm" "mblock mm = ?first\<lparr>Data := []\<rparr>" by auto
    show ?thesis
    proof (cases "insert i S = {..<length ?ps}")
      case full: True
      then have "appendFragmentedBlockLocked ch ?v out 0 now e = deliver messageID (?first\<lparr>Data := []\<rparr>) (Data b) out 0 (e\<lparr>meta := m, reasm := r\<rparr>)"
        using v iz step frag add m mm concat by (simp add: appendFragmentedBlockLocked_def)
      then show ?thesis using deliver [of "e\<lparr>meta := m, reasm := r\<rparr>"] full iz by simp
    next
      case part: False
      then have "appendFragmentedBlockLocked ch ?v out 0 now e = ((0, None), out, e\<lparr>meta := m, reasm := r\<rparr>)"
        using v iz step frag add m by (simp add: appendFragmentedBlockLocked_def)
      moreover have "collecting b messageID (insert i S) (e\<lparr>meta := m, reasm := r\<rparr>)"
        using part step keep ok(2) m(2) iz by (simp add: collecting_def)
      ultimately show ?thesis using part by (intro exI conjI) auto
    qed
  next
    case False
    note v = later_fragment [of i b messageID]
    have "unat (of_nat i :: u8) = i" using col(3) tunnel_pieces_spec(3) [OF b(1)] by simp
    then have nz: "(of_nat i :: u8) \<noteq> 0" using False by (metis unat_0)
    have frag: "\<lparr>fMessageID = MessageID ?v, fNumber = Fragment ?v, fLast = Last ?v, fData = Data ?v\<rparr> = piece_frag messageID ?ps i"
      using v False by (simp add: piece_frag_def)
    show ?thesis
    proof (cases "insert i S = {..<length ?ps}")
      case full: True
      then have "0 \<in> S" using False b(2) by (metis insertE lessThan_iff not_numeral_le_zero gr0I)
      then obtain mm where mm: "map_of (meta e) messageID = Some mm" "mblock mm = ?first\<lparr>Data := []\<rparr>"
        using col(1) by (auto simp: collecting_def)
      then have "appendFragmentedBlockLocked ch ?v out 0 now e = deliver messageID (?first\<lparr>Data := []\<rparr>) (Data b) out 0 (e\<lparr>reasm := r\<rparr>)"
        using v False full nz step frag add concat by (simp add: appendFragmentedBlockLocked_def)
      then show ?thesis using deliver [of "e\<lparr>reasm := r\<rparr>"] full by simp
    next
      case part: False
      then have "appendFragmentedBlockLocked ch ?v out 0 now e = ((0, None), out, e\<lparr>reasm := r\<rparr>)"
        using v False nz step frag add by (simp add: appendFragmentedBlockLocked_def)
      moreover have "collecting b messageID (insert i S) (e\<lparr>reasm := r\<rparr>)"
        using part step keep ok(2) col(1) False by (simp add: collecting_def)
      ultimately show ?thesis using part by (intro exI conjI) auto
    qed
  qed
qed

section \<open>From gateway to endpoint\<close>

text \<open>The endpoint works off messages one after another; each result is the deliveries and the error.\<close>

fun endpoint_run ::
  "Block list \<Rightarrow> (bytes \<times> (nat \<Rightarrow> choices) \<times> u64) list \<Rightarrow> Endpoint \<Rightarrow> (Block list \<times> error option) list" where
  "endpoint_run out [] e = []"
| "endpoint_run out ((msg, ch, now) # ms) e =
     (case EndpointParse ch msg out now e of
        ((n, err), out', e') \<Rightarrow> (take n out', err) # endpoint_run out ms e')"

definition buffer_message :: "Buffer option \<Rightarrow> bytes" where
  "buffer_message dst = (case dst of None \<Rightarrow> [] | Some b \<Rightarrow> (case BufferBytes b of None \<Rightarrow> [] | Some bs \<Rightarrow> bs))"

lemma buffer_message_holds: "holds_message [] msg dst \<Longrightarrow> buffer_message dst = msg"
  by (auto simp: holds_message_def buffer_message_def)

lemma EndpointParse_carries:
  "carries tunnelID b msg \<Longrightarrow> tunnelID \<noteq> 0 \<Longrightarrow>
   EndpointParse ch msg out now e = appendFragmentedBlockLocked (ch 0) (block_view b) out 0 now e"
  by (auto simp: carries_def EndpointParse_message parse_single)

definition arrival_ok :: "(nat \<Rightarrow> choices) \<Rightarrow> u64 \<Rightarrow> bool" where
  "arrival_ok ch now \<longleftrightarrow> now \<noteq> NOT 0 \<and> (\<forall>k. visits_all (entry_order (ch k)) \<and> visits_all (meta_order (ch k)))"

lemma endpoint_run_pieces:
  assumes b: "sendable b" "2 \<le> length (tunnel_pieces b)" "tunnelID \<noteq> 0" "out \<noteq> []"
    and msgs: "\<And>i. i < length (tunnel_pieces b) \<Longrightarrow> carries tunnelID (piece_block b messageID i) (msg i)"
    and "list_all (\<lambda>(i, ch, now). arrival_ok ch now) arr" "arr \<noteq> []" "collecting b messageID S e"
    and "S \<inter> set (map fst arr) = {}" "S \<union> set (map fst arr) = {..<length (tunnel_pieces b)}" "distinct (map fst arr)"
  shows "\<exists>d. delivered_as b d \<and> endpoint_run out (map (\<lambda>(i, ch, now). (msg i, ch, now)) arr) e =
    replicate (length arr - 1) ([], None) @ [([d], None)]"
  using assms(6-)
proof (induction arr arbitrary: S e)
  case (Cons a arr)
  obtain i ch now where a: "a = (i, ch, now)" by (rule prod_cases3)
  have i: "i < length (tunnel_pieces b)" "i \<notin> S" "S \<subseteq> {..<length (tunnel_pieces b)}" using Cons.prems(4,5) a by auto
  have env: "visits_all (entry_order (ch 0))" "now \<noteq> NOT 0" using Cons.prems(1) a by (auto simp: arrival_ok_def)
  from append_piece [OF b(1,2) Cons.prems(3) i(3,1,2) env b(4)] obtain n out' e' where
    r: "EndpointParse ch (msg i) out now e = ((n, None), out', e')"
      "if insert i S = {..<length (tunnel_pieces b)} then \<exists>d. take n out' = [d] \<and> delivered_as b d
       else n = 0 \<and> collecting b messageID (insert i S) e'"
    using EndpointParse_carries [OF msgs [OF i(1)] b(3)] by metis
  show ?case
  proof (cases "arr = []")
    case True
    then have "insert i S = {..<length (tunnel_pieces b)}" using Cons.prems(5) a by simp
    then show ?thesis using r True a by auto
  next
    case False
    then obtain j where "j \<in> set (map fst arr)" by (cases arr) auto
    then have "j \<notin> insert i S" "j \<in> {..<length (tunnel_pieces b)}" using Cons.prems(4-6) a by auto
    then have "insert i S \<noteq> {..<length (tunnel_pieces b)}" by blast
    then have r': "n = 0" "collecting b messageID (insert i S) e'" using r(2) by auto
    obtain d where "delivered_as b d" "endpoint_run out (map (\<lambda>(i, ch, now). (msg i, ch, now)) arr) e' =
        replicate (length arr - 1) ([], None) @ [([d], None)]"
      using Cons.IH [of "insert i S" e'] Cons.prems a False r'(2) by auto
    moreover have "replicate (length arr) x = x # replicate (length arr - 1) x" for x :: "Block list \<times> error option"
      using False by (cases arr) auto
    ultimately show ?thesis using r(1) r'(1) a by auto
  qed
qed simp

section \<open>Bounds of the endpoint\<close>

definition endpoint_ok :: "Endpoint \<Rightarrow> bool" where
  "endpoint_ok e \<longleftrightarrow>
     reasm_ok (reasm e) \<and> distinct (map fst (meta e)) \<and> 0 < maxMeta e \<and> int (length (meta e)) \<le> maxMeta e \<and>
     (\<forall>p \<in> set (meta e). mcreated (snd p) \<noteq> NOT 0)"

text \<open>What every operation of the endpoint keeps: the invariant, the limits and the leases of others.\<close>

definition endpoint_keeps :: "Endpoint \<Rightarrow> Endpoint \<Rightarrow> bool" where
  "endpoint_keeps e e' \<longleftrightarrow> endpoint_ok e' \<and> maxMeta e' = maxMeta e \<and> maxMessage (reasm e') = maxMessage (reasm e) \<and>
     maxEntries (reasm e') = maxEntries (reasm e) \<and> foreign_live (reasm e') = foreign_live (reasm e)"

lemma endpoint_keeps_refl: "endpoint_ok e \<Longrightarrow> endpoint_keeps e e"
  by (simp add: endpoint_keeps_def)

lemma endpoint_keeps_trans: "endpoint_keeps e e' \<Longrightarrow> endpoint_keeps e' e'' \<Longrightarrow> endpoint_keeps e e''"
  by (simp add: endpoint_keeps_def)

lemma set_AList_update: "p \<in> set (AList.update k v xs) \<Longrightarrow> p = (k, v) \<or> p \<in> set xs"
  by (induction xs) (auto split: if_splits)

lemma set_AList_delete: "p \<in> set (AList.delete k xs) \<Longrightarrow> p \<in> set xs"
  by (auto simp: AList.delete_eq)

lemma length_AList_update_le: "length (AList.update k v xs) \<le> Suc (length xs)"
  by (induction xs) auto

lemma endpoint_keeps_delete:
  assumes "endpoint_ok e"
  shows "endpoint_keeps e (e\<lparr>meta := AList.delete k (meta e)\<rparr>)"
  using assms length_delete_le [of k "meta e"] distinct_delete [of "meta e" k]
  by (auto simp: endpoint_keeps_def endpoint_ok_def dest: set_AList_delete)

lemma endpoint_keeps_reasm:
  assumes "endpoint_ok e" "visits_all order" "now \<noteq> NOT 0" "reasm_Add order pick f now (reasm e) = (res, r)"
  shows "endpoint_keeps e (e\<lparr>reasm := r\<rparr>)"
  using assms(1) reasm_Add_ok [OF _ assms(2-4)] by (auto simp: endpoint_keeps_def endpoint_ok_def)

lemma endpoint_keeps_remember:
  assumes "endpoint_ok e" "visits_all (meta_order ch)" "now \<noteq> NOT 0" "remember ch v now e = (err, e')"
  shows "endpoint_keeps e e'"
proof (cases "map_of (meta e) (MessageID v)")
  case (Some prior)
  then have mem: "(MessageID v, prior) \<in> set (meta e)" by (rule map_of_SomeD)
  then have len: "length (AList.update (MessageID v) prior (meta e)) = length (meta e)"
    by (intro length_AList_update) (rule rev_image_eqI, auto)
  have "p \<in> set (AList.update (MessageID v) prior (meta e)) \<Longrightarrow> p \<in> set (meta e)" for p
    using mem by (auto dest: set_AList_update)
  then have "endpoint_keeps e (e\<lparr>meta := AList.update (MessageID v) prior (meta e)\<rparr>)"
    using assms(1) len by (auto simp: endpoint_keeps_def endpoint_ok_def distinct_update)
  then show ?thesis
    using assms(1,4) Some by (auto simp: remember_def endpoint_keeps_refl split: if_splits)
next
  case None
  let ?m = "if int (length (meta e)) = maxMeta e then drop_oldest (meta_order ch) mcreated (meta e) else meta e"
  let ?item = "\<lparr>mblock = v\<lparr>Data := []\<rparr>, mcreated = now\<rparr>"
  have e': "e' = e\<lparr>meta := AList.update (MessageID v) ?item ?m\<rparr>" using assms(4) None by (simp add: remember_def Let_def)
  have "distinct (map fst ?m) \<and> set ?m \<subseteq> set (meta e) \<and> int (length ?m) < maxMeta e"
  proof (cases "int (length (meta e)) = maxMeta e")
    case True
    then have "meta e \<noteq> []" using assms(1) by (auto simp: endpoint_ok_def)
    then obtain k0 m0 where p: "(k0, m0) \<in> set (meta e)" by (cases "meta e") auto
    have "mcreated m0 \<noteq> NOT 0" "distinct (map fst (meta e))" using assms(1) p by (auto simp: endpoint_ok_def)
    then obtain k' where "drop_oldest (meta_order ch) mcreated (meta e) = AList.delete k' (meta e)"
      "length (drop_oldest (meta_order ch) mcreated (meta e)) = length (meta e) - 1"
      using drop_oldest_spec [OF assms(2) _ p] by blast
    then show ?thesis
      using True \<open>meta e \<noteq> []\<close> assms(1) distinct_drop_oldest [of "meta e" "meta_order ch" mcreated]
      by (auto simp: endpoint_ok_def dest: set_AList_delete)
  qed (use assms(1) in \<open>auto simp: endpoint_ok_def\<close>)
  moreover have "length (AList.update (MessageID v) ?item ?m) \<le> Suc (length ?m)" by (rule length_AList_update_le)
  ultimately show ?thesis
    using assms(1,3) unfolding e' endpoint_keeps_def endpoint_ok_def
    by (auto simp: distinct_update dest!: set_AList_update)
qed

text \<open>Whatever bytes arrive: the loops keep the invariant.\<close>

lemma endpoint_keeps_deliver:
  "endpoint_ok e \<Longrightarrow> deliver k b complete out n e = (res, out', e') \<Longrightarrow> endpoint_keeps e e'"
  by (auto simp: deliver_def endpoint_keeps_refl endpoint_keeps_delete split: if_splits)

lemma endpoint_keeps_append:
  assumes "endpoint_ok e" "visits_all (entry_order ch)" "visits_all (meta_order ch)" "now \<noteq> NOT 0"
    and "appendFragmentedBlockLocked ch block out n now e = (res, out', e')"
  shows "endpoint_keeps e e'"
proof -
  have add: "endpoint_keeps e (e1\<lparr>reasm := r\<rparr>)"
    if "endpoint_keeps e e1" "reasm_Add (entry_order ch) (slab_pick ch) f now (reasm e1) = (res, r)" for e1 f res r
    using that endpoint_keeps_reasm [OF _ assms(2,4) that(2)] by (meson endpoint_keeps_def endpoint_keeps_trans)
  have del: "endpoint_keeps e e2" if "endpoint_keeps e e1" "deliver k b c out n e1 = (res, out', e2)" for e1 e2 k b c res out'
    using that endpoint_keeps_deliver [of e1] by (meson endpoint_keeps_def endpoint_keeps_trans)
  show ?thesis
  proof (cases "FollowOn block")
    case True
    then show ?thesis
      using assms(1,5)
      by (auto simp: appendFragmentedBlockLocked_def Let_def intro: endpoint_keeps_refl del [rotated] add
          split: if_splits prod.splits sum.splits option.splits)
  next
    case False
    obtain err e1 where rem: "remember ch block now e = (err, e1)" by (rule prod.exhaust)
    note k1 = endpoint_keeps_remember [OF assms(1,3,4) rem]
    show ?thesis
      using assms(1,5) False rem k1
      by (auto simp: appendFragmentedBlockLocked_def Let_def intro: endpoint_keeps_refl del [rotated] add
          split: if_splits prod.splits sum.splits option.splits)
  qed
qed

lemma endpoint_keeps_parseFragmented:
  assumes "endpoint_ok e" "arrival_ok ch now" "parseFragmented ch k block rest out n now e = (res, out', e')"
  shows "endpoint_keeps e e'"
  using assms(1,3)
proof (induction "length rest" arbitrary: k block rest out n e rule: less_induct)
  case less
  obtain n1 err out1 e1 where ap: "appendFragmentedBlockLocked (ch k) block out n now e = ((n1, err), out1, e1)"
    by (metis prod.exhaust)
  have k1: "endpoint_keeps e e1"
    using less.prems(1) assms(2) by (intro endpoint_keeps_append [OF _ _ _ _ ap]) (auto simp: arrival_ok_def)
  then have ok1: "endpoint_ok e1" by (simp add: endpoint_keeps_def)
  show ?case
  proof (cases "\<exists>b r. err = None \<and> BlockNext rest = Inr (Some (b, r))")
    case True
    then obtain b r where br: "err = None" "BlockNext rest = Inr (Some (b, r))" by blast
    then have "parseFragmented ch (k + 1) b r out1 n1 now e1 = (res, out', e')"
      using less.prems(2) by (subst (asm) parseFragmented.simps) (simp add: ap)
    from less.hyps [OF BlockNext_shrinks [OF br(2)] ok1 this] show ?thesis using k1 endpoint_keeps_trans by blast
  next
    case False
    then have "e' = e1" using less.prems(2)
      by (subst (asm) parseFragmented.simps) (auto simp: ap split: option.splits sum.splits)
    then show ?thesis using k1 by simp
  qed
qed

lemma endpoint_keeps_loop:
  assumes "endpoint_ok e" "arrival_ok ch now" "endpoint_loop ch rest out n now e = (res, out', e')"
  shows "endpoint_keeps e e'"
  using assms(3)
proof (induction "length rest" arbitrary: rest out n rule: less_induct)
  case less
  show ?case
  proof (cases "\<exists>b r. BlockNext rest = Inr (Some (b, r))")
    case True
    then obtain b r where br: "BlockNext rest = Inr (Some (b, r))" by blast
    note eq = less.prems [unfolded endpoint_loop.simps [of ch rest], simplified br, simplified]
    show ?thesis
    proof (cases "\<not> FollowOn b \<and> Last b")
      case True
      then show ?thesis using eq less.hyps [OF BlockNext_shrinks [OF br]] assms(1)
        by (auto intro: endpoint_keeps_refl split: if_splits)
    next
      case False
      then show ?thesis using eq endpoint_keeps_parseFragmented [OF assms(1,2)] by (auto split: if_splits)
    qed
  next
    case False
    then have "e' = e" using less.prems by (subst (asm) endpoint_loop.simps) (auto split: sum.splits option.splits)
    then show ?thesis using assms(1) by (simp add: endpoint_keeps_refl)
  qed
qed

lemma EndpointParse_keeps:
  assumes "endpoint_ok e" "arrival_ok ch now" "EndpointParse ch payload out now e = (res, out', e')"
  shows "endpoint_keeps e e'"
  using assms endpoint_keeps_loop [OF assms(1,2)]
  by (auto simp: EndpointParse_def Let_def endpoint_keeps_refl split: sum.splits if_splits)

lemma EndpointExpire_keeps:
  assumes "endpoint_ok e" "visits_all (entry_order ch)" "EndpointExpire ch cutoff e = (k, e')"
  shows "endpoint_keeps e e'"
proof -
  let ?f = "\<lambda>(removed, e) (k, item). if mcreated item \<le> cutoff
    then (removed + 1, e\<lparr>meta := AList.delete k (meta e)\<rparr>) else (removed, e)"
  have fold: "endpoint_keeps e0 e2" if "foldl ?f (j, e1) xs = (k, e2)" "endpoint_keeps e0 e1" for e0 e1 e2 j k xs
    using that
  proof (induction xs arbitrary: j e1)
    case (Cons x xs)
    obtain i item where x: "x = (i, item)" by (rule prod.exhaust)
    have "endpoint_keeps e0 (e1\<lparr>meta := AList.delete i (meta e1)\<rparr>)"
      using Cons.prems(2) endpoint_keeps_delete [of e1 i] by (meson endpoint_keeps_def endpoint_keeps_trans)
    then show ?case using Cons x by (auto split: if_splits)
  qed simp
  obtain j r where r: "reasm_Expire (entry_order ch) cutoff (reasm e) = (j, r)" by (rule prod.exhaust)
  then have "endpoint_keeps e (e\<lparr>reasm := r\<rparr>)"
    using assms(1) reasm_Expire_spec [OF _ assms(2) r] by (auto simp: endpoint_keeps_def endpoint_ok_def)
  then show ?thesis using assms(3) fold unfolding EndpointExpire_def r by auto
qed

datatype endpoint_act =
    ActParse "nat \<Rightarrow> choices" bytes "Block list" u64
  | ActEndpointExpire choices u64

fun endpoint_step :: "endpoint_act \<Rightarrow> Endpoint \<Rightarrow> Endpoint" where
  "endpoint_step (ActParse ch payload out now) e = snd (snd (EndpointParse ch payload out now e))"
| "endpoint_step (ActEndpointExpire ch cutoff) e = snd (EndpointExpire ch cutoff e)"

fun endpoint_act_ok :: "endpoint_act \<Rightarrow> bool" where
  "endpoint_act_ok (ActParse ch payload out now) = arrival_ok ch now"
| "endpoint_act_ok (ActEndpointExpire ch cutoff) = visits_all (entry_order ch)"

lemma endpoint_steps_keep:
  assumes "endpoint_ok e" "list_all endpoint_act_ok acts"
  shows "endpoint_keeps e (foldl (\<lambda>e act. endpoint_step act e) e acts)"
  using assms
proof (induction acts arbitrary: e)
  case (Cons act acts)
  have "endpoint_keeps e (endpoint_step act e)"
    using Cons.prems EndpointParse_keeps [of e] EndpointExpire_keeps [of e]
    by (cases act) (auto, (metis prod.collapse)+)
  then show ?case using Cons endpoint_keeps_trans by (fastforce simp: endpoint_keeps_def)
qed (simp add: endpoint_keeps_refl)

lemma endpoint_ok_New: "slab_ok st \<Longrightarrow> endpoint_ok (NewEndpoint maxE maxM st)"
  by (auto simp: endpoint_ok_def NewEndpoint_def Let_def reasm_ok_New)

section \<open>Properties\<close>

text \<open>
  C1. A tunnel delivers what was sent. For every sendable block, \<open>Gateway.Fragment\<close> succeeds with at most 63
  messages when it has the buffers and the entropy; handed to an endpoint in any order, these messages give
  no error, nothing is delivered before the last of them, and then exactly one delivery with the data and
  the target of the original block appears.
\<close>

theorem tunnel_end_to_end:
  assumes "sendable block" "tunnelID \<noteq> 0" "63 \<le> length dst" "list_all (takes_message []) dst" "padding g = Some p" "65536 \<le> length p"
    and "reasm_ok (reasm e)" "int (length (Data block)) \<le> maxMessage (reasm e)" "out \<noteq> []"
    and "map_of (entries (reasm e)) (fst (fragment_id block g)) = None" "map_of (meta e) (fst (fragment_id block g)) = None"
    and "list_all (\<lambda>(i, ch, now). arrival_ok ch now) arr" "distinct (map fst arr)" "set (map fst arr) = {..<length (tunnel_pieces block)}"
  shows "\<exists>n dst' g' d. GatewayFragment tunnelID block dst g = (n, None, dst', g') \<and> 1 \<le> n \<and> n \<le> 63 \<and> delivered_as block d \<and>
    endpoint_run out (map (\<lambda>(i, ch, now). (buffer_message (dst' ! i), ch, now)) arr) e = replicate (n - 1) ([], None) @ [([d], None)]"
proof -
  let ?ps = "tunnel_pieces block" and ?id = "fst (fragment_id block g)"
  note ps = tunnel_pieces_spec [OF assms(1)]
  obtain dst' g' where frag: "GatewayFragment tunnelID block dst g = (length ?ps, None, dst', g')"
    "\<And>i. i < length ?ps \<Longrightarrow> \<exists>msg. holds_message [] msg (dst' ! i) \<and> carries tunnelID (piece_block block ?id i) msg"
    by (rule GatewayFragment_spec [OF assms(1-6)]) (rule that)
  have msgs: "carries tunnelID (piece_block block ?id i) (buffer_message (dst' ! i))" if "i < length ?ps" for i
    using frag(2) [OF that] buffer_message_holds by metis
  have len: "length arr = length ?ps" using distinct_card [OF assms(13)] assms(14) by simp
  have ne: "arr \<noteq> []" using len ps(2) by auto
  have "\<exists>d. delivered_as block d \<and> endpoint_run out (map (\<lambda>(i, ch, now). (buffer_message (dst' ! i), ch, now)) arr) e =
      replicate (length arr - 1) ([], None) @ [([d], None)]"
  proof (cases "2 \<le> length ?ps")
    case True
    have "collecting block ?id {} e" using assms(7,8,10,11) by (simp add: collecting_def progress_def)
    then show ?thesis
      using endpoint_run_pieces [OF assms(1) True assms(2,9) msgs assms(12) ne, of "{}"] assms(13,14) by simp
  next
    case False
    then have "\<not> length (Data block) > first_room block" using ps(6) by blast
    then have one: "?ps = [Data block]" "length arr = 1" using len by (simp_all add: tunnel_pieces_def)
    then obtain ch now where arr: "arr = [(0, ch, now)]" using assms(14) one by (cases arr) (auto simp: lessThan_Suc)
    have v: "block_view (piece_block block ?id 0) = block_view (block\<lparr>Last := True\<rparr>)"
      by (simp add: piece_block_def one(1))
    have "EndpointParse ch (buffer_message (dst' ! 0)) out now e = ((1, None), out[0 := block_view (block\<lparr>Last := True\<rparr>)], e)"
      using EndpointParse_carries [OF msgs assms(2), of 0] one(1) assms(1,9) v
      by (simp add: appendFragmentedBlockLocked_def block_view_def sendable_def zero_Block_def)
    moreover have "delivered_as block (block_view (block\<lparr>Last := True\<rparr>))"
      using assms(1) by (auto simp: delivered_as_def block_view_def sendable_def zero_Block_def)
    ultimately show ?thesis using assms(9) arr by (cases out) auto
  qed
  then show ?thesis using frag(1) ps(2,3) len by auto
qed

definition sample_choices :: "nat \<Rightarrow> choices" where
  "sample_choices k = \<lparr>entry_order = (\<lambda>xs. xs), meta_order = (\<lambda>xs. xs), slab_pick = None\<rparr>"

definition sample_block :: Block where
  "sample_block = zero_Block\<lparr>Delivery := 1, Gateway := replicate 32 5, TunnelID := 6, MessageID := 9, Data := replicate 1500 7\<rparr>"

definition sample_buffer :: Buffer where
  "sample_buffer = \<lparr>buf = replicate 1028 0, blease = None, reserved = 0, bstart = 0, bend = 0, blimit = 1028, breleased = False\<rparr>"

theorem tunnel_end_to_end_witness:
  "\<exists>dst' g' d. GatewayFragment 3 sample_block (replicate 63 (Some sample_buffer)) (NewGateway (Some (replicate 65536 0)) [])
      = (2, None, dst', g') \<and> delivered_as sample_block d \<and>
    endpoint_run [zero_Block] (map (\<lambda>(i, ch, now). (buffer_message (dst' ! i), ch, now)) [(1, sample_choices, 10), (0, sample_choices, 11)])
      (NewEndpoint 4 5000 slab_init) = [([], None), ([d], None)]"
proof -
  let ?g = "NewGateway (Some (replicate 65536 0)) []" and ?e = "NewEndpoint 4 5000 slab_init" and ?dst = "replicate 63 (Some sample_buffer)"
  let ?arr = "[(1 :: nat, sample_choices, 10 :: u64), (0, sample_choices, 11)]"
  have ps: "length (tunnel_pieces sample_block) = 2"
    by (simp add: tunnel_pieces_def sample_block_def zero_Block_def first_room_def tunnel_consts chunks_spec(3))
  have "takes_message [] (Some sample_buffer)"
    by (simp add: takes_message_def sample_buffer_def buffer_ok_def buffer_live_def BufferBytes_def AvailablePayload_def tunnel_consts)
  then have dst: "list_all (takes_message []) ?dst" by (simp add: list_all_iff)
  have b: "sendable sample_block" by (simp add: sendable_def sample_block_def zero_Block_def i2np_consts)
  have e: "reasm_ok (reasm ?e)" "int (length (Data sample_block)) \<le> maxMessage (reasm ?e)" "map_of (entries (reasm ?e)) k = None"
    "map_of (meta ?e) k = None" for k
    using endpoint_ok_New [OF slab_ok_init, of 4 5000]
    by (auto simp: endpoint_ok_def NewEndpoint_def NewReassembler_def sample_block_def)
  have arr: "list_all (\<lambda>(i, ch, now). arrival_ok ch now) ?arr" by (simp add: arrival_ok_def sample_choices_def)
  have perm: "set (map fst ?arr) = {..<length (tunnel_pieces sample_block)}" unfolding ps by auto
  have g: "padding ?g = Some (replicate 65536 0)" "65536 \<le> length (replicate 65536 (0 :: u8))" by (simp_all add: NewGateway_def)
  obtain dst0 g0 where f: "GatewayFragment 3 sample_block ?dst ?g = (2, None, dst0, g0)"
    by (rule GatewayFragment_spec [OF b _ _ dst g, of 3]) (auto simp: ps)
  have "\<exists>n dst' g' d. GatewayFragment 3 sample_block ?dst ?g = (n, None, dst', g') \<and> 1 \<le> n \<and> n \<le> 63 \<and> delivered_as sample_block d \<and>
    endpoint_run [zero_Block] (map (\<lambda>(i, ch, now). (buffer_message (dst' ! i), ch, now)) ?arr) ?e = replicate (n - 1) ([], None) @ [([d], None)]"
    by (rule tunnel_end_to_end [OF b _ _ dst g e(1,2) _ e(3,4) arr _ perm]) simp_all
  then show ?thesis unfolding f by (elim exE conjE) (intro exI conjI, auto)
qed

text \<open>
  The endpoint is bounded whatever arrives: after any sequence of parsed payloads (arbitrary bytes) and
  expiries, the retained delivery fields and partial messages stay within the configured limits, and the
  leases of all other users of the slab pool are untouched.
\<close>

theorem endpoint_bounded:
  fixes maxE maxM :: int
  assumes "slab_ok st" "list_all endpoint_act_ok acts"
  defines "e \<equiv> foldl (\<lambda>e act. endpoint_step act e) (NewEndpoint maxE maxM st) acts"
  shows "int (length (meta e)) \<le> (if maxE \<le> 0 then 128 else maxE) \<and>
    int (length (entries (reasm e))) \<le> (if maxE \<le> 0 then 128 else maxE) \<and> distinct (map fst (meta e)) \<and>
    (lease_live st a \<longrightarrow> lease_live (rpool (reasm e)) a)"
proof -
  have k: "endpoint_keeps (NewEndpoint maxE maxM st) e"
    unfolding e_def using assms(1,2) by (intro endpoint_steps_keep endpoint_ok_New)
  then have f: "foreign_live (reasm e) = foreign_live (NewReassembler (if maxE \<le> 0 then 128 else maxE) maxM st)"
    by (simp add: endpoint_keeps_def NewEndpoint_def Let_def)
  have "lease_live (rpool (reasm e)) a" if "lease_live st a"
  proof -
    have "foreign_live (NewReassembler (if maxE \<le> 0 then 128 else maxE) maxM st) a"
      using that by (simp add: foreign_live_def NewReassembler_def lease_at_def)
    then have "foreign_live (reasm e) a" unfolding f .
    then show ?thesis by (simp add: foreign_live_def)
  qed
  then show ?thesis
    using k by (auto simp: endpoint_keeps_def endpoint_ok_def reasm_ok_def reasm_core_def NewEndpoint_def NewReassembler_def Let_def)
qed

theorem endpoint_bounded_witness:
  "int (length (meta (foldl (\<lambda>e act. endpoint_step act e) (NewEndpoint 4 100 slab_init)
     [ActParse sample_choices (replicate 1028 1) [zero_Block] 5, ActEndpointExpire (sample_choices 0) 9]))) \<le> 4"
  using endpoint_bounded [OF slab_ok_init, of "[ActParse sample_choices (replicate 1028 1) [zero_Block] 5, ActEndpointExpire (sample_choices 0) 9]" 4 100]
  by (simp add: arrival_ok_def sample_choices_def del: foldl_Cons)

end
