(* ===== verification/Identity.thy ===== *)
theory Identity
  imports Iterators Sha256
begin

text \<open>
  The common structures of \<open>foundation/internal/identity/types.go\<close>: certificates, key types, identities
  (RouterIdentity and Destination share their format) and mappings of strings to strings.

  A Go slice can be nil, which the mapping writer distinguishes from an empty key: an optional key of an
  entry is \<open>None\<close> when it is nil. The arguments of the wrapped \<open>ErrUnknownKeyType\<close> errors are left out.
\<close>

section \<open>Certificates\<close>

definition HashLength :: nat where "HashLength = 32"
definition IdentityBaseLength :: nat where "IdentityBaseLength = 384"
definition CertificateHeader :: nat where "CertificateHeader = 3"

definition Sum_hash :: "bytes \<Rightarrow> bytes" where "Sum_hash src = sha256_Sum256 src"

type_synonym CertificateType = u8

abbreviation CertificateNull :: CertificateType where "CertificateNull \<equiv> 0"
abbreviation CertificateHashCash :: CertificateType where "CertificateHashCash \<equiv> 1"
abbreviation CertificateHidden :: CertificateType where "CertificateHidden \<equiv> 2"
abbreviation CertificateSigned :: CertificateType where "CertificateSigned \<equiv> 3"
abbreviation CertificateMultiple :: CertificateType where "CertificateMultiple \<equiv> 4"
abbreviation CertificateKey :: CertificateType where "CertificateKey \<equiv> 5"

record Certificate =
  cType :: CertificateType
  cPayload :: bytes

definition validCertificate :: "CertificateType \<Rightarrow> nat \<Rightarrow> bool" where
  "validCertificate kind payloadLen =
     (if payloadLen > 0xffff then False
      else if kind = CertificateNull \<or> kind = CertificateHidden then payloadLen = 0
      else if kind = CertificateHashCash \<or> kind = CertificateMultiple then True
      else if kind = CertificateSigned then payloadLen = 40 \<or> payloadLen = 72
      else if kind = CertificateKey then payloadLen \<ge> 4
      else False)"

definition CertificateEncodedLen :: "Certificate \<Rightarrow> nat" where
  "CertificateEncodedLen c = CertificateHeader + length (cPayload c)"

definition CertificateMarshalTo :: "Certificate \<Rightarrow> bytes \<Rightarrow> (bytes \<times> nat) result" where
  "CertificateMarshalTo c dst =
     (if \<not> validCertificate (cType c) (length (cPayload c)) then Inl ErrInvalidCertificate
      else if length dst < CertificateEncodedLen c then Inl ErrDestinationSmall
      else let dst = dst[0 := cType c];
               dst = put_at 1 (PutUint16 (of_nat (length (cPayload c)))) dst;
               dst = put_at 3 (cPayload c) dst
           in Inr (dst, CertificateEncodedLen c))"

definition ParseCertificate :: "bytes \<Rightarrow> (Certificate \<times> nat) result" where
  "ParseCertificate src =
     (if length src < CertificateHeader then Inl ErrShortBuffer
      else let kind = src ! 0; len = unat (Uint16 (drop 1 src)) in
        if len > length src - CertificateHeader then Inl ErrShortBuffer
        else if \<not> validCertificate kind len then Inl ErrInvalidCertificate
        else Inr (\<lparr>cType = kind, cPayload = slice CertificateHeader (CertificateHeader + len) src\<rparr>, CertificateHeader + len))"

section \<open>Key types\<close>

type_synonym SigningKeyType = u16
type_synonym CryptoKeyType = u16

abbreviation SigningDSASHA1 :: SigningKeyType where "SigningDSASHA1 \<equiv> 0"
abbreviation SigningECDSASHA256P256 :: SigningKeyType where "SigningECDSASHA256P256 \<equiv> 1"
abbreviation SigningECDSASHA384P384 :: SigningKeyType where "SigningECDSASHA384P384 \<equiv> 2"
abbreviation SigningECDSASHA512P521 :: SigningKeyType where "SigningECDSASHA512P521 \<equiv> 3"
abbreviation SigningRSASHA256_2048 :: SigningKeyType where "SigningRSASHA256_2048 \<equiv> 4"
abbreviation SigningRSASHA384_3072 :: SigningKeyType where "SigningRSASHA384_3072 \<equiv> 5"
abbreviation SigningRSASHA512_4096 :: SigningKeyType where "SigningRSASHA512_4096 \<equiv> 6"
abbreviation SigningEdDSASHA512Ed25519 :: SigningKeyType where "SigningEdDSASHA512Ed25519 \<equiv> 7"
abbreviation SigningEdDSASHA512Ed25519ph :: SigningKeyType where "SigningEdDSASHA512Ed25519ph \<equiv> 8"
abbreviation SigningGOSTR3410_256 :: SigningKeyType where "SigningGOSTR3410_256 \<equiv> 9"
abbreviation SigningGOSTR3410_512 :: SigningKeyType where "SigningGOSTR3410_512 \<equiv> 10"
abbreviation SigningRedDSASHA512Ed25519 :: SigningKeyType where "SigningRedDSASHA512Ed25519 \<equiv> 11"

abbreviation CryptoElGamal :: CryptoKeyType where "CryptoElGamal \<equiv> 0"
abbreviation CryptoP256 :: CryptoKeyType where "CryptoP256 \<equiv> 1"
abbreviation CryptoP384 :: CryptoKeyType where "CryptoP384 \<equiv> 2"
abbreviation CryptoP521 :: CryptoKeyType where "CryptoP521 \<equiv> 3"
abbreviation CryptoX25519 :: CryptoKeyType where "CryptoX25519 \<equiv> 4"
abbreviation CryptoMLKEM768X25519 :: CryptoKeyType where "CryptoMLKEM768X25519 \<equiv> 6"
abbreviation CryptoMLKEM1024X25519 :: CryptoKeyType where "CryptoMLKEM1024X25519 \<equiv> 7"

definition SigningPublicKeyLen :: "SigningKeyType \<Rightarrow> nat option" where
  "SigningPublicKeyLen t =
     (if t = SigningDSASHA1 then Some 128
      else if t = SigningECDSASHA256P256 then Some 64
      else if t = SigningECDSASHA384P384 then Some 96
      else if t = SigningECDSASHA512P521 then Some 132
      else if t = SigningRSASHA256_2048 then Some 256
      else if t = SigningRSASHA384_3072 then Some 384
      else if t = SigningRSASHA512_4096 then Some 512
      else if t \<in> {SigningEdDSASHA512Ed25519, SigningEdDSASHA512Ed25519ph, SigningRedDSASHA512Ed25519} then Some 32
      else if t = SigningGOSTR3410_256 then Some 64
      else if t = SigningGOSTR3410_512 then Some 128
      else None)"

definition SignatureLen :: "SigningKeyType \<Rightarrow> nat option" where
  "SignatureLen t =
     (if t = SigningDSASHA1 then Some 40
      else if t = SigningECDSASHA256P256 then Some 64
      else if t = SigningECDSASHA384P384 then Some 96
      else if t = SigningECDSASHA512P521 then Some 132
      else if t = SigningRSASHA256_2048 then Some 256
      else if t = SigningRSASHA384_3072 then Some 384
      else if t = SigningRSASHA512_4096 then Some 512
      else if t \<in> {SigningEdDSASHA512Ed25519, SigningEdDSASHA512Ed25519ph, SigningRedDSASHA512Ed25519} then Some 64
      else if t = SigningGOSTR3410_256 then Some 64
      else if t = SigningGOSTR3410_512 then Some 128
      else None)"

definition CryptoPublicKeyLen :: "CryptoKeyType \<Rightarrow> nat option" where
  "CryptoPublicKeyLen t =
     (if t = CryptoElGamal then Some 256
      else if t = CryptoP256 then Some 64
      else if t = CryptoP384 then Some 96
      else if t = CryptoP521 then Some 132
      else if t \<in> {CryptoX25519, CryptoMLKEM768X25519, CryptoMLKEM1024X25519} then Some 32
      else None)"

section \<open>Identities\<close>

record Identity =
  idRaw :: bytes
  idCertificate :: Certificate
  idSigningType :: SigningKeyType
  idCryptoType :: CryptoKeyType
  cryptoFirst :: bytes
  cryptoRest :: bytes
  signingFirst :: bytes
  signingRest :: bytes

text \<open>The keys of an identity with a key certificate: the excess of a long key is in the certificate.\<close>

definition identity_keys :: "bytes \<Rightarrow> Certificate \<Rightarrow> nat \<Rightarrow> (Identity \<times> nat) result" where
  "identity_keys src cert n =
     (let signingType = Uint16 (take 2 (cPayload cert)); cryptoType = Uint16 (slice 2 4 (cPayload cert)) in
      case SigningPublicKeyLen signingType of
        None \<Rightarrow> Inl ErrUnknownKeyType
      | Some signingLen \<Rightarrow>
          (case CryptoPublicKeyLen cryptoType of
             None \<Rightarrow> Inl ErrUnknownKeyType
           | Some cryptoLen \<Rightarrow>
               let signingExcess = signingLen - 128; cryptoExcess = cryptoLen - 256 in
               if length (cPayload cert) \<noteq> 4 + signingExcess + cryptoExcess then Inl ErrInvalidIdentity
               else let cryptoInline = min cryptoLen 256; signingInline = min signingLen 128; off = 4 + signingExcess
                    in Inr (\<lparr>idRaw = take n src, idCertificate = cert, idSigningType = signingType, idCryptoType = cryptoType,
                         cryptoFirst = take cryptoInline src,
                         cryptoRest = slice off (off + cryptoExcess) (cPayload cert),
                         signingFirst = slice (IdentityBaseLength - signingInline) IdentityBaseLength src,
                         signingRest = slice 4 off (cPayload cert)\<rparr>, n)))"

definition ParseIdentity :: "bytes \<Rightarrow> (Identity \<times> nat) result" where
  "ParseIdentity src =
     (if length src < IdentityBaseLength + CertificateHeader then Inl ErrShortBuffer
      else bindR (ParseCertificate (drop IdentityBaseLength src)) (\<lambda>(cert, certLen).
        let n = IdentityBaseLength + certLen in
        if cType cert \<noteq> CertificateKey then
          Inr (\<lparr>idRaw = take n src, idCertificate = cert, idSigningType = SigningDSASHA1, idCryptoType = CryptoElGamal,
            cryptoFirst = take 256 src, cryptoRest = [], signingFirst = slice 256 384 src, signingRest = []\<rparr>, n)
        else identity_keys src cert n))"

definition IdentityEncodedLen :: "Identity \<Rightarrow> nat" where "IdentityEncodedLen i = length (idRaw i)"
definition IdentityBytes :: "Identity \<Rightarrow> bytes" where "IdentityBytes i = idRaw i"
definition CryptoKeyParts :: "Identity \<Rightarrow> bytes \<times> bytes" where "CryptoKeyParts i = (cryptoFirst i, cryptoRest i)"
definition SigningKeyParts :: "Identity \<Rightarrow> bytes \<times> bytes" where "SigningKeyParts i = (signingFirst i, signingRest i)"
definition IdentityHash :: "Identity \<Rightarrow> bytes" where "IdentityHash i = Sum_hash (idRaw i)"

definition IdentityMarshalTo :: "Identity \<Rightarrow> bytes \<Rightarrow> (bytes \<times> nat) result" where
  "IdentityMarshalTo i dst =
     (if length dst < length (idRaw i) then Inl ErrDestinationSmall
      else Inr (put_at 0 (idRaw i) dst, length (idRaw i)))"

section \<open>Mappings\<close>

record Mapping =
  mapRaw :: bytes

definition MappingIterator :: "Mapping \<Rightarrow> bytes" where
  "MappingIterator m = (if length (mapRaw m) < 2 then [] else drop 2 (mapRaw m))"

definition MappingNext :: "bytes \<Rightarrow> ((bytes \<times> bytes) \<times> bytes) option result" where
  "MappingNext it =
     (if it = [] then Inr None
      else let keyLen = unat (it ! 0) in
        if keyLen > length it - 1 then Inl ErrInvalidMapping
        else let key = slice 1 (1 + keyLen) it; rest = drop (1 + keyLen) it in
          if length rest < 2 \<or> rest ! 0 \<noteq> 0x3d then Inl ErrInvalidMapping
          else let valueLen = unat (rest ! 1); rest = drop 2 rest in
            if valueLen > length rest - 1 \<or> rest = [] \<or> rest ! valueLen \<noteq> 0x3b then Inl ErrInvalidMapping
            else Inr (Some ((key, take valueLen rest), drop (valueLen + 1) rest)))"

text \<open>The loop that only checks the entries; \<open>mapping_total\<close> below shows that this fuel is never exhausted.\<close>

definition ParseMapping :: "bytes \<Rightarrow> (Mapping \<times> nat) result" where
  "ParseMapping src =
     (if length src < 2 then Inl ErrShortBuffer
      else let n = unat (Uint16 src) in
        if n > length src - 2 then Inl ErrShortBuffer
        else let m = \<lparr>mapRaw = take (2 + n) src\<rparr> in
          case drain MappingNext (Suc (length (MappingIterator m))) (MappingIterator m) of
            Some (Inr _) \<Rightarrow> Inr (m, length (mapRaw m))
          | Some (Inl e) \<Rightarrow> Inl e
          | None \<Rightarrow> Inl Panic)"

definition MappingEncodedBytes :: "Mapping \<Rightarrow> nat" where "MappingEncodedBytes m = length (mapRaw m)"
definition MappingBytes :: "Mapping \<Rightarrow> bytes" where "MappingBytes m = mapRaw m"

text \<open>\<open>bytes.Compare\<close>: lexicographic, by unsigned bytes.\<close>

fun bytes_Compare :: "bytes \<Rightarrow> bytes \<Rightarrow> int" where
  "bytes_Compare [] [] = 0"
| "bytes_Compare [] (b # bs) = - 1"
| "bytes_Compare (a # as) [] = 1"
| "bytes_Compare (a # as) (b # bs) = (if a < b then - 1 else if b < a then 1 else bytes_Compare as bs)"

fun canonical_loop :: "nat \<Rightarrow> bytes option \<Rightarrow> bytes \<Rightarrow> error option" where
  "canonical_loop 0 previous it = Some Panic"
| "canonical_loop (Suc fuel) previous it =
     (case MappingNext it of
        Inl e \<Rightarrow> Some e
      | Inr None \<Rightarrow> None
      | Inr (Some ((key, _), it')) \<Rightarrow>
          (case previous of
             Some p \<Rightarrow> if bytes_Compare p key \<ge> 0 then Some ErrUnsortedMapping else canonical_loop fuel (Some key) it'
           | None \<Rightarrow> canonical_loop fuel (Some key) it'))"

definition ValidateCanonical :: "Mapping \<Rightarrow> error option" where
  "ValidateCanonical m = canonical_loop (Suc (length (MappingIterator m))) None (MappingIterator m)"

record MappingEntry =
  Key :: "bytes option"
  Value :: "bytes option"

definition slice_of :: "bytes option \<Rightarrow> bytes" where
  "slice_of s = (case s of None \<Rightarrow> [] | Some bs \<Rightarrow> bs)"

fun mapping_len_loop :: "MappingEntry list \<Rightarrow> bytes option \<Rightarrow> nat \<Rightarrow> nat result" where
  "mapping_len_loop [] previous n = Inr n"
| "mapping_len_loop (entry # es) previous n =
     (let k = slice_of (Key entry); v = slice_of (Value entry) in
      if length k > 255 \<or> length v > 255 then Inl ErrInvalidMapping
      else if previous \<noteq> None \<and> bytes_Compare (slice_of previous) k \<ge> 0 then Inl ErrUnsortedMapping
      else let entryLen = length k + length v + 4 in
        if entryLen > 0xffff - (n - 2) then Inl ErrInvalidMapping
        else mapping_len_loop es (Key entry) (n + entryLen))"

definition MappingEncodedLen :: "MappingEntry list \<Rightarrow> nat result" where
  "MappingEncodedLen es = mapping_len_loop es None 2"

definition marshal_entry :: "MappingEntry \<Rightarrow> nat \<Rightarrow> bytes \<Rightarrow> bytes \<times> nat" where
  "marshal_entry entry off dst =
     (let k = slice_of (Key entry); v = slice_of (Value entry);
          dst = dst[off := of_nat (length k)]; off = off + 1;
          (dst, off) = (put_at off k dst, off + min (length k) (length dst - off));
          dst = dst[off := 0x3d]; off = off + 1;
          dst = dst[off := of_nat (length v)]; off = off + 1;
          (dst, off) = (put_at off v dst, off + min (length v) (length dst - off));
          dst = dst[off := 0x3b]; off = off + 1
      in (dst, off))"

fun marshal_entries :: "MappingEntry list \<Rightarrow> nat \<Rightarrow> bytes \<Rightarrow> bytes \<times> nat" where
  "marshal_entries [] off dst = (dst, off)"
| "marshal_entries (entry # es) off dst =
     (case marshal_entry entry off dst of (dst, off) \<Rightarrow> marshal_entries es off dst)"

definition MarshalMappingTo :: "bytes \<Rightarrow> MappingEntry list \<Rightarrow> (bytes \<times> nat) result" where
  "MarshalMappingTo dst es =
     bindR (MappingEncodedLen es) (\<lambda>n.
       if length dst < n then Inl ErrDestinationSmall
       else Inr (marshal_entries es 2 (put_at 0 (PutUint16 (of_nat (n - 2))) dst)))"

section \<open>Certificates and identities, forwards and back\<close>

definition certificate_bytes :: "Certificate \<Rightarrow> bytes" where
  "certificate_bytes c = [cType c] @ PutUint16 (of_nat (length (cPayload c))) @ cPayload c"

lemma length_certificate_bytes [simp]: "length (certificate_bytes c) = CertificateEncodedLen c"
  by (simp add: certificate_bytes_def CertificateEncodedLen_def CertificateHeader_def)

lemma CertificateMarshalTo_eq:
  assumes "validCertificate (cType c) (length (cPayload c))" "CertificateEncodedLen c \<le> length dst"
  shows "CertificateMarshalTo c dst = Inr (certificate_bytes c @ drop (CertificateEncodedLen c) dst, CertificateEncodedLen c)"
proof -
  have "put_at 0 (certificate_bytes c) dst = certificate_bytes c @ drop (CertificateEncodedLen c) dst"
    using assms(2) by (subst put_at_0) simp_all
  moreover have "0 < length dst" using assms(2) by (auto simp: CertificateEncodedLen_def CertificateHeader_def)
  ultimately show ?thesis
    using assms unfolding CertificateMarshalTo_def
    by (simp add: Let_def list_update_put_at put_at_put_at [where m = 0] certificate_bytes_def CertificateEncodedLen_def
        CertificateHeader_def)
qed

lemma ParseCertificate_bytes:
  assumes "validCertificate (cType c) (length (cPayload c))"
  shows "ParseCertificate (certificate_bytes c @ rest) = Inr (c, CertificateEncodedLen c)"
proof -
  have "length (cPayload c) < 65536" using assms by (simp add: validCertificate_def split: if_splits)
  then show ?thesis
    using assms by (simp add: ParseCertificate_def certificate_bytes_def CertificateHeader_def CertificateEncodedLen_def
        codec_simps slice_def)
qed

lemma ParseCertificate_Some:
  assumes "ParseCertificate src = Inr (c, n)"
  shows "n = CertificateEncodedLen c" "n \<le> length src" "validCertificate (cType c) (length (cPayload c))"
    "src = certificate_bytes c @ drop n src"
proof -
  let ?n = "unat (Uint16 (drop 1 src))"
  have r: "3 \<le> length src" "?n \<le> length src - 3" "validCertificate (src ! 0) ?n" "n = 3 + ?n"
    and c: "c = \<lparr>cType = src ! 0, cPayload = slice 3 (3 + ?n) src\<rparr>"
    using assms by (auto simp: ParseCertificate_def Let_def CertificateHeader_def split: if_splits)
  have len: "length (cPayload c) = ?n" using r(1,2) by (simp add: c)
  show "n = CertificateEncodedLen c" "n \<le> length src" "validCertificate (cType c) (length (cPayload c))"
    using r len by (simp_all add: CertificateEncodedLen_def CertificateHeader_def c)
  have "src = [src ! 0] @ drop 1 src" using r(1) nth_chunk [of 0 src] by (cases src) auto
  also have "drop 1 src = PutUint16 (of_nat ?n) @ drop (1 + 2) src" using r(1) by (intro Uint16_prefix) auto
  also have "drop (1 + 2) src = cPayload c @ drop n src" by (simp add: c r(4) slice_def take_chunk numeral_3_eq_3)
  finally show "src = certificate_bytes c @ drop n src" unfolding certificate_bytes_def len by (simp add: c)
qed

lemma key_len_positive: "SigningPublicKeyLen t = Some n \<Longrightarrow> 0 < n" "CryptoPublicKeyLen t' = Some m \<Longrightarrow> 0 < m"
  by (auto simp: SigningPublicKeyLen_def CryptoPublicKeyLen_def split: if_splits)

lemma ParseIdentity_Some:
  assumes "ParseIdentity src = Inr (i, n)"
  shows "idRaw i = take n src" "n \<le> length src" "n = 384 + CertificateEncodedLen (idCertificate i)"
    "take n src = take 384 src @ certificate_bytes (idCertificate i)"
    "SigningPublicKeyLen (idSigningType i) = Some (length (signingFirst i @ signingRest i))"
    "CryptoPublicKeyLen (idCryptoType i) = Some (length (cryptoFirst i @ cryptoRest i))"
proof -
  obtain cert k where c: "ParseCertificate (drop 384 src) = Inr (cert, k)" and len: "387 \<le> length src"
    using assms by (auto simp: ParseIdentity_def IdentityBaseLength_def CertificateHeader_def bindR_eq_Inr split: if_splits)
  note p = ParseCertificate_Some [OF c]
  have n: "n = 384 + k \<and> idRaw i = take n src \<and> idCertificate i = cert"
    using assms c by (auto simp: ParseIdentity_def identity_keys_def IdentityBaseLength_def Let_def
        split: if_splits option.splits)
  then show "idRaw i = take n src" "n \<le> length src" "n = 384 + CertificateEncodedLen (idCertificate i)"
    using p(1,2) len by auto
  have "take n src = take 384 src @ take k (drop 384 src)" using n by (simp add: take_add)
  also have "take k (drop 384 src) = take k (certificate_bytes cert @ drop k (drop 384 src))" by (rule arg_cong [OF p(4)])
  also have "\<dots> = certificate_bytes cert" using p(1) by simp
  finally show "take n src = take 384 src @ certificate_bytes (idCertificate i)" using n by simp
  have keys: "SigningPublicKeyLen (idSigningType i) = Some (length (signingFirst i @ signingRest i)) \<and>
    CryptoPublicKeyLen (idCryptoType i) = Some (length (cryptoFirst i @ cryptoRest i))"
  proof (cases "cType cert = CertificateKey")
    case True
    then have "identity_keys src cert n = Inr (i, n)"
      using assms c n by (simp add: ParseIdentity_def IdentityBaseLength_def CertificateHeader_def split: if_splits)
    then show ?thesis
      using len by (auto simp: identity_keys_def Let_def IdentityBaseLength_def min_def split: option.splits if_splits)
  next
    case False
    then have "idSigningType i = 0 \<and> idCryptoType i = 0 \<and> signingFirst i = slice 256 384 src \<and> signingRest i = [] \<and>
      cryptoFirst i = take 256 src \<and> cryptoRest i = []"
      using assms c by (auto simp: ParseIdentity_def IdentityBaseLength_def CertificateHeader_def Let_def split: if_splits)
    then show ?thesis using len by (simp add: SigningPublicKeyLen_def CryptoPublicKeyLen_def)
  qed
  then show "SigningPublicKeyLen (idSigningType i) = Some (length (signingFirst i @ signingRest i))"
    "CryptoPublicKeyLen (idCryptoType i) = Some (length (cryptoFirst i @ cryptoRest i))" by auto
qed

section \<open>Mapping entries as an iterator\<close>

definition pair_wf :: "bytes \<times> bytes \<Rightarrow> bool" where
  "pair_wf kv \<longleftrightarrow> length (fst kv) \<le> 255 \<and> length (snd kv) \<le> 255"

definition pair_bytes :: "bytes \<times> bytes \<Rightarrow> bytes" where
  "pair_bytes kv = [of_nat (length (fst kv))] @ fst kv @ [0x3d, of_nat (length (snd kv))] @ snd kv @ [0x3b]"

lemma MappingNext_pair: "pair_wf kv \<Longrightarrow> MappingNext (pair_bytes kv @ rest) = Inr (Some (kv, rest))"
  by (simp add: MappingNext_def pair_wf_def pair_bytes_def slice_def nth_append Let_def)

lemma MappingNext_canonical:
  assumes "MappingNext it = Inr (Some (kv, rest))"
  shows "pair_wf kv \<and> it = pair_bytes kv @ rest"
proof -
  let ?k = "unat (it ! 0)" and ?r = "drop (1 + unat (it ! 0)) it"
  let ?v = "unat (?r ! 1)"
  have g: "it \<noteq> []" "\<not> ?k > length it - 1" "\<not> length ?r < 2" "?r ! 0 = 0x3d"
    "\<not> ?v > length (drop 2 ?r) - 1" "drop 2 ?r \<noteq> []" "drop 2 ?r ! ?v = 0x3b"
    and res: "kv = (slice 1 (1 + ?k) it, take ?v (drop 2 ?r))" "rest = drop (?v + 1) (drop 2 ?r)"
    using assms by (auto simp: MappingNext_def Let_def split: if_splits)
  have len: "length (fst kv) = ?k" "length (snd kv) = ?v"
    using g by (auto simp: res simp del: length_drop)
  have "it = [it ! 0] @ drop 1 it" using g(1) by (cases it) auto
  also have "drop 1 it = slice 1 (1 + ?k) it @ ?r" by (simp add: slice_def take_chunk)
  also have "?r = [0x3d, ?r ! 1] @ drop 2 ?r"
    using g(3,4) by (cases ?r; cases "tl ?r") (auto simp del: drop_drop)
  also have "drop 2 ?r = take ?v (drop 2 ?r) @ [0x3b] @ rest"
    using g(5-7) id_take_nth_drop [of ?v "drop 2 ?r"] by (simp add: res del: drop_drop)
  finally have it: "it = [it ! 0] @ slice 1 (1 + ?k) it @ [0x3d, ?r ! 1] @ take ?v (drop 2 ?r) @ [0x3b] @ rest" .
  have "pair_bytes kv = [it ! 0] @ fst kv @ [0x3d, ?r ! 1] @ snd kv @ [0x3b]"
    unfolding pair_bytes_def len by simp
  with it have "it = pair_bytes kv @ rest" unfolding res(1) fst_conv snd_conv by (simp only: append_assoc)
  moreover have "unat w \<le> 255" for w :: u8 using unat_u8_less [of w] by linarith
  then have "pair_wf kv" unfolding pair_wf_def len by blast
  ultimately show ?thesis by simp
qed

lemma MappingNext_shrinks: "MappingNext it = Inr (Some (kv, rest)) \<Longrightarrow> length rest < length it"
  using MappingNext_canonical [of it kv rest] by (simp add: pair_bytes_def)

interpretation mapping_pairs: item_codec MappingNext pair_wf pair_bytes "\<lambda>kv. kv"
proof
  show "MappingNext s = Inr (Some (a, s')) \<Longrightarrow> length s' < length s" for s a s' by (cases a) (rule MappingNext_shrinks)
  show "MappingNext [] = Inr None" by (simp add: MappingNext_def)
  show "pair_wf b \<Longrightarrow> MappingNext (pair_bytes b @ rest) = Inr (Some (b, rest))" for b rest by (rule MappingNext_pair)
qed

interpretation mapping_pairs_back: item_canonical MappingNext pair_wf pair_bytes
proof
  show "MappingNext s = Inr (Some (a, s')) \<Longrightarrow> pair_wf a \<and> s = pair_bytes a @ s'" for s a s' by (rule MappingNext_canonical)
  show "MappingNext s = Inr None \<Longrightarrow> s = []" for s by (auto simp: MappingNext_def Let_def split: if_splits)
qed

section \<open>Writing and checking mappings\<close>

definition entry_pair :: "MappingEntry \<Rightarrow> bytes \<times> bytes" where
  "entry_pair e = (slice_of (Key e), slice_of (Value e))"

definition key_less :: "bytes \<times> bytes \<Rightarrow> bytes \<times> bytes \<Rightarrow> bool" where
  "key_less a b \<longleftrightarrow> bytes_Compare (fst a) (fst b) < 0"

definition pairs_bytes :: "(bytes \<times> bytes) list \<Rightarrow> bytes" where
  "pairs_bytes ps = concat (map pair_bytes ps)"

text \<open>\<open>chained previous ps\<close>: the keys ascend, the first one from \<open>previous\<close>.\<close>

fun chained :: "bytes option \<Rightarrow> (bytes \<times> bytes) list \<Rightarrow> bool" where
  "chained previous [] = True"
| "chained previous (p # ps) =
     ((case previous of None \<Rightarrow> True | Some k \<Rightarrow> bytes_Compare k (fst p) < 0) \<and> chained (Some (fst p)) ps)"

lemma chained_Some: "chained (Some (fst p)) ps \<longleftrightarrow> successively key_less (p # ps)"
  by (induction ps arbitrary: p) (auto simp: key_less_def)

lemma chained_successively: "chained None ps \<longleftrightarrow> successively key_less ps"
  by (cases ps) (simp, simp add: chained_Some del: successively.simps)

lemma mapping_len_loop_iff:
  assumes "list_all (\<lambda>e. Key e \<noteq> None) es" "2 \<le> n" "n \<le> 65537"
  shows "mapping_len_loop es previous n = Inr k \<longleftrightarrow>
    list_all pair_wf (map entry_pair es) \<and> chained previous (map entry_pair es) \<and>
    k = n + length (pairs_bytes (map entry_pair es)) \<and> k \<le> 65537"
  using assms
proof (induction es previous n rule: mapping_len_loop.induct)
  case (2 e es previous n)
  let ?k = "slice_of (Key e)" and ?v = "slice_of (Value e)"
  have key: "Key e = Some ?k" using 2(2) by (auto simp: slice_of_def)
  have pb: "length (pair_bytes (entry_pair e)) = length ?k + length ?v + 4" by (simp add: pair_bytes_def entry_pair_def)
  show ?case
  proof (cases "length ?k > 255 \<or> length ?v > 255 \<or> (previous \<noteq> None \<and> bytes_Compare (slice_of previous) ?k \<ge> 0) \<or>
      length ?k + length ?v + 4 > 0xffff - (n - 2)")
    case True
    then show ?thesis
      using 2(3,4) pb by (auto simp: Let_def pair_wf_def entry_pair_def pairs_bytes_def slice_of_def split: option.splits)
  next
    case False
    then have guard: "\<not> (length ?k > 255 \<or> length ?v > 255)" "\<not> (previous \<noteq> None \<and> bytes_Compare (slice_of previous) ?k \<ge> 0)"
      "\<not> length ?k + length ?v + 4 > 0xffff - (n - 2)" by auto
    then have "mapping_len_loop (e # es) previous n = mapping_len_loop es (Key e) (n + (length ?k + length ?v + 4))"
      by (simp only: mapping_len_loop.simps Let_def if_False)
    also have "(\<dots> = Inr k) = (list_all pair_wf (map entry_pair es) \<and> chained (Key e) (map entry_pair es) \<and>
      k = n + (length ?k + length ?v + 4) + length (pairs_bytes (map entry_pair es)) \<and> k \<le> 65537)"
      using guard(3) 2(2-4) by (intro 2(1) [OF refl refl guard(1,2) refl guard(3)]) auto
    finally show ?thesis
      using guard key pb by (auto simp: pair_wf_def entry_pair_def pairs_bytes_def slice_of_def split: option.splits)
  qed
qed (auto simp: pairs_bytes_def)

lemma marshal_entry_eq:
  assumes "length pre = off" "length (pair_bytes (entry_pair e)) \<le> length rest"
  shows "marshal_entry e off (pre @ rest) =
    (pre @ pair_bytes (entry_pair e) @ drop (length (pair_bytes (entry_pair e))) rest, off + length (pair_bytes (entry_pair e)))"
proof -
  let ?k = "slice_of (Key e)" and ?v = "slice_of (Value e)" and ?d = "pre @ rest"
  let ?n1 = "off + 1 + length ?k" and ?a = "[of_nat (length ?k) :: u8]"
  have room: "off + length ?k + length ?v + 4 \<le> length ?d" using assms by (simp add: pair_bytes_def entry_pair_def)
  have pb: "pair_bytes (entry_pair e) = ?a @ ?k @ [0x3d, of_nat (length ?v)] @ ?v @ [0x3b]"
    by (simp add: pair_bytes_def entry_pair_def)
  have "marshal_entry e off ?d = (put_at off (pair_bytes (entry_pair e)) ?d, off + length (pair_bytes (entry_pair e)))"
    using room unfolding marshal_entry_def pb
    by (auto simp: Let_def list_update_put_at put_at_put_at [where m = off] min_def)
  then show ?thesis using assms by (simp add: put_at_def)
qed

lemma marshal_entries_eq:
  assumes "length pre = off" "length (pairs_bytes (map entry_pair es)) \<le> length rest"
  shows "marshal_entries es off (pre @ rest) =
    (pre @ pairs_bytes (map entry_pair es) @ drop (length (pairs_bytes (map entry_pair es))) rest,
     off + length (pairs_bytes (map entry_pair es)))"
  using assms
proof (induction es arbitrary: pre off rest)
  case (Cons e es)
  let ?p = "pair_bytes (entry_pair e)"
  have "marshal_entries (e # es) off (pre @ rest) = marshal_entries es (off + length ?p) ((pre @ ?p) @ drop (length ?p) rest)"
    using Cons.prems by (simp add: marshal_entry_eq pairs_bytes_def)
  also have "\<dots> = ((pre @ ?p) @ pairs_bytes (map entry_pair es) @ drop (length (pairs_bytes (map entry_pair es))) (drop (length ?p) rest),
      off + length ?p + length (pairs_bytes (map entry_pair es)))"
    using Cons.prems by (intro Cons.IH) (auto simp: pairs_bytes_def)
  finally show ?case by (simp add: pairs_bytes_def add.commute)
qed (simp add: pairs_bytes_def)

lemma canonical_loop_pairs:
  assumes "list_all pair_wf ps" "length (pairs_bytes ps) < fuel"
  shows "canonical_loop fuel previous (pairs_bytes ps) = (if chained previous ps then None else Some ErrUnsortedMapping)"
  using assms
proof (induction ps arbitrary: previous fuel)
  case Nil
  then show ?case by (cases fuel) (auto simp: pairs_bytes_def MappingNext_def)
next
  case (Cons p ps)
  obtain k v where p: "p = (k, v)" by (rule prod.exhaust)
  obtain f where f: "fuel = Suc f" "length (pairs_bytes ps) < f"
    using Cons.prems(2) by (cases fuel) (auto simp: pairs_bytes_def pair_bytes_def)
  have "MappingNext (pairs_bytes (p # ps)) = Inr (Some ((k, v), pairs_bytes ps))"
    using Cons.prems(1) MappingNext_pair [of p "pairs_bytes ps"] by (simp add: pairs_bytes_def p)
  then show ?case using Cons f by (auto simp: p split: option.splits)
qed

lemma ParseMapping_pairs:
  assumes "list_all pair_wf ps" "length (pairs_bytes ps) \<le> 65535"
  defines "raw \<equiv> PutUint16 (of_nat (length (pairs_bytes ps))) @ pairs_bytes ps"
  shows "ParseMapping (raw @ rest) = Inr (\<lparr>mapRaw = raw\<rparr>, length raw)"
    "MappingIterator \<lparr>mapRaw = raw\<rparr> = pairs_bytes ps"
    "ValidateCanonical \<lparr>mapRaw = raw\<rparr> = (if successively key_less ps then None else Some ErrUnsortedMapping)"
proof -
  show it: "MappingIterator \<lparr>mapRaw = raw\<rparr> = pairs_bytes ps" by (simp add: MappingIterator_def raw_def)
  have "drain MappingNext (Suc (length (pairs_bytes ps))) (pairs_bytes ps) = Some (Inr ps)"
    using mapping_pairs.drain_encoded [OF assms(1)] by (simp add: pairs_bytes_def del: drain.simps)
  moreover have "unat (Uint16 (raw @ rest)) = length (pairs_bytes ps)" "take (2 + length (pairs_bytes ps)) (raw @ rest) = raw"
    using assms(2) by (simp_all add: raw_def codec_simps)
  ultimately show "ParseMapping (raw @ rest) = Inr (\<lparr>mapRaw = raw\<rparr>, length raw)"
    using it by (simp add: ParseMapping_def Let_def del: drain.simps) (simp add: raw_def)
  show "ValidateCanonical \<lparr>mapRaw = raw\<rparr> = (if successively key_less ps then None else Some ErrUnsortedMapping)"
    using canonical_loop_pairs [OF assms(1), of "Suc (length (pairs_bytes ps))" None]
    unfolding ValidateCanonical_def it chained_successively by (simp del: canonical_loop.simps)
qed

lemma ParseMapping_Some:
  assumes "ParseMapping src = Inr (m, n)"
  obtains ps where "n \<le> length src" "m = \<lparr>mapRaw = take n src\<rparr>" "list_all pair_wf ps" "length (pairs_bytes ps) \<le> 65535"
    "take n src = PutUint16 (of_nat (length (pairs_bytes ps))) @ pairs_bytes ps"
proof -
  let ?n = "unat (Uint16 src)"
  let ?m = "\<lparr>mapRaw = take (2 + ?n) src\<rparr>"
  have g: "2 \<le> length src" "2 + ?n \<le> length src"
    using assms by (auto simp: ParseMapping_def Let_def simp del: drain.simps split: if_splits)
  have it: "MappingIterator ?m = drop 2 (take (2 + ?n) src)" using g by (simp add: MappingIterator_def)
  obtain r where d: "drain MappingNext (Suc (length (MappingIterator ?m))) (MappingIterator ?m) = Some r"
    using mapping_pairs.drain_total [of "MappingIterator ?m"] by blast
  have eq: "(case r of Inr _ \<Rightarrow> Inr (?m, length (mapRaw ?m)) | Inl e \<Rightarrow> Inl e) = Inr (m, n)"
    using assms g unfolding ParseMapping_def Let_def d by (simp split: if_splits)
  then obtain ps where r: "r = Inr ps" by (cases r) simp_all
  then have ps: "r = Inr ps" "m = ?m" "n = 2 + ?n" using eq g by auto
  have c: "MappingIterator ?m = pairs_bytes ps" "list_all pair_wf ps"
    using mapping_pairs_back.drain_canonical [of _ "MappingIterator ?m" ps] d ps(1) by (auto simp: pairs_bytes_def simp del: drain.simps)
  have len: "length (pairs_bytes ps) = ?n" unfolding c(1) [symmetric] it using g by simp
  have "src = PutUint16 (of_nat ?n) @ drop 2 src" using Uint16_prefix [of src 0 ?n] g(1) by (simp add: numeral_2_eq_2)
  then have "take n src = take n (PutUint16 (of_nat ?n) @ drop 2 src)" by (rule arg_cong)
  also have "\<dots> = PutUint16 (of_nat ?n) @ drop 2 (take n src)" by (simp add: ps(3) drop_take)
  finally have t: "take n src = PutUint16 (of_nat (length (pairs_bytes ps))) @ pairs_bytes ps" using c(1) it ps(3) len by simp
  have "?n \<le> 65535" using unat_u16_less [of "Uint16 src"] by linarith
  then show ?thesis by (intro that [OF _ _ c(2) _ t]) (use ps g len in auto)
qed

lemma MappingEncodedLen_iff:
  assumes "list_all (\<lambda>e. Key e \<noteq> None) es"
  shows "MappingEncodedLen es = Inr k \<longleftrightarrow> list_all pair_wf (map entry_pair es) \<and> successively key_less (map entry_pair es) \<and>
    k = 2 + length (pairs_bytes (map entry_pair es)) \<and> length (pairs_bytes (map entry_pair es)) \<le> 65535"
  using mapping_len_loop_iff [OF assms, of 2 None k] unfolding MappingEncodedLen_def chained_successively by auto

lemma MarshalMappingTo_written:
  assumes "MappingEncodedLen es = Inr (2 + length (pairs_bytes (map entry_pair es)))" "2 + length (pairs_bytes (map entry_pair es)) \<le> length dst"
  defines "ps \<equiv> map entry_pair es"
  shows "MarshalMappingTo dst es =
    Inr ((PutUint16 (of_nat (length (pairs_bytes ps))) @ pairs_bytes ps) @ drop (2 + length (pairs_bytes ps)) dst, 2 + length (pairs_bytes ps))"
proof -
  let ?n = "length (pairs_bytes ps)"
  have "put_at 0 (PutUint16 (of_nat ?n)) dst = PutUint16 (of_nat ?n) @ drop 2 dst"
    using assms(2) by (simp add: ps_def put_at_def numeral_2_eq_2)
  then show ?thesis
    using assms(1,2) marshal_entries_eq [of "PutUint16 (of_nat ?n)" 2 es "drop 2 dst"]
    by (simp add: MarshalMappingTo_def ps_def)
qed

lemma MarshalMappingTo_eq:
  assumes "list_all (\<lambda>e. Key e \<noteq> None) es"
  defines "ps \<equiv> map entry_pair es"
  assumes "list_all pair_wf ps" "successively key_less ps" "length (pairs_bytes ps) \<le> 65535" "2 + length (pairs_bytes ps) \<le> length dst"
  shows "MarshalMappingTo dst es =
    Inr ((PutUint16 (of_nat (length (pairs_bytes ps))) @ pairs_bytes ps) @ drop (2 + length (pairs_bytes ps)) dst, 2 + length (pairs_bytes ps))"
  using MarshalMappingTo_written [of es dst] MappingEncodedLen_iff [OF assms(1), of "2 + length (pairs_bytes ps)"] assms(2-6) by simp

section \<open>Properties\<close>

text \<open>
  Certificates survive the wire in both directions: what \<open>MarshalTo\<close> writes is read back by
  \<open>ParseCertificate\<close> (the rest of the buffer is untouched), it fails only for an invalid certificate or a short
  buffer, and re-encoding an accepted certificate reproduces the consumed bytes.
\<close>

theorem certificate_roundtrip:
  "(case CertificateMarshalTo c dst of
      Inr (dst', n) \<Rightarrow> ParseCertificate dst' = Inr (c, n) \<and> n = CertificateEncodedLen c \<and> drop n dst' = drop n dst
    | Inl e \<Rightarrow> e = ErrInvalidCertificate \<and> \<not> validCertificate (cType c) (length (cPayload c)) \<or>
               e = ErrDestinationSmall \<and> length dst < CertificateEncodedLen c)
   \<and> (case ParseCertificate src of
      Inr (c', n) \<Rightarrow> n \<le> length src \<and> CertificateMarshalTo c' (take n src) = Inr (take n src, n)
    | Inl e \<Rightarrow> True)"
proof
  show "case CertificateMarshalTo c dst of
      Inr (dst', n) \<Rightarrow> ParseCertificate dst' = Inr (c, n) \<and> n = CertificateEncodedLen c \<and> drop n dst' = drop n dst
    | Inl e \<Rightarrow> e = ErrInvalidCertificate \<and> \<not> validCertificate (cType c) (length (cPayload c)) \<or>
               e = ErrDestinationSmall \<and> length dst < CertificateEncodedLen c"
  proof (cases "validCertificate (cType c) (length (cPayload c)) \<and> CertificateEncodedLen c \<le> length dst")
    case True
    then show ?thesis by (simp add: CertificateMarshalTo_eq ParseCertificate_bytes)
  qed (auto simp: CertificateMarshalTo_def)
  show "case ParseCertificate src of
      Inr (c', n) \<Rightarrow> n \<le> length src \<and> CertificateMarshalTo c' (take n src) = Inr (take n src, n)
    | Inl e \<Rightarrow> True"
  proof (cases "ParseCertificate src")
    case (Inr p)
    then obtain c' n where p: "ParseCertificate src = Inr (c', n)" by (cases p) auto
    note s = ParseCertificate_Some [OF p]
    have "take n src = certificate_bytes c'" using arg_cong [OF s(4), of "take n"] s(1) by simp
    then show ?thesis using p s(1-3) CertificateMarshalTo_eq [OF s(3), of "take n src"] by simp
  qed simp
qed

text \<open>
  C23. An accepted identity is a prefix of the input of exactly the length its certificate announces, its key
  parts put together have the lengths that the key types require, and parsing reads nothing behind that
  prefix: the identity found in a longer buffer is the one in the prefix alone.
\<close>

theorem identity_parse_exact:
  assumes "ParseIdentity src = Inr (i, n)"
  shows "n \<le> length src \<and> idRaw i = take n src \<and> n = 387 + length (cPayload (idCertificate i)) \<and>
    SigningPublicKeyLen (idSigningType i) = Some (length (fst (SigningKeyParts i) @ snd (SigningKeyParts i))) \<and>
    CryptoPublicKeyLen (idCryptoType i) = Some (length (fst (CryptoKeyParts i) @ snd (CryptoKeyParts i))) \<and>
    ParseIdentity (idRaw i @ rest) = Inr (i, n)"
proof -
  note s = ParseIdentity_Some [OF assms]
  obtain cert k where c: "ParseCertificate (drop 384 src) = Inr (cert, k)" and len: "387 \<le> length src"
    using assms by (auto simp: ParseIdentity_def IdentityBaseLength_def CertificateHeader_def bindR_eq_Inr split: if_splits)
  note cs = ParseCertificate_Some [OF c]
  have cert: "idCertificate i = cert" "n = 384 + k"
    using assms c by (auto simp: ParseIdentity_def identity_keys_def IdentityBaseLength_def Let_def split: if_splits option.splits)
  let ?src = "idRaw i @ rest"
  have raw: "idRaw i = take 384 src @ certificate_bytes cert" using s(1,4) cert(1) by simp
  have "drop 384 ?src = certificate_bytes cert @ rest" unfolding raw using len by simp
  then have c': "ParseCertificate (drop 384 ?src) = Inr (cert, k)" using ParseCertificate_bytes [OF cs(3)] cs(1) by simp
  have pre: "take m ?src = take m src" if "m \<le> 384" for m
    using that s(2) cert(2) by (simp add: s(1) min_def)
  have n: "take n ?src = take n src" using s(2) by (simp add: s(1))
  have sl: "slice a b ?src = slice a b src" if "b \<le> 384" for a b
    using arg_cong [OF pre [OF that], of "drop a"] by (simp only: slice_def drop_take)
  have same: "ParseIdentity src' = ParseIdentity src"
    if "length src' \<ge> 387" "ParseCertificate (drop 384 src') = Inr (cert, k)" "take (384 + k) src' = take (384 + k) src"
      "\<And>m. m \<le> 384 \<Longrightarrow> take m src' = take m src" "\<And>a b. b \<le> 384 \<Longrightarrow> slice a b src' = slice a b src" for src'
  proof -
    have "identity_keys src' cert (384 + k) = identity_keys src cert (384 + k)"
      using that(3-5) unfolding identity_keys_def IdentityBaseLength_def Let_def by (auto split: option.splits)
    then show ?thesis using len that c by (simp add: ParseIdentity_def IdentityBaseLength_def CertificateHeader_def Let_def)
  qed
  have "length ?src \<ge> 387" using s(1-3) by (simp add: CertificateEncodedLen_def CertificateHeader_def)
  then have "ParseIdentity ?src = ParseIdentity src" using c' n cert(2) pre sl by (intro same) auto
  then show ?thesis using s assms
    by (simp add: SigningKeyParts_def CryptoKeyParts_def CertificateEncodedLen_def CertificateHeader_def)
qed

theorem identity_parse_exact_witness:
  "ParseIdentity (replicate 384 1 @ [0, 0, 0] @ [9, 9]) =
    Inr (\<lparr>idRaw = replicate 384 1 @ [0, 0, 0], idCertificate = \<lparr>cType = 0, cPayload = []\<rparr>, idSigningType = 0, idCryptoType = 0,
      cryptoFirst = replicate 256 1, cryptoRest = [], signingFirst = replicate 128 1, signingRest = []\<rparr>, 387)"
proof -
  have "ParseIdentity (replicate 384 1 @ [0, 0, 0]) =
    Inr (\<lparr>idRaw = replicate 384 1 @ [0, 0, 0], idCertificate = \<lparr>cType = 0, cPayload = []\<rparr>, idSigningType = 0, idCryptoType = 0,
      cryptoFirst = replicate 256 1, cryptoRest = [], signingFirst = replicate 128 1, signingRest = []\<rparr>, 387)"
    by (simp add: ParseIdentity_def IdentityBaseLength_def CertificateHeader_def ParseCertificate_def Uint16_def be_val_def
        validCertificate_def slice_def Let_def)
  from identity_parse_exact [OF this, of "[9, 9]"] show ?thesis by simp
qed

text \<open>
  C25. A mapping with non-nil keys that \<open>MarshalMappingTo\<close> writes is accepted by \<open>ParseMapping\<close> and by
  \<open>ValidateCanonical\<close>, and its iterator yields exactly the entries in order. It is written whenever every key
  and value has at most 255 bytes, the keys ascend strictly, the total fits 16 bits and the buffer is large
  enough. Conversely a parsed canonical mapping is the encoding of such entries.
\<close>

theorem mapping_roundtrip:
  assumes "list_all (\<lambda>e. Key e \<noteq> None) es"
  defines "ps \<equiv> map entry_pair es"
  shows "(case MarshalMappingTo dst es of
      Inr (dst', n) \<Rightarrow> \<exists>m. ParseMapping dst' = Inr (m, n) \<and> ValidateCanonical m = None \<and> drop n dst' = drop n dst \<and>
        drain MappingNext (Suc n) (MappingIterator m) = Some (Inr ps)
    | Inl e \<Rightarrow> \<not> (list_all pair_wf ps \<and> successively key_less ps \<and> length (pairs_bytes ps) \<le> 65535 \<and>
        2 + length (pairs_bytes ps) \<le> length dst))
   \<and> (ParseMapping src = Inr (m, n) \<and> ValidateCanonical m = None \<longrightarrow>
      (\<exists>es'. list_all (\<lambda>e. Key e \<noteq> None) es' \<and> MarshalMappingTo (take n src) es' = Inr (take n src, n)))"
proof (intro conjI impI; (elim conjE)?)
  show "case MarshalMappingTo dst es of
      Inr (dst', n) \<Rightarrow> \<exists>m. ParseMapping dst' = Inr (m, n) \<and> ValidateCanonical m = None \<and> drop n dst' = drop n dst \<and>
        drain MappingNext (Suc n) (MappingIterator m) = Some (Inr ps)
    | Inl e \<Rightarrow> \<not> (list_all pair_wf ps \<and> successively key_less ps \<and> length (pairs_bytes ps) \<le> 65535 \<and>
        2 + length (pairs_bytes ps) \<le> length dst)"
  proof (cases "list_all pair_wf ps \<and> successively key_less ps \<and> length (pairs_bytes ps) \<le> 65535 \<and> 2 + length (pairs_bytes ps) \<le> length dst")
    case True
    then have ok: "list_all pair_wf ps" "successively key_less ps" "length (pairs_bytes ps) \<le> 65535" "2 + length (pairs_bytes ps) \<le> length dst"
      by auto
    note parse = ParseMapping_pairs [OF ok(1,3)]
    have "drain MappingNext (Suc (2 + length (pairs_bytes ps))) (pairs_bytes ps) = Some (Inr ps)"
      using mapping_pairs.drain_encoded [OF ok(1), of "Suc (2 + length (pairs_bytes ps))"]
      by (simp add: pairs_bytes_def del: drain.simps)
    then have "\<exists>m. ParseMapping ((PutUint16 (of_nat (length (pairs_bytes ps))) @ pairs_bytes ps) @ drop (2 + length (pairs_bytes ps)) dst) =
        Inr (m, 2 + length (pairs_bytes ps)) \<and> ValidateCanonical m = None \<and>
        drain MappingNext (Suc (2 + length (pairs_bytes ps))) (MappingIterator m) = Some (Inr ps)"
      using parse ok(2) by (intro exI conjI) (auto simp del: drain.simps)
    moreover have "drop (2 + length (pairs_bytes ps)) ((PutUint16 (of_nat (length (pairs_bytes ps))) @ pairs_bytes ps) @
        drop (2 + length (pairs_bytes ps)) dst) = drop (2 + length (pairs_bytes ps)) dst" by simp
    ultimately show ?thesis
      unfolding MarshalMappingTo_eq [OF assms(1), folded ps_def, OF ok] by (simp only: sum.case prod.case) blast
  next
    case False
    have "\<exists>e. MarshalMappingTo dst es = Inl e"
    proof (cases "MappingEncodedLen es")
      case (Inr k)
      note k = MappingEncodedLen_iff [OF assms(1), folded ps_def, THEN iffD1, OF Inr]
      then have "length dst < k" using False by linarith
      then show ?thesis using Inr by (simp add: MarshalMappingTo_def)
    qed (simp add: MarshalMappingTo_def)
    then show ?thesis using False by auto
  qed
next
  assume p: "ParseMapping src = Inr (m, n)" and v: "ValidateCanonical m = None"
  obtain qs where q: "n \<le> length src" "m = \<lparr>mapRaw = take n src\<rparr>" "list_all pair_wf qs" "length (pairs_bytes qs) \<le> 65535"
    "take n src = PutUint16 (of_nat (length (pairs_bytes qs))) @ pairs_bytes qs"
    by (rule ParseMapping_Some [OF p])
  let ?es = "map (\<lambda>(k, v). \<lparr>Key = Some k, Value = Some v\<rparr>) qs"
  have es: "map entry_pair ?es = qs" "list_all (\<lambda>e. Key e \<noteq> None) ?es"
    by (auto simp: entry_pair_def slice_of_def list_all_iff o_def case_prod_unfold)
  have "successively key_less qs"
    using v ParseMapping_pairs(3) [OF q(3,4)] unfolding q(2,5) by (auto split: if_splits)
  moreover have "n = 2 + length (pairs_bytes qs)" using arg_cong [OF q(5), of length] q(1) by simp
  ultimately show "\<exists>es'. list_all (\<lambda>e. Key e \<noteq> None) es' \<and> MarshalMappingTo (take n src) es' = Inr (take n src, n)"
    using MarshalMappingTo_eq [OF es(2), unfolded es(1), OF q(3) _ q(4), of "take n src"] es(2) q(1,5) by (intro exI [of _ ?es]) simp
qed

definition sample_entries :: "MappingEntry list" where
  "sample_entries = [\<lparr>Key = Some [97], Value = Some [49]\<rparr>, \<lparr>Key = Some [98], Value = None\<rparr>]"

theorem mapping_roundtrip_witness:
  "\<exists>dst' m. MarshalMappingTo (replicate 20 0) sample_entries = Inr (dst', 13) \<and> ParseMapping dst' = Inr (m, 13) \<and>
    drain MappingNext 14 (MappingIterator m) = Some (Inr [([97], [49]), ([98], [])])"
proof -
  have nn: "list_all (\<lambda>e. Key e \<noteq> None) sample_entries" by (simp add: sample_entries_def)
  have ps: "map entry_pair sample_entries = [([97], [49]), ([98], [])]" by (simp add: sample_entries_def entry_pair_def slice_of_def)
  have "\<exists>dst'. MarshalMappingTo (replicate 20 0) sample_entries = Inr (dst', 13)"
    using MarshalMappingTo_eq [OF nn, of "replicate 20 0"] unfolding ps
    by (simp add: pairs_bytes_def pair_bytes_def pair_wf_def key_less_def)
  then obtain dst' where m: "MarshalMappingTo (replicate 20 0) sample_entries = Inr (dst', 13)" ..
  show ?thesis
    using mapping_roundtrip [OF nn, of "replicate 20 0" "[]" \<open>\<lparr>mapRaw = []\<rparr>\<close> 0, THEN conjunct1] unfolding m ps
    by (auto simp del: drain.simps)
qed

text \<open>
  C38. The order check of the mapping writer starts over after a nil key: two entries with nil keys are
  accepted and written, although the result has a repeated key and fails \<open>ValidateCanonical\<close>.
\<close>

theorem mapping_nil_keys_accepted:
  assumes "length v \<le> 255" "length w \<le> 255" "length v + length w + 10 \<le> length dst"
  shows "\<exists>dst' n m. MarshalMappingTo dst [\<lparr>Key = None, Value = Some v\<rparr>, \<lparr>Key = None, Value = Some w\<rparr>] = Inr (dst', n) \<and>
    ParseMapping dst' = Inr (m, n) \<and> ValidateCanonical m = Some ErrUnsortedMapping"
proof -
  let ?es = "[\<lparr>Key = None, Value = Some v\<rparr>, \<lparr>Key = None, Value = Some w\<rparr>]" and ?ps = "[([], v), ([], w)] :: (bytes \<times> bytes) list"
  have ps: "map entry_pair ?es = ?ps" by (simp add: entry_pair_def slice_of_def)
  have len: "length (pairs_bytes ?ps) = length v + length w + 8" by (simp add: pairs_bytes_def pair_bytes_def)
  have el: "MappingEncodedLen ?es = Inr (2 + length (pairs_bytes ?ps))"
    using assms(1,2) by (auto simp: MappingEncodedLen_def slice_of_def len Let_def)
  have m: "MarshalMappingTo dst ?es = Inr ((PutUint16 (of_nat (length (pairs_bytes ?ps))) @ pairs_bytes ?ps) @
      drop (2 + length (pairs_bytes ?ps)) dst, 2 + length (pairs_bytes ?ps))"
    using MarshalMappingTo_written [of ?es dst, unfolded ps] el assms(3) len by simp
  have ok: "list_all pair_wf ?ps" "length (pairs_bytes ?ps) \<le> 65535" using assms by (simp_all add: pair_wf_def len)
  show ?thesis
    unfolding m using ParseMapping_pairs [OF ok] by (intro exI conjI) (auto simp: key_less_def simp del: drain.simps)
qed

theorem mapping_nil_keys_accepted_witness:
  "\<exists>dst' n m. MarshalMappingTo (replicate 12 0) [\<lparr>Key = None, Value = Some [1]\<rparr>, \<lparr>Key = None, Value = Some [2]\<rparr>] = Inr (dst', n) \<and>
    ParseMapping dst' = Inr (m, n) \<and> ValidateCanonical m = Some ErrUnsortedMapping"
  by (rule mapping_nil_keys_accepted) simp_all

end
