(* ===== verification/Signatures.thy ===== *)
theory Signatures
  imports Identity Slab_Pool
begin

text \<open>
  Signature verification of \<open>foundation/internal/identity/signature.go\<close>: the length checks, the
  dispatch on the signing key type, the layout of keys and signatures handed to the primitives, and the
  pooled buffer that joins the type byte of a netdb structure with the signed bytes.

  The primitives themselves (hash functions, curve arithmetic, \<open>ed25519.Verify\<close>, ...) are the fields
  of \<open>crypto_backend\<close>, an argument of every definition that calls them. Big integers are naturals.
\<close>

section \<open>Operations\<close>

datatype curve = P256 | P384 | P521
datatype crypto_hash = SHA1 | SHA256 | SHA384 | SHA512

record crypto_backend =
  hash_sum :: "crypto_hash \<Rightarrow> bytes \<Rightarrow> bytes"
  IsOnCurve :: "curve \<Rightarrow> nat \<Rightarrow> nat \<Rightarrow> bool"
  ecdsa_Verify :: "curve \<Rightarrow> nat \<times> nat \<Rightarrow> bytes \<Rightarrow> nat \<Rightarrow> nat \<Rightarrow> bool"
  rsa_VerifyPKCS1v15 :: "nat \<Rightarrow> nat \<Rightarrow> crypto_hash \<Rightarrow> bytes \<Rightarrow> bytes \<Rightarrow> bool"
  dsa_Verify :: "nat \<times> nat \<times> nat \<Rightarrow> nat \<Rightarrow> bytes \<Rightarrow> nat \<Rightarrow> nat \<Rightarrow> bool"
  ed25519_Verify :: "bytes \<Rightarrow> bytes \<Rightarrow> bytes \<Rightarrow> bool"
  ed25519ph_Verify :: "bytes \<Rightarrow> bytes \<Rightarrow> bytes \<Rightarrow> bool"
  gost_Verify256 :: "bytes \<Rightarrow> bytes \<Rightarrow> bytes \<Rightarrow> bytes \<Rightarrow> bool"
  gost_Verify512 :: "bytes \<Rightarrow> bytes \<Rightarrow> bytes \<Rightarrow> bytes \<Rightarrow> bool"

definition hashMessage :: "crypto_backend \<Rightarrow> crypto_hash \<Rightarrow> bytes \<Rightarrow> bytes result" where
  "hashMessage B hash message =
     (if hash \<in> {SHA256, SHA384, SHA512} then Inr (hash_sum B hash message) else Inl ErrUnsupportedSignature)"

definition verifyECDSA :: "crypto_backend \<Rightarrow> curve \<Rightarrow> crypto_hash \<Rightarrow> bytes \<Rightarrow> bytes \<Rightarrow> bytes \<Rightarrow> bytes \<Rightarrow> bool result" where
  "verifyECDSA B curve hash first rest message signature =
     (let keyLen = length first + length rest;
          encoded = put_at (length first) rest (put_at 0 first (replicate 132 0));
          coordinateLen = keyLen div 2;
          x = be_val (take coordinateLen encoded); y = be_val (slice coordinateLen keyLen encoded) in
      if \<not> IsOnCurve B curve x y then Inr False
      else bindR (hashMessage B hash message) (\<lambda>digest.
        let half = length signature div 2 in
        Inr (ecdsa_Verify B curve (x, y) digest (be_val (take half signature)) (be_val (drop half signature)))))"

definition verifyRSA :: "crypto_backend \<Rightarrow> crypto_hash \<Rightarrow> bytes \<Rightarrow> bytes \<Rightarrow> bytes \<Rightarrow> bytes \<Rightarrow> bool result" where
  "verifyRSA B hash first rest message signature =
     (let encoded = put_at (length first) rest (put_at 0 first (replicate 512 0));
          N = be_val (take (length first + length rest) encoded) in
      bindR (hashMessage B hash message) (\<lambda>digest. Inr (rsa_VerifyPKCS1v15 B N 65537 hash digest signature)))"

text \<open>\<open>big.Int.SetString(encoded, 16)\<close> on the literals of the source: hexadecimal digits, most significant first.\<close>

definition hex_digit :: "char \<Rightarrow> nat option" where
  "hex_digit c =
     (let n = of_char c :: nat in
      if 48 \<le> n \<and> n \<le> 57 then Some (n - 48)
      else if 97 \<le> n \<and> n \<le> 102 then Some (n - 87)
      else if 65 \<le> n \<and> n \<le> 70 then Some (n - 55) else None)"

fun hexInt_loop :: "string \<Rightarrow> nat \<Rightarrow> nat option" where
  "hexInt_loop [] acc = Some acc"
| "hexInt_loop (c # cs) acc = (case hex_digit c of None \<Rightarrow> None | Some d \<Rightarrow> hexInt_loop cs (acc * 16 + d))"

definition hexInt :: "string \<Rightarrow> nat result" where
  "hexInt encoded =
     (case (if encoded = [] then None else hexInt_loop encoded 0) of
        None \<Rightarrow> Inl errMalformedDSAParameter | Some v \<Rightarrow> Inr v)"

definition dsaP :: string where
  "dsaP = ''9c05b2aa960d9b97b8931963c9cc9e8c3026e9b8ed92fad0a69cc886d5bf8015fcadae31a0ad18fab3f01b00a358de237655c4964afaa2b337e96ad316b9fb1cc564b5aec5b69a9ff6c3e4548707fef8503d91dd8602e867e6d35d2235c1869ce2479c3b9d5401de04e0727fb33d6511285d4cf29538d9e3b6051f5b22cc1c93''"

definition dsaQ :: string where "dsaQ = ''a5dfc28fef4ca1e286744cd8eed9d29d684046b7''"

definition dsaG :: string where
  "dsaG = ''0c1f4d27d40093b429e962d7223824e0bbc47e7c832a39236fc683af84889581075ff9082ed32353d4374d7301cda1d23c431f4698599dda02451824ff369752593647cc3ddc197de985e43d136cdcfc6bd5409cd2f450821142a5e6f8eb1c3ab5d0484b8129fcf17bce4f7f33321c3cb3dbb14a905e7b2b3e93be4708cbcc82''"

definition initDSAParameters :: "(nat \<times> nat \<times> nat) result" where
  "initDSAParameters = bindR (hexInt dsaP) (\<lambda>P. bindR (hexInt dsaQ) (\<lambda>Q. bindR (hexInt dsaG) (\<lambda>G. Inr (P, Q, G))))"

definition verifyDSA :: "crypto_backend \<Rightarrow> bytes \<Rightarrow> bytes \<Rightarrow> bytes \<Rightarrow> bool result" where
  "verifyDSA B publicKey message signature =
     (if length publicKey \<noteq> 128 \<or> length signature \<noteq> 40 then Inr False
      else bindR initDSAParameters (\<lambda>params.
        Inr (dsa_Verify B params (be_val publicKey) (hash_sum B SHA1 message)
          (be_val (take 20 signature)) (be_val (drop 20 signature)))))"

definition verify_kind :: "crypto_backend \<Rightarrow> SigningKeyType \<Rightarrow> bytes \<Rightarrow> bytes \<Rightarrow> bytes \<Rightarrow> bytes \<Rightarrow> bool result" where
  "verify_kind B kind first rest message signature =
     (if kind = SigningDSASHA1 then verifyDSA B first message signature
      else if kind = SigningECDSASHA256P256 then verifyECDSA B P256 SHA256 first rest message signature
      else if kind = SigningECDSASHA384P384 then verifyECDSA B P384 SHA384 first rest message signature
      else if kind = SigningECDSASHA512P521 then verifyECDSA B P521 SHA512 first rest message signature
      else if kind = SigningRSASHA256_2048 then verifyRSA B SHA256 first rest message signature
      else if kind = SigningRSASHA384_3072 then verifyRSA B SHA384 first rest message signature
      else if kind = SigningRSASHA512_4096 then verifyRSA B SHA512 first rest message signature
      else if kind = SigningEdDSASHA512Ed25519 then Inr (ed25519_Verify B first message signature)
      else if kind = SigningEdDSASHA512Ed25519ph then Inr (ed25519ph_Verify B first (hash_sum B SHA512 message) signature)
      else if kind = SigningRedDSASHA512Ed25519 then Inr (ed25519_Verify B first message signature)
      else if kind = SigningGOSTR3410_256 then Inr (gost_Verify256 B first message (take 32 signature) (drop 32 signature))
      else if kind = SigningGOSTR3410_512 then Inr (gost_Verify512 B first message (take 64 signature) (drop 64 signature))
      else Inl ErrUnsupportedSignature)"

definition VerifySignature :: "crypto_backend \<Rightarrow> SigningKeyType \<Rightarrow> bytes \<Rightarrow> bytes \<Rightarrow> bytes \<Rightarrow> bytes \<Rightarrow> bool result" where
  "VerifySignature B kind first rest message signature =
     (if SigningPublicKeyLen kind \<noteq> Some (length first + length rest) then Inl ErrInvalidIdentity
      else if SignatureLen kind \<noteq> Some (length signature) then Inl ErrMalformedSignature
      else verify_kind B kind first rest message signature)"

text \<open>\<open>joined\<close> is the memory of the lease, so writing to it writes to the store; a nil \<open>joined\<close> would panic.\<close>

definition VerifySignaturePrefixed ::
  "crypto_backend \<Rightarrow> u8 \<Rightarrow> SigningKeyType \<Rightarrow> bytes \<Rightarrow> bytes \<Rightarrow> bytes \<Rightarrow> bytes \<Rightarrow> nat option \<Rightarrow> slab_state \<Rightarrow> bool result \<times> slab_state" where
  "VerifySignaturePrefixed B pre kind first rest message signature pick st =
     (case AcquireLease (int (length message + 1)) pick st of
        (None, st1) \<Rightarrow> (Inl ErrMalformedSignature, st1)
      | (Some a, st1) \<Rightarrow>
          (case LeaseBytes (Some a) (int (length message + 1)) st1 of
             None \<Rightarrow> (Inl Panic, st1)
           | Some joined \<Rightarrow>
               let joined1 = put_at 1 message (joined[0 := pre]);
                   l = leases st1 ! a;
                   st2 = st1\<lparr>leases := (leases st1)[a := l\<lparr>lbuf := put_at 0 joined1 (lbuf l)\<rparr>]\<rparr>
               in (VerifySignature B kind first rest joined1 signature, LeaseRelease (Some a) st2)))"

definition IdentityVerify :: "crypto_backend \<Rightarrow> Identity \<Rightarrow> bytes \<Rightarrow> bytes \<Rightarrow> bool result" where
  "IdentityVerify B i message signature =
     (let (first, rest) = SigningKeyParts i in VerifySignature B (idSigningType i) first rest message signature)"

section \<open>The static DSA parameters are well formed\<close>

lemma hexInt_loop_total: "list_all (\<lambda>c. hex_digit c \<noteq> None) cs \<Longrightarrow> \<exists>v. hexInt_loop cs acc = Some v"
  by (induction cs arbitrary: acc) auto

lemma hexInt_total: "cs \<noteq> [] \<and> list_all (\<lambda>c. hex_digit c \<noteq> None) cs \<Longrightarrow> \<exists>v. hexInt cs = Inr v"
  using hexInt_loop_total [of cs 0] by (auto simp: hexInt_def)

lemma initDSAParameters_total: "\<exists>params. initDSAParameters = Inr params"
proof -
  have "\<exists>v. hexInt dsaP = Inr v" by (rule hexInt_total) code_simp
  moreover have "\<exists>v. hexInt dsaQ = Inr v" by (rule hexInt_total) code_simp
  moreover have "\<exists>v. hexInt dsaG = Inr v" by (rule hexInt_total) code_simp
  ultimately show ?thesis by (auto simp: initDSAParameters_def)
qed

lemma known_kinds:
  "SigningPublicKeyLen kind = Some n \<Longrightarrow> kind \<in> {0, 1, 2, 3, 4, 5, 6, 7, 8, 9, 10, 11} \<and> (\<exists>k. SignatureLen kind = Some k)"
  by (auto simp: SigningPublicKeyLen_def SignatureLen_def split: if_splits)

lemma verify_total:
  "\<exists>b. verifyDSA B first message signature = Inr b"
  "hash \<noteq> SHA1 \<Longrightarrow> \<exists>b. verifyECDSA B curve hash first rest message signature = Inr b"
  "hash \<noteq> SHA1 \<Longrightarrow> \<exists>b. verifyRSA B hash first rest message signature = Inr b"
proof -
  obtain params where params: "initDSAParameters = Inr params" using initDSAParameters_total by blast
  show "\<exists>b. verifyDSA B first message signature = Inr b" unfolding verifyDSA_def params by auto
  have h: "hashMessage B hash message = Inr (hash_sum B hash message)" if "hash \<noteq> SHA1"
    using that by (cases hash) (auto simp: hashMessage_def)
  show "\<exists>b. verifyECDSA B curve hash first rest message signature = Inr b" if "hash \<noteq> SHA1"
    using h [OF that] by (auto simp: verifyECDSA_def Let_def)
  show "\<exists>b. verifyRSA B hash first rest message signature = Inr b" if "hash \<noteq> SHA1"
    using h [OF that] by (simp add: verifyRSA_def Let_def)
qed

lemma verify_kind_total:
  assumes "kind \<in> {0, 1, 2, 3, 4, 5, 6, 7, 8, 9, 10, 11}"
  shows "\<exists>b. verify_kind B kind first rest message signature = Inr b"
  unfolding verify_kind_def using assms by (simp add: verify_total) blast

section \<open>The pooled join\<close>

lemma joined_eq: "length joined = Suc (length message) \<Longrightarrow> put_at 1 message (joined[0 := pre]) = pre # message"
  by (cases joined) (simp_all add: put_at_def)

lemma slab_ok_write:
  assumes "slab_ok st" "a < length (leases st)" "length buf = length (lbuf (leases st ! a))"
  shows "slab_ok (st\<lparr>leases := (leases st)[a := (leases st ! a)\<lparr>lbuf := buf\<rparr>]\<rparr>)"
  using assms by (auto simp: slab_ok_def nth_list_update dest!: set_update_subset_insert [THEN subsetD])

lemma VerifySignaturePrefixed_join:
  assumes "slab_ok st"
  shows "\<exists>st'. VerifySignaturePrefixed B pre kind first rest message signature pick st =
      (VerifySignature B kind first rest (pre # message) signature, st') \<and> slab_ok st' \<and>
    (\<forall>x. lease_live st' x \<longleftrightarrow> lease_live st x) \<and> (\<forall>x. lease_live st x \<longrightarrow> leases st' ! x = leases st ! x)"
proof -
  let ?n = "int (length message + 1)"
  obtain a st1 where a: "AcquireLease ?n pick st = (Some a, st1)" "slab_ok st1" "\<not> lease_live st a"
    "\<forall>x. lease_live st1 x \<longleftrightarrow> x = a \<or> lease_live st x"
    "\<forall>x. lease_live st x \<longrightarrow> leases st1 ! x = leases st ! x" "nat ?n \<le> lease_cap st1 a"
    using AcquireLease_spec [OF assms, of ?n pick] by auto
  have live: "lease_live st1 a" using a(4) by simp
  let ?l = "leases st1 ! a"
  have joined: "LeaseBytes (Some a) ?n st1 = Some (take (Suc (length message)) (lbuf ?l))"
    using live a(6) by (auto simp: LeaseBytes_def lease_live_def lease_cap_def nat_add_distrib)
  have len: "length (take (Suc (length message)) (lbuf ?l)) = Suc (length message)" using a(6) by (simp add: lease_cap_def)
  define st2 where "st2 = st1\<lparr>leases := (leases st1)[a := ?l\<lparr>lbuf := put_at 0 (pre # message) (lbuf ?l)\<rparr>]\<rparr>"
  have eq: "VerifySignaturePrefixed B pre kind first rest message signature pick st =
      (VerifySignature B kind first rest (pre # message) signature, LeaseRelease (Some a) st2)"
    unfolding VerifySignaturePrefixed_def a(1) prod.case option.case joined joined_eq [OF len] Let_def st2_def ..
  have lt: "a < length (leases st1)" using live by (simp add: lease_live_def)
  have ok: "slab_ok st2" "lease_live st2 x \<longleftrightarrow> lease_live st1 x" "x \<noteq> a \<Longrightarrow> leases st2 ! x = leases st1 ! x" for x
    using slab_ok_write [OF a(2) lt, of "put_at 0 (pre # message) (lbuf ?l)"] live
    by (auto simp: st2_def lease_live_def nth_list_update)
  have "lease_live st2 a" using live ok(2) by simp
  note r = LeaseRelease_spec [OF ok(1) this]
  have keep: "leases (LeaseRelease (Some a) st2) ! x = leases st ! x" if "lease_live st x" for x
  proof -
    have "x \<noteq> a" using that a(3) by blast
    then show ?thesis using r(3) ok(3) a(5) that by simp
  qed
  show ?thesis using r(1,2) a(3,4) ok(2) keep by (intro exI [of _ "LeaseRelease (Some a) st2"]) (auto simp: eq)
qed

section \<open>Properties\<close>

text \<open>
  Verifying a signature over a netdb structure through the pooled buffer is verifying it over the
  type byte followed by the signed bytes, whatever the buffer held before and whichever buffer the pool
  hands out: the joined message is exactly \<open>prefix || message\<close>. The pool stays consistent, the buffer goes
  back to it, and no lease that somebody else holds is touched.
\<close>

theorem verify_prefixed_equivalence:
  assumes "slab_ok st"
  shows "\<exists>st'. VerifySignaturePrefixed B pre kind first rest message signature pick st =
      (VerifySignature B kind first rest (pre # message) signature, st') \<and> slab_ok st' \<and>
    (\<forall>x. lease_live st' x \<longleftrightarrow> lease_live st x) \<and> (\<forall>x. lease_live st x \<longrightarrow> leases st' ! x = leases st ! x)"
  using VerifySignaturePrefixed_join [OF assms] .

text \<open>The hypothesis holds of the initial pool.\<close>

theorem verify_prefixed_equivalence_witness:
  "\<forall>B. \<exists>st'. VerifySignaturePrefixed B 3 SigningEdDSASHA512Ed25519 (replicate 32 1) [] [5, 6] (replicate 64 2) None slab_init =
      (Inr (ed25519_Verify B (replicate 32 1) [3, 5, 6] (replicate 64 2)), st') \<and> slab_ok st'"
proof
  fix B :: crypto_backend
  show "\<exists>st'. VerifySignaturePrefixed B 3 SigningEdDSASHA512Ed25519 (replicate 32 1) [] [5, 6] (replicate 64 2) None slab_init =
      (Inr (ed25519_Verify B (replicate 32 1) [3, 5, 6] (replicate 64 2)), st') \<and> slab_ok st'"
    using verify_prefixed_equivalence [OF slab_ok_init, of B 3 SigningEdDSASHA512Ed25519 "replicate 32 1" "[]" "[5, 6]" "replicate 64 2" None]
    by (auto simp: VerifySignature_def verify_kind_def SigningPublicKeyLen_def SignatureLen_def)
qed

text \<open>
  For the key of an identity that \<open>ParseIdentity\<close> accepted, verification always ends in a verdict:
  the only error is \<open>ErrMalformedSignature\<close>, and it is returned exactly for a signature whose length is not
  the one of the key type. In particular the unsupported-type branch is unreachable and the static DSA
  parameters parse.
\<close>

theorem identity_verify_total:
  assumes "ParseIdentity src = Inr (i, n)"
  shows "\<exists>k. SignatureLen (idSigningType i) = Some k \<and>
    (if length signature = k then \<exists>b. IdentityVerify B i message signature = Inr b
     else IdentityVerify B i message signature = Inl ErrMalformedSignature)"
proof -
  have len: "SigningPublicKeyLen (idSigningType i) = Some (length (signingFirst i) + length (signingRest i))"
    using ParseIdentity_Some(5) [OF assms] by simp
  note k = known_kinds [OF len]
  then obtain m where "SignatureLen (idSigningType i) = Some m" by blast
  then show ?thesis
    using k verify_kind_total [of "idSigningType i" B "signingFirst i" "signingRest i" message signature]
    by (auto simp: IdentityVerify_def SigningKeyParts_def VerifySignature_def len)
qed

text \<open>The hypothesis at a legacy identity (null certificate, DSA key).\<close>

theorem identity_verify_total_witness:
  "\<exists>i. ParseIdentity (replicate 384 1 @ [0, 0, 0]) = Inr (i, 387) \<and>
     (\<forall>B message. (\<exists>b. IdentityVerify B i message (replicate 40 7) = Inr b) \<and>
       IdentityVerify B i message (replicate 39 7) = Inl ErrMalformedSignature)"
proof -
  let ?src = "replicate 384 1 @ [0, 0, 0] :: bytes"
  let ?i = "\<lparr>idRaw = ?src, idCertificate = \<lparr>cType = 0, cPayload = []\<rparr>, idSigningType = 0, idCryptoType = 0,
    cryptoFirst = replicate 256 1, cryptoRest = [], signingFirst = replicate 128 1, signingRest = []\<rparr>"
  have p: "ParseIdentity ?src = Inr (?i, 387)"
    by (simp add: ParseIdentity_def IdentityBaseLength_def CertificateHeader_def ParseCertificate_def validCertificate_def
        slice_def Uint16_def be_val_def Let_def take_replicate drop_replicate)
  have "SignatureLen (idSigningType ?i) = Some 40" by (simp add: SignatureLen_def)
  then show ?thesis
    using identity_verify_total [OF p, of "replicate 40 7"] identity_verify_total [OF p, of "replicate 39 7"] p by fastforce
qed

end
