(* ===== verification/NetDB_Structures.thy ===== *)
theory NetDB_Structures
  imports Wire I2NP Identity Signatures
begin

text \<open>
  The network-database structures of \<open>foundation/internal/netdb/structures.go\<close>: router addresses and
  RouterInfo, legacy leases and LeaseSet, the LeaseSet2 header with its offline signature, Lease2,
  encryption keys and LeaseSet2, with their parsers, iterators, key selection and verification.

  A parser is a chain of cursor reads; each early return of the source is an \<open>Inl\<close> of the chain. An
  iterator is its remaining bytes (with the remaining count where the source keeps one), and \<open>Next\<close> returns
  the item with the advanced iterator. A nil slice is \<open>None\<close> where the code tests for it.
\<close>

section \<open>Constants\<close>

definition MaxRouterInfoBytes :: nat where "MaxRouterInfoBytes = 4 * 1024"
definition MaxLeaseSetBytes :: nat where "MaxLeaseSetBytes = I2PDMaxPayload"
definition MinEncryptedLeaseSetDataBytes :: nat where "MinEncryptedLeaseSetDataBytes = 24"
definition MaxEncryptedLeaseSetDataBytes :: nat where "MaxEncryptedLeaseSetDataBytes = 4096"
definition MaxRouterAddresses :: nat where "MaxRouterAddresses = 255"
definition MaxRouterPeers :: nat where "MaxRouterPeers = 255"
definition MaxLeases :: nat where "MaxLeases = 16"
definition MaxLeaseSet2Keys :: nat where "MaxLeaseSet2Keys = 8"
definition NativeNetID :: u32 where "NativeNetID = 2"
definition LeaseSetOfflineFlag :: u16 where "LeaseSetOfflineFlag = 1"

text \<open>\<open>[]byte("...")\<close> of an ASCII literal, and \<open>if err != nil { return err }\<close> for a call that only returns an error.\<close>

definition ascii :: "string \<Rightarrow> bytes" where "ascii s = map of_char s"

definition guardR :: "error option \<Rightarrow> unit result" where
  "guardR e = (case e of None \<Rightarrow> Inr () | Some x \<Rightarrow> Inl x)"

definition known_len :: "nat option \<Rightarrow> nat result" where
  "known_len n = (case n of None \<Rightarrow> Inl ErrUnknownKeyType | Some k \<Rightarrow> Inr k)"

section \<open>Router addresses\<close>

record RouterAddress =
  raCost :: u8
  raExpiration :: u64
  raTransportStyle :: bytes
  raOptions :: Mapping
  raRaw :: bytes

definition ParseRouterAddress :: "bytes \<Rightarrow> (RouterAddress \<times> nat) result" where
  "ParseRouterAddress src =
     bindR (ReadU8 (NewCursor src)) (\<lambda>(cost, c1).
     bindR (ReadU64 c1) (\<lambda>(expiration, c2).
     bindR (ReadU8 c2) (\<lambda>(styleLen, c3).
     if styleLen = 0 then Inl NetDBErrMalformed
     else bindR (ReadBytes (int (unat styleLen)) c3) (\<lambda>(style, c4).
     bindR (ParseMapping (CursorBytes c4)) (\<lambda>(options, n).
     bindR (guardR (ValidateCanonical options)) (\<lambda>_.
     bindR (CursorSkip (int n) c4) (\<lambda>c5.
     Inr (\<lparr>raCost = cost, raExpiration = expiration, raTransportStyle = style, raOptions = options,
            raRaw = take (cur_off c5) src\<rparr>, cur_off c5))))))))"

type_synonym counted_iterator = "bytes \<times> u8"

definition RouterAddressNext :: "counted_iterator \<Rightarrow> (RouterAddress \<times> counted_iterator) option result" where
  "RouterAddressNext it =
     (if snd it = 0 then Inr None
      else bindR (ParseRouterAddress (fst it)) (\<lambda>(address, n). Inr (Some (address, (drop n (fst it), snd it - 1)))))"

section \<open>RouterInfo\<close>

record RouterInfo =
  riIdentity :: Identity
  riPublished :: u64
  riAddressCount :: u8
  riAddresses :: bytes
  riPeerHashes :: bytes
  riOptions :: Mapping
  riSignature :: bytes
  riUnsigned :: bytes
  riRaw :: bytes

definition RouterInfoHash :: "RouterInfo \<Rightarrow> bytes" where "RouterInfoHash r = IdentityHash (riIdentity r)"
definition RouterInfoAddresses :: "RouterInfo \<Rightarrow> counted_iterator" where
  "RouterInfoAddresses r = (riAddresses r, riAddressCount r)"
definition RouterPeerCount :: "RouterInfo \<Rightarrow> nat" where "RouterPeerCount r = length (riPeerHashes r) div HashLength"

function floodfill_loop :: "bytes \<Rightarrow> bool" where
  "floodfill_loop it =
     (case MappingNext it of
        Inr (Some ((key, val), it')) \<Rightarrow>
          if key = ascii ''caps'' \<and> of_char (CHR ''f'') \<in> set val then True else floodfill_loop it'
      | _ \<Rightarrow> False)"
  by pat_completeness auto
termination by (relation "measure length") (auto dest: MappingNext_shrinks)

definition IsFloodfill :: "RouterInfo \<Rightarrow> bool" where
  "IsFloodfill r = floodfill_loop (MappingIterator (riOptions r))"

definition RouterInfoVerify :: "crypto_backend \<Rightarrow> RouterInfo \<Rightarrow> bool result" where
  "RouterInfoVerify B r = IdentityVerify B (riIdentity r) (riUnsigned r) (riSignature r)"

text \<open>
  \<open>strconv.ParseUint(s, 10, bits)\<close>: decimal digits only, at least one, and an error as soon as the number
  exceeds the largest value of \<open>bits\<close> bits.
\<close>

fun ParseUint_loop :: "nat \<Rightarrow> bytes \<Rightarrow> nat \<Rightarrow> nat option" where
  "ParseUint_loop bits [] n = Some n"
| "ParseUint_loop bits (c # cs) n =
     (if unat c < 48 \<or> 57 < unat c then None
      else let n1 = n * 10 + (unat c - 48) in if n1 \<ge> 2 ^ bits then None else ParseUint_loop bits cs n1)"

definition ParseUint :: "nat \<Rightarrow> bytes \<Rightarrow> nat option" where
  "ParseUint bits s = (if s = [] then None else ParseUint_loop bits s 0)"

function netid_loop :: "bytes \<Rightarrow> u32 result" where
  "netid_loop it =
     (case MappingNext it of
        Inl e \<Rightarrow> Inl e
      | Inr None \<Rightarrow> Inr NativeNetID
      | Inr (Some ((key, val), it')) \<Rightarrow>
          if key \<noteq> ascii ''netId'' then netid_loop it'
          else case ParseUint 32 val of
            None \<Rightarrow> Inl ErrInvalidNetID
          | Some n \<Rightarrow> if n > 255 then Inl ErrInvalidNetID else Inr (of_nat n))"
  by pat_completeness auto
termination by (relation "measure length") (auto dest: MappingNext_shrinks)

definition NetID :: "RouterInfo \<Rightarrow> u32 result" where
  "NetID r = netid_loop (MappingIterator (riOptions r))"

fun skip_addresses :: "nat \<Rightarrow> Cursor \<Rightarrow> Cursor result" where
  "skip_addresses 0 c = Inr c"
| "skip_addresses (Suc k) c =
     bindR (ParseRouterAddress (CursorBytes c)) (\<lambda>(_, used).
     bindR (CursorSkip (int used) c) (\<lambda>c'. skip_addresses k c'))"

definition ParseRouterInfo :: "bytes \<Rightarrow> RouterInfo result" where
  "ParseRouterInfo src =
     (if length src > MaxRouterInfoBytes then Inl ErrStructureTooLarge
      else bindR (ParseIdentity src) (\<lambda>(identity, n).
        bindR (ReadU64 (NewCursor (drop n src))) (\<lambda>(published, c1).
        bindR (ReadU8 c1) (\<lambda>(addressCount, c2).
        bindR (skip_addresses (unat addressCount) c2) (\<lambda>c3.
        let addresses = slice (n + cur_off c2) (n + cur_off c3) src in
        bindR (ReadU8 c3) (\<lambda>(peerCount, c4).
        bindR (ReadBytes (int (unat peerCount * HashLength)) c4) (\<lambda>(peerHashes, c5).
        bindR (ParseMapping (CursorBytes c5)) (\<lambda>(options, used).
        bindR (guardR (ValidateCanonical options)) (\<lambda>_.
        bindR (CursorSkip (int used) c5) (\<lambda>c6.
        bindR (known_len (SignatureLen (idSigningType identity))) (\<lambda>signingLen.
        let unsignedEnd = n + cur_off c6 in
        bindR (ReadBytes (int signingLen) c6) (\<lambda>(signature, c7).
        if \<not> CursorDone c7 then Inl NetDBErrMalformed
        else Inr \<lparr>riIdentity = identity, riPublished = published, riAddressCount = addressCount,
          riAddresses = addresses, riPeerHashes = peerHashes, riOptions = options, riSignature = signature,
          riUnsigned = take unsignedEnd src, riRaw = src\<rparr>))))))))))))"

section \<open>Legacy leases\<close>

text \<open>The loop \<open>for offset := 0; offset < len(bs); offset += w\<close> that parses each record; \<open>w\<close> is a positive constant.\<close>

function check_each :: "(bytes \<Rightarrow> 'a result) \<Rightarrow> nat \<Rightarrow> bytes \<Rightarrow> unit result" where
  "check_each p w bs = (if bs = [] \<or> w = 0 then Inr () else bindR (p bs) (\<lambda>_. check_each p w (drop w bs)))"
  by pat_completeness auto
termination by (relation "measure (\<lambda>(p, w, bs). length bs)") auto

record LegacyLease =
  leGateway :: bytes
  leTunnelID :: u32
  leEndDate :: u64

definition parseLease :: "bytes \<Rightarrow> LegacyLease result" where
  "parseLease src =
     (if length src < 44 then Inl ErrShortBuffer
      else let tunnelID = Uint32 (slice 32 36 src) in
        if tunnelID = 0 then Inl NetDBErrMalformed
        else Inr \<lparr>leGateway = take 32 src, leTunnelID = tunnelID, leEndDate = Uint64 (slice 36 44 src)\<rparr>)"

definition LeaseNext :: "bytes \<Rightarrow> (LegacyLease \<times> bytes) option result" where
  "LeaseNext it =
     (if it = [] then Inr None else bindR (parseLease it) (\<lambda>lease. Inr (Some (lease, drop 44 it))))"

record LeaseSet =
  lsDestination :: Identity
  lsEncryptionKey :: bytes
  lsSigningKey :: bytes
  lsLeaseCount :: u8
  lsLeases :: bytes
  lsSignature :: bytes
  lsUnsigned :: bytes
  lsRaw :: bytes

definition LeaseSetHash :: "LeaseSet \<Rightarrow> bytes" where "LeaseSetHash s = IdentityHash (lsDestination s)"

definition LeaseSetVerify :: "crypto_backend \<Rightarrow> LeaseSet \<Rightarrow> bool result" where
  "LeaseSetVerify B s = IdentityVerify B (lsDestination s) (lsUnsigned s) (lsSignature s)"

definition ParseLeaseSet :: "bytes \<Rightarrow> LeaseSet result" where
  "ParseLeaseSet src =
     (if length src > MaxLeaseSetBytes then Inl ErrStructureTooLarge
      else bindR (ParseIdentity src) (\<lambda>(destination, n).
        bindR (ReadBytes 256 (NewCursor (drop n src))) (\<lambda>(encryptionKey, c1).
        bindR (known_len (SigningPublicKeyLen (idSigningType destination))) (\<lambda>signingKeyLen.
        bindR (ReadBytes (int signingKeyLen) c1) (\<lambda>(signingKey, c2).
        bindR (ReadU8 c2) (\<lambda>(leaseCount, c3).
        if unat leaseCount > MaxLeases then Inl ErrTooManyItems
        else bindR (ReadBytes (int (unat leaseCount * 44)) c3) (\<lambda>(ls, c4).
        bindR (check_each parseLease 44 ls) (\<lambda>_.
        let unsignedEnd = n + cur_off c4 in
        bindR (known_len (SignatureLen (idSigningType destination))) (\<lambda>signatureLen.
        bindR (ReadBytes (int signatureLen) c4) (\<lambda>(signature, c5).
        if \<not> CursorDone c5 then Inl NetDBErrMalformed
        else Inr \<lparr>lsDestination = destination, lsEncryptionKey = encryptionKey, lsSigningKey = signingKey,
          lsLeaseCount = leaseCount, lsLeases = ls, lsSignature = signature,
          lsUnsigned = take unsignedEnd src, lsRaw = src\<rparr>))))))))))"

section \<open>LeaseSet2\<close>

record OfflineSignature =
  offExpires :: u32
  offType :: SigningKeyType
  offPublicKey :: "bytes option"
  offSignature :: bytes
  offSigned :: bytes

definition no_offline :: OfflineSignature where
  "no_offline = \<lparr>offExpires = 0, offType = 0, offPublicKey = None, offSignature = [], offSigned = []\<rparr>"

definition Present :: "OfflineSignature \<Rightarrow> bool" where "Present o' \<longleftrightarrow> offPublicKey o' \<noteq> None"

record LeaseSet2Header =
  hDestination :: Identity
  hPublished :: u32
  hExpires :: u16
  hFlags :: u16
  hOffline :: OfflineSignature

text \<open>The offline block of the header: it starts at the cursor and its signature is made with the key type \<open>signer\<close>.\<close>

definition parse_offline :: "bytes \<Rightarrow> nat \<Rightarrow> SigningKeyType \<Rightarrow> Cursor \<Rightarrow> (OfflineSignature \<times> Cursor) result" where
  "parse_offline src n signer c =
     (let offlineStart = cur_off c in
      bindR (ReadU32 c) (\<lambda>(offlineExpires, c1).
      bindR (ReadU16 c1) (\<lambda>(offlineType, c2).
      bindR (known_len (SigningPublicKeyLen offlineType)) (\<lambda>keyLen.
      bindR (ReadBytes (int keyLen) c2) (\<lambda>(publicKey, c3).
      bindR (known_len (SignatureLen signer)) (\<lambda>signatureLen.
      bindR (ReadBytes (int signatureLen) c3) (\<lambda>(signature, c4).
      Inr (\<lparr>offExpires = offlineExpires, offType = offlineType, offPublicKey = Some publicKey, offSignature = signature,
             offSigned = slice (n + offlineStart) (n + cur_off c4 - signatureLen) src\<rparr>, c4))))))))"

definition parseLeaseSet2Header :: "bytes \<Rightarrow> (LeaseSet2Header \<times> nat) result" where
  "parseLeaseSet2Header src =
     bindR (ParseIdentity src) (\<lambda>(destination, n).
     bindR (ReadU32 (NewCursor (drop n src))) (\<lambda>(published, c1).
     bindR (ReadU16 c1) (\<lambda>(expires, c2).
     bindR (ReadU16 c2) (\<lambda>(flags, c3).
     let header = \<lparr>hDestination = destination, hPublished = published, hExpires = expires, hFlags = flags,
                   hOffline = no_offline\<rparr> in
     if flags AND LeaseSetOfflineFlag = 0 then Inr (header, n + cur_off c3)
     else bindR (parse_offline src n (idSigningType destination) c3) (\<lambda>(off, c4).
       Inr (header\<lparr>hOffline := off\<rparr>, n + cur_off c4))))))"

record Lease2 =
  l2Gateway :: bytes
  l2TunnelID :: u32
  l2EndDate :: u32

definition parseLease2 :: "bytes \<Rightarrow> Lease2 result" where
  "parseLease2 src =
     (if length src < 40 then Inl ErrShortBuffer
      else let tunnelID = Uint32 (slice 32 36 src) in
        if tunnelID = 0 then Inl NetDBErrMalformed
        else Inr \<lparr>l2Gateway = take 32 src, l2TunnelID = tunnelID, l2EndDate = Uint32 (slice 36 40 src)\<rparr>)"

definition Lease2Next :: "bytes \<Rightarrow> (Lease2 \<times> bytes) option result" where
  "Lease2Next it =
     (if it = [] then Inr None else bindR (parseLease2 it) (\<lambda>lease. Inr (Some (lease, drop 40 it))))"

record EncryptionKey =
  ekType :: CryptoKeyType
  ekData :: bytes

definition EncryptionKeyNext :: "counted_iterator \<Rightarrow> (EncryptionKey \<times> counted_iterator) option result" where
  "EncryptionKeyNext it =
     (let rest = fst it in
      if snd it = 0 then Inr None
      else if length rest < 4 then Inl ErrShortBuffer
      else let keyType = Uint16 (take 2 rest) in
        if keyType = 5 then Inl ErrNoSupportedEncryptionKey
        else let keyLen = unat (Uint16 (slice 2 4 rest)) in
          if keyLen > length rest - 4 then Inl ErrShortBuffer
          else if CryptoPublicKeyLen keyType \<noteq> None \<and> CryptoPublicKeyLen keyType \<noteq> Some keyLen then Inl ErrInvalidKeyLength
          else Inr (Some (\<lparr>ekType = keyType, ekData = slice 4 (4 + keyLen) rest\<rparr>,
                 (drop (4 + keyLen) rest, snd it - 1))))"

lemma EncryptionKeyNext_left:
  "EncryptionKeyNext it = Inr (Some (k, it')) \<Longrightarrow> snd it \<noteq> 0 \<and> snd it' = snd it - 1"
  by (auto simp: EncryptionKeyNext_def Let_def split: if_splits)

lemma unat_dec: "w \<noteq> 0 \<Longrightarrow> unat (w - 1 :: u8) = unat w - 1"
  by (simp add: unat_minus_one)

lemma EncryptionKeyNext_shrinks: "EncryptionKeyNext it = Inr (Some (k, it')) \<Longrightarrow> unat (snd it') < unat (snd it)"
  using EncryptionKeyNext_left [of it k it'] unat_dec [of "snd it"] by (simp add: unat_gt_0 [symmetric])

record LeaseSet2 =
  s2Header :: LeaseSet2Header
  s2Options :: Mapping
  s2KeyCount :: u8
  s2Keys :: bytes
  s2LeaseCount :: u8
  s2Leases :: bytes
  s2Signature :: bytes
  s2Unsigned :: bytes
  s2Raw :: bytes

definition LeaseSet2Hash :: "LeaseSet2 \<Rightarrow> bytes" where "LeaseSet2Hash s = IdentityHash (hDestination (s2Header s))"
definition LeaseSet2Keys :: "LeaseSet2 \<Rightarrow> counted_iterator" where "LeaseSet2Keys s = (s2Keys s, s2KeyCount s)"

text \<open>The inner loop of \<open>SelectEncryptionKey\<close>: \<open>None\<close> when the iterator ends without the preferred type.\<close>

function find_key :: "CryptoKeyType \<Rightarrow> counted_iterator \<Rightarrow> EncryptionKey option result" where
  "find_key preferred it =
     (case EncryptionKeyNext it of
        Inl e \<Rightarrow> Inl e
      | Inr None \<Rightarrow> Inr None
      | Inr (Some (key, it')) \<Rightarrow> if ekType key = preferred then Inr (Some key) else find_key preferred it')"
  by pat_completeness auto
termination by (relation "measure (\<lambda>(p, it). unat (snd it))") (auto dest: EncryptionKeyNext_shrinks)

fun SelectEncryptionKey :: "LeaseSet2 \<Rightarrow> CryptoKeyType list \<Rightarrow> EncryptionKey result" where
  "SelectEncryptionKey s [] = Inl ErrNoSupportedEncryptionKey"
| "SelectEncryptionKey s (preferred # supported) =
     (case find_key preferred (LeaseSet2Keys s) of
        Inl e \<Rightarrow> Inl e
      | Inr (Some key) \<Rightarrow> Inr key
      | Inr None \<Rightarrow> SelectEncryptionKey s supported)"

lemma Lease2Next_shrinks: "Lease2Next it = Inr (Some (l, it')) \<Longrightarrow> length it' < length it"
  by (auto simp: Lease2Next_def bindR_eq_Inr split: if_splits)

function live_loop :: "u64 \<Rightarrow> bytes \<Rightarrow> bool result" where
  "live_loop now it =
     (case Lease2Next it of
        Inl e \<Rightarrow> Inl e
      | Inr None \<Rightarrow> Inr False
      | Inr (Some (lease, it')) \<Rightarrow> if ucast (l2EndDate lease) > now then Inr True else live_loop now it')"
  by pat_completeness auto
termination by (relation "measure (\<lambda>(n, it). length it)") (auto dest: Lease2Next_shrinks)

definition SelectUsableEncryptionKey :: "LeaseSet2 \<Rightarrow> u64 \<Rightarrow> CryptoKeyType list \<Rightarrow> EncryptionKey result" where
  "SelectUsableEncryptionKey s nowMillis supported =
     bindR (live_loop (nowMillis div 1000) (s2Leases s)) (\<lambda>live.
       if \<not> live then Inl ErrELSExpired else SelectEncryptionKey s supported)"

text \<open>The lease loop of \<open>Verify\<close>: whether every lease ends by the expiry of the offline key.\<close>

function within_loop :: "u32 \<Rightarrow> bytes \<Rightarrow> bool result" where
  "within_loop expires it =
     (case Lease2Next it of
        Inl e \<Rightarrow> Inl e
      | Inr None \<Rightarrow> Inr True
      | Inr (Some (lease, it')) \<Rightarrow> if l2EndDate lease > expires then Inr False else within_loop expires it')"
  by pat_completeness auto
termination by (relation "measure (\<lambda>(n, it). length it)") (auto dest: Lease2Next_shrinks)

text \<open>The expiry guard: 64-bit additions of a 32-bit and a 16-bit number do not wrap.\<close>

definition offline_outlived :: "u32 \<Rightarrow> u16 \<Rightarrow> OfflineSignature \<Rightarrow> bool" where
  "offline_outlived published expires off \<longleftrightarrow>
     published > offExpires off \<or> (ucast published :: u64) + ucast expires > ucast (offExpires off)"

definition LeaseSet2Verify :: "crypto_backend \<Rightarrow> LeaseSet2 \<Rightarrow> nat option \<Rightarrow> slab_state \<Rightarrow> bool result \<times> slab_state" where
  "LeaseSet2Verify B s pick st =
     (let h = s2Header s; signingType = idSigningType (hDestination h); (first, rest) = SigningKeyParts (hDestination h) in
      case offPublicKey (hOffline h) of
        None \<Rightarrow> VerifySignaturePrefixed B 3 signingType first rest (s2Unsigned s) (s2Signature s) pick st
      | Some key \<Rightarrow>
          if offline_outlived (hPublished h) (hExpires h) (hOffline h) then (Inr False, st)
          else case within_loop (offExpires (hOffline h)) (s2Leases s) of
            Inl e \<Rightarrow> (Inl e, st)
          | Inr False \<Rightarrow> (Inr False, st)
          | Inr True \<Rightarrow>
              (case IdentityVerify B (hDestination h) (offSigned (hOffline h)) (offSignature (hOffline h)) of
                 Inl e \<Rightarrow> (Inl e, st)
               | Inr False \<Rightarrow> (Inr False, st)
               | Inr True \<Rightarrow>
                   VerifySignaturePrefixed B 3 (offType (hOffline h)) key [] (s2Unsigned s) (s2Signature s) pick st))"

function keys_end :: "counted_iterator \<Rightarrow> bytes result" where
  "keys_end it =
     (case EncryptionKeyNext it of
        Inl e \<Rightarrow> Inl e
      | Inr None \<Rightarrow> Inr (fst it)
      | Inr (Some (_, it')) \<Rightarrow> keys_end it')"
  by pat_completeness auto
termination by (relation "measure (\<lambda>it. unat (snd it))") (auto dest: EncryptionKeyNext_shrinks)

definition payload_signer :: "Identity \<Rightarrow> OfflineSignature \<Rightarrow> SigningKeyType" where
  "payload_signer destination off = (if Present off then offType off else idSigningType destination)"

definition ParseLeaseSet2 :: "bytes \<Rightarrow> LeaseSet2 result" where
  "ParseLeaseSet2 src =
     (if length src > MaxLeaseSetBytes then Inl ErrStructureTooLarge
      else bindR (parseLeaseSet2Header src) (\<lambda>(header, n).
        let c0 = NewCursor (drop n src) in
        bindR (ParseMapping (CursorBytes c0)) (\<lambda>(options, used).
        bindR (guardR (ValidateCanonical options)) (\<lambda>_.
        bindR (CursorSkip (int used) c0) (\<lambda>c1.
        bindR (ReadU8 c1) (\<lambda>(keyCount, c2).
        if keyCount = 0 then Inl NetDBErrMalformed
        else bindR (keys_end (CursorBytes c2, keyCount)) (\<lambda>keysRest.
        bindR (CursorSkip (int (length (CursorBytes c2)) - int (length keysRest)) c2) (\<lambda>c3.
        let keys = slice (n + cur_off c2) (n + cur_off c3) src in
        bindR (ReadU8 c3) (\<lambda>(leaseCount, c4).
        if leaseCount = 0 \<or> unat leaseCount > MaxLeases then Inl ErrTooManyItems
        else bindR (ReadBytes (int (unat leaseCount * 40)) c4) (\<lambda>(ls, c5).
        bindR (check_each parseLease2 40 ls) (\<lambda>_.
        let unsignedEnd = n + cur_off c5 in
        bindR (known_len (SignatureLen (payload_signer (hDestination header) (hOffline header)))) (\<lambda>signatureLen.
        bindR (ReadBytes (int signatureLen) c5) (\<lambda>(signature, c6).
        if \<not> CursorDone c6 then Inl NetDBErrMalformed
        else Inr \<lparr>s2Header = header, s2Options = options, s2KeyCount = keyCount, s2Keys = keys,
          s2LeaseCount = leaseCount, s2Leases = ls, s2Signature = signature,
          s2Unsigned = take unsignedEnd src, s2Raw = src\<rparr>)))))))))))))"

declare floodfill_loop.simps [simp del] netid_loop.simps [simp del] check_each.simps [simp del] find_key.simps [simp del]
  live_loop.simps [simp del] within_loop.simps [simp del] keys_end.simps [simp del]

end
