(* ===== verification/NetDB_Layout.thy ===== *)
theory NetDB_Layout
  imports NetDB_Structures
begin

text \<open>
  What the parsers of the network-database structures accept: the bytes of every accepted structure are
  the concatenation of its fields, the signed part and the signature cover it exactly, and its iterators
  read back what the parser validated. The repeated regions have two interfaces: \<open>fixed_record\<close> for runs of
  records of one width (leases), \<open>counted_codec\<close> for self-delimiting items under a count (addresses, keys).
\<close>

section \<open>Cursor steps\<close>

lemma consumes_trans: "consumes c xs c' \<Longrightarrow> consumes c' ys c'' \<Longrightarrow> consumes c (xs @ ys) c''"
  by (auto simp: consumes_def)

lemma consumes_ok: "consumes c xs c' \<Longrightarrow> cursor_ok c'"
  by (simp add: consumes_def)

lemma NewCursor_ok: "cursor_ok (NewCursor src)"
  by (simp add: NewCursor_def cursor_ok_def)

lemma consumes_New:
  assumes "consumes (NewCursor src) bs c"
  shows "src = bs @ CursorBytes c" "cur_off c = length bs" "CursorDone c \<longleftrightarrow> CursorBytes c = []"
    "take (length bs) src = bs"
proof -
  have c: "cur_buf c = src" "cur_off c = length bs" "length bs \<le> length src"
    and e: "CursorBytes (NewCursor src) = bs @ CursorBytes c"
    using assms unfolding consumes_def NewCursor_def cursor_ok_def by auto
  have "CursorBytes (NewCursor src) = src" by (simp add: NewCursor_def CursorBytes_def)
  from trans [OF this [symmetric] e] show s: "src = bs @ CursorBytes c" .
  show "cur_off c = length bs" by (rule c(2))
  show "CursorDone c \<longleftrightarrow> CursorBytes c = []" using c unfolding CursorDone_def CursorBytes_def by auto
  show "take (length bs) src = bs" by (subst s) simp
qed

lemma ReadU16_Inr: "cursor_ok c \<Longrightarrow> ReadU16 c = Inr (v, c') \<Longrightarrow> consumes c (PutUint16 v) c'"
  and ReadU32_Inr: "cursor_ok c \<Longrightarrow> ReadU32 c = Inr (v4, c') \<Longrightarrow> consumes c (PutUint32 v4) c'"
  and ReadU64_Inr: "cursor_ok c \<Longrightarrow> ReadU64 c = Inr (v8, c') \<Longrightarrow> consumes c (PutUint64 v8) c'"
  using ReadBytes_Inr [of c 2] ReadBytes_Inr [of c 4] ReadBytes_Inr [of c 8]
  by (fastforce simp: ReadU16_def ReadU32_def ReadU64_def bindR_eq_Inr PutUint16_Uint16 PutUint32_Uint32 PutUint64_Uint64)+

lemma ReadBytes_nat:
  assumes "cursor_ok c" "ReadBytes (int n) c = Inr (bs, c')"
  shows "consumes c bs c'" "length bs = n"
  using ReadBytes_Inr [OF assms] by auto

lemma CursorSkip_Inr:
  assumes "cursor_ok c" "CursorSkip n c = Inr c'"
  obtains bs where "consumes c bs c'" "int (length bs) = n"
  using assms ReadBytes_Inr [of c n] by (auto simp: CursorSkip_def bindR_eq_Inr)

lemma CursorSkip_prefix:
  assumes "cursor_ok c" "CursorSkip (int n) c = Inr c'" "CursorBytes c = bs @ rest" "n = length bs"
  shows "consumes c bs c'"
  using assms by (auto elim!: CursorSkip_Inr simp: consumes_def append_eq_append_conv)

section \<open>Mappings inside a structure\<close>

definition mapping_wf :: "Mapping \<Rightarrow> bool" where
  "mapping_wf m \<longleftrightarrow> (\<forall>rest. ParseMapping (mapRaw m @ rest) = Inr (m, length (mapRaw m))) \<and> ValidateCanonical m = None"

text \<open>The entries of an accepted mapping, in the order of the wire.\<close>

definition mapping_entries :: "Mapping \<Rightarrow> (bytes \<times> bytes) list" where
  "mapping_entries m = (case drain MappingNext (Suc (length (MappingIterator m))) (MappingIterator m) of
     Some (Inr ps) \<Rightarrow> ps | _ \<Rightarrow> [])"

lemma guardR_Inr: "guardR e = Inr u \<longleftrightarrow> e = None"
  by (auto simp: guardR_def split: option.splits)

lemma ParseMapping_wf:
  assumes "ParseMapping src = Inr (m, n)" "ValidateCanonical m = None"
  shows "mapping_wf m" "src = mapRaw m @ drop n src" "n = length (mapRaw m)"
    "MappingIterator m = pairs_bytes (mapping_entries m) \<and> list_all pair_wf (mapping_entries m)"
proof -
  obtain ps where ps: "n \<le> length src" "m = \<lparr>mapRaw = take n src\<rparr>" "list_all pair_wf ps" "length (pairs_bytes ps) \<le> 65535"
    "take n src = PutUint16 (of_nat (length (pairs_bytes ps))) @ pairs_bytes ps"
    using ParseMapping_Some [OF assms(1)] by blast
  have raw: "mapRaw m = PutUint16 (of_nat (length (pairs_bytes ps))) @ pairs_bytes ps" using ps(2,5) by simp
  have m: "m = \<lparr>mapRaw = mapRaw m\<rparr>" by simp
  show "n = length (mapRaw m)" "src = mapRaw m @ drop n src" using ps(1,2) by simp_all
  show "mapping_wf m"
    unfolding mapping_wf_def using ParseMapping_pairs(1) [OF ps(3,4)] assms(2) raw m by (metis (no_types, lifting))
  have it: "MappingIterator m = pairs_bytes ps" using raw by (simp add: MappingIterator_def)
  have "mapping_entries m = ps"
    using mapping_pairs.drain_encoded [OF ps(3)] unfolding mapping_entries_def it
    by (simp add: pairs_bytes_def del: drain.simps)
  then show "MappingIterator m = pairs_bytes (mapping_entries m) \<and> list_all pair_wf (mapping_entries m)" using it ps(3) by simp
qed

lemma read_mapping:
  assumes "cursor_ok c" "ParseMapping (CursorBytes c) = Inr (m, n)" "ValidateCanonical m = None" "CursorSkip (int n) c = Inr c'"
  shows "consumes c (mapRaw m) c'"
  using CursorSkip_prefix [OF assms(1,4)] ParseMapping_wf(2,3) [OF assms(2,3)] by blast

section \<open>Records of one width\<close>

locale fixed_record =
  fixes p :: "bytes \<Rightarrow> 'a result" and w :: nat and wf :: "'a \<Rightarrow> bool" and enc :: "'a \<Rightarrow> bytes"
  assumes width: "0 < w" and enc_width: "wf a \<Longrightarrow> length (enc a) = w"
    and parse_enc: "wf a \<Longrightarrow> p (enc a @ rest) = Inr a"
    and parse_back: "p s = Inr a \<Longrightarrow> wf a \<and> s = enc a @ drop w s"
begin

text \<open>The parser's loop over the region succeeds exactly on runs of encoded records.\<close>

lemma check_each_back: "check_each p w bs = Inr () \<Longrightarrow> \<exists>as. list_all wf as \<and> bs = concat (map enc as)"
proof (induction bs rule: length_induct)
  case (1 bs)
  show ?case
  proof (cases "bs = []")
    case True
    then show ?thesis by (intro exI [of _ "[]"]) simp
  next
    case False
    then obtain a where a: "p bs = Inr a" "check_each p w (drop w bs) = Inr ()"
      using 1(2) width by (auto simp: check_each.simps [of p w bs] bindR_eq_Inr)
    have "length (drop w bs) < length bs" using False width by simp
    then obtain as where "list_all wf as" "drop w bs = concat (map enc as)" using 1(1) a(2) by blast
    then show ?thesis using parse_back [OF a(1)] by (intro exI [of _ "a # as"]) simp
  qed
qed

lemma length_run: "list_all wf as \<Longrightarrow> length (concat (map enc as)) = w * length as"
  by (induction as) (simp_all add: enc_width)

end

text \<open>The iterator over such a region: the rest of the bytes is its state.\<close>

definition record_next :: "(bytes \<Rightarrow> 'a result) \<Rightarrow> nat \<Rightarrow> bytes \<Rightarrow> ('a \<times> bytes) option result" where
  "record_next p w it = (if it = [] then Inr None else bindR (p it) (\<lambda>a. Inr (Some (a, drop w it))))"

sublocale fixed_record \<subseteq> records: item_codec "record_next p w" wf enc "\<lambda>a. a"
proof
  fix s a s' assume "record_next p w s = Inr (Some (a, s'))"
  then show "length s' < length s" using width by (auto simp: record_next_def bindR_eq_Inr split: if_splits)
next
  show "record_next p w [] = Inr None" by (simp add: record_next_def)
  show "record_next p w (enc b @ rest) = Inr (Some (b, rest))" if "wf b" for b rest
    using that enc_width [OF that] width by (auto simp: record_next_def parse_enc)
qed

context fixed_record
begin

text \<open>What the parser checked is what the iterator yields: as many records as the region is wide, to its end.\<close>

lemma checked_run:
  assumes "check_each p w bs = Inr ()" "length bs = n * w"
  shows "\<exists>as. drain (record_next p w) (Suc (length bs)) bs = Some (Inr as) \<and> length as = n \<and> list_all wf as \<and> bs = concat (map enc as)"
proof -
  obtain as where as: "list_all wf as" "bs = concat (map enc as)" using check_each_back [OF assms(1)] by blast
  have "w * length as = n * w" using length_run [OF as(1)] assms(2) as(2) by simp
  then show ?thesis using as records.drain_encoded [OF as(1), of "Suc (length bs)"] width by (auto simp del: drain.simps)
qed

end

section \<open>Counted items\<close>

locale counted_codec =
  fixes nxt :: "counted_iterator \<Rightarrow> ('a \<times> counted_iterator) option result" and wf :: "'a \<Rightarrow> bool" and enc :: "'a \<Rightarrow> bytes"
  assumes count_end: "nxt (s, 0) = Inr None"
    and next_enc: "wf a \<Longrightarrow> k \<noteq> 0 \<Longrightarrow> nxt (enc a @ s, k) = Inr (Some (a, (s, k - 1)))"
    and next_back: "k \<noteq> 0 \<Longrightarrow> nxt (s, k) = Inr o' \<Longrightarrow> \<exists>a s'. o' = Some (a, (s', k - 1)) \<and> wf a \<and> s = enc a @ s'"
begin

text \<open>The iterator yields the counted items and leaves what follows them.\<close>

lemma drain_counted:
  "list_all wf as \<Longrightarrow> length as \<le> 255 \<Longrightarrow> length as < fuel \<Longrightarrow>
   drain nxt fuel (concat (map enc as) @ rest, of_nat (length as)) = Some (Inr as)"
proof (induction as arbitrary: fuel)
  case Nil
  then show ?case by (cases fuel) (simp_all add: count_end)
next
  case (Cons a as)
  then obtain g where g: "fuel = Suc g" by (cases fuel) auto
  let ?k = "of_nat (length (a # as)) :: u8"
  have "unat ?k = length (a # as)" using Cons.prems by (intro unat_of_nat_u8) simp
  then have "?k \<noteq> 0" by auto
  then have "nxt (enc a @ concat (map enc as) @ rest, ?k) = Inr (Some (a, (concat (map enc as) @ rest, ?k - 1)))"
    using Cons.prems by (intro next_enc) simp_all
  moreover have "?k - 1 = of_nat (length as)" by simp
  ultimately show ?case using Cons g by (simp del: of_nat_Suc)
qed

end

section \<open>Leases\<close>

definition lease_wf :: "LegacyLease \<Rightarrow> bool" where "lease_wf l \<longleftrightarrow> length (leGateway l) = 32 \<and> leTunnelID l \<noteq> 0"
definition lease_bytes :: "LegacyLease \<Rightarrow> bytes" where
  "lease_bytes l = leGateway l @ PutUint32 (leTunnelID l) @ PutUint64 (leEndDate l)"
definition lease2_wf :: "Lease2 \<Rightarrow> bool" where "lease2_wf l \<longleftrightarrow> length (l2Gateway l) = 32 \<and> l2TunnelID l \<noteq> 0"
definition lease2_bytes :: "Lease2 \<Rightarrow> bytes" where
  "lease2_bytes l = l2Gateway l @ PutUint32 (l2TunnelID l) @ PutUint32 (l2EndDate l)"

lemma field4: "k + 4 \<le> length s \<Longrightarrow> j = k + 4 \<Longrightarrow> PutUint32 (Uint32 (slice k j s)) = take 4 (drop k s)"
  and field8: "k + 8 \<le> length s \<Longrightarrow> j = k + 8 \<Longrightarrow> PutUint64 (Uint64 (slice k j s)) = take 8 (drop k s)"
  by (simp_all add: PutUint32_Uint32 PutUint64_Uint64 slice_def)

interpretation legacy_leases: fixed_record parseLease 44 lease_wf lease_bytes
proof
  show "length (lease_bytes a) = 44" if "lease_wf a" for a using that by (simp add: lease_wf_def lease_bytes_def)
  show "parseLease (lease_bytes a @ rest) = Inr a" if "lease_wf a" for a rest
    using that by (simp add: parseLease_def lease_wf_def lease_bytes_def slice_def codec_simps)
  show "lease_wf a \<and> s = lease_bytes a @ drop 44 s" if "parseLease s = Inr a" for s a
  proof -
    have len: "44 \<le> length s" and a: "a = \<lparr>leGateway = take 32 s, leTunnelID = Uint32 (slice 32 36 s), leEndDate = Uint64 (slice 36 44 s)\<rparr>"
      and nz: "Uint32 (slice 32 36 s) \<noteq> 0"
      using that by (auto simp: parseLease_def Let_def split: if_splits)
    have "lease_bytes a @ drop 44 s = s"
      using len by (simp add: a lease_bytes_def field4 field8 take_chunk)
    then show ?thesis using len nz by (simp add: a lease_wf_def)
  qed
qed simp

interpretation lease2s: fixed_record parseLease2 40 lease2_wf lease2_bytes
proof
  show "length (lease2_bytes a) = 40" if "lease2_wf a" for a using that by (simp add: lease2_wf_def lease2_bytes_def)
  show "parseLease2 (lease2_bytes a @ rest) = Inr a" if "lease2_wf a" for a rest
    using that by (simp add: parseLease2_def lease2_wf_def lease2_bytes_def slice_def codec_simps)
  show "lease2_wf a \<and> s = lease2_bytes a @ drop 40 s" if "parseLease2 s = Inr a" for s a
  proof -
    have len: "40 \<le> length s" and a: "a = \<lparr>l2Gateway = take 32 s, l2TunnelID = Uint32 (slice 32 36 s), l2EndDate = Uint32 (slice 36 40 s)\<rparr>"
      and nz: "Uint32 (slice 32 36 s) \<noteq> 0"
      using that by (auto simp: parseLease2_def Let_def split: if_splits)
    have "lease2_bytes a @ drop 40 s = s"
      using len by (simp add: a lease2_bytes_def field4 take_chunk)
    then show ?thesis using len nz by (simp add: a lease2_wf_def)
  qed
qed simp

lemma LeaseNext_record: "LeaseNext = record_next parseLease 44"
  by (rule ext) (simp add: LeaseNext_def record_next_def)

lemma Lease2Next_record: "Lease2Next = record_next parseLease2 40"
  by (rule ext) (simp add: Lease2Next_def record_next_def)

section \<open>Addresses and keys\<close>

definition address_bytes :: "RouterAddress \<Rightarrow> bytes" where
  "address_bytes a = [raCost a] @ PutUint64 (raExpiration a) @ [of_nat (length (raTransportStyle a))] @ raTransportStyle a @ mapRaw (raOptions a)"

definition address_wf :: "RouterAddress \<Rightarrow> bool" where
  "address_wf a \<longleftrightarrow> raTransportStyle a \<noteq> [] \<and> length (raTransportStyle a) \<le> 255 \<and> mapping_wf (raOptions a) \<and> raRaw a = address_bytes a"

lemma ParseRouterAddress_back:
  assumes "ParseRouterAddress src = Inr (a, n)"
  shows "address_wf a" "src = raRaw a @ drop n src" "n = length (raRaw a)"
proof -
  from assms obtain cost c1 expiration c2 styleLen c3 style c4 options m c5 where
    r: "ReadU8 (NewCursor src) = Inr (cost, c1)" "ReadU64 c1 = Inr (expiration, c2)" "ReadU8 c2 = Inr (styleLen, c3)"
      "styleLen \<noteq> 0" "ReadBytes (int (unat styleLen)) c3 = Inr (style, c4)" "ParseMapping (CursorBytes c4) = Inr (options, m)"
      "ValidateCanonical options = None" "CursorSkip (int m) c4 = Inr c5" "n = cur_off c5"
    and a: "a = \<lparr>raCost = cost, raExpiration = expiration, raTransportStyle = style, raOptions = options, raRaw = take n src\<rparr>"
    by (auto simp: ParseRouterAddress_def bindR_eq_Inr guardR_Inr split: if_splits)
  have s1: "consumes (NewCursor src) [cost] c1" by (rule ReadU8_Inr [OF NewCursor_ok r(1)])
  have s2: "consumes c1 (PutUint64 expiration) c2" by (rule ReadU64_Inr [OF consumes_ok [OF s1] r(2)])
  have s3: "consumes c2 [styleLen] c3" by (rule ReadU8_Inr [OF consumes_ok [OF s2] r(3)])
  note s4 = ReadBytes_nat(1) [OF consumes_ok [OF s3] r(5)] and len = ReadBytes_nat(2) [OF consumes_ok [OF s3] r(5)]
  have s5: "consumes c4 (mapRaw options) c5" by (rule read_mapping [OF consumes_ok [OF s4] r(6,7,8)])
  note all = consumes_New [OF consumes_trans [OF s1 consumes_trans [OF s2 consumes_trans [OF s3 consumes_trans [OF s4 s5]]]]]
  have raw: "raRaw a = address_bytes a" using all(2,4) r(9) len by (simp add: a address_bytes_def)
  have "unat styleLen \<noteq> 0" using r(4) by (simp add: unat_eq_zero)
  then have "0 < length style" using len by linarith
  moreover have "length style \<le> 255" using len unat_u8_less [of styleLen] by linarith
  ultimately show "address_wf a" using raw ParseMapping_wf(1) [OF r(6,7)] unfolding address_wf_def by (simp add: a)
  have n: "n = length (raRaw a)" using raw all(2) r(9) len by (simp add: a address_bytes_def)
  then show "n = length (raRaw a)" .
  show "src = raRaw a @ drop n src" by (simp add: a)
qed

text \<open>Reading forward: from a cursor whose unread bytes begin with an encoding.\<close>

lemma read_forward:
  assumes "cursor_ok c"
  shows "CursorBytes c = v # rest \<Longrightarrow> \<exists>c'. ReadU8 c = Inr (v, c') \<and> consumes c [v] c' \<and> CursorBytes c' = rest"
    "CursorBytes c = bs @ rest \<Longrightarrow> n = length bs \<Longrightarrow> \<exists>c'. ReadBytes (int n) c = Inr (bs, c') \<and> consumes c bs c' \<and> CursorBytes c' = rest"
    "CursorBytes c = PutUint64 v8 @ rest \<Longrightarrow> \<exists>c'. ReadU64 c = Inr (v8, c') \<and> consumes c (PutUint64 v8) c' \<and> CursorBytes c' = rest"
proof -
  have tail: "CursorBytes c' = rest" if "consumes c xs c'" "CursorBytes c = xs @ rest" for xs c' using that by (simp add: consumes_def)
  show "\<exists>c'. ReadU8 c = Inr (v, c') \<and> consumes c [v] c' \<and> CursorBytes c' = rest" if b: "CursorBytes c = v # rest"
    using ReadU8_Cons [OF b assms] ReadU8_Inr [OF assms ReadU8_Cons [OF b assms]] tail [of "[v]"] b by auto
  have bytes: "\<exists>c'. ReadBytes (int (length bs)) c = Inr (bs, c') \<and> consumes c bs c' \<and> CursorBytes c' = rest"
    if b: "CursorBytes c = bs @ rest" for bs
    using ReadBytes_take [OF b assms] ReadBytes_nat(1) [OF assms ReadBytes_take [OF b assms]] tail [OF _ b] by blast
  then show "\<exists>c'. ReadBytes (int n) c = Inr (bs, c') \<and> consumes c bs c' \<and> CursorBytes c' = rest"
    if "CursorBytes c = bs @ rest" "n = length bs" using that by simp
  show "\<exists>c'. ReadU64 c = Inr (v8, c') \<and> consumes c (PutUint64 v8) c' \<and> CursorBytes c' = rest"
    if "CursorBytes c = PutUint64 v8 @ rest"
    using bytes [OF that] by (auto simp: ReadU64_def codec_simps)
qed

lemma ParseRouterAddress_forward:
  assumes "address_wf a"
  shows "ParseRouterAddress (raRaw a @ rest) = Inr (a, length (raRaw a))"
proof -
  let ?o = "mapRaw (raOptions a)" and ?style = "raTransportStyle a"
  have wf: "?style \<noteq> []" "length ?style \<le> 255" "mapping_wf (raOptions a)" "raRaw a = address_bytes a"
    using assms by (simp_all add: address_wf_def)
  have nz: "(of_nat (length ?style) :: u8) \<noteq> 0" and un: "unat (of_nat (length ?style) :: u8) = length ?style"
    using wf(1,2) by (simp_all add: word_unat_eq_iff)
  have c0: "CursorBytes (NewCursor (raRaw a @ rest)) =
      raCost a # PutUint64 (raExpiration a) @ of_nat (length ?style) # ?style @ ?o @ rest"
    by (simp add: wf(4) address_bytes_def NewCursor_def CursorBytes_def)
  obtain c1 where s1: "ReadU8 (NewCursor (raRaw a @ rest)) = Inr (raCost a, c1)" "consumes (NewCursor (raRaw a @ rest)) [raCost a] c1"
    and c1: "CursorBytes c1 = PutUint64 (raExpiration a) @ of_nat (length ?style) # ?style @ ?o @ rest"
    using read_forward(1) [OF NewCursor_ok c0] by blast
  obtain c2 where s2: "ReadU64 c1 = Inr (raExpiration a, c2)" "consumes c1 (PutUint64 (raExpiration a)) c2"
    and c2: "CursorBytes c2 = of_nat (length ?style) # ?style @ ?o @ rest"
    using read_forward(3) [OF consumes_ok [OF s1(2)] c1] by blast
  obtain c3 where s3: "ReadU8 c2 = Inr (of_nat (length ?style), c3)" "consumes c2 [of_nat (length ?style)] c3"
    and c3: "CursorBytes c3 = ?style @ ?o @ rest"
    using read_forward(1) [OF consumes_ok [OF s2(2)] c2] by blast
  obtain c4 where s4: "ReadBytes (int (length ?style)) c3 = Inr (?style, c4)" "consumes c3 ?style c4"
    and c4: "CursorBytes c4 = ?o @ rest"
    using read_forward(2) [OF consumes_ok [OF s3(2)] c3 refl] by blast
  obtain c5 where s5: "ReadBytes (int (length ?o)) c4 = Inr (?o, c5)" "consumes c4 ?o c5"
    using read_forward(2) [OF consumes_ok [OF s4(2)] c4 refl] by blast
  note all = consumes_New [OF consumes_trans [OF s1(2) consumes_trans [OF s2(2) consumes_trans [OF s3(2) consumes_trans [OF s4(2) s5(2)]]]]]
  have off: "cur_off c5 = length (raRaw a)" using all(2) by (simp add: wf(4) address_bytes_def)
  have m: "ParseMapping (CursorBytes c4) = Inr (raOptions a, length ?o)" "ValidateCanonical (raOptions a) = None"
    using wf(3) by (simp_all add: c4 mapping_wf_def)
  show ?thesis
    by (simp add: ParseRouterAddress_def s1(1) s2(1) s3(1) nz un s4(1) m guardR_def CursorSkip_def s5(1) off del: of_nat_eq_0_iff)
qed

interpretation addresses: counted_codec RouterAddressNext address_wf raRaw
proof
  show "RouterAddressNext (s, 0) = Inr None" for s by (simp add: RouterAddressNext_def)
  show "RouterAddressNext (raRaw a @ s, k) = Inr (Some (a, (s, k - 1)))" if "address_wf a" "k \<noteq> 0" for a s k
    using that by (simp add: RouterAddressNext_def ParseRouterAddress_forward)
  fix k :: u8 and s o' assume k: "k \<noteq> 0" and n: "RouterAddressNext (s, k) = Inr o'"
  then obtain a m where p: "ParseRouterAddress s = Inr (a, m)" and o': "o' = Some (a, (drop m s, k - 1))"
    by (auto simp: RouterAddressNext_def bindR_eq_Inr)
  show "\<exists>a s'. o' = Some (a, (s', k - 1)) \<and> address_wf a \<and> s = raRaw a @ s'"
    using ParseRouterAddress_back [OF p] o' by blast
qed

text \<open>The parser's walk over the address region.\<close>

lemma skip_addresses_back:
  "cursor_ok c \<Longrightarrow> skip_addresses k c = Inr c' \<Longrightarrow>
   \<exists>as. length as = k \<and> list_all address_wf as \<and> consumes c (concat (map raRaw as)) c'"
proof (induction k arbitrary: c)
  case 0
  then show ?case by (intro exI [of _ "[]"]) (simp add: consumes_def)
next
  case (Suc k)
  then obtain a n c1 where a: "ParseRouterAddress (CursorBytes c) = Inr (a, n)" "CursorSkip (int n) c = Inr c1" "skip_addresses k c1 = Inr c'"
    by (auto simp: bindR_eq_Inr)
  note b = ParseRouterAddress_back [OF a(1)]
  have s: "consumes c (raRaw a) c1" by (rule CursorSkip_prefix [OF Suc.prems(1) a(2) b(2,3)])
  obtain as where "length as = k" "list_all address_wf as" "consumes c1 (concat (map raRaw as)) c'"
    using Suc.IH [OF consumes_ok [OF s] a(3)] by blast
  then show ?case using b(1) consumes_trans [OF s] by (intro exI [of _ "a # as"]) simp
qed

definition key_wf :: "EncryptionKey \<Rightarrow> bool" where
  "key_wf k \<longleftrightarrow> ekType k \<noteq> 5 \<and> length (ekData k) \<le> 65535 \<and>
     (CryptoPublicKeyLen (ekType k) = None \<or> CryptoPublicKeyLen (ekType k) = Some (length (ekData k)))"

definition key_bytes :: "EncryptionKey \<Rightarrow> bytes" where
  "key_bytes k = PutUint16 (ekType k) @ PutUint16 (of_nat (length (ekData k))) @ ekData k"

lemma field2: "k + 2 \<le> length s \<Longrightarrow> j = k + 2 \<Longrightarrow> PutUint16 (Uint16 (slice k j s)) = take 2 (drop k s)"
  by (simp add: PutUint16_Uint16 slice_def)

lemma EncryptionKeyNext_back:
  assumes "k \<noteq> 0" "EncryptionKeyNext (s, k) = Inr o'"
  shows "\<exists>a s'. o' = Some (a, (s', k - 1)) \<and> key_wf a \<and> s = key_bytes a @ s'"
proof -
  define lw where "lw = Uint16 (slice 2 4 s)"
  define kt where "kt = Uint16 (take 2 s)"
  define key where "key = \<lparr>ekType = kt, ekData = slice 4 (4 + unat lw) s\<rparr>"
  have len: "4 \<le> length s" "unat lw \<le> length s - 4" and ty: "kt \<noteq> 5"
    and known: "CryptoPublicKeyLen kt = None \<or> CryptoPublicKeyLen kt = Some (unat lw)"
    and o': "o' = Some (key, (drop (4 + unat lw) s, k - 1))"
    using assms by (auto simp: EncryptionKeyNext_def Let_def lw_def [symmetric] kt_def [symmetric] key_def [symmetric] split: if_splits)
  have ml: "length (ekData key) = unat lw" using len by (simp add: key_def)
  have fits: "0 + 2 \<le> length s" "2 + 2 \<le> length s" using len(1) by linarith+
  have t: "PutUint16 kt = take 2 s" using field2 [OF fits(1) refl] unfolding kt_def add_0 slice_0 drop_0 .
  have l: "PutUint16 lw = take 2 (drop 2 s)" unfolding lw_def by (rule field2 [OF fits(2)]) simp
  have "key_bytes key = take 2 s @ take 2 (drop 2 s) @ take (unat lw) (drop 4 s)"
    unfolding key_bytes_def ml by (simp add: t l) (simp add: key_def slice_def t)
  then have "key_bytes key @ drop (4 + unat lw) s = s"
    by (simp add: take_chunk [of 4 2 2] take_chunk [of "4 + unat lw" 4 "unat lw"])
  moreover have "unat lw \<le> 65535" using unat_u16_less [of lw] by linarith
  then have "key_wf key" using ty known ml by (auto simp: key_wf_def key_def)
  ultimately show ?thesis using o' by metis
qed

interpretation keys: counted_codec EncryptionKeyNext key_wf key_bytes
proof
  show "EncryptionKeyNext (s, 0) = Inr None" for s by (simp add: EncryptionKeyNext_def)
  show "EncryptionKeyNext (key_bytes a @ s, k) = Inr (Some (a, (s, k - 1)))" if "key_wf a" "k \<noteq> 0" for a s k
    using that by (auto simp: EncryptionKeyNext_def Let_def key_wf_def key_bytes_def slice_def codec_simps)
  show "\<exists>a s'. o' = Some (a, (s', k - 1)) \<and> key_wf a \<and> s = key_bytes a @ s'" if "k \<noteq> 0" "EncryptionKeyNext (s, k) = Inr o'" for k s o'
    using EncryptionKeyNext_back [OF that] .
qed

lemma keys_end_back:
  "keys_end it = Inr r \<Longrightarrow> \<exists>ks. length ks = unat (snd it) \<and> list_all key_wf ks \<and> fst it = concat (map key_bytes ks) @ r"
proof (induction it rule: keys_end.induct)
  case (1 it)
  obtain s k where it: "it = (s, k)" by (cases it)
  show ?case
  proof (cases "k = 0")
    case True
    then show ?thesis using "1.prems" by (intro exI [of _ "[]"]) (simp add: it keys.count_end keys_end.simps [of "(s, 0)"])
  next
    case False
    obtain o' where o': "EncryptionKeyNext (s, k) = Inr o'"
      using "1.prems" by (cases "EncryptionKeyNext (s, k)") (auto simp: it keys_end.simps [of "(s, k)"])
    then obtain a s' where a: "o' = Some (a, (s', k - 1))" "key_wf a" "s = key_bytes a @ s'" using keys.next_back [OF False] by blast
    have "keys_end (s', k - 1) = Inr r" using "1.prems" o' a(1) by (simp add: it keys_end.simps [of "(s, k)"])
    then obtain ks where ks: "length ks = unat (k - 1)" "list_all key_wf ks" "s' = concat (map key_bytes ks) @ r"
      using "1.IH" [of o' "(a, (s', k - 1))" a "(s', k - 1)"] o' a(1) it by auto
    have "unat k \<noteq> 0" using False by (simp add: unat_eq_zero)
    then have "length (a # ks) = unat k" using ks(1) unat_dec [OF False] by simp
    then show ?thesis using ks(2,3) a(2,3) by (intro exI [of _ "a # ks"]) (simp add: it)
  qed
qed

section \<open>Whole structures\<close>

text \<open>A structure whose fields after the identity are \<open>bs\<close> up to the signature.\<close>

lemma structure_split:
  assumes "ParseIdentity src = Inr (i, n)" "consumes (NewCursor (drop n src)) bs c" "consumes c sig c'" "CursorDone c'"
  shows "src = idRaw i @ bs @ sig" "take (n + cur_off c) src = idRaw i @ bs" "n = length (idRaw i)"
proof -
  note i = ParseIdentity_Some(1,2) [OF assms(1)]
  show n: "n = length (idRaw i)" using i by simp
  note a = consumes_New [OF consumes_trans [OF assms(2,3)]]
  have "drop n src = bs @ sig" using a(1,3) assms(4) by simp
  then show s: "src = idRaw i @ bs @ sig" using append_take_drop_id [of n src] i(1) by simp
  have "cur_off c = length bs" using consumes_New(2) [OF assms(2)] .
  then show "take (n + cur_off c) src = idRaw i @ bs" by (subst s) (simp add: n)
qed

lemma region_slice:
  assumes "src = idRaw i @ drop n src" "n = length (idRaw i)" "consumes (NewCursor (drop n src)) pre c" "consumes c bs c'"
  shows "slice (n + cur_off c) (n + cur_off c') src = bs"
proof -
  note a = consumes_New [OF assms(3)] consumes_New [OF consumes_trans [OF assms(3,4)]]
  have "slice (n + length pre) (n + length (pre @ bs)) (idRaw i @ (pre @ bs) @ CursorBytes c') = bs"
    by (simp add: slice_def assms(2))
  then show ?thesis using a(2,6) a(5) assms(1) by metis
qed

lemma known_len_Inr: "known_len o' = Inr k \<longleftrightarrow> o' = Some k"
  by (auto simp: known_len_def split: option.splits)

lemma ParseRouterInfo_back:
  assumes "ParseRouterInfo src = Inr r"
  obtains n as where "length src \<le> 4096" "riRaw r = src" "ParseIdentity src = Inr (riIdentity r, n)"
    "src = riUnsigned r @ riSignature r" "SignatureLen (idSigningType (riIdentity r)) = Some (length (riSignature r))"
    "riUnsigned r = idRaw (riIdentity r) @ PutUint64 (riPublished r) @ [riAddressCount r] @ riAddresses r @
       [of_nat (RouterPeerCount r)] @ riPeerHashes r @ mapRaw (riOptions r)"
    "length (riPeerHashes r) = 32 * RouterPeerCount r" "length as = unat (riAddressCount r)" "list_all address_wf as"
    "riAddresses r = concat (map raRaw as)" "mapping_wf (riOptions r)"
    "MappingIterator (riOptions r) = pairs_bytes (mapping_entries (riOptions r)) \<and> list_all pair_wf (mapping_entries (riOptions r))"
proof -
  from assms obtain i n pub c1 k c2 c3 pk c4 hs c5 m used c6 sl sig c7 where
    i: "ParseIdentity src = Inr (i, n)" and
    q: "ReadU64 (NewCursor (drop n src)) = Inr (pub, c1)" "ReadU8 c1 = Inr (k, c2)" "skip_addresses (unat k) c2 = Inr c3"
      "ReadU8 c3 = Inr (pk, c4)" "ReadBytes (int (unat pk * HashLength)) c4 = Inr (hs, c5)" "ParseMapping (CursorBytes c5) = Inr (m, used)"
      "ValidateCanonical m = None" "CursorSkip (int used) c5 = Inr c6" "SignatureLen (idSigningType i) = Some sl"
      "ReadBytes (int sl) c6 = Inr (sig, c7)" "CursorDone c7" and size: "length src \<le> 4096" and
    r: "r = \<lparr>riIdentity = i, riPublished = pub, riAddressCount = k, riAddresses = slice (n + cur_off c2) (n + cur_off c3) src,
      riPeerHashes = hs, riOptions = m, riSignature = sig, riUnsigned = take (n + cur_off c6) src, riRaw = src\<rparr>"
    by (auto simp: ParseRouterInfo_def bindR_eq_Inr guardR_Inr known_len_Inr Let_def MaxRouterInfoBytes_def
        simp del: of_nat_mult split: if_splits)
  have s1: "consumes (NewCursor (drop n src)) (PutUint64 pub) c1" by (rule ReadU64_Inr [OF NewCursor_ok q(1)])
  have s2: "consumes c1 [k] c2" by (rule ReadU8_Inr [OF consumes_ok [OF s1] q(2)])
  obtain as where as: "length as = unat k" "list_all address_wf as" and s3: "consumes c2 (concat (map raRaw as)) c3"
    using skip_addresses_back [OF consumes_ok [OF s2] q(3)] by blast
  have s4: "consumes c3 [pk] c4" by (rule ReadU8_Inr [OF consumes_ok [OF s3] q(4)])
  note s5 = ReadBytes_nat [OF consumes_ok [OF s4] q(5)]
  have s6: "consumes c5 (mapRaw m) c6" by (rule read_mapping [OF consumes_ok [OF s5(1)] q(6,7,8)])
  note s7 = ReadBytes_nat [OF consumes_ok [OF s6] q(10)]
  note body = consumes_trans [OF s1 consumes_trans [OF s2 consumes_trans [OF s3 consumes_trans [OF s4 consumes_trans [OF s5(1) s6]]]]]
  note whole = structure_split [OF i body s7(1) q(11)]
  have src: "src = idRaw i @ drop n src" using ParseIdentity_Some(1) [OF i] by simp
  have addrs: "slice (n + cur_off c2) (n + cur_off c3) src = concat (map raRaw as)"
    by (rule region_slice [OF src whole(3) consumes_trans [OF s1 s2] s3])
  have peers: "RouterPeerCount r = unat pk" "length hs = 32 * unat pk" using s5(2) by (simp_all add: RouterPeerCount_def r HashLength_def)
  show thesis
    using size i whole(1,2) q(9) s7(2) addrs peers as ParseMapping_wf(1,4) [OF q(6,7)] by (intro that [of n as]) (simp_all add: r)
qed

text \<open>Conversely every such layout is accepted, and read back field by field.\<close>

lemma skip_addresses_forward:
  "list_all address_wf as \<Longrightarrow> cursor_ok c \<Longrightarrow> CursorBytes c = concat (map raRaw as) @ rest \<Longrightarrow>
   \<exists>c'. skip_addresses (length as) c = Inr c' \<and> consumes c (concat (map raRaw as)) c' \<and> CursorBytes c' = rest"
proof (induction as arbitrary: c)
  case Nil
  then show ?case by (simp add: consumes_def)
next
  case (Cons a as)
  have b: "CursorBytes c = raRaw a @ (concat (map raRaw as) @ rest)" using Cons.prems(3) by simp
  obtain c1 where c1: "ReadBytes (int (length (raRaw a))) c = Inr (raRaw a, c1)" "consumes c (raRaw a) c1"
    "CursorBytes c1 = concat (map raRaw as) @ rest"
    using read_forward(2) [OF Cons.prems(2) b refl] by blast
  have "list_all address_wf as" "address_wf a" using Cons.prems(1) by simp_all
  then obtain c' where c': "skip_addresses (length as) c1 = Inr c'" "consumes c1 (concat (map raRaw as)) c'" "CursorBytes c' = rest"
    using Cons.IH [OF _ consumes_ok [OF c1(2)] c1(3)] by blast
  have "ParseRouterAddress (CursorBytes c) = Inr (a, length (raRaw a))"
    unfolding b by (rule ParseRouterAddress_forward [OF \<open>address_wf a\<close>])
  then show ?case using c' consumes_trans [OF c1(2) c'(2)] by (simp add: CursorSkip_def c1(1))
qed

lemma ParseRouterInfo_forward:
  fixes pub :: u64
  assumes i: "\<And>rest. ParseIdentity (idRaw i @ rest) = Inr (i, length (idRaw i))"
    and as: "list_all address_wf as" "unat k = length as" and hs: "length hs = unat pk * 32"
    and m: "mapping_wf m" and sig: "SignatureLen (idSigningType i) = Some (length sig)"
  defines "body \<equiv> PutUint64 pub @ [k] @ concat (map raRaw as) @ [pk] @ hs @ mapRaw m"
  assumes size: "length (idRaw i @ body @ sig) \<le> 4096"
  shows "ParseRouterInfo (idRaw i @ body @ sig) = Inr \<lparr>riIdentity = i, riPublished = pub, riAddressCount = k,
    riAddresses = concat (map raRaw as), riPeerHashes = hs, riOptions = m, riSignature = sig,
    riUnsigned = idRaw i @ body, riRaw = idRaw i @ body @ sig\<rparr>"
proof -
  let ?src = "idRaw i @ body @ sig" and ?n = "length (idRaw i)"
  have c0: "CursorBytes (NewCursor (drop ?n ?src)) = PutUint64 pub @ k # concat (map raRaw as) @ pk # hs @ mapRaw m @ sig"
    by (simp add: NewCursor_def CursorBytes_def body_def)
  obtain c1 where s1: "ReadU64 (NewCursor (drop ?n ?src)) = Inr (pub, c1)" "consumes (NewCursor (drop ?n ?src)) (PutUint64 pub) c1"
    and b1: "CursorBytes c1 = k # concat (map raRaw as) @ pk # hs @ mapRaw m @ sig" using read_forward(3) [OF NewCursor_ok c0] by blast
  obtain c2 where s2: "ReadU8 c1 = Inr (k, c2)" "consumes c1 [k] c2" and b2: "CursorBytes c2 = concat (map raRaw as) @ pk # hs @ mapRaw m @ sig"
    using read_forward(1) [OF consumes_ok [OF s1(2)] b1] by blast
  obtain c3 where s3: "skip_addresses (unat k) c2 = Inr c3" "consumes c2 (concat (map raRaw as)) c3" and b3: "CursorBytes c3 = pk # hs @ mapRaw m @ sig"
    using skip_addresses_forward [OF as(1) consumes_ok [OF s2(2)] b2] unfolding as(2) by blast
  obtain c4 where s4: "ReadU8 c3 = Inr (pk, c4)" "consumes c3 [pk] c4" and b4: "CursorBytes c4 = hs @ mapRaw m @ sig"
    using read_forward(1) [OF consumes_ok [OF s3(2)] b3] by blast
  obtain c5 where s5: "ReadBytes (int (unat pk * 32)) c4 = Inr (hs, c5)" "consumes c4 hs c5" and b5: "CursorBytes c5 = mapRaw m @ sig"
    using read_forward(2) [OF consumes_ok [OF s4(2)] b4 hs [symmetric]] by blast
  obtain c6 where s6: "ReadBytes (int (length (mapRaw m))) c5 = Inr (mapRaw m, c6)" "consumes c5 (mapRaw m) c6" and b6: "CursorBytes c6 = sig @ []"
    using read_forward(2) [OF consumes_ok [OF s5(2)] b5 refl] by auto
  obtain c7 where s7: "ReadBytes (int (length sig)) c6 = Inr (sig, c7)" "consumes c6 sig c7" and b7: "CursorBytes c7 = []"
    using read_forward(2) [OF consumes_ok [OF s6(2)] b6 refl] by blast
  note b = consumes_trans [OF s1(2) consumes_trans [OF s2(2) consumes_trans [OF s3(2) consumes_trans [OF s4(2) consumes_trans [OF s5(2) s6(2)]]]]]
  have d: "CursorDone c7" using consumes_New(3) [OF consumes_trans [OF b s7(2)]] b7 by simp
  have off: "cur_off c6 = length body" using consumes_New(2) [OF b] by (simp add: body_def)
  have "?src = idRaw i @ drop ?n ?src" by simp
  note reg = region_slice [OF this refl consumes_trans [OF s1(2) s2(2)] s3(2)]
  have map: "ParseMapping (CursorBytes c5) = Inr (m, length (mapRaw m))" "ValidateCanonical m = None" using m by (simp_all add: b5 mapping_wf_def)
  show ?thesis
    unfolding ParseRouterInfo_def i bindR_simps prod.case s1(1) s2(1) s3(1) s4(1) HashLength_def s5(1) map reg Let_def
    using size d sig by (simp add: MaxRouterInfoBytes_def guardR_def CursorSkip_def s6(1) s7(1) known_len_def off)
qed

section \<open>RouterInfo\<close>

text \<open>
  C19. \<open>ParseRouterInfo\<close> accepts exactly one complete structure of at most 4096 bytes: the signed part
  followed by the signature is the whole input, the signature has the length of the identity's key type, and
  the signed part is the identity, the publication date, the counted addresses, the counted peer hashes and
  the options, in that order with nothing between or after them. The address iterator then yields exactly the
  announced number of addresses, whose bytes are the address region, without an error.
\<close>

theorem router_info_exact:
  assumes "ParseRouterInfo src = Inr r"
  shows "riRaw r = src \<and> length src \<le> 4096 \<and> src = riUnsigned r @ riSignature r \<and>
    SignatureLen (idSigningType (riIdentity r)) = Some (length (riSignature r)) \<and>
    riUnsigned r = idRaw (riIdentity r) @ PutUint64 (riPublished r) @ [riAddressCount r] @ riAddresses r @
       [of_nat (RouterPeerCount r)] @ riPeerHashes r @ mapRaw (riOptions r) \<and>
    length (riPeerHashes r) = 32 * RouterPeerCount r \<and>
    (\<exists>as. drain RouterAddressNext 256 (RouterInfoAddresses r) = Some (Inr as) \<and> length as = unat (riAddressCount r) \<and>
       riAddresses r = concat (map raRaw as))"
proof -
  obtain n as where b: "length src \<le> 4096" "riRaw r = src" "src = riUnsigned r @ riSignature r"
    "SignatureLen (idSigningType (riIdentity r)) = Some (length (riSignature r))"
    "riUnsigned r = idRaw (riIdentity r) @ PutUint64 (riPublished r) @ [riAddressCount r] @ riAddresses r @
       [of_nat (RouterPeerCount r)] @ riPeerHashes r @ mapRaw (riOptions r)"
    "length (riPeerHashes r) = 32 * RouterPeerCount r" and as: "length as = unat (riAddressCount r)" "list_all address_wf as"
    "riAddresses r = concat (map raRaw as)"
    using ParseRouterInfo_back [OF assms] by metis
  have "length as \<le> 255" using as(1) unat_u8_less [of "riAddressCount r"] by linarith
  then have "drain RouterAddressNext 256 (riAddresses r, of_nat (length as)) = Some (Inr as)"
    using addresses.drain_counted [OF as(2), of 256 "[]"] as(3) by (simp del: drain.simps)
  then show ?thesis using b as by (auto simp: RouterInfoAddresses_def simp del: drain.simps)
qed

definition null_identity :: Identity where
  "null_identity = \<lparr>idRaw = replicate 384 1 @ [0, 0, 0], idCertificate = \<lparr>cType = 0, cPayload = []\<rparr>, idSigningType = 0,
     idCryptoType = 0, cryptoFirst = replicate 256 1, cryptoRest = [], signingFirst = replicate 128 1, signingRest = []\<rparr>"

lemma ParseIdentity_null: "ParseIdentity (idRaw null_identity @ rest) = Inr (null_identity, 387)"
  by (simp add: null_identity_def ParseIdentity_def IdentityBaseLength_def CertificateHeader_def ParseCertificate_def Uint16_def be_val_def
        validCertificate_def slice_def Let_def)

lemma length_null_identity: "length (idRaw null_identity) = 387"
  by (simp add: null_identity_def)

lemma mapping_wf_pairs:
  assumes "list_all pair_wf ps" "length (pairs_bytes ps) \<le> 65535" "successively key_less ps"
  shows "mapping_wf \<lparr>mapRaw = PutUint16 (of_nat (length (pairs_bytes ps))) @ pairs_bytes ps\<rparr>"
  using ParseMapping_pairs [OF assms(1,2)] assms(3) by (auto simp: mapping_wf_def)

definition sample_options :: Mapping where
  "sample_options = \<lparr>mapRaw = PutUint16 9 @ pairs_bytes [(ascii ''caps'', ascii ''f'')]\<rparr>"

lemma sample_options_wf: "mapping_wf sample_options"
  using mapping_wf_pairs [of "[(ascii ''caps'', ascii ''f'')]"]
  by (simp add: sample_options_def pairs_bytes_def pair_bytes_def pair_wf_def ascii_def)

definition sample_address :: RouterAddress where
  "sample_address = (let a = \<lparr>raCost = 10, raExpiration = 0, raTransportStyle = ascii ''NTCP2'', raOptions = sample_options, raRaw = []\<rparr>
     in a\<lparr>raRaw := address_bytes a\<rparr>)"

lemma sample_address_wf: "address_wf sample_address"
  using sample_options_wf by (simp add: sample_address_def address_wf_def address_bytes_def ascii_def Let_def)

definition sample_router_info :: bytes where
  "sample_router_info = idRaw null_identity @ (PutUint64 7 @ [1] @ raRaw sample_address @ [1] @ replicate 32 5 @ mapRaw sample_options) @ replicate 40 9"

lemma sample_router_info_parses:
  "\<exists>r. ParseRouterInfo sample_router_info = Inr r \<and> riAddressCount r = 1 \<and> riOptions r = sample_options"
proof -
  have "length (raRaw sample_address) = 26" "length (mapRaw sample_options) = 11"
    by (simp_all add: sample_address_def address_bytes_def sample_options_def pairs_bytes_def pair_bytes_def ascii_def Let_def)
  then show ?thesis
    using ParseRouterInfo_forward [of null_identity "[sample_address]" 1 "replicate 32 5" 1 sample_options "replicate 40 9" 7]
    by (simp add: ParseIdentity_null length_null_identity sample_address_wf sample_options_wf sample_router_info_def)
      (simp add: null_identity_def SignatureLen_def)
qed

text \<open>The hypothesis at a RouterInfo with a null certificate, one NTCP2 address, one peer and the option \<open>caps=f\<close>.\<close>

theorem router_info_exact_witness:
  "\<exists>r as. ParseRouterInfo sample_router_info = Inr r \<and> sample_router_info = riUnsigned r @ riSignature r \<and>
     drain RouterAddressNext 256 (RouterInfoAddresses r) = Some (Inr as) \<and> length as = 1"
proof -
  obtain r where "ParseRouterInfo sample_router_info = Inr r" "riAddressCount r = 1" using sample_router_info_parses by blast
  then show ?thesis using router_info_exact [of sample_router_info r] by (auto simp del: drain.simps)
qed

section \<open>Router options\<close>

lemma MappingNext_pairs: "pair_wf kv \<Longrightarrow> MappingNext (pairs_bytes (kv # ps)) = Inr (Some (kv, pairs_bytes ps))"
  by (simp add: pairs_bytes_def MappingNext_pair)

lemma floodfill_loop_pairs:
  "list_all pair_wf ps \<Longrightarrow> floodfill_loop (pairs_bytes ps) \<longleftrightarrow>
     (\<exists>v. (ascii ''caps'', v) \<in> set ps \<and> of_char (CHR ''f'') \<in> set v)"
proof (induction ps)
  case Nil
  then show ?case by (simp add: floodfill_loop.simps [of "[]"] pairs_bytes_def MappingNext_def)
next
  case (Cons kv ps)
  obtain k v where kv: "kv = (k, v)" by (cases kv)
  have "floodfill_loop (pairs_bytes (kv # ps)) \<longleftrightarrow>
      (k = ascii ''caps'' \<and> of_char (CHR ''f'') \<in> set v) \<or> floodfill_loop (pairs_bytes ps)"
    using MappingNext_pairs [of kv ps] Cons.prems by (subst floodfill_loop.simps) (auto simp: kv)
  then show ?case using Cons kv by auto
qed

lemma netid_loop_pairs:
  "list_all pair_wf ps \<Longrightarrow> netid_loop (pairs_bytes ps) =
     (case map_of ps (ascii ''netId'') of None \<Rightarrow> Inr 2
      | Some v \<Rightarrow> (case ParseUint 32 v of Some n \<Rightarrow> if n \<le> 255 then Inr (of_nat n) else Inl ErrInvalidNetID
                   | None \<Rightarrow> Inl ErrInvalidNetID))"
proof (induction ps)
  case Nil
  then show ?case by (simp add: netid_loop.simps [of "[]"] pairs_bytes_def MappingNext_def NativeNetID_def)
next
  case (Cons kv ps)
  obtain k v where kv: "kv = (k, v)" by (cases kv)
  have "netid_loop (pairs_bytes (kv # ps)) = (if k \<noteq> ascii ''netId'' then netid_loop (pairs_bytes ps)
      else case ParseUint 32 v of None \<Rightarrow> Inl ErrInvalidNetID | Some n \<Rightarrow> if n > 255 then Inl ErrInvalidNetID else Inr (of_nat n))"
    using MappingNext_pairs [of kv ps] Cons.prems by (subst netid_loop.simps) (simp add: kv)
  then show ?case using Cons kv by (cases "k = ascii ''netId''") (auto split: option.splits)
qed

text \<open>
  The options of an accepted RouterInfo never make its accessors fail on the encoding: a router is a
  floodfill exactly when its \<open>caps\<close> entry contains the letter f, and its network id is 2 without a
  \<open>netId\<close> entry, otherwise the decimal number in that entry when it is at most 255, and \<open>ErrInvalidNetID\<close> in
  every other case.
\<close>

theorem router_options_read:
  assumes "ParseRouterInfo src = Inr r"
  defines "ps \<equiv> mapping_entries (riOptions r)"
  shows "mapRaw (riOptions r) = PutUint16 (of_nat (length (pairs_bytes ps))) @ pairs_bytes ps \<and>
    (IsFloodfill r \<longleftrightarrow> (\<exists>v. (ascii ''caps'', v) \<in> set ps \<and> of_char (CHR ''f'') \<in> set v)) \<and>
    NetID r = (case map_of ps (ascii ''netId'') of None \<Rightarrow> Inr 2
      | Some v \<Rightarrow> (case ParseUint 32 v of Some n \<Rightarrow> if n \<le> 255 then Inr (of_nat n) else Inl ErrInvalidNetID
                   | None \<Rightarrow> Inl ErrInvalidNetID))"
proof -
  have wf: "mapping_wf (riOptions r)" and it: "MappingIterator (riOptions r) = pairs_bytes ps" "list_all pair_wf ps"
    using ParseRouterInfo_back [OF assms(1)] unfolding ps_def by metis+
  obtain qs where "mapRaw (riOptions r) = PutUint16 (of_nat (length (pairs_bytes qs))) @ pairs_bytes qs"
  proof -
    have "ParseMapping (mapRaw (riOptions r) @ []) = Inr (riOptions r, length (mapRaw (riOptions r)))"
      using wf unfolding mapping_wf_def by blast
    from ParseMapping_Some [OF this] show ?thesis using that by auto
  qed
  moreover from this have "pairs_bytes qs = pairs_bytes ps" using it(1) by (simp add: MappingIterator_def)
  ultimately have "mapRaw (riOptions r) = PutUint16 (of_nat (length (pairs_bytes ps))) @ pairs_bytes ps" by simp
  then show ?thesis unfolding IsFloodfill_def NetID_def it(1) using floodfill_loop_pairs [OF it(2)] netid_loop_pairs [OF it(2)] by blast
qed

text \<open>The hypothesis: the sample router is a floodfill of the public network.\<close>

theorem router_options_read_witness:
  "\<exists>r. ParseRouterInfo sample_router_info = Inr r \<and> IsFloodfill r \<and> NetID r = Inr 2"
proof -
  obtain r where r: "ParseRouterInfo sample_router_info = Inr r" "riOptions r = sample_options" using sample_router_info_parses by blast
  have wf: "list_all pair_wf [(ascii ''caps'', ascii ''f'')]" by (simp add: pair_wf_def ascii_def)
  have it: "MappingIterator sample_options = pairs_bytes [(ascii ''caps'', ascii ''f'')]"
    by (simp add: MappingIterator_def sample_options_def)
  have "mapping_entries sample_options = [(ascii ''caps'', ascii ''f'')]"
    using mapping_pairs.drain_encoded [OF wf] unfolding mapping_entries_def it by (simp add: pairs_bytes_def del: drain.simps)
  then show ?thesis using r router_options_read [OF r(1)] by (simp add: ascii_def)
qed

end
