(* ===== verification/NetDB_LeaseSets.thy ===== *)
theory NetDB_LeaseSets
  imports NetDB_Layout
begin

text \<open>
  Lease sets: the layout of accepted \<open>LeaseSet\<close> and \<open>LeaseSet2\<close> structures, the preference order of
  \<open>SelectEncryptionKey\<close>, the liveness test of \<open>SelectUsableEncryptionKey\<close> and what a positive verification of
  a LeaseSet2 establishes about its offline key.
\<close>

section \<open>The header\<close>

definition offline_signed_bytes :: "OfflineSignature \<Rightarrow> bytes" where
  "offline_signed_bytes off = PutUint32 (offExpires off) @ PutUint16 (offType off) @ (case offPublicKey off of None \<Rightarrow> [] | Some key \<Rightarrow> key)"

definition offline_bytes :: "OfflineSignature \<Rightarrow> bytes" where
  "offline_bytes off = (if Present off then offline_signed_bytes off @ offSignature off else [])"

definition header_bytes :: "LeaseSet2Header \<Rightarrow> bytes" where
  "header_bytes h = idRaw (hDestination h) @ PutUint32 (hPublished h) @ PutUint16 (hExpires h) @ PutUint16 (hFlags h) @
     offline_bytes (hOffline h)"

text \<open>What the parser promises of an offline block that a key of type \<open>signer\<close> signed.\<close>

definition offline_wf :: "SigningKeyType \<Rightarrow> u16 \<Rightarrow> OfflineSignature \<Rightarrow> bool" where
  "offline_wf signer flags off \<longleftrightarrow>
     (Present off \<longleftrightarrow> flags AND LeaseSetOfflineFlag \<noteq> 0) \<and>
     (Present off \<longrightarrow> offSigned off = offline_signed_bytes off \<and> SignatureLen signer = Some (length (offSignature off)) \<and>
        SigningPublicKeyLen (offType off) = map_option length (offPublicKey off))"

lemma parse_offline_back:
  assumes ok: "consumes (NewCursor (drop n src)) pre c" and n: "src = idr @ drop n src" "n = length idr"
    and p: "parse_offline src n signer c = Inr (off, c')" and flags: "flags AND LeaseSetOfflineFlag \<noteq> 0"
  shows "consumes c (offline_bytes off) c'" "offline_wf signer flags off"
proof -
  from p obtain ex c1 ty c2 kl key c3 sl sig c4 where
    q: "ReadU32 c = Inr (ex, c1)" "ReadU16 c1 = Inr (ty, c2)" "SigningPublicKeyLen ty = Some kl" "ReadBytes (int kl) c2 = Inr (key, c3)"
      "SignatureLen signer = Some sl" "ReadBytes (int sl) c3 = Inr (sig, c4)" "c4 = c'" and
    off: "off = \<lparr>offExpires = ex, offType = ty, offPublicKey = Some key, offSignature = sig,
      offSigned = slice (n + cur_off c) (n + cur_off c' - sl) src\<rparr>"
    by (auto simp: parse_offline_def bindR_eq_Inr known_len_Inr Let_def)
  have s1: "consumes c (PutUint32 ex) c1" by (rule ReadU32_Inr [OF consumes_ok [OF ok] q(1)])
  have s2: "consumes c1 (PutUint16 ty) c2" by (rule ReadU16_Inr [OF consumes_ok [OF s1] q(2)])
  note s3 = ReadBytes_nat [OF consumes_ok [OF s2] q(4)]
  note s4 = ReadBytes_nat [OF consumes_ok [OF s3(1)] q(6)]
  note signed = consumes_trans [OF s1 consumes_trans [OF s2 s3(1)]]
  have b: "offline_signed_bytes off = PutUint32 ex @ PutUint16 ty @ key" by (simp add: offline_signed_bytes_def off)
  show "consumes c (offline_bytes off) c'"
    using consumes_trans [OF signed s4(1)] q(7) by (simp add: offline_bytes_def b) (simp add: Present_def off)
  have "cur_off c' = cur_off c3 + sl" using s4 q(7) by (auto simp: consumes_def)
  then have e: "n + cur_off c' - sl = n + cur_off c3" by simp
  have "slice (n + cur_off c) (n + cur_off c3) src = PutUint32 ex @ PutUint16 ty @ key"
    using region_slice [of src "null_identity\<lparr>idRaw := idr\<rparr>" n pre c _ c3, OF _ _ ok signed] n by simp
  then have "offSigned off = offline_signed_bytes off" unfolding b by (simp add: off e)
  moreover have "Present off" by (simp add: off Present_def)
  ultimately show "offline_wf signer flags off" using flags q(3,5) s3(2) s4(2) by (simp add: offline_wf_def off)
qed

lemma parseLeaseSet2Header_back:
  assumes "parseLeaseSet2Header src = Inr (h, k)"
  shows "src = header_bytes h @ drop k src" "k = length (header_bytes h)"
    "offline_wf (idSigningType (hDestination h)) (hFlags h) (hOffline h)"
    "\<exists>n. ParseIdentity src = Inr (hDestination h, n)"
proof -
  from assms obtain i n pub c1 ex c2 fl c3 where
    i: "ParseIdentity src = Inr (i, n)" and
    q: "ReadU32 (NewCursor (drop n src)) = Inr (pub, c1)" "ReadU16 c1 = Inr (ex, c2)" "ReadU16 c2 = Inr (fl, c3)" and
    body: "if fl AND LeaseSetOfflineFlag = 0 then (h, k) = (\<lparr>hDestination = i, hPublished = pub, hExpires = ex, hFlags = fl, hOffline = no_offline\<rparr>, n + cur_off c3)
      else \<exists>off c4. parse_offline src n (idSigningType i) c3 = Inr (off, c4) \<and>
        h = \<lparr>hDestination = i, hPublished = pub, hExpires = ex, hFlags = fl, hOffline = off\<rparr> \<and> k = n + cur_off c4"
    by (auto simp: parseLeaseSet2Header_def bindR_eq_Inr Let_def split: if_splits)
  have s1: "consumes (NewCursor (drop n src)) (PutUint32 pub) c1" by (rule ReadU32_Inr [OF NewCursor_ok q(1)])
  have s2: "consumes c1 (PutUint16 ex) c2" by (rule ReadU16_Inr [OF consumes_ok [OF s1] q(2)])
  have s3: "consumes c2 (PutUint16 fl) c3" by (rule ReadU16_Inr [OF consumes_ok [OF s2] q(3)])
  note s = consumes_trans [OF s1 consumes_trans [OF s2 s3]]
  note id = ParseIdentity_Some(1,2) [OF i]
  have src: "src = idRaw i @ drop n src" "n = length (idRaw i)" using id by simp_all
  obtain off c4 where h: "h = \<lparr>hDestination = i, hPublished = pub, hExpires = ex, hFlags = fl, hOffline = off\<rparr>" "k = n + cur_off c4"
    and s4: "consumes c3 (offline_bytes off) c4" and wf: "offline_wf (idSigningType i) fl off"
  proof (cases "fl AND LeaseSetOfflineFlag = 0")
    case True
    then show ?thesis
      using body consumes_ok [OF s] by (intro that [of no_offline c3])
        (simp_all add: consumes_def offline_bytes_def offline_wf_def Present_def no_offline_def)
  next
    case False
    then obtain off c4 where o: "parse_offline src n (idSigningType i) c3 = Inr (off, c4)"
      "h = \<lparr>hDestination = i, hPublished = pub, hExpires = ex, hFlags = fl, hOffline = off\<rparr>" "k = n + cur_off c4"
      using body by auto
    show ?thesis using that [OF o(2,3)] parse_offline_back [OF s src o(1) False] by blast
  qed
  note a = consumes_New(1,2) [OF consumes_trans [OF s s4]]
  have hb: "header_bytes h = idRaw i @ (PutUint32 pub @ PutUint16 ex @ PutUint16 fl) @ offline_bytes off" by (simp add: header_bytes_def h(1))
  show len: "k = length (header_bytes h)" using a(2) h(2) src(2) hb by simp
  have "src = header_bytes h @ CursorBytes c4" using src(1) a(1) hb by simp
  then show "src = header_bytes h @ drop k src" unfolding len by (metis append_eq_conv_conj)
  show "offline_wf (idSigningType (hDestination h)) (hFlags h) (hOffline h)" "\<exists>n. ParseIdentity src = Inr (hDestination h, n)"
    using wf i by (simp_all add: h(1))
qed

text \<open>Reading forward, for headers that carry no offline block.\<close>

lemma read_forward_words:
  assumes "cursor_ok c"
  shows "CursorBytes c = PutUint32 v4 @ rest \<Longrightarrow> \<exists>c'. ReadU32 c = Inr (v4, c') \<and> consumes c (PutUint32 v4) c' \<and> CursorBytes c' = rest"
    "CursorBytes c = PutUint16 v2 @ rest \<Longrightarrow> \<exists>c'. ReadU16 c = Inr (v2, c') \<and> consumes c (PutUint16 v2) c' \<and> CursorBytes c' = rest"
  using read_forward(2) [OF assms, of "PutUint32 v4" rest 4] read_forward(2) [OF assms, of "PutUint16 v2" rest 2]
  by (auto simp: ReadU32_def ReadU16_def codec_simps)

lemma parseLeaseSet2Header_forward:
  assumes i: "\<And>rest. ParseIdentity (idRaw (hDestination h) @ rest) = Inr (hDestination h, length (idRaw (hDestination h)))"
    and h: "hOffline h = no_offline" "hFlags h AND LeaseSetOfflineFlag = 0"
  shows "parseLeaseSet2Header (header_bytes h @ rest) = Inr (h, length (header_bytes h))"
proof -
  let ?i = "hDestination h" and ?src = "header_bytes h @ rest"
  have src: "?src = idRaw ?i @ PutUint32 (hPublished h) @ PutUint16 (hExpires h) @ PutUint16 (hFlags h) @ rest"
    by (simp add: header_bytes_def offline_bytes_def h(1) Present_def no_offline_def)
  let ?c0 = "NewCursor (drop (length (idRaw ?i)) ?src)"
  have b0: "CursorBytes ?c0 = PutUint32 (hPublished h) @ PutUint16 (hExpires h) @ PutUint16 (hFlags h) @ rest"
    by (simp add: src NewCursor_def CursorBytes_def)
  obtain c1 where s1: "ReadU32 ?c0 = Inr (hPublished h, c1)" "consumes ?c0 (PutUint32 (hPublished h)) c1"
    and b1: "CursorBytes c1 = PutUint16 (hExpires h) @ PutUint16 (hFlags h) @ rest"
    using read_forward_words(1) [OF NewCursor_ok b0] by blast
  obtain c2 where s2: "ReadU16 c1 = Inr (hExpires h, c2)" "consumes c1 (PutUint16 (hExpires h)) c2" and b2: "CursorBytes c2 = PutUint16 (hFlags h) @ rest"
    using read_forward_words(2) [OF consumes_ok [OF s1(2)] b1] by blast
  obtain c3 where s3: "ReadU16 c2 = Inr (hFlags h, c3)" "consumes c2 (PutUint16 (hFlags h)) c3"
    using read_forward_words(2) [OF consumes_ok [OF s2(2)] b2] by blast
  have off: "length (idRaw ?i) + cur_off c3 = length (header_bytes h)"
    using consumes_New(2) [OF consumes_trans [OF s1(2) consumes_trans [OF s2(2) s3(2)]]]
    by (simp add: header_bytes_def offline_bytes_def h(1) Present_def no_offline_def)
  have p: "ParseIdentity ?src = Inr (?i, length (idRaw ?i))" unfolding src by (rule i)
  have "h = \<lparr>hDestination = ?i, hPublished = hPublished h, hExpires = hExpires h, hFlags = hFlags h, hOffline = no_offline\<rparr>"
    using h(1) by (cases h) simp
  then show ?thesis
    unfolding parseLeaseSet2Header_def p bindR_simps prod.case s1(1) s2(1) s3(1) Let_def off using h(2) by simp
qed

lemma keys_end_forward:
  "list_all key_wf ks \<Longrightarrow> length ks \<le> 255 \<Longrightarrow> keys_end (concat (map key_bytes ks) @ rest, of_nat (length ks)) = Inr rest"
proof (induction ks)
  case Nil
  then show ?case by (simp add: keys_end.simps [of "(rest, 0)"] keys.count_end)
next
  case (Cons a ks)
  let ?k = "of_nat (length (a # ks)) :: u8"
  have "unat ?k = length (a # ks)" using Cons.prems by (intro unat_of_nat_u8) simp
  then have "?k \<noteq> 0" by auto
  then have "EncryptionKeyNext (key_bytes a @ concat (map key_bytes ks) @ rest, ?k) = Inr (Some (a, (concat (map key_bytes ks) @ rest, ?k - 1)))"
    using Cons.prems by (intro keys.next_enc) simp_all
  moreover have "?k - 1 = of_nat (length ks)" by simp
  ultimately show ?case using Cons by (subst keys_end.simps) (simp del: of_nat_Suc)
qed

lemma check_each_forward: "list_all lease2_wf ls \<Longrightarrow> check_each parseLease2 40 (concat (map lease2_bytes ls)) = Inr ()"
proof (induction ls)
  case (Cons l ls)
  then have "parseLease2 (lease2_bytes l @ concat (map lease2_bytes ls)) = Inr l" "length (lease2_bytes l) = 40"
    using lease2s.parse_enc [of l] lease2s.enc_width [of l] by simp_all
  then show ?case using Cons by (subst check_each.simps) simp
qed (simp add: check_each.simps [of _ _ "[]"])

section \<open>LeaseSet2\<close>

lemma ParseLeaseSet2_back:
  assumes "ParseLeaseSet2 src = Inr s"
  obtains ks ls where "length src \<le> MaxLeaseSetBytes" "s2Raw s = src" "src = s2Unsigned s @ s2Signature s"
    "SignatureLen (payload_signer (hDestination (s2Header s)) (hOffline (s2Header s))) = Some (length (s2Signature s))"
    "s2Unsigned s = header_bytes (s2Header s) @ mapRaw (s2Options s) @ [s2KeyCount s] @ s2Keys s @ [s2LeaseCount s] @ s2Leases s"
    "offline_wf (idSigningType (hDestination (s2Header s))) (hFlags (s2Header s)) (hOffline (s2Header s))"
    "\<exists>n. ParseIdentity src = Inr (hDestination (s2Header s), n)"
    "s2KeyCount s \<noteq> 0" "length ks = unat (s2KeyCount s)" "list_all key_wf ks" "s2Keys s = concat (map key_bytes ks)"
    "s2LeaseCount s \<noteq> 0" "unat (s2LeaseCount s) \<le> MaxLeases" "length ls = unat (s2LeaseCount s)" "list_all lease2_wf ls"
    "s2Leases s = concat (map lease2_bytes ls)"
proof -
  from assms obtain h n m used c1 kc c2 kr c3 lc c4 lb c5 sl sig c6 where
    h: "parseLeaseSet2Header src = Inr (h, n)" and
    q: "ParseMapping (CursorBytes (NewCursor (drop n src))) = Inr (m, used)" "ValidateCanonical m = None"
      "CursorSkip (int used) (NewCursor (drop n src)) = Inr c1" "ReadU8 c1 = Inr (kc, c2)" "kc \<noteq> 0"
      "keys_end (CursorBytes c2, kc) = Inr kr" "CursorSkip (int (length (CursorBytes c2)) - int (length kr)) c2 = Inr c3"
      "ReadU8 c3 = Inr (lc, c4)" "lc \<noteq> 0" "unat lc \<le> MaxLeases" "ReadBytes (int (unat lc * 40)) c4 = Inr (lb, c5)"
      "check_each parseLease2 40 lb = Inr ()" "SignatureLen (payload_signer (hDestination h) (hOffline h)) = Some sl"
      "ReadBytes (int sl) c5 = Inr (sig, c6)" "CursorDone c6" and size: "length src \<le> MaxLeaseSetBytes" and
    s: "s = \<lparr>s2Header = h, s2Options = m, s2KeyCount = kc, s2Keys = slice (n + cur_off c2) (n + cur_off c3) src,
      s2LeaseCount = lc, s2Leases = lb, s2Signature = sig, s2Unsigned = take (n + cur_off c5) src, s2Raw = src\<rparr>"
    by (auto simp: ParseLeaseSet2_def bindR_eq_Inr guardR_Inr known_len_Inr Let_def simp del: of_nat_mult split: if_splits)
  note hb = parseLeaseSet2Header_back [OF h]
  have s1: "consumes (NewCursor (drop n src)) (mapRaw m) c1" by (rule read_mapping [OF NewCursor_ok q(1,2,3)])
  have s2: "consumes c1 [kc] c2" by (rule ReadU8_Inr [OF consumes_ok [OF s1] q(4)])
  obtain ks where ks: "length ks = unat kc" "list_all key_wf ks" "CursorBytes c2 = concat (map key_bytes ks) @ kr"
    using keys_end_back [OF q(6)] by auto
  have "int (length (CursorBytes c2)) - int (length kr) = int (length (concat (map key_bytes ks)))" using ks(3) by simp
  then have s3: "consumes c2 (concat (map key_bytes ks)) c3" using CursorSkip_prefix [OF consumes_ok [OF s2] _ ks(3) refl] q(7) by simp
  have s4: "consumes c3 [lc] c4" by (rule ReadU8_Inr [OF consumes_ok [OF s3] q(8)])
  note s5 = ReadBytes_nat [OF consumes_ok [OF s4] q(11)]
  note s6 = ReadBytes_nat [OF consumes_ok [OF s5(1)] q(14)]
  obtain ls where ls: "length ls = unat lc" "list_all lease2_wf ls" "lb = concat (map lease2_bytes ls)"
    using lease2s.checked_run [OF q(12) s5(2)] by blast
  note body = consumes_trans [OF s1 consumes_trans [OF s2 consumes_trans [OF s3 consumes_trans [OF s4 s5(1)]]]]
  define hi where "hi = null_identity\<lparr>idRaw := header_bytes h\<rparr>"
  note all = consumes_New [OF consumes_trans [OF body s6(1)]]
  have tail: "drop n src = (mapRaw m @ [kc] @ concat (map key_bytes ks) @ [lc] @ lb) @ sig" using all(1,3) q(15) by simp
  have src: "src = header_bytes h @ (mapRaw m @ [kc] @ concat (map key_bytes ks) @ [lc] @ lb) @ sig" using hb(1) tail by simp
  have uns: "take (n + cur_off c5) src = header_bytes h @ mapRaw m @ [kc] @ concat (map key_bytes ks) @ [lc] @ lb"
    unfolding consumes_New(2) [OF body] hb(2) by (subst src) simp
  have keys: "slice (n + cur_off c2) (n + cur_off c3) src = concat (map key_bytes ks)"
    using region_slice [of src hi n _ c2 _ c3, OF _ _ consumes_trans [OF s1 s2] s3] hb(1,2) by (simp add: hi_def)
  show thesis
    by (rule that [of ks ls]) (use size uns src keys q s6(2) ks ls hb in \<open>simp_all add: s\<close>)
qed

text \<open>
  C17. \<open>ParseLeaseSet2\<close> accepts exactly one complete structure: the signed part followed by the signature is
  the whole input, and the signed part is the header, the options, the counted encryption keys and the
  counted leases with nothing between or after them. The header carries an offline block exactly when its
  flag is set, the bytes the offline signature covers are the expiry, the type and the transient key, and the
  final signature has the length of the key that signs the payload (the transient key when there is one).
  There are between 1 and 16 leases, all with a tunnel id, and both iterators yield the announced counts
  without an error.
\<close>

theorem leaseset2_exact:
  assumes "ParseLeaseSet2 src = Inr s"
  defines "h \<equiv> s2Header s"
  shows "s2Raw s = src \<and> src = s2Unsigned s @ s2Signature s \<and>
    SignatureLen (if Present (hOffline h) then offType (hOffline h) else idSigningType (hDestination h)) = Some (length (s2Signature s)) \<and>
    s2Unsigned s = header_bytes h @ mapRaw (s2Options s) @ [s2KeyCount s] @ s2Keys s @ [s2LeaseCount s] @ s2Leases s \<and>
    offline_wf (idSigningType (hDestination h)) (hFlags h) (hOffline h) \<and>
    (\<exists>ks. drain EncryptionKeyNext 256 (LeaseSet2Keys s) = Some (Inr ks) \<and> length ks = unat (s2KeyCount s) \<and> ks \<noteq> []) \<and>
    (\<exists>ls. drain Lease2Next (Suc (length (s2Leases s))) (s2Leases s) = Some (Inr ls) \<and> length ls = unat (s2LeaseCount s) \<and>
       1 \<le> length ls \<and> length ls \<le> 16 \<and> list_all (\<lambda>l. l2TunnelID l \<noteq> 0) ls)"
proof -
  from assms(1) obtain ks ls where
    b: "s2Raw s = src" "src = s2Unsigned s @ s2Signature s"
      "SignatureLen (payload_signer (hDestination h) (hOffline h)) = Some (length (s2Signature s))"
      "s2Unsigned s = header_bytes h @ mapRaw (s2Options s) @ [s2KeyCount s] @ s2Keys s @ [s2LeaseCount s] @ s2Leases s"
      "offline_wf (idSigningType (hDestination h)) (hFlags h) (hOffline h)"
    and ks: "s2KeyCount s \<noteq> 0" "length ks = unat (s2KeyCount s)" "list_all key_wf ks" "s2Keys s = concat (map key_bytes ks)"
    and ls: "s2LeaseCount s \<noteq> 0" "unat (s2LeaseCount s) \<le> MaxLeases" "length ls = unat (s2LeaseCount s)" "list_all lease2_wf ls"
      "s2Leases s = concat (map lease2_bytes ls)"
    unfolding h_def by (rule ParseLeaseSet2_back) blast
  have "unat (s2KeyCount s) \<noteq> 0" "unat (s2LeaseCount s) \<noteq> 0" using ks(1) ls(1) by (simp_all add: unat_eq_zero)
  then have ne: "ks \<noteq> []" "1 \<le> length ls" using ks(2) ls(3) by auto
  have "length ks \<le> 255" using ks(2) unat_u8_less [of "s2KeyCount s"] by linarith
  then have dk: "drain EncryptionKeyNext 256 (LeaseSet2Keys s) = Some (Inr ks)"
    using keys.drain_counted [OF ks(3), of 256 "[]"] ks(2,4) by (simp add: LeaseSet2Keys_def del: drain.simps)
  have dl: "drain Lease2Next (Suc (length (s2Leases s))) (s2Leases s) = Some (Inr ls)"
    using lease2s.records.drain_encoded [OF ls(4)] ls(5) by (simp add: Lease2Next_record del: drain.simps)
  have t: "list_all (\<lambda>l. l2TunnelID l \<noteq> 0) ls" using ls(4) by (simp add: list_all_iff lease2_wf_def)
  have k: "\<exists>ks. drain EncryptionKeyNext 256 (LeaseSet2Keys s) = Some (Inr ks) \<and> length ks = unat (s2KeyCount s) \<and> ks \<noteq> []"
    by (intro exI conjI) (rule dk, rule ks(2), rule ne(1))
  have "length ls \<le> 16" using ls(2,3) by (simp add: MaxLeases_def)
  then have l: "\<exists>ls. drain Lease2Next (Suc (length (s2Leases s))) (s2Leases s) = Some (Inr ls) \<and> length ls = unat (s2LeaseCount s) \<and>
       1 \<le> length ls \<and> length ls \<le> 16 \<and> list_all (\<lambda>l. l2TunnelID l \<noteq> 0) ls"
    by (intro exI conjI) (rule dl, rule ls(3), rule ne(2), assumption, rule t)
  show ?thesis by (intro conjI b(1,2,4,5) k l) (rule b(3) [unfolded payload_signer_def])
qed

lemma ParseLeaseSet2_forward:
  assumes i: "\<And>rest. ParseIdentity (idRaw (hDestination h) @ rest) = Inr (hDestination h, length (idRaw (hDestination h)))"
    and h: "hOffline h = no_offline" "hFlags h AND LeaseSetOfflineFlag = 0"
    and m: "mapping_wf m" and ks: "list_all key_wf ks" "1 \<le> length ks" "length ks \<le> 255"
    and ls: "list_all lease2_wf ls" "1 \<le> length ls" "length ls \<le> 16"
    and sig: "SignatureLen (idSigningType (hDestination h)) = Some (length sig)"
  defines "body \<equiv> mapRaw m @ [of_nat (length ks)] @ concat (map key_bytes ks) @ [of_nat (length ls)] @ concat (map lease2_bytes ls)"
  assumes size: "length (header_bytes h @ body @ sig) \<le> MaxLeaseSetBytes"
  shows "ParseLeaseSet2 (header_bytes h @ body @ sig) = Inr \<lparr>s2Header = h, s2Options = m, s2KeyCount = of_nat (length ks),
    s2Keys = concat (map key_bytes ks), s2LeaseCount = of_nat (length ls), s2Leases = concat (map lease2_bytes ls), s2Signature = sig,
    s2Unsigned = header_bytes h @ body, s2Raw = header_bytes h @ body @ sig\<rparr>"
proof -
  let ?src = "header_bytes h @ body @ sig" and ?n = "length (header_bytes h)" and ?K = "concat (map key_bytes ks)" and ?L = "concat (map lease2_bytes ls)"
  let ?kc = "of_nat (length ks) :: u8" and ?lc = "of_nat (length ls) :: u8"
  let ?c0 = "NewCursor (drop ?n ?src)"
  have u: "unat ?kc = length ks" "unat ?lc = length ls" using ks(3) ls(3) by simp_all
  then have nz: "?kc \<noteq> 0" "?lc \<noteq> 0" using ks(2) ls(2) by auto
  have b0: "CursorBytes ?c0 = mapRaw m @ ?kc # ?K @ ?lc # ?L @ sig" by (simp add: NewCursor_def CursorBytes_def body_def)
  obtain c1 where s1: "ReadBytes (int (length (mapRaw m))) ?c0 = Inr (mapRaw m, c1)" "consumes ?c0 (mapRaw m) c1" and b1: "CursorBytes c1 = ?kc # ?K @ ?lc # ?L @ sig"
    using read_forward(2) [OF NewCursor_ok b0 refl] by blast
  obtain c2 where s2: "ReadU8 c1 = Inr (?kc, c2)" "consumes c1 [?kc] c2" and b2: "CursorBytes c2 = ?K @ ?lc # ?L @ sig"
    using read_forward(1) [OF consumes_ok [OF s1(2)] b1] by blast
  obtain c3 where s3: "ReadBytes (int (length ?K)) c2 = Inr (?K, c3)" "consumes c2 ?K c3" and b3: "CursorBytes c3 = ?lc # ?L @ sig"
    using read_forward(2) [OF consumes_ok [OF s2(2)] b2 refl] by blast
  obtain c4 where s4: "ReadU8 c3 = Inr (?lc, c4)" "consumes c3 [?lc] c4" and b4: "CursorBytes c4 = ?L @ sig"
    using read_forward(1) [OF consumes_ok [OF s3(2)] b3] by blast
  have len: "unat ?lc * 40 = length ?L" using lease2s.length_run [OF ls(1)] u(2) by simp
  obtain c5 where s5: "ReadBytes (int (unat ?lc * 40)) c4 = Inr (?L, c5)" "consumes c4 ?L c5" and b5: "CursorBytes c5 = sig @ []"
    using read_forward(2) [OF consumes_ok [OF s4(2)] b4 len] by auto
  obtain c6 where s6: "ReadBytes (int (length sig)) c5 = Inr (sig, c6)" "consumes c5 sig c6" and b6: "CursorBytes c6 = []"
    using read_forward(2) [OF consumes_ok [OF s5(2)] b5 refl] by blast
  note b = consumes_trans [OF s1(2) consumes_trans [OF s2(2) consumes_trans [OF s3(2) consumes_trans [OF s4(2) s5(2)]]]]
  have d: "CursorDone c6" using consumes_New(3) [OF consumes_trans [OF b s6(2)]] b6 by simp
  have off: "cur_off c5 = length body" using consumes_New(2) [OF b] by (simp add: body_def)
  have map: "ParseMapping (CursorBytes ?c0) = Inr (m, length (mapRaw m))" "ValidateCanonical m = None"
    unfolding b0 using m unfolding mapping_wf_def by blast+
  have ke: "keys_end (CursorBytes c2, ?kc) = Inr (?lc # ?L @ sig)" unfolding b2 by (rule keys_end_forward [OF ks(1,3)])
  have kl: "int (length (CursorBytes c2)) - int (length (?lc # ?L @ sig)) = int (length ?K)" by (simp add: b2)
  have "?src = idRaw (null_identity\<lparr>idRaw := header_bytes h\<rparr>) @ drop ?n ?src" "?n = length (idRaw (null_identity\<lparr>idRaw := header_bytes h\<rparr>))" by simp_all
  note reg = region_slice [OF this consumes_trans [OF s1(2) s2(2)] s3(2)]
  have signer: "payload_signer (hDestination h) (hOffline h) = idSigningType (hDestination h)" by (simp add: payload_signer_def h(1) Present_def no_offline_def)
  show ?thesis
    unfolding ParseLeaseSet2_def parseLeaseSet2Header_forward [OF i h] bindR_simps prod.case Let_def map s2(1) ke kl reg s4(1) s5(1)
      check_each_forward [OF ls(1)] signer sig CursorSkip_def s1(1) s3(1) s6(1) guardR_def known_len_def option.case
    using size nz u(2) ls(3) d by (simp add: s2(1) ke kl reg s4(1) s5(1) check_each_forward [OF ls(1)] s3(1) s6(1) off MaxLeases_def)
qed

text \<open>A sample: no options, \<open>n\<close> X25519 keys and one lease that ends at second 1000.\<close>

definition sample_header :: LeaseSet2Header where
  "sample_header = \<lparr>hDestination = null_identity, hPublished = 100, hExpires = 60, hFlags = 0, hOffline = no_offline\<rparr>"

definition sample_key :: EncryptionKey where "sample_key = \<lparr>ekType = CryptoX25519, ekData = replicate 32 4\<rparr>"
definition sample_lease2 :: Lease2 where "sample_lease2 = \<lparr>l2Gateway = replicate 32 6, l2TunnelID = 77, l2EndDate = 1000\<rparr>"

definition sample_leaseset2 :: "nat \<Rightarrow> bytes" where
  "sample_leaseset2 n = header_bytes sample_header @ (mapRaw sample_options @ [of_nat n] @ concat (replicate n (key_bytes sample_key)) @
     [1] @ lease2_bytes sample_lease2) @ replicate 40 9"

lemma length_concat_replicate: "length (concat (replicate n xs)) = n * length xs"
  by (induction n) simp_all

lemma sample_leaseset2_parses:
  assumes "1 \<le> n" "n \<le> 255"
  shows "\<exists>s. ParseLeaseSet2 (sample_leaseset2 n) = Inr s \<and> s2KeyCount s = of_nat n \<and> s2Keys s = concat (replicate n (key_bytes sample_key)) \<and>
    s2Leases s = lease2_bytes sample_lease2 \<and> s2Header s = sample_header"
proof -
  have k: "key_wf sample_key" "length (key_bytes sample_key) = 36" by (simp_all add: sample_key_def key_wf_def key_bytes_def CryptoPublicKeyLen_def)
  have l: "lease2_wf sample_lease2" "length (lease2_bytes sample_lease2) = 40" by (simp_all add: sample_lease2_def lease2_wf_def lease2_bytes_def)
  have h: "length (header_bytes sample_header) = 395" "hDestination sample_header = null_identity"
    by (simp_all add: sample_header_def header_bytes_def offline_bytes_def Present_def no_offline_def null_identity_def)
  have m: "length (mapRaw sample_options) = 11" by (simp add: sample_options_def pairs_bytes_def pair_bytes_def ascii_def)
  have "n * 36 \<le> 9180" using assms(2) by simp
  moreover have "MaxLeaseSetBytes \<ge> 60000"
    by (simp add: MaxLeaseSetBytes_def I2PDMaxPayload_def I2PDMessageBufferBytes_def I2PDReservedPrefix_def StandardHeaderLen_def)
  ultimately have size: "length (sample_leaseset2 n) \<le> MaxLeaseSetBytes"
    by (simp add: sample_leaseset2_def h m k l length_concat_replicate)
  have sig: "SignatureLen (idSigningType null_identity) = Some (length (replicate 40 (9 :: u8)))" by (simp add: null_identity_def SignatureLen_def)
  have hw: "hOffline sample_header = no_offline" "hFlags sample_header AND LeaseSetOfflineFlag = 0" by (simp_all add: sample_header_def)
  have ks: "list_all key_wf (replicate n sample_key)" using k by (simp add: list_all_iff)
  show ?thesis
    using ParseLeaseSet2_forward [of sample_header sample_options "replicate n sample_key" "[sample_lease2]" "replicate 40 9"]
      ParseIdentity_null hw sample_options_wf ks assms l(1) sig size length_null_identity
    by (simp add: h(2) sample_leaseset2_def map_replicate_const)
qed

text \<open>The hypothesis at the sample with two keys.\<close>

theorem leaseset2_exact_witness:
  "\<exists>s ks. ParseLeaseSet2 (sample_leaseset2 2) = Inr s \<and> sample_leaseset2 2 = s2Unsigned s @ s2Signature s \<and>
     drain EncryptionKeyNext 256 (LeaseSet2Keys s) = Some (Inr ks) \<and> length ks = 2"
proof -
  obtain s where s: "ParseLeaseSet2 (sample_leaseset2 2) = Inr s" "s2KeyCount s = of_nat 2" using sample_leaseset2_parses [of 2] by auto
  note e = leaseset2_exact [OF s(1)]
  from e obtain ks where "drain EncryptionKeyNext 256 (LeaseSet2Keys s) = Some (Inr ks)" "length ks = unat (s2KeyCount s)" by blast
  then show ?thesis using s e by (intro exI [of _ s] exI [of _ ks]) (simp del: drain.simps)
qed

text \<open>
  C39. The key count of a LeaseSet2 has no upper bound but its byte: structures with more than
  \<open>MaxLeaseSet2Keys\<close> keys, up to 255, are accepted, although the constant is declared as the protocol limit and
  the parser documents that it validates all count bounds.
\<close>

theorem leaseset2_key_limit_not_enforced:
  assumes "MaxLeaseSet2Keys < n" "n \<le> 255"
  shows "\<exists>s. ParseLeaseSet2 (sample_leaseset2 n) = Inr s \<and> unat (s2KeyCount s) = n \<and> MaxLeaseSet2Keys < unat (s2KeyCount s)"
  using sample_leaseset2_parses [of n] assms by auto

theorem leaseset2_key_limit_not_enforced_witness:
  "\<exists>s. ParseLeaseSet2 (sample_leaseset2 9) = Inr s \<and> unat (s2KeyCount s) = 9"
  using leaseset2_key_limit_not_enforced [of 9] by (auto simp: MaxLeaseSet2Keys_def)

section \<open>Choosing a key\<close>

lemma find_key_counted:
  "list_all key_wf ks \<Longrightarrow> length ks \<le> 255 \<Longrightarrow>
   find_key t (concat (map key_bytes ks), of_nat (length ks)) = Inr (find (\<lambda>k. ekType k = t) ks)"
proof (induction ks)
  case Nil
  then show ?case by (simp add: find_key.simps [of _ "([], 0)"] keys.count_end)
next
  case (Cons a ks)
  let ?k = "of_nat (length (a # ks)) :: u8"
  have "unat ?k = length (a # ks)" using Cons.prems by (intro unat_of_nat_u8) simp
  then have "?k \<noteq> 0" by auto
  then have "EncryptionKeyNext (key_bytes a @ concat (map key_bytes ks), ?k) = Inr (Some (a, (concat (map key_bytes ks), ?k - 1)))"
    using Cons.prems by (intro keys.next_enc) simp_all
  moreover have "?k - 1 = of_nat (length ks)" by simp
  ultimately show ?case using Cons by (subst find_key.simps) (simp del: of_nat_Suc)
qed

lemma Lease2Next_run: "lease2_wf l \<Longrightarrow> Lease2Next (concat (map lease2_bytes (l # ls))) = Inr (Some (l, concat (map lease2_bytes ls)))"
  using lease2s.records.next_enc [of l "concat (map lease2_bytes ls)"] by (simp add: Lease2Next_record)

lemma live_loop_run:
  "list_all lease2_wf ls \<Longrightarrow> live_loop now (concat (map lease2_bytes ls)) = Inr (\<exists>l \<in> set ls. ucast (l2EndDate l) > now)"
proof (induction ls)
  case (Cons l ls)
  then have "Lease2Next (concat (map lease2_bytes (l # ls))) = Inr (Some (l, concat (map lease2_bytes ls)))" by (intro Lease2Next_run) simp
  then show ?case using Cons by (subst live_loop.simps) auto
qed (simp add: live_loop.simps [of _ "[]"] Lease2Next_def)

lemma within_loop_run:
  "list_all lease2_wf ls \<Longrightarrow> within_loop ex (concat (map lease2_bytes ls)) = Inr (\<forall>l \<in> set ls. l2EndDate l \<le> ex)"
proof (induction ls)
  case (Cons l ls)
  then have "Lease2Next (concat (map lease2_bytes (l # ls))) = Inr (Some (l, concat (map lease2_bytes ls)))" by (intro Lease2Next_run) simp
  then show ?case using Cons by (subst within_loop.simps) auto
qed (simp add: within_loop.simps [of _ "[]"] Lease2Next_def)

lemma find_hd_filter: "find P xs = Some x \<Longrightarrow> hd (filter P xs) = x"
  by (induction xs) (auto split: if_splits)

lemma SelectEncryptionKey_keys:
  assumes "LeaseSet2Keys s = (concat (map key_bytes ks), of_nat (length ks))" "list_all key_wf ks" "length ks \<le> 255"
  shows "SelectEncryptionKey s supported =
    (case find (\<lambda>t. \<exists>k \<in> set ks. ekType k = t) supported of None \<Rightarrow> Inl ErrNoSupportedEncryptionKey
     | Some t \<Rightarrow> Inr (hd (filter (\<lambda>k. ekType k = t) ks)))"
proof (induction supported)
  case (Cons t ts)
  have f: "find_key t (LeaseSet2Keys s) = Inr (find (\<lambda>k. ekType k = t) ks)"
    unfolding assms(1) by (rule find_key_counted [OF assms(2,3)])
  show ?case
  proof (cases "find (\<lambda>k. ekType k = t) ks")
    case None
    then have "\<not> (\<exists>k \<in> set ks. ekType k = t)" by (simp add: find_None_iff)
    then show ?thesis using Cons f None by simp
  next
    case (Some k)
    then have "\<exists>k \<in> set ks. ekType k = t" by (auto simp: find_Some_iff)
    moreover have "hd (filter (\<lambda>k. ekType k = t) ks) = k" using find_hd_filter Some by fast
    ultimately show ?thesis using f Some by simp
  qed
qed simp

text \<open>
  On an accepted LeaseSet2, \<open>SelectEncryptionKey\<close> returns the first key of the first type in the caller's
  preference order that the LeaseSet2 offers, independent of the order of its keys, and
  \<open>ErrNoSupportedEncryptionKey\<close> exactly when it offers none of them. \<open>SelectUsableEncryptionKey\<close> returns the
  same when some lease ends after the current second and \<open>ErrELSExpired\<close> otherwise; no other error occurs.
\<close>

theorem select_key_preference:
  assumes "ParseLeaseSet2 src = Inr s"
  shows "\<exists>ks ls. drain EncryptionKeyNext 256 (LeaseSet2Keys s) = Some (Inr ks) \<and>
    drain Lease2Next (Suc (length (s2Leases s))) (s2Leases s) = Some (Inr ls) \<and>
    SelectEncryptionKey s supported =
      (case find (\<lambda>t. \<exists>k \<in> set ks. ekType k = t) supported of None \<Rightarrow> Inl ErrNoSupportedEncryptionKey
       | Some t \<Rightarrow> Inr (hd (filter (\<lambda>k. ekType k = t) ks))) \<and>
    SelectUsableEncryptionKey s nowMillis supported =
      (if \<exists>l \<in> set ls. unat (l2EndDate l) > unat nowMillis div 1000 then SelectEncryptionKey s supported else Inl ErrELSExpired)"
proof -
  from assms obtain ks ls where
    ks: "length ks = unat (s2KeyCount s)" "list_all key_wf ks" "s2Keys s = concat (map key_bytes ks)"
    and ls: "list_all lease2_wf ls" "s2Leases s = concat (map lease2_bytes ls)"
    by (rule ParseLeaseSet2_back) blast
  have le: "length ks \<le> 255" using ks(1) unat_u8_less [of "s2KeyCount s"] by linarith
  have it: "LeaseSet2Keys s = (concat (map key_bytes ks), of_nat (length ks))" using ks(1,3) by (simp add: LeaseSet2Keys_def)
  have dk: "drain EncryptionKeyNext 256 (LeaseSet2Keys s) = Some (Inr ks)"
    unfolding it using keys.drain_counted [OF ks(2) le, of 256 "[]"] le by (simp del: drain.simps)
  have dl: "drain Lease2Next (Suc (length (s2Leases s))) (s2Leases s) = Some (Inr ls)"
    using lease2s.records.drain_encoded [OF ls(1)] ls(2) by (simp add: Lease2Next_record del: drain.simps)
  have lt: "ucast (l2EndDate l) > nowMillis div 1000 \<longleftrightarrow> unat (l2EndDate l) > unat nowMillis div 1000" for l
    by (simp add: word_less_nat_alt unat_div)
  have "SelectUsableEncryptionKey s nowMillis supported =
      (if \<exists>l \<in> set ls. unat (l2EndDate l) > unat nowMillis div 1000 then SelectEncryptionKey s supported else Inl ErrELSExpired)"
    unfolding SelectUsableEncryptionKey_def ls(2) live_loop_run [OF ls(1)] lt by simp
  then show ?thesis using dk dl SelectEncryptionKey_keys [OF it ks(2) le] by blast
qed

text \<open>The hypothesis: the sample offers X25519 only, so the hybrid preference falls through to it.\<close>

theorem select_key_preference_witness:
  "\<exists>s. ParseLeaseSet2 (sample_leaseset2 2) = Inr s \<and> SelectUsableEncryptionKey s 999999 [7, 6, 4] = Inr sample_key \<and>
     SelectUsableEncryptionKey s 1000000 [7, 6, 4] = Inl ErrELSExpired \<and> SelectEncryptionKey s [7, 6] = Inl ErrNoSupportedEncryptionKey"
proof -
  obtain s where s: "ParseLeaseSet2 (sample_leaseset2 2) = Inr s" "s2KeyCount s = of_nat 2" "s2Keys s = concat (replicate 2 (key_bytes sample_key))"
    "s2Leases s = lease2_bytes sample_lease2" using sample_leaseset2_parses [of 2] by auto
  have wf: "list_all key_wf [sample_key, sample_key]" "list_all lease2_wf [sample_lease2]"
    by (simp_all add: sample_key_def key_wf_def CryptoPublicKeyLen_def sample_lease2_def lease2_wf_def)
  have dk: "drain EncryptionKeyNext 256 (LeaseSet2Keys s) = Some (Inr [sample_key, sample_key])"
    using keys.drain_counted [OF wf(1), of 256 "[]"] s(2,3) by (simp add: LeaseSet2Keys_def numeral_2_eq_2 del: drain.simps)
  have dl: "drain Lease2Next (Suc (length (s2Leases s))) (s2Leases s) = Some (Inr [sample_lease2])"
    using lease2s.records.drain_encoded [OF wf(2)] s(4) by (simp add: Lease2Next_record del: drain.simps)
  show ?thesis
    using select_key_preference [OF s(1), of "[7, 6, 4]" 999999] select_key_preference [OF s(1), of "[7, 6, 4]" 1000000]
      select_key_preference [OF s(1), of "[7, 6]" 0] s(1) dk dl
    by (auto simp: sample_key_def sample_lease2_def simp del: drain.simps)
qed

section \<open>Verification\<close>

lemma offline_outlived_iff:
  "offline_outlived published ex off \<longleftrightarrow> unat published + unat ex > unat (offExpires off)"
proof -
  have "unat published + unat ex < 18446744073709551616" using unat_u32_less [of published] unat_u16_less [of ex] by linarith
  then have "unat ((ucast published :: u64) + ucast ex) = unat published + unat ex" by (subst unat_add_lem [THEN iffD1]) simp_all
  then show ?thesis by (auto simp: offline_outlived_def word_less_nat_alt)
qed

lemma VerifySignature_total:
  assumes "SigningPublicKeyLen kind = Some (length first + length rest)" "SignatureLen kind = Some (length sig)"
  shows "\<exists>b. VerifySignature B kind first rest message sig = Inr b"
  using assms verify_kind_total [of kind B first rest message sig] known_kinds [OF assms(1)] by (simp add: VerifySignature_def)

lemma VerifySignaturePrefixed_fst:
  "slab_ok st \<Longrightarrow> fst (VerifySignaturePrefixed B pre kind first rest message sig pick st) = VerifySignature B kind first rest (pre # message) sig"
  using VerifySignaturePrefixed_join [of st B pre kind first rest message sig pick] by auto

text \<open>The signing key of an accepted LeaseSet2's payload.\<close>

definition payload_key :: "LeaseSet2Header \<Rightarrow> SigningKeyType \<times> bytes \<times> bytes" where
  "payload_key h = (case offPublicKey (hOffline h) of
     None \<Rightarrow> (idSigningType (hDestination h), SigningKeyParts (hDestination h))
   | Some key \<Rightarrow> (offType (hOffline h), key, []))"

text \<open>
  C9. Verifying an accepted LeaseSet2 never fails with an error, and it answers true exactly when the payload
  key signed the type byte 3 followed by the signed part and, where there is an offline block, the
  destination's own key signed the transient key with its expiry, the LeaseSet2 expires no later than that
  key, and no lease outlives it. Without an offline block the payload key is the destination's.
\<close>

theorem leaseset2_verify_sound:
  assumes "ParseLeaseSet2 src = Inr s" "slab_ok st"
  defines "h \<equiv> s2Header s"
  shows "\<exists>b ls. fst (LeaseSet2Verify B s pick st) = Inr b \<and>
    drain Lease2Next (Suc (length (s2Leases s))) (s2Leases s) = Some (Inr ls) \<and>
    (b \<longleftrightarrow> (case payload_key h of (kind, first, rest) \<Rightarrow> VerifySignature B kind first rest (3 # s2Unsigned s) (s2Signature s) = Inr True) \<and>
       (Present (hOffline h) \<longrightarrow>
          IdentityVerify B (hDestination h) (offline_signed_bytes (hOffline h)) (offSignature (hOffline h)) = Inr True \<and>
          unat (hPublished h) + unat (hExpires h) \<le> unat (offExpires (hOffline h)) \<and>
          (\<forall>l \<in> set ls. l2EndDate l \<le> offExpires (hOffline h))))"
proof -
  let ?off = "hOffline h" and ?d = "hDestination h"
  from assms(1) obtain n ls where
    sl: "SignatureLen (payload_signer ?d ?off) = Some (length (s2Signature s))" and wf: "offline_wf (idSigningType ?d) (hFlags h) ?off"
    and id: "ParseIdentity src = Inr (?d, n)" and ls: "list_all lease2_wf ls" "s2Leases s = concat (map lease2_bytes ls)"
    unfolding h_def by (rule ParseLeaseSet2_back) blast
  have dl: "drain Lease2Next (Suc (length (s2Leases s))) (s2Leases s) = Some (Inr ls)"
    using lease2s.records.drain_encoded [OF ls(1)] ls(2) by (simp add: Lease2Next_record del: drain.simps)
  have dk: "SigningPublicKeyLen (idSigningType ?d) = Some (length (signingFirst ?d) + length (signingRest ?d))"
    using ParseIdentity_Some(5) [OF id] by simp
  have w: "within_loop e (s2Leases s) = Inr (\<forall>l \<in> set ls. l2EndDate l \<le> e)" for e unfolding ls(2) by (rule within_loop_run [OF ls(1)])
  note pf = VerifySignaturePrefixed_fst [OF assms(2)]
  show ?thesis
  proof (cases "offPublicKey ?off")
    case None
    then have "fst (LeaseSet2Verify B s pick st) =
      VerifySignature B (idSigningType ?d) (signingFirst ?d) (signingRest ?d) (3 # s2Unsigned s) (s2Signature s)"
      using pf by (simp add: LeaseSet2Verify_def h_def [symmetric] Let_def SigningKeyParts_def)
    moreover obtain b where "VerifySignature B (idSigningType ?d) (signingFirst ?d) (signingRest ?d) (3 # s2Unsigned s) (s2Signature s) = Inr b"
    proof -
      have "SignatureLen (idSigningType ?d) = Some (length (s2Signature s))" using sl None by (simp add: payload_signer_def Present_def)
      from VerifySignature_total [OF dk this] that show ?thesis by blast
    qed
    ultimately show ?thesis using dl None by (intro exI [of _ b] exI [of _ ls]) (simp add: payload_key_def SigningKeyParts_def Present_def del: drain.simps)
  next
    case (Some key)
    then have o: "Present ?off" "offSigned ?off = offline_signed_bytes ?off" "SignatureLen (idSigningType ?d) = Some (length (offSignature ?off))"
      "SigningPublicKeyLen (offType ?off) = Some (length key + length ([] :: bytes))" "SignatureLen (offType ?off) = Some (length (s2Signature s))"
      using wf sl by (auto simp: offline_wf_def Present_def payload_signer_def)
    obtain b1 where b1: "IdentityVerify B ?d (offline_signed_bytes ?off) (offSignature ?off) = Inr b1"
      using VerifySignature_total [OF dk o(3)] by (auto simp: IdentityVerify_def SigningKeyParts_def)
    obtain b2 where b2: "VerifySignature B (offType ?off) key [] (3 # s2Unsigned s) (s2Signature s) = Inr b2"
      using VerifySignature_total [OF o(4,5)] by blast
    let ?in = "unat (hPublished h) + unat (hExpires h) \<le> unat (offExpires ?off) \<and> (\<forall>l \<in> set ls. l2EndDate l \<le> offExpires ?off)"
    have "fst (LeaseSet2Verify B s pick st) = Inr (?in \<and> b1 \<and> b2)"
      using pf b1 b2 by (simp add: LeaseSet2Verify_def h_def [symmetric] Let_def SigningKeyParts_def Some w offline_outlived_iff o(2) split: bool.split)
    then show ?thesis using dl Some o(1) b1 b2
      by (intro exI [of _ "?in \<and> b1 \<and> b2"] exI [of _ ls]) (auto simp: payload_key_def simp del: drain.simps)
  qed
qed

text \<open>The hypotheses at the sample, whose payload key is the DSA key of its destination.\<close>

theorem leaseset2_verify_sound_witness:
  "\<exists>s. ParseLeaseSet2 (sample_leaseset2 1) = Inr s \<and>
     (\<forall>B pick. \<exists>b. fst (LeaseSet2Verify B s pick slab_init) = Inr b \<and>
        (b \<longleftrightarrow> verifyDSA B (replicate 128 1) (3 # s2Unsigned s) (s2Signature s) = Inr True))"
proof -
  obtain s where s: "ParseLeaseSet2 (sample_leaseset2 1) = Inr s" "s2Header s = sample_header" using sample_leaseset2_parses [of 1] by auto
  have "SignatureLen (idSigningType null_identity) = Some (length (s2Signature s))"
    using s(1) by (rule ParseLeaseSet2_back) (simp add: s(2) sample_header_def payload_signer_def Present_def no_offline_def)
  then have v: "VerifySignature B 0 (replicate 128 1) [] message (s2Signature s) = verifyDSA B (replicate 128 1) message (s2Signature s)" for B message
    by (simp add: VerifySignature_def verify_kind_def SigningPublicKeyLen_def null_identity_def)
  have pk: "payload_key sample_header = (0, replicate 128 1, [])" "\<not> Present (hOffline sample_header)"
    by (simp_all add: payload_key_def sample_header_def no_offline_def null_identity_def SigningKeyParts_def Present_def)
  have "\<exists>b. fst (LeaseSet2Verify B s pick slab_init) = Inr b \<and>
      (b \<longleftrightarrow> verifyDSA B (replicate 128 1) (3 # s2Unsigned s) (s2Signature s) = Inr True)" for B pick
    using leaseset2_verify_sound [OF s(1) slab_ok_init, of B pick] by (auto simp: s(2) pk v simp del: drain.simps)
  then show ?thesis using s(1) by blast
qed

end
