(* ===== verification/NetDB_Extended.thy ===== *)
theory NetDB_Extended
  imports NetDB_LeaseSets
begin

text \<open>
  The extended lease sets of \<open>foundation/internal/netdb/extended.go\<close>: meta lease sets, which refer to
  other lease sets, and encrypted lease sets, whose inner data stays opaque. The offline block of an encrypted
  lease set is read by the same code shape as the one of LeaseSet2, so both use \<open>parse_offline\<close>.
\<close>

section \<open>Meta lease sets\<close>

definition MaxMetaLeases :: nat where "MaxMetaLeases = 255"
definition MaxRevocations :: nat where "MaxRevocations = 255"

record MetaLease =
  mlGateway :: bytes
  mlType :: u8
  mlCost :: u8
  mlEndDate :: u32

definition parseMetaLease :: "bytes \<Rightarrow> MetaLease result" where
  "parseMetaLease src =
     (if length src < 40 then Inl ErrShortBuffer
      else if src ! 32 \<noteq> 0 \<or> src ! 33 \<noteq> 0 \<or> (src ! 34) AND 0xf0 \<noteq> 0 then Inl NetDBErrMalformed
      else let entryType = (src ! 34) AND 0x0f in
        if entryType \<noteq> 0 \<and> entryType \<noteq> 1 \<and> entryType \<noteq> 3 \<and> entryType \<noteq> 5 then Inl NetDBErrMalformed
        else Inr \<lparr>mlGateway = take 32 src, mlType = entryType, mlCost = src ! 35, mlEndDate = Uint32 (slice 36 40 src)\<rparr>)"

definition MetaLeaseNext :: "bytes \<Rightarrow> (MetaLease \<times> bytes) option result" where
  "MetaLeaseNext it =
     (if it = [] then Inr None else bindR (parseMetaLease it) (\<lambda>lease. Inr (Some (lease, drop 40 it))))"

record MetaLeaseSet =
  msHeader :: LeaseSet2Header
  msOptions :: Mapping
  msLeaseCount :: u8
  msLeases :: bytes
  msRevocations :: bytes
  msSignature :: bytes
  msUnsigned :: bytes
  msRaw :: bytes

definition MetaLeaseSetHash :: "MetaLeaseSet \<Rightarrow> bytes" where "MetaLeaseSetHash s = IdentityHash (hDestination (msHeader s))"
definition RevocationCount :: "MetaLeaseSet \<Rightarrow> nat" where "RevocationCount s = length (msRevocations s) div HashLength"

lemma MetaLeaseNext_shrinks: "MetaLeaseNext it = Inr (Some (l, it')) \<Longrightarrow> length it' < length it"
  by (auto simp: MetaLeaseNext_def bindR_eq_Inr split: if_splits)

function meta_within_loop :: "u32 \<Rightarrow> bytes \<Rightarrow> bool result" where
  "meta_within_loop expires it =
     (case MetaLeaseNext it of
        Inl e \<Rightarrow> Inl e
      | Inr None \<Rightarrow> Inr True
      | Inr (Some (lease, it')) \<Rightarrow> if mlEndDate lease > expires then Inr False else meta_within_loop expires it')"
  by pat_completeness auto
termination by (relation "measure (\<lambda>(n, it). length it)") (auto dest: MetaLeaseNext_shrinks)

definition MetaLeaseSetVerify :: "crypto_backend \<Rightarrow> MetaLeaseSet \<Rightarrow> nat option \<Rightarrow> slab_state \<Rightarrow> bool result \<times> slab_state" where
  "MetaLeaseSetVerify B s pick st =
     (let h = msHeader s; signingType = idSigningType (hDestination h); (first, rest) = SigningKeyParts (hDestination h) in
      case offPublicKey (hOffline h) of
        None \<Rightarrow> VerifySignaturePrefixed B 7 signingType first rest (msUnsigned s) (msSignature s) pick st
      | Some key \<Rightarrow>
          if offline_outlived (hPublished h) (hExpires h) (hOffline h) then (Inr False, st)
          else case meta_within_loop (offExpires (hOffline h)) (msLeases s) of
            Inl e \<Rightarrow> (Inl e, st)
          | Inr False \<Rightarrow> (Inr False, st)
          | Inr True \<Rightarrow>
              (case IdentityVerify B (hDestination h) (offSigned (hOffline h)) (offSignature (hOffline h)) of
                 Inl e \<Rightarrow> (Inl e, st)
               | Inr False \<Rightarrow> (Inr False, st)
               | Inr True \<Rightarrow>
                   VerifySignaturePrefixed B 7 (offType (hOffline h)) key [] (msUnsigned s) (msSignature s) pick st))"

definition ParseMetaLeaseSet :: "bytes \<Rightarrow> MetaLeaseSet result" where
  "ParseMetaLeaseSet src =
     (if length src > MaxLeaseSetBytes then Inl ErrStructureTooLarge
      else bindR (parseLeaseSet2Header src) (\<lambda>(header, n).
        let c0 = NewCursor (drop n src) in
        bindR (ParseMapping (CursorBytes c0)) (\<lambda>(options, used).
        bindR (guardR (ValidateCanonical options)) (\<lambda>_.
        bindR (CursorSkip (int used) c0) (\<lambda>c1.
        bindR (ReadU8 c1) (\<lambda>(count, c2).
        if count = 0 then Inl ErrTooManyItems
        else bindR (ReadBytes (int (unat count * 40)) c2) (\<lambda>(ls, c3).
        bindR (check_each parseMetaLease 40 ls) (\<lambda>_.
        bindR (ReadU8 c3) (\<lambda>(revocationCount, c4).
        bindR (ReadBytes (int (unat revocationCount * HashLength)) c4) (\<lambda>(revocations, c5).
        let unsignedEnd = n + cur_off c5 in
        bindR (known_len (SignatureLen (payload_signer (hDestination header) (hOffline header)))) (\<lambda>signatureLen.
        bindR (ReadBytes (int signatureLen) c5) (\<lambda>(signature, c6).
        if \<not> CursorDone c6 then Inl NetDBErrMalformed
        else Inr \<lparr>msHeader = header, msOptions = options, msLeaseCount = count, msLeases = ls, msRevocations = revocations,
          msSignature = signature, msUnsigned = take unsignedEnd src, msRaw = src\<rparr>))))))))))))"

section \<open>Encrypted lease sets\<close>

record EncryptedLeaseSet =
  elSigningType :: SigningKeyType
  elBlindedPublicKey :: bytes
  elPublished :: u32
  elExpires :: u16
  elFlags :: u16
  elOffline :: OfflineSignature
  elEncryptedData :: bytes
  elSignature :: bytes
  elUnsigned :: bytes
  elRaw :: bytes

text \<open>\<open>Hash\<close> builds its input in a zeroed array of 514 bytes and hashes the part it filled.\<close>

definition EncryptedLeaseSetHash :: "EncryptedLeaseSet \<Rightarrow> bytes" where
  "EncryptedLeaseSetHash s =
     (let input = put_at 2 (elBlindedPublicKey s) (put_at 0 (PutUint16 (elSigningType s)) (replicate (2 + 512) 0))
      in Sum_hash (take (2 + length (elBlindedPublicKey s)) input))"

definition EncryptedLeaseSetVerify :: "crypto_backend \<Rightarrow> EncryptedLeaseSet \<Rightarrow> nat option \<Rightarrow> slab_state \<Rightarrow> bool result \<times> slab_state" where
  "EncryptedLeaseSetVerify B s pick st =
     (case offPublicKey (elOffline s) of
        None \<Rightarrow> VerifySignaturePrefixed B 5 (elSigningType s) (elBlindedPublicKey s) [] (elUnsigned s) (elSignature s) pick st
      | Some key \<Rightarrow>
          if offline_outlived (elPublished s) (elExpires s) (elOffline s) then (Inr False, st)
          else case VerifySignature B (elSigningType s) (elBlindedPublicKey s) [] (offSigned (elOffline s)) (offSignature (elOffline s)) of
            Inl e \<Rightarrow> (Inl e, st)
          | Inr False \<Rightarrow> (Inr False, st)
          | Inr True \<Rightarrow> VerifySignaturePrefixed B 5 (offType (elOffline s)) key [] (elUnsigned s) (elSignature s) pick st)"

definition els_offline :: "bytes \<Rightarrow> SigningKeyType \<Rightarrow> u16 \<Rightarrow> Cursor \<Rightarrow> (OfflineSignature \<times> Cursor) result" where
  "els_offline src signingType flags c =
     (if flags AND LeaseSetOfflineFlag \<noteq> 0 then parse_offline src 0 signingType c else Inr (no_offline, c))"

definition els_signer :: "SigningKeyType \<Rightarrow> OfflineSignature \<Rightarrow> SigningKeyType" where
  "els_signer signingType off = (if Present off then offType off else signingType)"

definition ParseEncryptedLeaseSet :: "bytes \<Rightarrow> EncryptedLeaseSet result" where
  "ParseEncryptedLeaseSet src =
     (if length src > MaxLeaseSetBytes then Inl ErrStructureTooLarge
      else bindR (ReadU16 (NewCursor src)) (\<lambda>(signingType, c1).
        bindR (known_len (SigningPublicKeyLen signingType)) (\<lambda>keyLen.
        bindR (ReadBytes (int keyLen) c1) (\<lambda>(publicKey, c2).
        bindR (ReadU32 c2) (\<lambda>(published, c3).
        bindR (ReadU16 c3) (\<lambda>(expires, c4).
        bindR (ReadU16 c4) (\<lambda>(flags, c5).
        bindR (els_offline src signingType flags c5) (\<lambda>(off, c6).
        bindR (ReadU16 c6) (\<lambda>(len, c7).
        if unat len < MinEncryptedLeaseSetDataBytes \<or> unat len > MaxEncryptedLeaseSetDataBytes then Inl NetDBErrMalformed
        else bindR (ReadBytes (int (unat len)) c7) (\<lambda>(encrypted, c8).
        let unsignedEnd = cur_off c8 in
        bindR (known_len (SignatureLen (els_signer signingType off))) (\<lambda>signatureLen.
        bindR (ReadBytes (int signatureLen) c8) (\<lambda>(signature, c9).
        if \<not> CursorDone c9 then Inl NetDBErrMalformed
        else Inr \<lparr>elSigningType = signingType, elBlindedPublicKey = publicKey, elPublished = published, elExpires = expires,
          elFlags = flags, elOffline = off, elEncryptedData = encrypted, elSignature = signature,
          elUnsigned = take unsignedEnd src, elRaw = src\<rparr>))))))))))))"

declare meta_within_loop.simps [simp del]

section \<open>Layout\<close>

lemma els_offline_back:
  assumes "consumes (NewCursor src) pre c" "els_offline src ty fl c = Inr (off, c')"
  shows "consumes c (offline_bytes off) c'" "offline_wf ty fl off"
proof -
  have "consumes c (offline_bytes off) c' \<and> offline_wf ty fl off"
  proof (cases "fl AND LeaseSetOfflineFlag = 0")
    case True
    then show ?thesis
      using assms consumes_ok [OF assms(1)]
      by (auto simp: els_offline_def consumes_def offline_bytes_def offline_wf_def Present_def no_offline_def)
  next
    case False
    then have p: "parse_offline src 0 ty c = Inr (off, c')" using assms(2) by (simp add: els_offline_def)
    have "consumes (NewCursor (drop 0 src)) pre c" using assms(1) by simp
    from parse_offline_back [OF this _ _ p False, of "[]"] show ?thesis by simp
  qed
  then show "consumes c (offline_bytes off) c'" "offline_wf ty fl off" by auto
qed

lemma els_input:
  "length key \<le> 512 \<Longrightarrow> take (Suc (Suc (length key))) (put_at 2 key (put_at 0 (PutUint16 ty) (replicate 514 0))) = PutUint16 ty @ key"
  using take_put_at [of 2 key "put_at 0 (PutUint16 ty) (replicate 514 0)" "PutUint16 ty"] by (simp add: put_at_0)

text \<open>
  \<open>ParseEncryptedLeaseSet\<close> accepts exactly one complete structure: blinded key, dates, flags, offline block
  when flagged, and between 24 and 4096 bytes of encrypted data under their length, followed by a signature
  of the key that signs the payload, with nothing after it. The key has the length of its type, and the
  DHT key of the set is the SHA-256 hash of the type and the blinded key.
\<close>

theorem encrypted_leaseset_exact:
  assumes "ParseEncryptedLeaseSet src = Inr s"
  shows "elRaw s = src \<and> src = elUnsigned s @ elSignature s \<and>
    elUnsigned s = PutUint16 (elSigningType s) @ elBlindedPublicKey s @ PutUint32 (elPublished s) @ PutUint16 (elExpires s) @
      PutUint16 (elFlags s) @ offline_bytes (elOffline s) @ PutUint16 (of_nat (length (elEncryptedData s))) @ elEncryptedData s \<and>
    24 \<le> length (elEncryptedData s) \<and> length (elEncryptedData s) \<le> 4096 \<and>
    SigningPublicKeyLen (elSigningType s) = Some (length (elBlindedPublicKey s)) \<and>
    offline_wf (elSigningType s) (elFlags s) (elOffline s) \<and>
    SignatureLen (if Present (elOffline s) then offType (elOffline s) else elSigningType s) = Some (length (elSignature s)) \<and>
    EncryptedLeaseSetHash s = sha256_Sum256 (PutUint16 (elSigningType s) @ elBlindedPublicKey s)"
proof -
  from assms obtain ty c1 kl key c2 pub c3 ex c4 fl c5 off c6 len c7 enc c8 sl sig c9 where
    q: "ReadU16 (NewCursor src) = Inr (ty, c1)" "SigningPublicKeyLen ty = Some kl" "ReadBytes (int kl) c1 = Inr (key, c2)"
      "ReadU32 c2 = Inr (pub, c3)" "ReadU16 c3 = Inr (ex, c4)" "ReadU16 c4 = Inr (fl, c5)" "els_offline src ty fl c5 = Inr (off, c6)"
      "ReadU16 c6 = Inr (len, c7)" "24 \<le> unat len" "unat len \<le> 4096" "ReadBytes (int (unat len)) c7 = Inr (enc, c8)"
      "SignatureLen (els_signer ty off) = Some sl" "ReadBytes (int sl) c8 = Inr (sig, c9)" "CursorDone c9" and
    s: "s = \<lparr>elSigningType = ty, elBlindedPublicKey = key, elPublished = pub, elExpires = ex, elFlags = fl, elOffline = off,
      elEncryptedData = enc, elSignature = sig, elUnsigned = take (cur_off c8) src, elRaw = src\<rparr>"
    by (auto simp: ParseEncryptedLeaseSet_def bindR_eq_Inr known_len_Inr Let_def MinEncryptedLeaseSetDataBytes_def
        MaxEncryptedLeaseSetDataBytes_def split: if_split_asm)
  have s1: "consumes (NewCursor src) (PutUint16 ty) c1" by (rule ReadU16_Inr [OF NewCursor_ok q(1)])
  note s2 = ReadBytes_nat [OF consumes_ok [OF s1] q(3)]
  have s3: "consumes c2 (PutUint32 pub) c3" by (rule ReadU32_Inr [OF consumes_ok [OF s2(1)] q(4)])
  have s4: "consumes c3 (PutUint16 ex) c4" by (rule ReadU16_Inr [OF consumes_ok [OF s3] q(5)])
  have s5: "consumes c4 (PutUint16 fl) c5" by (rule ReadU16_Inr [OF consumes_ok [OF s4] q(6)])
  note pre = consumes_trans [OF s1 consumes_trans [OF s2(1) consumes_trans [OF s3 consumes_trans [OF s4 s5]]]]
  have s6: "consumes c5 (offline_bytes off) c6" and wf: "offline_wf ty fl off"
    using els_offline_back [OF pre q(7)] by auto
  have s7: "consumes c6 (PutUint16 len) c7" by (rule ReadU16_Inr [OF consumes_ok [OF s6] q(8)])
  note s8 = ReadBytes_nat [OF consumes_ok [OF s7] q(11)]
  note s9 = ReadBytes_nat [OF consumes_ok [OF s8(1)] q(13)]
  note body = consumes_trans [OF pre consumes_trans [OF s6 consumes_trans [OF s7 s8(1)]]]
  define u where "u = take (cur_off c8) src"
  have src: "src = u @ sig"
    unfolding u_def using consumes_New(1,2,4) [OF body] consumes_New(1,3) [OF consumes_trans [OF body s9(1)]] q(14) by simp
  have uns: "u = PutUint16 ty @ key @ PutUint32 pub @ PutUint16 ex @ PutUint16 fl @ offline_bytes off @ PutUint16 len @ enc"
    unfolding u_def using consumes_New(2,4) [OF body] by simp
  have "length key \<le> 512" using q(2) s2(2) by (auto simp: SigningPublicKeyLen_def split: if_splits)
  then have "EncryptedLeaseSetHash s = sha256_Sum256 (PutUint16 ty @ key)" by (simp add: EncryptedLeaseSetHash_def s Sum_hash_def els_input)
  then show ?thesis using src uns wf q(2,9,10,12) s2(2) s8(2) s9(2) by (simp add: s [folded u_def] els_signer_def split: if_splits)
qed

text \<open>The hypothesis at an Ed25519 set without an offline key.\<close>

theorem encrypted_leaseset_exact_witness:
  "\<exists>s. ParseEncryptedLeaseSet ([0, 7] @ replicate 32 1 @ [0, 0, 0, 100, 0, 60, 0, 0, 0, 24] @ replicate 24 2 @ replicate 64 3) = Inr s \<and>
     elSignature s = replicate 64 3 \<and> EncryptedLeaseSetHash s = sha256_Sum256 ([0, 7] @ replicate 32 1)"
proof -
  let ?src = "[0, 7] @ replicate 32 1 @ [0, 0, 0, 100, 0, 60, 0, 0, 0, 24] @ replicate 24 2 @ replicate 64 3 :: bytes"
  have "MaxLeaseSetBytes \<ge> 60000"
    by (simp add: MaxLeaseSetBytes_def I2PDMaxPayload_def I2PDMessageBufferBytes_def I2PDReservedPrefix_def StandardHeaderLen_def)
  then obtain s where s: "ParseEncryptedLeaseSet ?src = Inr s" "elSignature s = replicate 64 3" "elSigningType s = 7" "elBlindedPublicKey s = replicate 32 1"
    by (simp add: ParseEncryptedLeaseSet_def NewCursor_def ReadU16_def ReadU32_def ReadBytes_def CursorDone_def slice_def Uint16_def Uint32_def
        be_val_def known_len_def SigningPublicKeyLen_def SignatureLen_def els_offline_def els_signer_def no_offline_def Present_def Let_def
        MinEncryptedLeaseSetDataBytes_def MaxEncryptedLeaseSetDataBytes_def)
  have "PutUint16 7 = [0, 7]" by (simp add: eval_simps)
  then show ?thesis using s encrypted_leaseset_exact [OF s(1)] by simp
qed

end
