(* ===== verification/KBucket.thy ===== *)
theory KBucket
  imports IVNP_Prelude
begin

text \<open>
  The Kademlia bucket set of \<open>controlplane/internal/netdb/kbucket.go\<close>: the range of a peer, and the list of
  buckets that covers all ranges, which splits when a bucket overflows.

  A hash is a list of 32 bytes. \<open>begin\<close> and \<open>end\<close> are 16-bit in the source; they stay in 0..2047 by the invariant
  below, so that the conversions of the source never truncate and the model keeps them as naturals. The loop of
  \<open>split\<close> has no syntactic bound: it is a partial function, and returning is part of what is proved. The panic of
  \<open>bucketIndex\<close> is \<open>Inl Panic\<close>.
\<close>

section \<open>Operations\<close>

definition KademliaB :: nat where "KademliaB = 4"
definition kademliaBFactor :: nat where "kademliaBFactor = push_bit (KademliaB - 1) 1"
definition kademliaRangeCount :: nat where "kademliaRangeCount = 32 * 8 * kademliaBFactor"
definition DefaultBucketCapacity :: nat where "DefaultBucketCapacity = 24"

record kBucket =
  kb_begin :: nat
  kb_end :: nat
  kb_members :: "bytes list"
  kb_lastChanged :: u64

record kBucketSet =
  kb_capacity :: nat
  kb_buckets :: "kBucket list"

definition newKBucketSet :: "int \<Rightarrow> kBucketSet" where
  "newKBucketSet capacity =
     \<lparr>kb_capacity = (if capacity \<le> 4 then DefaultBucketCapacity else nat capacity),
      kb_buckets = [\<lparr>kb_begin = 0, kb_end = kademliaRangeCount - 1, kb_members = [], kb_lastChanged = 0\<rparr>]\<rparr>"

text \<open>\<open>bits.LeadingZeros8\<close> is 8 minus the length of the number.\<close>

definition LeadingZeros8 :: "u8 \<Rightarrow> nat" where "LeadingZeros8 x = 8 - bits_Len (unat x)"

fun leading_loop :: "bytes \<Rightarrow> bytes \<Rightarrow> nat \<Rightarrow> nat" where
  "leading_loop (l # ls) (p # ps) leading =
     (let delta = l XOR p in
      if delta = 0 then leading_loop ls ps (leading + 8) else leading + LeadingZeros8 delta)"
| "leading_loop _ _ leading = leading"

text \<open>One turn of the loop that reads the bits below the highest one.\<close>

definition range_bit :: "bytes \<Rightarrow> bytes \<Rightarrow> nat \<Rightarrow> nat \<Rightarrow> nat \<Rightarrow> nat" where
  "range_bit local peer leading rangeNumber offset =
     (let bitFromMSB = leading + offset;
          val = drop_bit (7 - bitFromMSB mod 8) (local ! (bitFromMSB div 8) XOR peer ! (bitFromMSB div 8)) AND 1
      in rangeNumber OR push_bit (KademliaB - 1 - offset) (unat val))"

definition kademliaRange :: "bytes \<Rightarrow> bytes \<Rightarrow> int" where
  "kademliaRange local peer =
     (let leading = leading_loop local peer 0 in
      if leading = 32 * 8 then - 1
      else let highBit = 32 * 8 - 1 - leading; rangeNumber = push_bit (KademliaB - 1) highBit in
        if highBit + 1 < KademliaB then int rangeNumber
        else int (foldl (range_bit local peer leading) rangeNumber [1..<KademliaB]))"

function bucket_search :: "kBucket list \<Rightarrow> int \<Rightarrow> nat \<Rightarrow> nat \<Rightarrow> nat result" where
  "bucket_search bs rangeNumber low high =
     (if low < high then
        let middle = low + (high - low) div 2; bucket = bs ! middle in
        if rangeNumber < int (kb_begin bucket) then bucket_search bs rangeNumber low middle
        else if rangeNumber > int (kb_end bucket) then bucket_search bs rangeNumber (middle + 1) high
        else Inr middle
      else Inl Panic)"
  by pat_completeness auto
termination by (relation "measure (\<lambda>(bs, r, low, high). high - low)") auto

definition bucketIndex :: "kBucketSet \<Rightarrow> int \<Rightarrow> nat result" where
  "bucketIndex s rangeNumber = bucket_search (kb_buckets s) rangeNumber 0 (length (kb_buckets s))"

definition redistribute :: "nat \<Rightarrow> kBucket \<Rightarrow> bytes \<Rightarrow> kBucket" where
  "redistribute capacity bucket member =
     (if kb_begin bucket = kb_end bucket \<and> length (kb_members bucket) \<ge> capacity then bucket
      else bucket\<lparr>kb_members := kb_members bucket @ [member]\<rparr>)"

definition second_start :: "nat \<Rightarrow> nat \<Rightarrow> nat" where
  "second_start start stop =
     (if KademliaB = 1 \<or> (start AND (kademliaBFactor - 1) = 0 \<and> (stop + 1) AND (kademliaBFactor - 1) = 0 \<and> stop > start + kademliaBFactor)
      then stop + 1 - kademliaBFactor
      else start + (1 + stop - start) div 2)"

definition redistribute_one :: "nat \<Rightarrow> bytes \<Rightarrow> nat \<Rightarrow> kBucket \<times> kBucket \<Rightarrow> bytes \<Rightarrow> kBucket \<times> kBucket" where
  "redistribute_one capacity local secondStart fs member =
     (if kademliaRange local member < int secondStart then (redistribute capacity (fst fs) member, snd fs)
      else (fst fs, redistribute capacity (snd fs) member))"

definition split_once :: "nat \<Rightarrow> bytes \<Rightarrow> kBucket \<Rightarrow> kBucket \<times> kBucket" where
  "split_once capacity local original =
     (let start = kb_begin original; stop = kb_end original; secondStart = second_start start stop;
          first = \<lparr>kb_begin = start, kb_end = secondStart - 1, kb_members = [], kb_lastChanged = kb_lastChanged original\<rparr>;
          second = \<lparr>kb_begin = secondStart, kb_end = stop, kb_members = [], kb_lastChanged = kb_lastChanged original\<rparr>
      in foldl (redistribute_one capacity local secondStart) (first, second) (kb_members original))"

partial_function (option) split :: "nat \<Rightarrow> bytes \<Rightarrow> kBucketSet \<Rightarrow> kBucketSet option" where
  "split index local s =
     (let original = kb_buckets s ! index in
      if kb_begin original = kb_end original \<or> length (kb_members original) \<le> kb_capacity s then Some s
      else let (first, second) = split_once (kb_capacity s) local original in
        split index local (s\<lparr>kb_buckets := take index (kb_buckets s) @ [first, second] @ drop (index + 1) (kb_buckets s)\<rparr>))"

definition kb_add :: "kBucketSet \<Rightarrow> bytes \<Rightarrow> bytes \<Rightarrow> u64 \<Rightarrow> (bool \<times> kBucketSet) result option" where
  "kb_add s local peer now =
     (let rangeNumber = kademliaRange local peer in
      if rangeNumber < 0 then Some (Inr (False, s))
      else case bucketIndex s rangeNumber of
        Inl e \<Rightarrow> Some (Inl e)
      | Inr index \<Rightarrow>
          let bucket = kb_buckets s ! index in
          if peer \<in> set (kb_members bucket) then
            Some (Inr (False, s\<lparr>kb_buckets := (kb_buckets s)[index := bucket\<lparr>kb_lastChanged := now\<rparr>]\<rparr>))
          else if kb_begin bucket = kb_end bucket \<and> length (kb_members bucket) \<ge> kb_capacity s then Some (Inr (False, s))
          else let bucket' = bucket\<lparr>kb_members := kb_members bucket @ [peer], kb_lastChanged := now\<rparr>;
                   s' = s\<lparr>kb_buckets := (kb_buckets s)[index := bucket']\<rparr> in
            if kb_begin bucket' \<noteq> kb_end bucket' \<and> length (kb_members bucket') > kb_capacity s
            then map_option (\<lambda>s''. Inr (True, s'')) (split index local s')
            else Some (Inr (True, s')))"

definition kb_remove :: "kBucketSet \<Rightarrow> bytes \<Rightarrow> bytes \<Rightarrow> (bool \<times> kBucketSet) result" where
  "kb_remove s local peer =
     (let rangeNumber = kademliaRange local peer in
      if rangeNumber < 0 then Inr (False, s)
      else bindR (bucketIndex s rangeNumber) (\<lambda>index.
        let bucket = kb_buckets s ! index in
        if peer \<notin> set (kb_members bucket) then Inr (False, s)
        else Inr (True, s\<lparr>kb_buckets := (kb_buckets s)[index := bucket\<lparr>kb_members := remove1 peer (kb_members bucket)\<rparr>]\<rparr>)))"

declare bucket_search.simps [simp del]

section \<open>The range of a peer\<close>

text \<open>The XOR distance of two hashes, as a number.\<close>

definition xor_distance :: "bytes \<Rightarrow> bytes \<Rightarrow> nat" where
  "xor_distance local peer = be_val (map2 (XOR) local peer)"

text \<open>
  The reference definition: with \<open>h\<close> the position of the highest bit of the distance, the range is \<open>8 * h\<close> plus
  the three bits below it (none for the first three ranges).
\<close>

definition range_spec :: "nat \<Rightarrow> int" where
  "range_spec d =
     (if d = 0 then - 1
      else let h = bits_Len d - 1 in if h < 3 then int (8 * h) else int (8 * h + (d div 2 ^ (h - 3)) mod 8))"

lemma be_val_Cons: "be_val (b # bs) = unat b * 256 ^ length bs + be_val bs"
proof (induction bs rule: rev_induct)
  case (snoc x xs)
  have "be_val (b # xs @ [x]) = be_val ((b # xs) @ [x])" by simp
  also have "\<dots> = be_val (b # xs) * 256 + unat x" by (rule be_val_snoc)
  finally show ?case using snoc by (simp add: algebra_simps)
qed (simp add: be_val_def)

lemma bits_Len_unique: "2 ^ k \<le> n \<Longrightarrow> n < 2 ^ Suc k \<Longrightarrow> bits_Len n = Suc k"
proof -
  assume k: "2 ^ k \<le> n" "n < 2 ^ Suc k"
  have "bits_Len n \<le> Suc k" by (rule bits_Len_le [OF k(2)])
  moreover have "k < bits_Len n"
  proof (rule ccontr)
    assume "\<not> k < bits_Len n"
    then have "(2::nat) ^ bits_Len n \<le> 2 ^ k" by (intro power_increasing) auto
    then show False using bits_Len_upper [of n] k(1) by linarith
  qed
  ultimately show ?thesis by simp
qed

lemma bits_Len_high:
  assumes "0 < b" "m < 2 ^ k"
  shows "bits_Len (b * 2 ^ k + m) = bits_Len b + k"
proof -
  obtain j where j: "bits_Len b = Suc j" using assms(1) by (cases "bits_Len b") (auto simp: bits_Len.simps [of b])
  have "2 ^ j \<le> b" using bits_Len_lower [OF assms(1)] by (simp add: j)
  then have "2 ^ (j + k) \<le> b * 2 ^ k" by (simp add: power_add)
  moreover have "b + 1 \<le> 2 ^ Suc j" using bits_Len_upper [of b] by (simp add: j)
  then have "(b + 1) * 2 ^ k \<le> 2 ^ Suc j * 2 ^ k" by (rule mult_right_mono) simp
  then have "b * 2 ^ k + m < 2 ^ Suc (j + k)" using assms(2) by (simp add: power_add algebra_simps)
  ultimately show ?thesis using bits_Len_unique [of "j + k" "b * 2 ^ k + m"] j by simp
qed

text \<open>The loop counts the leading zeros of the distance.\<close>

lemma leading_loop_distance:
  "length ls = length ps \<Longrightarrow> leading_loop ls ps n + bits_Len (xor_distance ls ps) = n + 8 * length ls"
proof (induction ls ps arbitrary: n rule: list_induct2)
  case Nil
  then show ?case by (simp add: xor_distance_def)
next
  case (Cons l ls p ps)
  let ?b = "unat (l XOR p)" and ?m = "xor_distance ls ps"
  have d: "xor_distance (l # ls) (p # ps) = ?b * 2 ^ (8 * length ls) + ?m"
    using Cons.hyps by (simp add: xor_distance_def be_val_Cons power_mult)
  show ?case
  proof (cases "l XOR p = 0")
    case True
    then show ?thesis using Cons.IH [of "n + 8"] d by (simp add: Let_def)
  next
    case False
    have "?m < 2 ^ (8 * length ls)" using be_val_less [of "map2 (XOR) ls ps"] Cons.hyps by (simp add: xor_distance_def power_mult)
    moreover have "0 < ?b" using False by (simp add: unat_gt_0)
    ultimately have "bits_Len (xor_distance (l # ls) (p # ps)) = bits_Len ?b + 8 * length ls" unfolding d by (intro bits_Len_high)
    moreover have "bits_Len ?b \<le> 8" by (rule bits_Len_le) (simp add: unat_u8_less [simplified])
    ultimately show ?thesis using False by (simp add: Let_def LeadingZeros8_def)
  qed
qed

lemma bit_unat: "bit (b :: u8) k \<longleftrightarrow> odd (unat b div 2 ^ k)"
proof -
  have "bit (unat b) k \<longleftrightarrow> bit b k" by (simp add: bit_unsigned_iff)
  then show ?thesis by (simp add: bit_iff_odd)
qed

lemma div_low: "k < 8 \<Longrightarrow> odd ((x * 256 + y) div 2 ^ k) \<longleftrightarrow> odd (y div 2 ^ k)" for x y :: nat
proof -
  assume k: "k < 8"
  then have "(256 :: nat) = 2 ^ k * 2 ^ (8 - k)" by (simp add: power_add [symmetric])
  then have "x * 256 + y = y + 2 ^ k * (x * 2 ^ (8 - k))" by (simp only: ac_simps)
  then have "(x * 256 + y) div 2 ^ k = x * 2 ^ (8 - k) + y div 2 ^ k" by (simp only: div_mult_self2 power_not_zero zero_neq_numeral not_False_eq_True)
  then show ?thesis using k by simp
qed

lemma be_val_bit:
  "k < 8 * length bs \<Longrightarrow> odd (be_val bs div 2 ^ k) \<longleftrightarrow> bit (bs ! (length bs - 1 - k div 8)) (k mod 8)"
proof (induction bs arbitrary: k rule: rev_induct)
  case (snoc b bs)
  show ?case
  proof (cases "k < 8")
    case True
    then show ?thesis by (simp add: div_low bit_unat)
  next
    case False
    define j where "j = k - 8"
    have k: "k = 8 + j" using False by (simp add: j_def)
    have p: "(2 :: nat) ^ k = 256 * 2 ^ j" unfolding k power_add by simp
    have "be_val (bs @ [b]) div 2 ^ k = (be_val bs * 256 + unat b) div 256 div 2 ^ j" unfolding p be_val_snoc by (rule div_mult2_eq)
    also have "(be_val bs * 256 + unat b) div 256 = be_val bs" by simp
    finally have e: "be_val (bs @ [b]) div 2 ^ k = be_val bs div 2 ^ j" .
    have lt: "j < 8 * length bs" using snoc.prems k by simp
    have "length (bs @ [b]) - 1 - k div 8 = length bs - 1 - j div 8" "length bs - 1 - j div 8 < length bs" "k mod 8 = j mod 8"
      using lt unfolding k by (auto simp: less_eq_Suc_le)
    then show ?thesis unfolding e using snoc.IH [OF lt] by (simp add: nth_append)
  qed
qed simp

lemma unat_bit: "unat (drop_bit j w AND 1 :: u8) = of_bool (bit w j)"
  unfolding and_one_eq mod_2_eq_odd bit_iff_odd_drop_bit by (cases "odd (drop_bit j w)") simp_all

lemma low_or: "x < 8 \<Longrightarrow> push_bit 3 h OR x = 8 * h + (x :: nat)"
proof -
  assume x: "x < 8"
  have "take_bit 3 x = x" using x by (intro take_bit_nat_eq_self) simp
  then have "push_bit 3 h AND x = 0" by (intro bit_eqI) (metis bit_0_eq bit_and_iff bit_push_bit_iff bit_take_bit_iff bot_apply bot_bool_def not_less)
  then show ?thesis by (simp add: disjunctive_add_eq_or [symmetric] push_bit_eq_mult)
qed

lemma three_bits: "q mod 8 = 4 * of_bool (odd (q div 4)) + 2 * of_bool (odd (q div 2)) + of_bool (odd q)" for q :: nat
proof -
  have "q mod 8 = 2 * (q div 2 mod 4) + q mod 2" using mod_mult2_eq [of q 2 4] by simp
  moreover have "q div 2 mod 4 = 2 * (q div 2 div 2 mod 2) + q div 2 mod 2" using mod_mult2_eq [of "q div 2" 2 2] by simp
  ultimately show ?thesis by (simp add: mod_2_eq_odd div_mult2_eq [symmetric])
qed

text \<open>The bits the second loop reads are the bits of the distance below its highest one.\<close>

lemma range_bit_distance:
  assumes "length local = 32" "length peer = 32" "leading + offset < 256"
  shows "unat (drop_bit (7 - (leading + offset) mod 8)
      (local ! ((leading + offset) div 8) XOR peer ! ((leading + offset) div 8)) AND 1) =
    of_bool (odd (xor_distance local peer div 2 ^ (255 - (leading + offset))))"
proof -
  define b where "b = leading + offset"
  have b: "b < 256" using assms(3) by (simp add: b_def)
  have q: "b div 8 < 32" "b mod 8 < 8" using b by auto
  define r where "r = 7 - b mod 8"
  have r: "r < 8" by (simp add: r_def)
  have "255 - b = 8 * (31 - b div 8) + r" unfolding r_def using mult_div_mod_eq [of 8 b] q by linarith
  then have "(255 - b) div 8 = 31 - b div 8" "(255 - b) mod 8 = r" using r by simp_all
  then have i: "31 - (255 - b) div 8 = b div 8" "(255 - b) mod 8 = 7 - b mod 8" using q by (simp_all add: r_def)
  have "odd (xor_distance local peer div 2 ^ (255 - b)) \<longleftrightarrow> bit (map2 (XOR) local peer ! (b div 8)) (7 - b mod 8)"
    unfolding xor_distance_def using be_val_bit [of "255 - b" "map2 (XOR) local peer"] assms(1,2) b i by simp
  then show ?thesis using q(1) unfolding b_def [symmetric] unat_bit using assms(1,2) by simp
qed

lemma range_bit_eq:
  assumes "length local = 32" "length peer = 32" "leading + offset < 256"
  shows "range_bit local peer leading n offset =
    n OR push_bit (3 - offset) (of_bool (odd (xor_distance local peer div 2 ^ (255 - (leading + offset)))))"
  unfolding range_bit_def Let_def range_bit_distance [OF assms] by (simp add: KademliaB_def)

lemma or_three: "h OR 4 * of_bool a OR 2 * of_bool b OR of_bool c = h OR (4 * of_bool a + 2 * of_bool b + of_bool c)" for h :: nat
  by (cases a; cases b; cases c) (simp_all add: or.assoc, simp_all add: numeral_2_eq_2 numeral_3_eq_3)

lemma range_loop:
  assumes "length local = 32" "length peer = 32" "leading + 3 < 256"
  shows "foldl (range_bit local peer leading) (push_bit 3 h) [1..<4] =
    8 * h + (xor_distance local peer div 2 ^ (255 - leading - 3)) mod 8"
proof -
  define k where "k = 255 - leading - 3"
  define Q where "Q = xor_distance local peer div 2 ^ k"
  have e: "255 - (leading + 1) = k + 2" "255 - (leading + 2) = k + 1" "255 - (leading + 3) = k" using assms(3) by (simp_all add: k_def)
  have q: "xor_distance local peer div 2 ^ (k + 2) = Q div 4" "xor_distance local peer div 2 ^ (k + 1) = Q div 2"
    unfolding Q_def by (simp_all only: power_add div_mult2_eq) simp_all
  have b1: "range_bit local peer leading n 1 = n OR 4 * of_bool (odd (Q div 4))" for n
    using range_bit_eq [OF assms(1,2), of leading 1 n] assms(3) unfolding e q by (simp add: push_bit_eq_mult)
  have b2: "range_bit local peer leading n 2 = n OR 2 * of_bool (odd (Q div 2))" for n
    using range_bit_eq [OF assms(1,2), of leading 2 n] assms(3) unfolding e q by (simp add: push_bit_eq_mult)
  have b3: "range_bit local peer leading n 3 = n OR of_bool (odd Q)" for n
    using range_bit_eq [OF assms(1,2), of leading 3 n] assms(3) unfolding e Q_def [symmetric] by simp
  have l: "[1..<4] = [1, 2, 3 :: nat]" by (simp add: upt_rec)
  have "foldl (range_bit local peer leading) (push_bit 3 h) [1..<4] =
      ((push_bit 3 h OR 4 * of_bool (odd (Q div 4))) OR 2 * of_bool (odd (Q div 2))) OR of_bool (odd Q)"
    unfolding l foldl_Cons foldl_Nil b1 b2 b3 ..
  also have "\<dots> = push_bit 3 h OR (4 * of_bool (odd (Q div 4)) + 2 * of_bool (odd (Q div 2)) + of_bool (odd Q))"
    by (simp only: or.assoc or_three)
  also have "\<dots> = 8 * h + Q mod 8" unfolding three_bits [of Q] by (rule low_or) simp
  finally show ?thesis by (simp add: Q_def k_def)
qed

lemma bits_Len_mono: "d \<le> d' \<Longrightarrow> bits_Len d \<le> bits_Len d'"
  using bits_Len_upper [of d'] by (intro bits_Len_le) linarith

lemma range_spec_top:
  assumes "0 < d" "3 \<le> bits_Len d - 1"
  shows "range_spec d = int (8 * (bits_Len d - 1) + (d div 2 ^ (bits_Len d - 1 - 3) - 8))" "8 \<le> d div 2 ^ (bits_Len d - 1 - 3)"
    "d div 2 ^ (bits_Len d - 1 - 3) < 16"
proof -
  define h where "h = bits_Len d - 1"
  have h: "bits_Len d = Suc h" using assms(2) by (simp add: h_def)
  have "3 + (h - 3) = h" using assms(2) by (simp add: h_def)
  then have p: "(2::nat) ^ h = 8 * 2 ^ (h - 3)" using power_add [of "2::nat" 3 "h - 3"] by simp
  have "2 ^ h \<le> d" "d < 2 * 2 ^ h" using bits_Len_lower [OF assms(1)] bits_Len_upper [of d] by (simp_all add: h)
  then have "8 * 2 ^ (h - 3) \<le> d" "d < 16 * 2 ^ (h - 3)" unfolding p by simp_all
  then show q: "8 \<le> d div 2 ^ (bits_Len d - 1 - 3)" "d div 2 ^ (bits_Len d - 1 - 3) < 16"
    unfolding h_def [symmetric] by (simp_all add: less_eq_div_iff_mult_less_eq div_less_iff_less_mult)
  then have "d div 2 ^ (h - 3) mod 8 = d div 2 ^ (h - 3) - 8" unfolding h_def [symmetric] using le_mod_geq [of 8] by simp
  then show "range_spec d = int (8 * (bits_Len d - 1) + (d div 2 ^ (bits_Len d - 1 - 3) - 8))"
    using assms unfolding h_def [symmetric] range_spec_def by (simp add: h)
qed

lemma range_spec_bounds: 
  assumes "0 < d"
  shows "8 * (int (bits_Len d) - 1) \<le> range_spec d" "range_spec d < 8 * int (bits_Len d)"
  using assms bits_Len.simps [of d] by (auto simp: range_spec_def Let_def)

lemma eighths: "x < 8 * a \<Longrightarrow> a + 1 \<le> b \<Longrightarrow> 8 * (b - 1) \<le> y \<Longrightarrow> x \<le> y" for a b x y :: int
  by presburger

lemma range_spec_mono:
  assumes "d \<le> d'"
  shows "range_spec d \<le> range_spec d'"
proof (cases "d = 0")
  case True
  then show ?thesis using range_spec_bounds [of d'] bits_Len.simps [of d'] by (cases "d' = 0") (auto simp: range_spec_def Let_def)
next
  case False
  then have pos: "0 < d" "0 < d'" using assms by simp_all
  consider "bits_Len d < bits_Len d'" | "bits_Len d = bits_Len d'" using bits_Len_mono [OF assms] by linarith
  then show ?thesis
  proof cases
    case 1
    then have "int (bits_Len d) + 1 \<le> int (bits_Len d')" by simp
    with range_spec_bounds(2) [OF pos(1)] show ?thesis using range_spec_bounds(1) [OF pos(2)] by (rule eighths)
  next
    case 2
    show ?thesis
    proof (cases "3 \<le> bits_Len d - 1")
      case True
      have "d div 2 ^ (bits_Len d - 1 - 3) \<le> d' div 2 ^ (bits_Len d - 1 - 3)" by (rule div_le_mono [OF assms])
      then show ?thesis using range_spec_top [OF pos(1) True] range_spec_top [OF pos(2)] True 2 by simp
    qed (use 2 pos in \<open>simp add: range_spec_def Let_def\<close>)
  qed
qed

lemma kademliaRange_distance:
  assumes "length local = 32" "length peer = 32"
  shows "kademliaRange local peer = range_spec (xor_distance local peer)"
proof -
  define d where "d = xor_distance local peer"
  define l where "l = leading_loop local peer 0"
  have l: "l + bits_Len d = 256" using leading_loop_distance [of local peer 0] assms by (simp add: l_def d_def)
  show ?thesis
  proof (cases "d = 0")
    case True
    then show ?thesis using l by (simp add: kademliaRange_def range_spec_def d_def [symmetric] l_def [symmetric] Let_def)
  next
    case False
    then have "bits_Len d \<noteq> 0" by (subst bits_Len.simps) simp
    then have h: "l \<noteq> 256" "255 - l = bits_Len d - 1" using l by auto
    show ?thesis
    proof (cases "bits_Len d - 1 < 3")
      case True
      then show ?thesis using h False by (simp add: kademliaRange_def range_spec_def d_def [symmetric] l_def [symmetric] Let_def KademliaB_def push_bit_eq_mult)
    next
      case B: False
      then have "l + 3 < 256" "\<not> bits_Len d < 4" using l by linarith+
      note B = B this
      note loop = range_loop [OF assms B(2), of "255 - l", folded d_def]
      show ?thesis
        unfolding kademliaRange_def Let_def l_def [symmetric] d_def [symmetric] KademliaB_def using h False B loop
        by (simp add: range_spec_def Let_def)
    qed
  qed
qed

lemma xor_distance_0: "length local = length peer \<Longrightarrow> xor_distance local peer = 0 \<longleftrightarrow> local = peer"
proof (induction local peer rule: list_induct2)
  case (Cons l ls p ps)
  have "l XOR p = 0 \<longleftrightarrow> l = p" unfolding bit_eq_iff by (auto simp: bit_simps)
  then show ?case using Cons by (simp add: xor_distance_def be_val_Cons unat_eq_zero)
qed (simp add: xor_distance_def)

lemma xor_distance_less: "length local = 32 \<Longrightarrow> length peer = 32 \<Longrightarrow> xor_distance local peer < 2 ^ 256"
  using be_val_less [of "map2 (XOR) local peer"] by (simp add: xor_distance_def)

lemma kademliaRange_bounds:
  assumes "length local = 32" "length peer = 32"
  shows "kademliaRange local peer < 2048" "kademliaRange local peer < 0 \<longleftrightarrow> local = peer" "- 1 \<le> kademliaRange local peer"
proof -
  let ?d = "xor_distance local peer"
  have "bits_Len ?d \<le> 256" by (rule bits_Len_le [OF xor_distance_less [OF assms]])
  then have b: "kademliaRange local peer < 2048 \<and> (kademliaRange local peer < 0 \<longleftrightarrow> ?d = 0) \<and> - 1 \<le> kademliaRange local peer"
    unfolding kademliaRange_distance [OF assms] using range_spec_bounds [of ?d] bits_Len.simps [of ?d]
    by (cases "?d = 0") (auto simp: range_spec_def)
  then show "kademliaRange local peer < 2048" "kademliaRange local peer < 0 \<longleftrightarrow> local = peer" "- 1 \<le> kademliaRange local peer"
    using xor_distance_0 [of local peer] assms by simp_all
qed

text \<open>
  The bit loops of \<open>kademliaRange\<close> compute the reference definition on the XOR distance: -1 exactly for the
  local hash itself, otherwise eight times the position of the highest differing bit plus the next three bits.
  The result is below 2048 and grows with the distance, so the buckets are ordered by closeness.
\<close>

theorem kademliaRange_spec:
  assumes "length local = 32" "length peer = 32" "length other = 32"
  shows "kademliaRange local peer = range_spec (xor_distance local peer) \<and>
    (kademliaRange local peer = - 1 \<longleftrightarrow> local = peer) \<and> kademliaRange local peer < 2048 \<and>
    (xor_distance local peer \<le> xor_distance local other \<longrightarrow> kademliaRange local peer \<le> kademliaRange local other)"
  using kademliaRange_bounds [OF assms(1,2)] range_spec_mono
  by (auto simp: kademliaRange_distance [OF assms(1,2)] kademliaRange_distance [OF assms(1,3)])

lemma xor_zero: "length ps = n \<Longrightarrow> map2 (XOR) (replicate n 0) ps = (ps :: bytes)"
  by (induction ps arbitrary: n) auto

text \<open>The hypotheses at a peer that differs in the first byte and one that differs in the last.\<close>

theorem kademliaRange_spec_witness:
  "kademliaRange (replicate 32 0) (0x94 # replicate 31 0) = 2041 \<and>
   kademliaRange (replicate 32 0) (replicate 31 0 @ [2]) \<le> kademliaRange (replicate 32 0) (0x94 # replicate 31 0)"
proof -
  have z: "be_val (replicate n 0) = 0" for n by (induction n) (simp_all add: be_val_Cons)
  have e: "xor_distance (replicate 32 0) (replicate 31 0 @ [2]) = 2"
    unfolding xor_distance_def by (subst xor_zero) (simp_all add: z)
  have d: "xor_distance (replicate 32 0) (0x94 # replicate 31 0) = 148 * 2 ^ 248"
    unfolding xor_distance_def by (subst xor_zero) (simp_all add: be_val_Cons z)
  have "bits_Len (148 * 2 ^ 248) = 256" by (rule bits_Len_unique [of 255, simplified]) simp_all
  then have "range_spec (148 * 2 ^ 248) = 2041" by (simp add: range_spec_def Let_def)
  then show ?thesis
    using kademliaRange_spec [of "replicate 32 0" "0x94 # replicate 31 0" "0x94 # replicate 31 0"]
      kademliaRange_spec [of "replicate 32 0" "replicate 31 0 @ [2]" "0x94 # replicate 31 0"] d e by simp
qed

section \<open>The invariant of the bucket set\<close>

text \<open>The buckets cover the ranges from \<open>lo\<close> up to \<open>hi\<close> without gap or overlap.\<close>

fun contiguous :: "nat \<Rightarrow> kBucket list \<Rightarrow> nat \<Rightarrow> bool" where
  "contiguous lo [] hi \<longleftrightarrow> lo = hi"
| "contiguous lo (b # bs) hi \<longleftrightarrow> kb_begin b = lo \<and> lo \<le> kb_end b \<and> contiguous (Suc (kb_end b)) bs hi"

definition bucket_ok :: "bytes \<Rightarrow> nat \<Rightarrow> kBucket \<Rightarrow> bool" where
  "bucket_ok local capacity b \<longleftrightarrow>
     distinct (kb_members b) \<and>
     (\<forall>m \<in> set (kb_members b). length m = 32 \<and> int (kb_begin b) \<le> kademliaRange local m \<and> kademliaRange local m \<le> int (kb_end b)) \<and>
     (kb_begin b = kb_end b \<longrightarrow> length (kb_members b) \<le> capacity)"

definition kb_wf :: "bytes \<Rightarrow> kBucketSet \<Rightarrow> bool" where
  "kb_wf local s \<longleftrightarrow> 4 < kb_capacity s \<and> contiguous 0 (kb_buckets s) 2048 \<and> list_all (bucket_ok local (kb_capacity s)) (kb_buckets s)"

definition kb_all :: "kBucketSet \<Rightarrow> bytes set" where
  "kb_all s = (\<Union>b \<in> set (kb_buckets s). set (kb_members b))"

text \<open>A bucket of one range that holds as many peers as it may.\<close>

definition full_at :: "kBucketSet \<Rightarrow> int \<Rightarrow> bool" where
  "full_at s r \<longleftrightarrow> (\<exists>b \<in> set (kb_buckets s). int (kb_begin b) = r \<and> int (kb_end b) = r \<and> kb_capacity s \<le> length (kb_members b))"

lemma contiguous_append: "contiguous lo (xs @ ys) hi \<longleftrightarrow> (\<exists>mid. contiguous lo xs mid \<and> contiguous mid ys hi)"
  by (induction xs arbitrary: lo) auto

lemma contiguous_le: "contiguous lo bs hi \<Longrightarrow> lo \<le> hi"
  by (induction bs arbitrary: lo) force+

lemma contiguous_covers: "contiguous lo bs hi \<Longrightarrow> lo \<le> r \<Longrightarrow> r < hi \<Longrightarrow> \<exists>i < length bs. kb_begin (bs ! i) \<le> r \<and> r \<le> kb_end (bs ! i)"
proof (induction bs arbitrary: lo)
  case (Cons b bs)
  show ?case
  proof (cases "r \<le> kb_end b")
    case True
    then show ?thesis using Cons.prems by (intro exI [of _ 0]) simp
  next
    case False
    then obtain i where "i < length bs" "kb_begin (bs ! i) \<le> r" "r \<le> kb_end (bs ! i)" using Cons.IH [of "Suc (kb_end b)"] Cons.prems by auto
    then show ?thesis by (intro exI [of _ "Suc i"]) simp
  qed
qed simp

lemma contiguous_bounds: "contiguous lo bs hi \<Longrightarrow> b \<in> set bs \<Longrightarrow> lo \<le> kb_begin b \<and> kb_begin b \<le> kb_end b \<and> kb_end b < hi"
proof (induction bs arbitrary: lo)
  case (Cons c bs)
  then show ?case using contiguous_le [of "Suc (kb_end c)" bs hi] by fastforce
qed simp

lemma contiguous_sorted:
  assumes "contiguous lo bs hi" "i < j" "j < length bs"
  shows "kb_end (bs ! i) < kb_begin (bs ! j)"
proof -
  have "bs = take j bs @ drop j bs" by simp
  then obtain mid where m: "contiguous lo (take j bs) mid" "contiguous mid (drop j bs) hi" using assms(1) contiguous_append by metis
  have "bs ! i \<in> set (take j bs)" using assms by (auto simp: in_set_conv_nth)
  then have "kb_end (bs ! i) < mid" using contiguous_bounds [OF m(1)] by blast
  moreover have "bs ! j \<in> set (drop j bs)" using assms by (simp add: Cons_nth_drop_Suc [symmetric])
  then have "mid \<le> kb_begin (bs ! j)" using contiguous_bounds [OF m(2)] by blast
  ultimately show ?thesis by simp
qed

text \<open>Binary search finds the bucket of a range, and does not panic.\<close>

lemma bucket_search_finds:
  assumes "contiguous 0 bs hi" "t < length bs" "int (kb_begin (bs ! t)) \<le> r" "r \<le> int (kb_end (bs ! t))"
  shows "low \<le> t \<Longrightarrow> t < high \<Longrightarrow> high \<le> length bs \<Longrightarrow> bucket_search bs r low high = Inr t"
proof (induction "high - low" arbitrary: low high rule: less_induct)
  case less
  define mid where "mid = low + (high - low) div 2"
  have mid: "low \<le> mid" "mid < high" using less.prems by (auto simp: mid_def)
  have step: "bucket_search bs r low high =
      (if r < int (kb_begin (bs ! mid)) then bucket_search bs r low mid
       else if r > int (kb_end (bs ! mid)) then bucket_search bs r (mid + 1) high else Inr mid)"
    using mid by (subst bucket_search.simps) (simp add: Let_def mid_def)
  consider "t < mid" | "t = mid" | "mid < t" by linarith
  then show ?case
  proof cases
    case 1
    then have "kb_end (bs ! t) < kb_begin (bs ! mid)" using contiguous_sorted [OF assms(1) 1] less.prems mid by simp
    then show ?thesis using less.hyps [of mid low] step 1 mid less.prems assms(4) by simp
  next
    case 2
    then show ?thesis using step assms by simp
  next
    case 3
    then have "kb_end (bs ! mid) < kb_begin (bs ! t)" "kb_begin (bs ! mid) \<le> kb_end (bs ! mid)"
      using contiguous_sorted [OF assms(1) 3] contiguous_bounds [OF assms(1), of "bs ! mid"] less.prems mid by simp_all
    then show ?thesis using less.hyps [of high "mid + 1"] step 3 mid less.prems assms(3) by simp
  qed
qed

lemma bucketIndex_finds:
  assumes "kb_wf local s" "0 \<le> r" "r < 2048"
  obtains i where "bucketIndex s r = Inr i" "i < length (kb_buckets s)" "int (kb_begin (kb_buckets s ! i)) \<le> r" "r \<le> int (kb_end (kb_buckets s ! i))"
proof -
  have c: "contiguous 0 (kb_buckets s) 2048" using assms(1) by (simp add: kb_wf_def)
  obtain i where i: "i < length (kb_buckets s)" "kb_begin (kb_buckets s ! i) \<le> nat r" "nat r \<le> kb_end (kb_buckets s ! i)"
    using contiguous_covers [OF c, of "nat r"] assms(2,3) by (auto simp: nat_less_iff)
  then have "int (kb_begin (kb_buckets s ! i)) \<le> r" "r \<le> int (kb_end (kb_buckets s ! i))" using assms(2) by auto
  then show thesis using that bucket_search_finds [OF c i(1), of r 0 "length (kb_buckets s)"] i(1) by (simp add: bucketIndex_def)
qed

section \<open>Splitting\<close>

lemma second_start_bounds: "start < stop \<Longrightarrow> start < second_start start stop \<and> second_start start stop \<le> stop"
  by (auto simp: second_start_def KademliaB_def kademliaBFactor_def)

text \<open>What a bucket keeps of the members sent to it.\<close>

definition kept :: "nat \<Rightarrow> nat \<Rightarrow> nat \<Rightarrow> bytes list \<Rightarrow> bytes list" where
  "kept capacity b e ms = (if b = e then take capacity ms else ms)"

lemma redistribute_all:
  assumes "kb_begin b = kb_end b \<Longrightarrow> length (kb_members b) \<le> capacity"
  shows "foldl (redistribute capacity) b ms = b\<lparr>kb_members := kept capacity (kb_begin b) (kb_end b) (kb_members b @ ms)\<rparr>"
  using assms
proof (induction ms arbitrary: b)
  case Nil
  then show ?case by (cases b) (simp add: kept_def)
next
  case (Cons m ms)
  show ?case
  proof (cases "kb_begin b = kb_end b \<and> capacity \<le> length (kb_members b)")
    case True
    then have "redistribute capacity b m = b" by (simp add: redistribute_def)
    then show ?thesis using Cons True by (simp add: kept_def)
  next
    case False
    then have "redistribute capacity b m = b\<lparr>kb_members := kb_members b @ [m]\<rparr>" by (simp add: redistribute_def)
    moreover have "kb_begin b = kb_end b \<Longrightarrow> Suc (length (kb_members b)) \<le> capacity" using False by simp
    ultimately show ?thesis using Cons.IH [of "b\<lparr>kb_members := kb_members b @ [m]\<rparr>"] by simp
  qed
qed

lemma redistribute_one_all:
  "foldl (redistribute_one capacity local ss) (f, g) ms =
     (foldl (redistribute capacity) f (filter (\<lambda>m. kademliaRange local m < int ss) ms),
      foldl (redistribute capacity) g (filter (\<lambda>m. \<not> kademliaRange local m < int ss) ms))"
  by (induction ms arbitrary: f g) (simp_all add: redistribute_one_def)

lemma split_once_eq:
  "split_once capacity local b =
     (let ss = second_start (kb_begin b) (kb_end b) in
      (\<lparr>kb_begin = kb_begin b, kb_end = ss - 1, kb_members = kept capacity (kb_begin b) (ss - 1) (filter (\<lambda>m. kademliaRange local m < int ss) (kb_members b)),
        kb_lastChanged = kb_lastChanged b\<rparr>,
       \<lparr>kb_begin = ss, kb_end = kb_end b, kb_members = kept capacity ss (kb_end b) (filter (\<lambda>m. \<not> kademliaRange local m < int ss) (kb_members b)),
        kb_lastChanged = kb_lastChanged b\<rparr>))"
  by (simp add: split_once_def Let_def redistribute_one_all redistribute_all)

lemma bucket_ok_kept:
  assumes "distinct ms" "\<And>m. m \<in> set ms \<Longrightarrow> length m = 32 \<and> int b \<le> kademliaRange local m \<and> kademliaRange local m \<le> int e"
  shows "bucket_ok local capacity \<lparr>kb_begin = b, kb_end = e, kb_members = kept capacity b e ms, kb_lastChanged = t\<rparr>"
  using assms set_take_subset [of capacity ms] by (auto simp: bucket_ok_def kept_def)

text \<open>One split: two well-formed buckets over the same ranges, which lose members only to a full bucket of one range.\<close>

lemma split_once_ok:
  assumes ok: "bucket_ok local capacity b" and lt: "kb_begin b < kb_end b" and s: "split_once capacity local b = (f, g)"
  shows "bucket_ok local capacity f" "bucket_ok local capacity g" "kb_begin f = kb_begin b" "kb_begin f \<le> kb_end f"
    "kb_begin g = Suc (kb_end f)" "kb_begin g \<le> kb_end g" "kb_end g = kb_end b" "kb_end f < kb_end b"
    "set (kb_members f) \<union> set (kb_members g) \<subseteq> set (kb_members b)"
    "\<And>m. m \<in> set (kb_members b) \<Longrightarrow> m \<notin> set (kb_members f) \<union> set (kb_members g) \<Longrightarrow>
       \<exists>c \<in> {f, g}. int (kb_begin c) = kademliaRange local m \<and> kb_begin c = kb_end c \<and> capacity \<le> length (kb_members c)"
proof -
  define ss where "ss = second_start (kb_begin b) (kb_end b)"
  have ss: "kb_begin b < ss" "ss \<le> kb_end b" using second_start_bounds [OF lt] by (simp_all add: ss_def)
  define A where "A = filter (\<lambda>m. kademliaRange local m < int ss) (kb_members b)"
  define C where "C = filter (\<lambda>m. \<not> kademliaRange local m < int ss) (kb_members b)"
  have f: "f = \<lparr>kb_begin = kb_begin b, kb_end = ss - 1, kb_members = kept capacity (kb_begin b) (ss - 1) A, kb_lastChanged = kb_lastChanged b\<rparr>"
    and g: "g = \<lparr>kb_begin = ss, kb_end = kb_end b, kb_members = kept capacity ss (kb_end b) C, kb_lastChanged = kb_lastChanged b\<rparr>"
    using s by (simp_all add: split_once_eq Let_def ss_def A_def C_def)
  have mem: "m \<in> set (kb_members b) \<Longrightarrow> length m = 32 \<and> int (kb_begin b) \<le> kademliaRange local m \<and> kademliaRange local m \<le> int (kb_end b)" for m
    using ok by (simp add: bucket_ok_def)
  have dist: "distinct (kb_members b)" using ok by (simp add: bucket_ok_def)
  have A: "m \<in> set A \<Longrightarrow> length m = 32 \<and> int (kb_begin b) \<le> kademliaRange local m \<and> kademliaRange local m \<le> int (ss - 1)" for m
    using mem [of m] ss by (auto simp: A_def)
  have C: "m \<in> set C \<Longrightarrow> length m = 32 \<and> int ss \<le> kademliaRange local m \<and> kademliaRange local m \<le> int (kb_end b)" for m
    using mem [of m] by (auto simp: C_def)
  show "bucket_ok local capacity f" unfolding f by (rule bucket_ok_kept) (use dist A in \<open>simp_all add: A_def\<close>)
  show "bucket_ok local capacity g" unfolding g by (rule bucket_ok_kept) (use dist C in \<open>simp_all add: C_def\<close>)
  show "kb_begin f = kb_begin b" "kb_begin f \<le> kb_end f" "kb_begin g = Suc (kb_end f)" "kb_begin g \<le> kb_end g" "kb_end g = kb_end b" "kb_end f < kb_end b"
    using ss by (auto simp: f g)
  have sub: "set (kept capacity x y ms) \<subseteq> set ms" for x y ms by (auto simp: kept_def dest: in_set_takeD)
  show "set (kb_members f) \<union> set (kb_members g) \<subseteq> set (kb_members b)"
  proof -
    have "set A \<subseteq> set (kb_members b)" "set C \<subseteq> set (kb_members b)" by (auto simp: A_def C_def)
    then show ?thesis using sub [of "kb_begin b" "ss - 1" A] sub [of ss "kb_end b" C] by (simp add: f g) blast
  qed
  have lost: "x = y \<and> length (kept capacity x y ms) = capacity" if "m \<in> set ms" "m \<notin> set (kept capacity x y ms)" for m x y ms
  proof -
    have "x = y" "m \<notin> set (take capacity ms)" using that by (auto simp: kept_def split: if_splits)
    then show ?thesis using that(1) by (cases "length ms \<le> capacity") (auto simp: kept_def)
  qed
  fix m assume m: "m \<in> set (kb_members b)" "m \<notin> set (kb_members f) \<union> set (kb_members g)"
  show "\<exists>c \<in> {f, g}. int (kb_begin c) = kademliaRange local m \<and> kb_begin c = kb_end c \<and> capacity \<le> length (kb_members c)"
  proof (cases "m \<in> set A")
    case True
    then have "kb_begin b = ss - 1 \<and> length (kept capacity (kb_begin b) (ss - 1) A) = capacity" using lost m by (simp add: f)
    then show ?thesis using A [OF True] by (intro bexI [of _ f]) (auto simp: f)
  next
    case False
    then have mC: "m \<in> set C" using m(1) by (simp add: A_def C_def)
    then have "ss = kb_end b \<and> length (kept capacity ss (kb_end b) C) = capacity" using lost m by (simp add: g)
    then show ?thesis using C [OF mC] by (intro bexI [of _ g]) (auto simp: g)
  qed
qed

lemma replace_bucket:
  assumes wf: "kb_wf local s" and i: "i < length (kb_buckets s)" and lt: "kb_begin (kb_buckets s ! i) < kb_end (kb_buckets s ! i)"
    and sp: "split_once (kb_capacity s) local (kb_buckets s ! i) = (f, g)"
  defines "s' \<equiv> s\<lparr>kb_buckets := take i (kb_buckets s) @ [f, g] @ drop (i + 1) (kb_buckets s)\<rparr>"
  shows "kb_wf local s'" "kb_all s' \<subseteq> kb_all s" "\<And>m. m \<in> kb_all s - kb_all s' \<Longrightarrow> full_at s' (kademliaRange local m)"
    "\<And>b. b \<in> set (kb_buckets s) \<Longrightarrow> kb_begin b = kb_end b \<Longrightarrow> b \<in> set (kb_buckets s')"
proof -
  let ?bs = "kb_buckets s" and ?b = "kb_buckets s ! i"
  have bs: "?bs = take i ?bs @ [?b] @ drop (i + 1) ?bs" using id_take_nth_drop [OF i] by simp
  have ok: "bucket_ok local (kb_capacity s) ?b" using wf i by (simp add: kb_wf_def list_all_length)
  note sp = split_once_ok [OF ok lt sp]
  have "contiguous 0 (take i ?bs @ [?b] @ drop (i + 1) ?bs) 2048" using wf bs by (simp add: kb_wf_def)
  then have "contiguous 0 (take i ?bs @ [f, g] @ drop (i + 1) ?bs) 2048" using sp(3-7) lt by (auto simp: contiguous_append)
  moreover have "list_all (bucket_ok local (kb_capacity s)) (take i ?bs @ [f, g] @ drop (i + 1) ?bs)"
    using wf sp(1,2) by (auto simp: kb_wf_def list_all_iff dest: in_set_takeD in_set_dropD)
  ultimately show "kb_wf local s'" using wf by (simp add: kb_wf_def s'_def)
  have all: "kb_all s = (\<Union>b \<in> set (take i ?bs) \<union> {?b} \<union> set (drop (i + 1) ?bs). set (kb_members b))"
    unfolding kb_all_def by (subst bs) auto
  have all': "kb_all s' = (\<Union>b \<in> set (take i ?bs) \<union> {f, g} \<union> set (drop (i + 1) ?bs). set (kb_members b))"
    by (auto simp: kb_all_def s'_def)
  show "kb_all s' \<subseteq> kb_all s" unfolding all all' using sp(9) by blast
  show "full_at s' (kademliaRange local m)" if "m \<in> kb_all s - kb_all s'" for m
  proof -
    have "m \<in> set (kb_members ?b)" "m \<notin> set (kb_members f) \<union> set (kb_members g)" using that unfolding all all' by blast+
    from sp(10) [OF this] show ?thesis by (auto simp: full_at_def s'_def)
  qed
  show "b \<in> set (kb_buckets s')" if "b \<in> set ?bs" "kb_begin b = kb_end b" for b
  proof -
    have "b \<in> set (take i ?bs) \<union> {?b} \<union> set (drop (i + 1) ?bs)" using that(1) bs by (metis Un_assoc list.set(1,2) set_append Un_insert_left Un_empty_left insert_is_Un)
    then show ?thesis using that(2) lt by (auto simp: s'_def)
  qed
qed

text \<open>The loop returns: each turn splits the bucket at the index into a narrower one.\<close>

lemma split_returns:
  assumes "kb_wf local s" "i < length (kb_buckets s)"
  shows "\<exists>s'. split i local s = Some s' \<and> kb_wf local s' \<and> kb_capacity s' = kb_capacity s \<and> kb_all s' \<subseteq> kb_all s \<and>
    (\<forall>m \<in> kb_all s - kb_all s'. full_at s' (kademliaRange local m)) \<and>
    (\<forall>b \<in> set (kb_buckets s). kb_begin b = kb_end b \<longrightarrow> b \<in> set (kb_buckets s'))"
  using assms
proof (induction "kb_end (kb_buckets s ! i) - kb_begin (kb_buckets s ! i)" arbitrary: s rule: less_induct)
  case less
  let ?b = "kb_buckets s ! i"
  show ?case
  proof (cases "kb_begin ?b = kb_end ?b \<or> length (kb_members ?b) \<le> kb_capacity s")
    case True
    then show ?thesis using less.prems by (subst split.simps) (simp add: Let_def)
  next
    case False
    have "kb_begin ?b \<le> kb_end ?b" using less.prems contiguous_bounds [of 0 "kb_buckets s" 2048 ?b] by (simp add: kb_wf_def)
    then have lt: "kb_begin ?b < kb_end ?b" using False by simp
    obtain f g where fg: "split_once (kb_capacity s) local ?b = (f, g)" by (cases "split_once (kb_capacity s) local ?b")
    define t where "t = s\<lparr>kb_buckets := take i (kb_buckets s) @ [f, g] @ drop (i + 1) (kb_buckets s)\<rparr>"
    note r = replace_bucket [OF less.prems lt fg, folded t_def]
    have sp: "split i local s = split i local t" using False by (subst split.simps) (simp add: Let_def fg t_def)
    have ok: "bucket_ok local (kb_capacity s) ?b" using less.prems by (simp add: kb_wf_def list_all_length)
    have ti: "kb_buckets t ! i = f" "i < length (kb_buckets t)" "kb_capacity t = kb_capacity s"
      using less.prems(2) by (simp_all add: t_def nth_append)
    have "kb_end f - kb_begin f < kb_end ?b - kb_begin ?b" using split_once_ok(3,8) [OF ok lt fg] lt by simp
    then obtain s' where s': "split i local t = Some s'" "kb_wf local s'" "kb_capacity s' = kb_capacity t" "kb_all s' \<subseteq> kb_all t"
      "\<forall>m \<in> kb_all t - kb_all s'. full_at s' (kademliaRange local m)"
      "\<forall>b \<in> set (kb_buckets t). kb_begin b = kb_end b \<longrightarrow> b \<in> set (kb_buckets s')"
      using less.hyps [of t] r(1) ti by auto
    have keep: "full_at s' x" if "full_at t x" for x using that s'(3,6) unfolding full_at_def by (metis of_nat_eq_iff)
    have "full_at s' (kademliaRange local m)" if "m \<in> kb_all s - kb_all s'" for m
      using that s'(5) r(3) [of m] keep by blast
    then show ?thesis using s' r(2,4) ti(3) sp by auto
  qed
qed

section \<open>Operations keep the invariant\<close>

lemma update_bucket:
  assumes wf: "kb_wf local s" and i: "i < length (kb_buckets s)" and b: "kb_begin b = kb_begin (kb_buckets s ! i)" "kb_end b = kb_end (kb_buckets s ! i)"
    and ok: "bucket_ok local (kb_capacity s) b"
  shows "kb_wf local (s\<lparr>kb_buckets := (kb_buckets s)[i := b]\<rparr>)"
    "kb_all (s\<lparr>kb_buckets := (kb_buckets s)[i := b]\<rparr>) = (\<Union>j \<in> {..<length (kb_buckets s)} - {i}. set (kb_members (kb_buckets s ! j))) \<union> set (kb_members b)"
proof -
  let ?bs = "kb_buckets s"
  have bs: "?bs = take i ?bs @ [?bs ! i] @ drop (Suc i) ?bs" using id_take_nth_drop [OF i] by simp
  have "contiguous 0 (take i ?bs @ [?bs ! i] @ drop (Suc i) ?bs) 2048" using wf bs by (simp add: kb_wf_def)
  then have "contiguous 0 (?bs[i := b]) 2048" unfolding upd_conv_take_nth_drop [OF i] using b by (auto simp: contiguous_append)
  moreover have "list_all (bucket_ok local (kb_capacity s)) (?bs[i := b])"
    using wf ok i by (auto simp: kb_wf_def list_all_length nth_list_update)
  ultimately show "kb_wf local (s\<lparr>kb_buckets := ?bs[i := b]\<rparr>)" using wf by (simp add: kb_wf_def)
  show "kb_all (s\<lparr>kb_buckets := ?bs[i := b]\<rparr>) = (\<Union>j \<in> {..<length ?bs} - {i}. set (kb_members (?bs ! j))) \<union> set (kb_members b)"
    using i by (auto simp: kb_all_def set_conv_nth nth_list_update split: if_splits)
qed

text \<open>The bucket of a range is unique, so a peer is found in it or nowhere.\<close>

lemma bucket_unique:
  assumes "kb_wf local s" "i < length (kb_buckets s)" "int (kb_begin (kb_buckets s ! i)) \<le> r" "r \<le> int (kb_end (kb_buckets s ! i))"
    "b \<in> set (kb_buckets s)" "int (kb_begin b) \<le> r" "r \<le> int (kb_end b)"
  shows "b = kb_buckets s ! i"
proof -
  have c: "contiguous 0 (kb_buckets s) 2048" using assms(1) by (simp add: kb_wf_def)
  obtain j where j: "j < length (kb_buckets s)" "b = kb_buckets s ! j" using assms(5) by (auto simp: in_set_conv_nth)
  have "j = i"
    using contiguous_sorted [OF c, of i j] contiguous_sorted [OF c, of j i] assms j by (cases i j rule: linorder_cases) auto
  then show ?thesis using j by simp
qed

lemma located:
  assumes "kb_wf local s" "i < length (kb_buckets s)" "int (kb_begin (kb_buckets s ! i)) \<le> r" "r \<le> int (kb_end (kb_buckets s ! i))"
  shows "kademliaRange local m = r \<Longrightarrow> m \<in> kb_all s \<longleftrightarrow> m \<in> set (kb_members (kb_buckets s ! i))"
    "full_at s r \<longleftrightarrow> kb_begin (kb_buckets s ! i) = kb_end (kb_buckets s ! i) \<and> kb_capacity s \<le> length (kb_members (kb_buckets s ! i))"
proof -
  have mem: "bucket_ok local (kb_capacity s) b" if "b \<in> set (kb_buckets s)" for b using assms(1) that by (simp add: kb_wf_def list_all_iff)
  show "m \<in> kb_all s \<longleftrightarrow> m \<in> set (kb_members (kb_buckets s ! i))" if "kademliaRange local m = r"
  proof
    assume "m \<in> kb_all s"
    then obtain b where b: "b \<in> set (kb_buckets s)" "m \<in> set (kb_members b)" by (auto simp: kb_all_def)
    then have "int (kb_begin b) \<le> r" "r \<le> int (kb_end b)" using mem [OF b(1)] that by (auto simp: bucket_ok_def)
    then show "m \<in> set (kb_members (kb_buckets s ! i))" using bucket_unique [OF assms b(1)] b(2) by simp
  next
    assume "m \<in> set (kb_members (kb_buckets s ! i))"
    then show "m \<in> kb_all s" using assms(2) by (auto simp: kb_all_def)
  qed
  show "full_at s r \<longleftrightarrow> kb_begin (kb_buckets s ! i) = kb_end (kb_buckets s ! i) \<and> kb_capacity s \<le> length (kb_members (kb_buckets s ! i))"
  proof
    assume "full_at s r"
    then obtain b where b: "b \<in> set (kb_buckets s)" "int (kb_begin b) = r" "int (kb_end b) = r" "kb_capacity s \<le> length (kb_members b)"
      by (auto simp: full_at_def)
    then show "kb_begin (kb_buckets s ! i) = kb_end (kb_buckets s ! i) \<and> kb_capacity s \<le> length (kb_members (kb_buckets s ! i))"
      using bucket_unique [OF assms b(1)] by auto
  qed (use assms in \<open>auto simp: full_at_def intro!: bexI [of _ "kb_buckets s ! i"]\<close>)
qed

lemma add_bucket_ok:
  assumes "bucket_ok local capacity b" "peer \<notin> set (kb_members b)" "length peer = 32" "int (kb_begin b) \<le> kademliaRange local peer"
    "kademliaRange local peer \<le> int (kb_end b)" "\<not> (kb_begin b = kb_end b \<and> capacity \<le> length (kb_members b))"
  shows "bucket_ok local capacity (b\<lparr>kb_members := kb_members b @ [peer], kb_lastChanged := t\<rparr>)"
  using assms by (auto simp: bucket_ok_def)

lemma kb_all_split:
  "i < length (kb_buckets s) \<Longrightarrow> kb_all s = (\<Union>j \<in> {..<length (kb_buckets s)} - {i}. set (kb_members (kb_buckets s ! j))) \<union> set (kb_members (kb_buckets s ! i))"
  by (auto simp: kb_all_def set_conv_nth)

lemma kb_add_spec:
  assumes wf: "kb_wf local s" and len: "length local = 32" "length peer = 32"
  shows "\<exists>ok s'. kb_add s local peer now = Some (Inr (ok, s')) \<and> kb_wf local s' \<and> kb_capacity s' = kb_capacity s \<and>
    (ok \<longleftrightarrow> peer \<noteq> local \<and> peer \<notin> kb_all s \<and> \<not> full_at s (kademliaRange local peer)) \<and>
    (if ok then kb_all s' \<subseteq> insert peer (kb_all s) \<and> (\<forall>m \<in> insert peer (kb_all s) - kb_all s'. full_at s' (kademliaRange local m))
     else kb_all s' = kb_all s)"
proof (cases "peer = local")
  case True
  then show ?thesis using wf kademliaRange_bounds(2) [OF len] by (intro exI [of _ False] exI [of _ s]) (simp add: kb_add_def Let_def)
next
  case False
  define r where "r = kademliaRange local peer"
  have r: "0 \<le> r" "r < 2048" using kademliaRange_bounds [OF len] False by (auto simp: r_def)
  obtain i where i: "bucketIndex s r = Inr i" "i < length (kb_buckets s)" "int (kb_begin (kb_buckets s ! i)) \<le> r" "r \<le> int (kb_end (kb_buckets s ! i))"
    using bucketIndex_finds [OF wf r] by blast
  let ?b = "kb_buckets s ! i"
  note at = located [OF wf i(2,3,4)]
  have ok: "bucket_ok local (kb_capacity s) ?b" using wf i(2) by (simp add: kb_wf_def list_all_length)
  define upd where "upd b = s\<lparr>kb_buckets := (kb_buckets s)[i := b]\<rparr>" for b
  consider (known) "peer \<in> set (kb_members ?b)" | (full) "peer \<notin> set (kb_members ?b)" "full_at s r" | (new) "peer \<notin> set (kb_members ?b)" "\<not> full_at s r" by blast
  then show ?thesis
  proof cases
    case known
    let ?c = "?b\<lparr>kb_lastChanged := now\<rparr>"
    have u: "kb_wf local (upd ?c)" "kb_all (upd ?c) = kb_all s"
      using update_bucket [OF wf i(2), of ?c] ok kb_all_split [OF i(2)] by (simp_all add: upd_def bucket_ok_def)
    have "kb_add s local peer now = Some (Inr (False, upd ?c))" using known r i(1) by (simp add: kb_add_def r_def [symmetric] Let_def upd_def)
    then show ?thesis using u known at(1) [of peer] by (intro exI [of _ False] exI [of _ "upd ?c"]) (simp add: r_def upd_def)
  next
    case full
    then have "kb_add s local peer now = Some (Inr (False, s))" using r i(1) at(2) by (simp add: kb_add_def r_def [symmetric] Let_def)
    then show ?thesis using full wf by (intro exI [of _ False] exI [of _ s]) (simp add: r_def)
  next
    case new
    let ?c = "?b\<lparr>kb_members := kb_members ?b @ [peer], kb_lastChanged := now\<rparr>"
    have nf: "\<not> (kb_begin ?b = kb_end ?b \<and> kb_capacity s \<le> length (kb_members ?b))" using new(2) at(2) by simp
    have c: "bucket_ok local (kb_capacity s) ?c" using add_bucket_ok [OF ok new(1) len(2) _ _ nf] i(3,4) by (simp add: r_def)
    have u: "kb_wf local (upd ?c)" "kb_all (upd ?c) = insert peer (kb_all s)" "i < length (kb_buckets (upd ?c))" "kb_capacity (upd ?c) = kb_capacity s"
      using update_bucket [OF wf i(2), of ?c] c kb_all_split [OF i(2)] i(2) by (simp_all add: upd_def)
    have notin: "peer \<notin> kb_all s" using new(1) at(1) [of peer] by (simp add: r_def)
    have eq: "kb_add s local peer now =
        (if kb_begin ?b \<noteq> kb_end ?b \<and> kb_capacity s < Suc (length (kb_members ?b)) then map_option (\<lambda>t. Inr (True, t)) (split i local (upd ?c))
         else Some (Inr (True, upd ?c)))"
      using r i(1) nf new(1) by (simp add: kb_add_def r_def [symmetric] Let_def upd_def)
    obtain t where t: "split i local (upd ?c) = Some t" "kb_wf local t" "kb_capacity t = kb_capacity s" "kb_all t \<subseteq> insert peer (kb_all s)"
      "\<forall>m \<in> insert peer (kb_all s) - kb_all t. full_at t (kademliaRange local m)"
      using split_returns [OF u(1,3)] u(2,4) by auto
    show ?thesis
      using eq t u False notin new(2) by (cases "kb_begin ?b \<noteq> kb_end ?b \<and> kb_capacity s < Suc (length (kb_members ?b))") (auto simp: r_def)
  qed
qed

lemma kb_remove_spec:
  assumes wf: "kb_wf local s" and len: "length local = 32" "length peer = 32"
  shows "\<exists>s'. kb_remove s local peer = Inr (peer \<noteq> local \<and> peer \<in> kb_all s, s') \<and> kb_wf local s' \<and> kb_capacity s' = kb_capacity s \<and>
    kb_all s' = (if peer = local then kb_all s else kb_all s - {peer})"
proof (cases "peer = local")
  case True
  then show ?thesis using wf kademliaRange_bounds(2) [OF len] by (simp add: kb_remove_def Let_def)
next
  case False
  define r where "r = kademliaRange local peer"
  have r: "0 \<le> r" "r < 2048" using kademliaRange_bounds [OF len] False by (auto simp: r_def)
  obtain i where i: "bucketIndex s r = Inr i" "i < length (kb_buckets s)" "int (kb_begin (kb_buckets s ! i)) \<le> r" "r \<le> int (kb_end (kb_buckets s ! i))"
    using bucketIndex_finds [OF wf r] by blast
  let ?b = "kb_buckets s ! i"
  have ok: "bucket_ok local (kb_capacity s) ?b" using wf i(2) by (simp add: kb_wf_def list_all_length)
  have here: "peer \<in> kb_all s \<longleftrightarrow> peer \<in> set (kb_members ?b)" using located(1) [OF wf i(2,3,4), of peer] by (simp add: r_def)
  have eq: "kb_remove s local peer = (if peer \<notin> set (kb_members ?b) then Inr (False, s)
      else Inr (True, s\<lparr>kb_buckets := (kb_buckets s)[i := ?b\<lparr>kb_members := remove1 peer (kb_members ?b)\<rparr>]\<rparr>))"
    using r i(1) by (simp add: kb_remove_def r_def [symmetric] Let_def)
  show ?thesis
  proof (cases "peer \<in> set (kb_members ?b)")
    case True
    let ?c = "?b\<lparr>kb_members := remove1 peer (kb_members ?b)\<rparr>"
    have dist: "distinct (kb_members ?b)" using ok by (simp add: bucket_ok_def)
    have c: "bucket_ok local (kb_capacity s) ?c"
      using ok by (auto simp: bucket_ok_def length_remove1 dest: in_set_remove1 [THEN iffD1, rotated] notin_set_remove1)
    have "peer \<notin> set (kb_members (kb_buckets s ! j))" if "j < length (kb_buckets s)" "j \<noteq> i" for j
    proof
      assume m: "peer \<in> set (kb_members (kb_buckets s ! j))"
      have "bucket_ok local (kb_capacity s) (kb_buckets s ! j)" using wf that(1) by (simp add: kb_wf_def list_all_length)
      then have "int (kb_begin (kb_buckets s ! j)) \<le> r" "r \<le> int (kb_end (kb_buckets s ! j))" using m by (auto simp: bucket_ok_def r_def)
      moreover have "contiguous 0 (kb_buckets s) 2048" using wf by (simp add: kb_wf_def)
      ultimately show False using contiguous_sorted [of 0 "kb_buckets s" 2048 i j] contiguous_sorted [of 0 "kb_buckets s" 2048 j i] i that
        by (cases i j rule: linorder_cases) auto
    qed
    then have "kb_all (s\<lparr>kb_buckets := (kb_buckets s)[i := ?c]\<rparr>) = kb_all s - {peer}"
      using update_bucket(2) [OF wf i(2), of ?c] c kb_all_split [OF i(2)] dist by (auto simp: set_remove1_eq)
    then show ?thesis using eq True False here update_bucket(1) [OF wf i(2), of ?c] c by simp
  next
    case B: False
    then show ?thesis using eq False here wf by auto
  qed
qed

section \<open>Histories\<close>

datatype kb_op = KAdd bytes u64 | KRemove bytes

fun kb_run :: "bytes \<Rightarrow> kb_op list \<Rightarrow> kBucketSet \<Rightarrow> kBucketSet result option" where
  "kb_run local [] s = Some (Inr s)"
| "kb_run local (KAdd peer now # ops) s =
     (case kb_add s local peer now of None \<Rightarrow> None | Some (Inl e) \<Rightarrow> Some (Inl e) | Some (Inr (_, s')) \<Rightarrow> kb_run local ops s')"
| "kb_run local (KRemove peer # ops) s =
     (case kb_remove s local peer of Inl e \<Rightarrow> Some (Inl e) | Inr (_, s') \<Rightarrow> kb_run local ops s')"

fun op_peer :: "kb_op \<Rightarrow> bytes" where
  "op_peer (KAdd peer now) = peer"
| "op_peer (KRemove peer) = peer"

lemma kb_wf_new: "kb_wf local (newKBucketSet capacity)"
  by (auto simp: kb_wf_def newKBucketSet_def bucket_ok_def kademliaRangeCount_def kademliaBFactor_def KademliaB_def DefaultBucketCapacity_def)

lemma kb_run_wf:
  assumes "length local = 32"
  shows "kb_wf local s \<Longrightarrow> \<forall>op \<in> set ops. length (op_peer op) = 32 \<Longrightarrow>
    \<exists>s'. kb_run local ops s = Some (Inr s') \<and> kb_wf local s' \<and> kb_capacity s' = kb_capacity s"
proof (induction ops arbitrary: s)
  case (Cons op ops)
  show ?case
  proof (cases op)
    case (KAdd peer now)
    then obtain ok t where "kb_add s local peer now = Some (Inr (ok, t))" "kb_wf local t" "kb_capacity t = kb_capacity s"
      using kb_add_spec [OF Cons.prems(1) assms, of peer now] Cons.prems(2) by auto
    then show ?thesis using Cons.IH [of t] Cons.prems(2) KAdd by auto
  next
    case (KRemove peer)
    then obtain ok t where "kb_remove s local peer = Inr (ok, t)" "kb_wf local t" "kb_capacity t = kb_capacity s"
      using kb_remove_spec [OF Cons.prems(1) assms, of peer] Cons.prems(2) by auto
    then show ?thesis using Cons.IH [of t] Cons.prems(2) KRemove by auto
  qed
qed simp

section \<open>Properties of the bucket set\<close>

text \<open>
  C11. Every sequence of additions and removals of 32-byte hashes on a new bucket set returns: the split loop
  ends, and the search for a bucket never runs into its panic. In every set so reached the buckets cover the
  ranges 0 to 2047 without gap or overlap, every member lies in the bucket of its range, no member occurs
  twice in a bucket, and a bucket of a single range never exceeds the capacity; a wider one may hold more.
\<close>

theorem kbucket_histories_return:
  assumes "length local = 32" "\<forall>op \<in> set ops. length (op_peer op) = 32"
  shows "\<exists>s. kb_run local ops (newKBucketSet capacity) = Some (Inr s) \<and> contiguous 0 (kb_buckets s) 2048 \<and>
    (\<forall>b \<in> set (kb_buckets s). distinct (kb_members b) \<and>
       (\<forall>m \<in> set (kb_members b). int (kb_begin b) \<le> kademliaRange local m \<and> kademliaRange local m \<le> int (kb_end b)) \<and>
       (kb_begin b = kb_end b \<longrightarrow> length (kb_members b) \<le> (if capacity \<le> 4 then 24 else nat capacity)))"
proof -
  obtain s where s: "kb_run local ops (newKBucketSet capacity) = Some (Inr s)" "kb_wf local s"
    "kb_capacity s = kb_capacity (newKBucketSet capacity)"
    using kb_run_wf [OF assms(1) kb_wf_new assms(2)] by blast
  have "kb_capacity s = (if capacity \<le> 4 then 24 else nat capacity)" using s(3) by (simp add: newKBucketSet_def DefaultBucketCapacity_def)
  then show ?thesis using s(1,2) by (intro exI [of _ s]) (auto simp: kb_wf_def list_all_iff bucket_ok_def)
qed

text \<open>The hypotheses at a history of three operations.\<close>

theorem kbucket_histories_return_witness:
  "\<exists>s. kb_run (replicate 32 0) [KAdd (replicate 32 7) 1, KAdd (replicate 32 9) 2, KRemove (replicate 32 7)] (newKBucketSet 0) = Some (Inr s) \<and>
     contiguous 0 (kb_buckets s) 2048"
  using kbucket_histories_return [of "replicate 32 0" "[KAdd (replicate 32 7) 1, KAdd (replicate 32 9) 2, KRemove (replicate 32 7)]" 0] by auto

text \<open>
  \<open>add\<close> answers true exactly for a hash other than the local one that the set does not hold and whose range
  is not already served by a full bucket of that single range; otherwise the members stay as they are. After a
  true answer the set holds the new hash and the old members, except hashes whose range has a full bucket of its
  own; so a nearby bucket is never emptied for a distant one. \<open>remove\<close> takes out exactly the hash it is
  given and reports whether it was there.
\<close>

theorem kbucket_membership:
  assumes "kb_wf local s" "length local = 32" "length peer = 32"
  shows "(\<exists>ok s'. kb_add s local peer now = Some (Inr (ok, s')) \<and> kb_wf local s' \<and> kb_capacity s' = kb_capacity s \<and>
      (ok \<longleftrightarrow> peer \<noteq> local \<and> peer \<notin> kb_all s \<and> \<not> full_at s (kademliaRange local peer)) \<and>
      (if ok then kb_all s' \<subseteq> insert peer (kb_all s) \<and> (\<forall>m \<in> insert peer (kb_all s) - kb_all s'. full_at s' (kademliaRange local m))
       else kb_all s' = kb_all s)) \<and>
    (peer \<noteq> local \<longrightarrow> (\<exists>s'. kb_remove s local peer = Inr (peer \<in> kb_all s, s') \<and> kb_wf local s' \<and> kb_all s' = kb_all s - {peer}))"
  by (rule conjI [OF kb_add_spec [OF assms]]) (use kb_remove_spec [OF assms] in auto)

text \<open>The hypotheses at an empty set.\<close>

theorem kbucket_membership_witness:
  "\<exists>s'. kb_add (newKBucketSet 8) (replicate 32 0) (replicate 32 7) 1 = Some (Inr (True, s')) \<and> kb_all s' \<subseteq> {replicate 32 7}"
proof -
  have e: "kb_all (newKBucketSet 8) = {}" "\<not> full_at (newKBucketSet 8) r" for r
    by (auto simp: kb_all_def full_at_def newKBucketSet_def)
  have ne: "(replicate 32 7 :: bytes) \<noteq> replicate 32 0" by (simp add: replicate_eq_replicate)
  obtain ok s' where "kb_add (newKBucketSet 8) (replicate 32 0) (replicate 32 7) 1 = Some (Inr (ok, s'))" "ok" "kb_all s' \<subseteq> {replicate 32 7}"
    using kbucket_membership [OF kb_wf_new, of "replicate 32 0" "replicate 32 7" 8 1] e ne by auto
  then show ?thesis by auto
qed

end
