(* ===== verification/Tunnel_Pool.thy ===== *)
theory Tunnel_Pool
  imports Bounded_Store "HOL-Library.Product_Lexorder"
begin

text \<open>
  The pool of tunnels of \<open>controlplane/internal/tunnel/pool.go\<close>. Every method holds the pool's mutex for its
  whole body, so an operation is one step on the state. The maps are association lists with distinct keys; a
  method that ranges over a map takes the order of the iteration as \<open>order\<close>. \<open>sort.Slice\<close> is a sort by the key of
  its comparison, which is total on the entries of a pool because their IDs differ. A circuit token is opaque
  here and only compared, it is a number. The nil receiver of
  the methods that test for it is \<open>None\<close>.
\<close>

section \<open>State and operations\<close>

datatype Direction = Inbound | Outbound

record Entry =
  eCircuit :: nat
  eID :: u32
  eDirection :: Direction
  eExpires :: u64
  eOwner :: bytes
  eGateway :: bytes
  eGatewayTunnelID :: u32
  eHopCount :: u8
  eHops :: "bytes list"

definition zero_Entry :: Entry where
  "zero_Entry = \<lparr>eCircuit = 0, eID = 0, eDirection = Inbound, eExpires = 0, eOwner = replicate 32 0, eGateway = replicate 32 0,
     eGatewayTunnelID = 0, eHopCount = 0, eHops = replicate 8 (replicate 32 0)\<rparr>"

record Pool =
  p_max :: nat
  p_owner :: bytes
  p_tunnels :: "(u32 \<times> Entry) list"
  p_active :: "u32 list"
  p_target :: nat
  p_renewBefore :: u64

type_synonym pool_order = "(u32 \<times> Entry) list \<Rightarrow> (u32 \<times> Entry) list"

definition NewOwnedPool :: "bytes \<Rightarrow> int \<Rightarrow> Pool" where
  "NewOwnedPool owner max' =
     \<lparr>p_max = (if max' \<le> 0 then 64 else nat max'), p_owner = owner, p_tunnels = [], p_active = [], p_target = 0, p_renewBefore = 0\<rparr>"

definition NewPool :: "int \<Rightarrow> Pool" where "NewPool max' = NewOwnedPool (replicate 32 0) max'"

definition PoolOwner :: "Pool option \<Rightarrow> bytes" where
  "PoolOwner p = (case p of None \<Rightarrow> replicate 32 0 | Some q \<Rightarrow> p_owner q)"

text \<open>\<open>expireLocked\<close> deletes while it ranges over the map; which entries go does not depend on the order.\<close>

definition expireLocked :: "u64 \<Rightarrow> Pool \<Rightarrow> Pool \<times> nat" where
  "expireLocked now p =
     (p\<lparr>p_tunnels := filter (\<lambda>(id, e). \<not> eExpires e \<le> now) (p_tunnels p)\<rparr>,
      length (filter (\<lambda>(id, e). eExpires e \<le> now) (p_tunnels p)))"

definition PoolExpire :: "u64 \<Rightarrow> Pool \<Rightarrow> Pool \<times> nat" where "PoolExpire now p = expireLocked now p"

definition PoolReplace :: "Entry \<Rightarrow> u32 \<Rightarrow> u64 \<Rightarrow> Pool option \<Rightarrow> Pool option \<times> (Entry \<times> bool) result" where
  "PoolReplace entry retireID now p =
     (if eID entry = 0 then (p, Inl ErrTunnelID)
      else case p of
        None \<Rightarrow> (p, Inl ErrPoolOwner)
      | Some q \<Rightarrow>
          if eOwner entry \<noteq> p_owner q then (p, Inl ErrPoolOwner)
          else let q1 = fst (expireLocked now q) in
            if map_of (p_tunnels q1) (eID entry) \<noteq> None then (Some q1, Inl ErrTunnelID)
            else if length (p_tunnels q1) < p_max q1 then
              (Some (q1\<lparr>p_tunnels := AList.update (eID entry) entry (p_tunnels q1)\<rparr>), Inr (zero_Entry, False))
            else if retireID = 0 then (Some q1, Inl ErrPoolFull)
            else case map_of (p_tunnels q1) retireID of
              None \<Rightarrow> (Some q1, Inl ErrPoolFull)
            | Some retired \<Rightarrow>
                (Some (q1\<lparr>p_tunnels := AList.update (eID entry) entry (AList.delete retireID (p_tunnels q1))\<rparr>), Inr (retired, True)))"

definition PoolAdd :: "Entry \<Rightarrow> u64 \<Rightarrow> Pool option \<Rightarrow> Pool option \<times> error option" where
  "PoolAdd entry now p =
     (let (p', r) = PoolReplace entry 0 now p in (p', case r of Inl e \<Rightarrow> Some e | Inr _ \<Rightarrow> None))"

definition RollbackReplace :: "Entry \<Rightarrow> Entry \<Rightarrow> bool \<Rightarrow> u64 \<Rightarrow> Pool \<Rightarrow> Pool" where
  "RollbackReplace entry retired replaced now p =
     (if map_of (p_tunnels p) (eID entry) \<noteq> Some entry then p
      else let ts = AList.delete (eID entry) (p_tunnels p) in
        if replaced \<and> eExpires retired > now \<and> length ts < p_max p
        then p\<lparr>p_tunnels := AList.update (eID retired) retired ts\<rparr> else p\<lparr>p_tunnels := ts\<rparr>)"

definition PoolRemove :: "Entry \<Rightarrow> Pool \<Rightarrow> Pool \<times> bool" where
  "PoolRemove entry p =
     (if map_of (p_tunnels p) (eID entry) \<noteq> Some entry then (p, False)
      else (p\<lparr>p_tunnels := AList.delete (eID entry) (p_tunnels p)\<rparr>, True))"

definition PoolClear :: "pool_order \<Rightarrow> Pool option \<Rightarrow> Pool option \<times> u32 list" where
  "PoolClear order p =
     (case p of None \<Rightarrow> (None, [])
      | Some q \<Rightarrow> (Some (q\<lparr>p_tunnels := []\<rparr>), sort (map fst (order (p_tunnels q)))))"

definition PoolGet :: "u32 \<Rightarrow> u64 \<Rightarrow> Pool \<Rightarrow> Entry \<times> bool" where
  "PoolGet i now p =
     (case map_of (p_tunnels p) i of None \<Rightarrow> (zero_Entry, False) | Some e \<Rightarrow> (e, eExpires e > now))"

definition saturatingDeadline :: "u64 \<Rightarrow> u64 \<Rightarrow> u64" where
  "saturatingDeadline now delay = (if NOT 0 - now < delay then NOT 0 else now + delay)"

text \<open>The scan for the best inactive outbound tunnel, and the loop that activates one after another (\<open>fuel\<close> counts turns).\<close>

definition promote_scan :: "pool_order \<Rightarrow> u64 \<Rightarrow> u32 list \<Rightarrow> (u32 \<times> Entry) list \<Rightarrow> Entry" where
  "promote_scan order now active ts =
     foldl (\<lambda>best (id, entry).
       if eDirection entry \<noteq> Outbound \<or> eExpires entry \<le> now then best
       else if id \<in> set active then best
       else if eExpires entry > eExpires best \<or> eExpires entry = eExpires best \<and> eID entry < eID best then entry
       else best) zero_Entry (order ts)"

fun promote_loop :: "nat \<Rightarrow> pool_order \<Rightarrow> u64 \<Rightarrow> nat \<Rightarrow> (u32 \<times> Entry) list \<Rightarrow> u32 list \<Rightarrow> u32 list option" where
  "promote_loop 0 order now target ts active = None"
| "promote_loop (Suc fuel) order now target ts active =
     (if length active < target then
        let best = promote_scan order now active ts in
        if eID best = 0 then Some active else promote_loop fuel order now target ts (List.insert (eID best) active)
      else Some active)"

definition promoteOutboundLocked :: "pool_order \<Rightarrow> u64 \<Rightarrow> Pool \<Rightarrow> Pool option" where
  "promoteOutboundLocked order now p =
     (if p_target p = 0 then Some p
      else let cutoff = saturatingDeadline now (p_renewBefore p);
               active = filter (\<lambda>id. \<not> (case map_of (p_tunnels p) id of None \<Rightarrow> True | Some entry \<Rightarrow> eExpires entry \<le> cutoff)) (p_active p)
        in map_option (\<lambda>a. p\<lparr>p_active := a\<rparr>) (promote_loop (Suc (p_target p)) order now (p_target p) (p_tunnels p) active))"

definition select_scan :: "pool_order \<Rightarrow> Direction \<Rightarrow> u64 \<Rightarrow> Pool \<Rightarrow> Entry option" where
  "select_scan order direction now p =
     foldl (\<lambda>best (id, e).
       if direction = Outbound \<and> p_target p > 0 \<and> eID e \<notin> set (p_active p) then best
       else if eDirection e = direction \<and> eExpires e > now \<and>
          (case best of None \<Rightarrow> True | Some b \<Rightarrow> eExpires e > eExpires b \<or> eExpires e = eExpires b \<and> eID e < eID b)
       then Some e else best) None (order (p_tunnels p))"

definition PoolSelect :: "pool_order \<Rightarrow> Direction \<Rightarrow> u64 \<Rightarrow> Pool \<Rightarrow> (Pool \<times> Entry option) option" where
  "PoolSelect order direction now p =
     map_option (\<lambda>q. (q, select_scan order direction now q)) (promoteOutboundLocked order now p)"

definition PoolCount :: "Direction \<Rightarrow> u64 \<Rightarrow> Pool \<Rightarrow> nat" where
  "PoolCount direction now p = length (filter (\<lambda>(id, e). eDirection e = direction \<and> eExpires e > now) (p_tunnels p))"

definition Snapshot :: "pool_order \<Rightarrow> u64 \<Rightarrow> Pool option \<Rightarrow> Entry list" where
  "Snapshot order now p =
     (case p of None \<Rightarrow> []
      | Some q \<Rightarrow> sort_key eID (map snd (filter (\<lambda>(id, e). eExpires e > now) (order (p_tunnels q)))))"

definition renewalIDs :: "pool_order \<Rightarrow> Direction \<Rightarrow> u64 \<Rightarrow> u64 \<Rightarrow> Pool \<Rightarrow> u32 list" where
  "renewalIDs order direction now cutoff p =
     map eID (sort_key (\<lambda>e. (eExpires e, eID e))
       (map snd (filter (\<lambda>(id, e). eDirection e = direction \<and> eExpires e > now \<and> eExpires e \<le> cutoff) (order (p_tunnels p)))))"

definition SelectableOutbound :: "pool_order \<Rightarrow> u64 \<Rightarrow> Pool \<Rightarrow> (Pool \<times> Entry list) option" where
  "SelectableOutbound order now p =
     map_option (\<lambda>q. (q, sort_key eID (map snd (filter (\<lambda>(id, e).
        \<not> (eDirection e \<noteq> Outbound \<or> eExpires e \<le> now) \<and> \<not> (p_target q > 0 \<and> id \<notin> set (p_active q))) (order (p_tunnels q))))))
       (promoteOutboundLocked order now p)"

text \<open>Descending expiry is ascending distance from the largest time.\<close>

definition PublishableInbound :: "pool_order \<Rightarrow> u64 \<Rightarrow> Pool option \<Rightarrow> Entry list" where
  "PublishableInbound order now p =
     take 16 (sort_key (\<lambda>e. (NOT (eExpires e), eID e)) (filter (\<lambda>e. eDirection e = Inbound) (Snapshot order now p)))"

text \<open>What \<open>NewPairedPoolMaintainer\<close> does to the pool that it takes over: targets of at least one and an empty active set.\<close>

definition pool_targets :: "nat \<Rightarrow> u64 \<Rightarrow> Pool \<Rightarrow> Pool" where
  "pool_targets outboundTarget renewBefore p = p\<lparr>p_target := outboundTarget, p_renewBefore := renewBefore, p_active := []\<rparr>"

section \<open>Scans for the best entry\<close>

definition best_of :: "('a \<Rightarrow> 'a \<Rightarrow> bool) \<Rightarrow> ('a \<Rightarrow> bool) \<Rightarrow> 'a list \<Rightarrow> 'a option" where
  "best_of better P xs =
     foldl (\<lambda>best e. if P e \<and> (case best of None \<Rightarrow> True | Some b \<Rightarrow> better e b) then Some e else best) None xs"

text \<open>A preference: what a scan relies on so that the first strictly better item wins over the whole list.\<close>

locale preference =
  fixes better :: "'a \<Rightarrow> 'a \<Rightarrow> bool"
  assumes asym: "better a b \<Longrightarrow> \<not> better b a"
    and negtrans: "\<not> better a b \<Longrightarrow> \<not> better b c \<Longrightarrow> \<not> better a c"
begin

lemma best_from:
  "P b \<Longrightarrow> \<exists>r. foldl (\<lambda>best e. if P e \<and> (case best of None \<Rightarrow> True | Some b \<Rightarrow> better e b) then Some e else best) (Some b) xs = Some r \<and>
     P r \<and> (r \<in> set xs \<or> r = b) \<and> \<not> better b r \<and> (\<forall>e \<in> set xs. P e \<longrightarrow> \<not> better e r)"
proof (induction xs arbitrary: b)
  case Nil
  then show ?case using asym by auto
next
  case (Cons x xs)
  define c where "c = (if P x \<and> better x b then x else b)"
  have "P c" using Cons.prems by (simp add: c_def)
  then obtain r where r: "foldl (\<lambda>best e. if P e \<and> (case best of None \<Rightarrow> True | Some b \<Rightarrow> better e b) then Some e else best) (Some c) xs = Some r"
    "P r" "r \<in> set xs \<or> r = c" "\<not> better c r" "\<forall>e \<in> set xs. P e \<longrightarrow> \<not> better e r"
    using Cons.IH by blast
  have "\<not> better b c" using asym by (auto simp: c_def)
  then have "\<not> better b r" using r(4) by (rule negtrans)
  moreover have "\<not> better x r" if "P x"
  proof -
    have "\<not> better x c" using that asym by (auto simp: c_def)
    then show ?thesis using r(4) by (rule negtrans)
  qed
  moreover have "r \<in> set (x # xs) \<or> r = b" using r(3) by (auto simp: c_def split: if_splits)
  ultimately show ?case using r(1,2,5) by (intro exI [of _ r]) (auto simp: c_def split: if_splits)
qed

lemma best_of_spec:
  "case best_of better P xs of None \<Rightarrow> (\<forall>e \<in> set xs. \<not> P e)
   | Some b \<Rightarrow> b \<in> set xs \<and> P b \<and> (\<forall>e \<in> set xs. P e \<longrightarrow> \<not> better e b)"
proof (induction xs)
  case (Cons x xs)
  show ?case
  proof (cases "P x")
    case True
    then obtain r where "best_of better P (x # xs) = Some r" "P r" "r \<in> set xs \<or> r = x" "\<not> better x r" "\<forall>e \<in> set xs. P e \<longrightarrow> \<not> better e r"
      using best_from [of P x xs] by (auto simp: best_of_def)
    then show ?thesis by auto
  next
    case False
    then have "best_of better P (x # xs) = best_of better P xs" by (simp add: best_of_def)
    then show ?thesis using Cons False by (auto split: option.splits)
  qed
qed (simp add: best_of_def)

lemma best_of_None: "best_of better P xs = None \<longleftrightarrow> (\<forall>e \<in> set xs. \<not> P e)"
  using best_of_spec [where P = P and xs = xs] by (auto split: option.splits)

lemma best_of_Some: "best_of better P xs = Some b \<Longrightarrow> b \<in> set xs \<and> P b \<and> (\<forall>e \<in> set xs. P e \<longrightarrow> \<not> better e b)"
  using best_of_spec [where P = P and xs = xs] by auto

text \<open>On items that the preference tells apart, the result does not depend on the order of the scan.\<close>

lemma best_of_order:
  assumes "set xs = set ys" "\<And>a b. a \<in> set xs \<Longrightarrow> b \<in> set xs \<Longrightarrow> \<not> better a b \<Longrightarrow> \<not> better b a \<Longrightarrow> a = b"
  shows "best_of better P xs = best_of better P ys"
proof (cases "best_of better P xs")
  case None
  then show ?thesis using best_of_None [of P xs] best_of_None [of P ys] assms(1) by auto
next
  case (Some b)
  note b = best_of_Some [OF Some]
  then obtain c where c: "best_of better P ys = Some c" using best_of_None [of P ys] assms(1) by (cases "best_of better P ys") auto
  note c' = best_of_Some [OF c]
  have "b = c" using b c' assms(1) by (intro assms(2)) simp_all
  then show ?thesis using Some c by simp
qed

end

definition entry_better :: "Entry \<Rightarrow> Entry \<Rightarrow> bool" where
  "entry_better a b \<longleftrightarrow> eExpires a > eExpires b \<or> eExpires a = eExpires b \<and> eID a < eID b"

interpretation entries: preference entry_better
  by unfold_locales (auto simp: entry_better_def)

lemma promote_scan_best:
  "promote_scan order now active ts =
     (case best_of entry_better (\<lambda>e. eDirection e = Outbound \<and> eExpires e > now \<and> eID e \<notin> set active) (map snd (order ts)) of
        None \<Rightarrow> zero_Entry | Some e \<Rightarrow> e)" if "\<And>i e. (i, e) \<in> set (order ts) \<Longrightarrow> eID e = i"
proof -
  let ?P = "\<lambda>e. eDirection e = Outbound \<and> eExpires e > now \<and> eID e \<notin> set active"
  let ?f = "\<lambda>best (i :: u32, entry).
       if eDirection entry \<noteq> Outbound \<or> eExpires entry \<le> now then best
       else if i \<in> set active then best
       else if eExpires entry > eExpires best \<or> eExpires entry = eExpires best \<and> eID entry < eID best then entry
       else best"
  let ?g = "\<lambda>best e. if ?P e \<and> (case best of None \<Rightarrow> True | Some b \<Rightarrow> entry_better e b) then Some e else best"
  define F where "F b = (case b of None \<Rightarrow> zero_Entry | Some e \<Rightarrow> e)" for b
  have step: "?f (F b) (i, e) = F (?g b e)" if "eID e = i" for b i e
  proof -
    have "eExpires e > now \<Longrightarrow> eExpires e \<noteq> 0" by auto
    then have "eExpires e > now \<Longrightarrow> eExpires zero_Entry < eExpires e" by (simp add: zero_Entry_def word_neq_0_conv)
    then show ?thesis using that by (auto simp: F_def entry_better_def not_le split: option.splits)
  qed
  have "foldl ?f (F b) xs = F (foldl ?g b (map snd xs))" if "\<And>i e. (i, e) \<in> set xs \<Longrightarrow> eID e = i" for b xs
    using that
  proof (induction xs arbitrary: b)
    case (Cons x xs)
    obtain i e where x: "x = (i, e)" "eID e = i" using Cons.prems by (cases x) auto
    have "foldl ?f (F b) (x # xs) = foldl ?f (F (?g b e)) xs" unfolding foldl_Cons x(1) step [OF x(2)] ..
    also have "\<dots> = F (foldl ?g (?g b e) (map snd xs))" by (rule Cons.IH) (use Cons.prems in auto)
    finally show ?case by (simp only: x(1) list.map snd_conv foldl_Cons)
  qed simp
  from this [of "order ts" None] that show ?thesis by (simp only: promote_scan_def best_of_def F_def option.case) 
qed

lemma select_scan_best:
  "select_scan order direction now p =
     best_of entry_better (\<lambda>e. \<not> (direction = Outbound \<and> p_target p > 0 \<and> eID e \<notin> set (p_active p)) \<and> eDirection e = direction \<and> eExpires e > now)
       (map snd (order (p_tunnels p)))"
proof -
  let ?P = "\<lambda>e. \<not> (direction = Outbound \<and> p_target p > 0 \<and> eID e \<notin> set (p_active p)) \<and> eDirection e = direction \<and> eExpires e > now"
  let ?g = "\<lambda>best e. if ?P e \<and> (case best of None \<Rightarrow> True | Some b \<Rightarrow> entry_better e b) then Some e else best"
  let ?f = "\<lambda>best (i :: u32, e).
       if direction = Outbound \<and> p_target p > 0 \<and> eID e \<notin> set (p_active p) then best
       else if eDirection e = direction \<and> eExpires e > now \<and>
          (case best of None \<Rightarrow> True | Some b \<Rightarrow> eExpires e > eExpires b \<or> eExpires e = eExpires b \<and> eID e < eID b)
       then Some e else best"
  have step: "?f b (i, e) = ?g b e" for b i e by (auto simp: entry_better_def split: option.splits)
  have "foldl ?f b xs = foldl ?g b (map snd xs)" for b and xs :: "(u32 \<times> Entry) list"
  proof (induction xs arbitrary: b)
    case (Cons x xs)
    then show ?case by (cases x) (simp only: list.map snd_conv foldl_Cons step)
  qed simp
  then show ?thesis by (simp only: select_scan_def best_of_def)
qed

section \<open>The invariant\<close>

definition pool_ok :: "Pool \<Rightarrow> bool" where
  "pool_ok p \<longleftrightarrow> 0 < p_max p \<and> distinct (map fst (p_tunnels p)) \<and> length (p_tunnels p) \<le> p_max p \<and>
     (\<forall>(i, e) \<in> set (p_tunnels p). eID e = i \<and> i \<noteq> 0 \<and> eOwner e = p_owner p) \<and>
     distinct (p_active p) \<and> length (p_active p) \<le> p_target p"

lemma pool_entries_apart:
  assumes "pool_ok p" "a \<in> snd ` set (p_tunnels p)" "b \<in> snd ` set (p_tunnels p)" "\<not> entry_better a b" "\<not> entry_better b a"
  shows "a = b"
proof -
  have "eID a = eID b" using assms(4,5) by (auto simp: entry_better_def not_less)
  moreover have "(eID a, a) \<in> set (p_tunnels p)" "(eID b, b) \<in> set (p_tunnels p)" using assms(1-3) by (auto simp: pool_ok_def)
  ultimately show ?thesis using assms(1) by (auto simp: pool_ok_def dest: eq_key_imp_eq_value)
qed

lemma scan_order:
  assumes "pool_ok p" "visits_all order" "visits_all order'"
  shows "best_of entry_better P (map snd (order (p_tunnels p))) = best_of entry_better P (map snd (order' (p_tunnels p)))"
  using pool_entries_apart [OF assms(1)] visits_all_set [OF assms(2)] visits_all_set [OF assms(3)]
  by (intro entries.best_of_order) simp_all

section \<open>Promotion\<close>

definition promotable :: "u64 \<Rightarrow> u32 list \<Rightarrow> Entry \<Rightarrow> bool" where
  "promotable now active e \<longleftrightarrow> eDirection e = Outbound \<and> eExpires e > now \<and> eID e \<notin> set active"

lemma promote_scan_pool:
  assumes "pool_ok p" "visits_all order"
  shows "promote_scan order now active (p_tunnels p) =
    (case best_of entry_better (promotable now active) (map snd (p_tunnels p)) of None \<Rightarrow> zero_Entry | Some e \<Rightarrow> e)"
proof -
  have "eID e = i" if "(i, e) \<in> set (order (p_tunnels p))" for i e using that assms visits_all_set [OF assms(2)] by (auto simp: pool_ok_def)
  then have "promote_scan order now active (p_tunnels p) =
      (case best_of entry_better (promotable now active) (map snd (order (p_tunnels p))) of None \<Rightarrow> zero_Entry | Some e \<Rightarrow> e)"
    using promote_scan_best [of order "p_tunnels p" now active] by (simp add: promotable_def [abs_def])
  then show ?thesis using scan_order [OF assms visits_all_id] by simp
qed

text \<open>
  Each turn activates one more tunnel, so that the target bounds the number of turns; when the loop ends below the
  target, every live outbound tunnel is active.
\<close>

lemma promote_loop_returns:
  assumes p: "pool_ok p" and order: "visits_all order"
  shows "target - length active < fuel \<Longrightarrow> distinct active \<Longrightarrow> length active \<le> target \<Longrightarrow>
    \<exists>a. promote_loop fuel order now target (p_tunnels p) active = Some a \<and> promote_loop fuel (\<lambda>xs. xs) now target (p_tunnels p) active = Some a \<and>
      distinct a \<and> length a \<le> target \<and> set active \<subseteq> set a \<and> (length a < target \<longrightarrow> (\<forall>e \<in> snd ` set (p_tunnels p). \<not> promotable now a e))"
proof (induction fuel arbitrary: active)
  case (Suc fuel)
  let ?best = "best_of entry_better (promotable now active) (map snd (p_tunnels p))"
  have scan: "promote_scan order now active (p_tunnels p) = (case ?best of None \<Rightarrow> zero_Entry | Some e \<Rightarrow> e)"
    "promote_scan (\<lambda>xs. xs) now active (p_tunnels p) = (case ?best of None \<Rightarrow> zero_Entry | Some e \<Rightarrow> e)"
    using promote_scan_pool [OF p order] promote_scan_pool [OF p visits_all_id] by simp_all
  show ?case
  proof (cases "length active < target")
    case True
    show ?thesis
    proof (cases ?best)
      case None
      then have "\<forall>e \<in> snd ` set (p_tunnels p). \<not> promotable now active e" using entries.best_of_None [of "promotable now active" "map snd (p_tunnels p)"] by simp
      then show ?thesis using None True Suc.prems scan by (simp add: zero_Entry_def Let_def)
    next
      case (Some b)
      then have b: "b \<in> snd ` set (p_tunnels p)" "promotable now active b" using entries.best_of_Some [OF Some] by auto
      then have id: "eID b \<noteq> 0" "eID b \<notin> set active" using p by (auto simp: pool_ok_def promotable_def)
      then have ins: "List.insert (eID b) active = eID b # active" by simp
      have turn: "target - length (eID b # active) < fuel" "distinct (eID b # active)" "length (eID b # active) \<le> target"
        using Suc.prems id True by auto
      obtain a where "promote_loop fuel order now target (p_tunnels p) (eID b # active) = Some a" "promote_loop fuel (\<lambda>xs. xs) now target (p_tunnels p) (eID b # active) = Some a"
        "distinct a" "length a \<le> target" "set (eID b # active) \<subseteq> set a" "length a < target \<longrightarrow> (\<forall>e \<in> snd ` set (p_tunnels p). \<not> promotable now a e)"
        using Suc.IH [of "eID b # active", OF turn(1) turn(2) turn(3)] by blast
      then show ?thesis using Some True id(1) scan ins by (intro exI [of _ a]) (simp add: Let_def)
    qed
  next
    case False
    then show ?thesis using Suc.prems by simp
  qed
qed simp

lemma promoteOutboundLocked_spec:
  assumes p: "pool_ok p" and order: "visits_all order"
  shows "\<exists>q. promoteOutboundLocked order now p = Some q \<and> promoteOutboundLocked (\<lambda>xs. xs) now p = Some q \<and> pool_ok q \<and>
    q = p\<lparr>p_active := p_active q\<rparr> \<and> (length (p_active q) < p_target p \<longrightarrow> (\<forall>e \<in> snd ` set (p_tunnels p). \<not> promotable now (p_active q) e))"
proof (cases "p_target p = 0")
  case False
  define active where "active = filter (\<lambda>id. \<not> (case map_of (p_tunnels p) id of None \<Rightarrow> True | Some entry \<Rightarrow> eExpires entry \<le> saturatingDeadline now (p_renewBefore p))) (p_active p)"
  have "length active \<le> length (p_active p)" by (simp add: active_def)
  moreover have "length (p_active p) \<le> p_target p" using p by (simp add: pool_ok_def)
  ultimately have "length active \<le> p_target p" "p_target p - length active < Suc (p_target p)" by linarith+
  moreover have "distinct active" using p by (simp add: active_def pool_ok_def)
  ultimately obtain a where a: "promote_loop (Suc (p_target p)) order now (p_target p) (p_tunnels p) active = Some a"
    "promote_loop (Suc (p_target p)) (\<lambda>xs. xs) now (p_target p) (p_tunnels p) active = Some a" "distinct a" "length a \<le> p_target p"
    "length a < p_target p \<longrightarrow> (\<forall>e \<in> snd ` set (p_tunnels p). \<not> promotable now a e)"
    using promote_loop_returns [OF p order, of "p_target p" active "Suc (p_target p)" now] by blast
  then have q: "promoteOutboundLocked order now p = Some (p\<lparr>p_active := a\<rparr>)" "promoteOutboundLocked (\<lambda>xs. xs) now p = Some (p\<lparr>p_active := a\<rparr>)"
    using False by (simp_all only: promoteOutboundLocked_def Let_def active_def if_False option.map)
  show ?thesis by (intro exI [of _ "p\<lparr>p_active := a\<rparr>"]) (use q a False p in \<open>simp add: pool_ok_def\<close>)
qed (use p in \<open>simp add: promoteOutboundLocked_def\<close>)

section \<open>Every operation keeps the invariant\<close>

lemma AList_update_set: "set (AList.update k v xs) \<subseteq> insert (k, v) (set xs)"
  by (induction xs) auto

lemma AList_update_length: "length (AList.update k v xs) \<le> Suc (length xs)"
  by (induction xs) auto

lemma distinct_fst_filter: "distinct (map fst xs) \<Longrightarrow> distinct (map fst (filter P xs))"
  by (induction xs) auto

lemma pool_sub:
  assumes "pool_ok p"
  shows "pool_ok (p\<lparr>p_tunnels := filter P (p_tunnels p)\<rparr>)"
  using assms le_trans [OF length_filter_le [of P "p_tunnels p"]] by (auto simp: pool_ok_def distinct_fst_filter)

lemma pool_delete: "pool_ok p \<Longrightarrow> pool_ok (p\<lparr>p_tunnels := AList.delete k (p_tunnels p)\<rparr>)"
  unfolding AList.delete_eq by (rule pool_sub)

lemma pool_insert:
  assumes "pool_ok p" "length (p_tunnels p) < p_max p" "eID e = k" "k \<noteq> 0" "eOwner e = p_owner p"
  shows "pool_ok (p\<lparr>p_tunnels := AList.update k e (p_tunnels p)\<rparr>)"
proof -
  have "length (AList.update k e (p_tunnels p)) \<le> p_max p" using AList_update_length [of k e "p_tunnels p"] assms(2) by linarith
  then show ?thesis using assms AList_update_set [of k e "p_tunnels p"] by (auto simp: pool_ok_def distinct_update)
qed

lemma pool_delete_length:
  assumes "map_of xs k = Some v" shows "length (AList.delete k xs) < length xs"
  unfolding AList.delete_eq by (rule length_filter_less [of "(k, v)"]) (use map_of_SomeD [OF assms] in auto)

lemma NewOwnedPool_ok: "pool_ok (NewOwnedPool owner n)"
  by (simp add: NewOwnedPool_def pool_ok_def)

lemma expireLocked_ok: "pool_ok p \<Longrightarrow> pool_ok (fst (expireLocked now p))"
  by (simp add: expireLocked_def pool_sub)

lemma PoolReplace_ok:
  assumes "pool_ok p" shows "\<exists>q r. PoolReplace entry retireID now (Some p) = (Some q, r) \<and> pool_ok q \<and> p_owner q = p_owner p \<and> p_max q = p_max p"
proof -
  define q where "q = fst (expireLocked now p)"
  have q: "pool_ok q" "p_owner q = p_owner p" "p_max q = p_max p" using assms by (simp_all add: q_def expireLocked_ok) (simp_all add: expireLocked_def)
  let ?add = "q\<lparr>p_tunnels := AList.update (eID entry) entry (p_tunnels q)\<rparr>"
  let ?del = "q\<lparr>p_tunnels := AList.delete retireID (p_tunnels q)\<rparr>"
  let ?swap = "q\<lparr>p_tunnels := AList.update (eID entry) entry (AList.delete retireID (p_tunnels q))\<rparr>"
  have add: "pool_ok ?add" if "eID entry \<noteq> 0" "eOwner entry = p_owner p" "map_of (p_tunnels q) (eID entry) = None" "length (p_tunnels q) < p_max q"
    using that q by (intro pool_insert) simp_all
  have swap: "pool_ok ?swap" if "eID entry \<noteq> 0" "eOwner entry = p_owner p" "map_of (p_tunnels q) (eID entry) = None" "map_of (p_tunnels q) retireID = Some r" for r
  proof -
    have "pool_ok (?del\<lparr>p_tunnels := AList.update (eID entry) entry (p_tunnels ?del)\<rparr>)"
    proof (rule pool_insert)
      show "length (p_tunnels ?del) < p_max ?del" using pool_delete_length [OF that(4)] q(1) by (simp add: pool_ok_def)
    qed (use that q pool_delete [OF q(1)] in simp_all)
    then show ?thesis by simp
  qed
  show ?thesis unfolding PoolReplace_def option.case q_def [symmetric] Let_def
    using assms q add swap by (cases "map_of (p_tunnels q) retireID") simp_all
qed

lemma RollbackReplace_ok:
  assumes "pool_ok p" "replaced \<Longrightarrow> eID retired \<noteq> 0 \<and> eOwner retired = p_owner p"
  shows "pool_ok (RollbackReplace entry retired replaced now p)"
proof -
  let ?q = "p\<lparr>p_tunnels := AList.delete (eID entry) (p_tunnels p)\<rparr>"
  have ok: "pool_ok ?q" using assms(1) by (rule pool_delete)
  have "pool_ok (?q\<lparr>p_tunnels := AList.update (eID retired) retired (p_tunnels ?q)\<rparr>)" if "replaced" "length (p_tunnels ?q) < p_max p"
    using ok assms(2) that by (intro pool_insert) simp_all
  then show ?thesis using ok assms(1) by (simp add: RollbackReplace_def Let_def)
qed

section \<open>Histories\<close>

text \<open>The calls on a pool, with the order of each iteration.\<close>

datatype pool_act = ActReplace Entry u32 u64 | ActAdd Entry u64 | ActRollback Entry Entry bool u64 | ActRemove Entry
  | ActClear pool_order | ActSelect pool_order Direction u64 | ActSelectable pool_order u64 | ActExpire u64 | ActTargets nat u64

text \<open>\<open>None\<close> stands for a call that does not return.\<close>

definition pool_step :: "Pool \<Rightarrow> pool_act \<Rightarrow> Pool option" where
  "pool_step p act =
     (case act of
        ActReplace e r now \<Rightarrow> fst (PoolReplace e r now (Some p))
      | ActAdd e now \<Rightarrow> fst (PoolAdd e now (Some p))
      | ActRollback e r b now \<Rightarrow> Some (RollbackReplace e r b now p)
      | ActRemove e \<Rightarrow> Some (fst (PoolRemove e p))
      | ActClear order \<Rightarrow> fst (PoolClear order (Some p))
      | ActSelect order d now \<Rightarrow> map_option fst (PoolSelect order d now p)
      | ActSelectable order now \<Rightarrow> map_option fst (SelectableOutbound order now p)
      | ActExpire now \<Rightarrow> Some (fst (PoolExpire now p))
      | ActTargets t r \<Rightarrow> Some (pool_targets t r p))"

fun pool_run :: "Pool \<Rightarrow> pool_act list \<Rightarrow> Pool option" where
  "pool_run p [] = Some p"
| "pool_run p (a # as) = Option.bind (pool_step p a) (\<lambda>q. pool_run q as)"

text \<open>What a caller owes: an iteration visits every entry once, and a rolled back entry came from a pool of this owner.\<close>

fun pool_act_ok :: "bytes \<Rightarrow> pool_act \<Rightarrow> bool" where
  "pool_act_ok owner (ActRollback e r b now) = (b \<longrightarrow> eID r \<noteq> 0 \<and> eOwner r = owner)"
| "pool_act_ok owner (ActClear order) = visits_all order"
| "pool_act_ok owner (ActSelect order d now) = visits_all order"
| "pool_act_ok owner (ActSelectable order now) = visits_all order"
| "pool_act_ok owner a = True"

lemma promote_step:
  assumes "pool_ok p" "visits_all order"
  obtains q where "promoteOutboundLocked order now p = Some q" "pool_ok q" "p_owner q = p_owner p" "p_max q = p_max p"
proof -
  obtain q where q: "promoteOutboundLocked order now p = Some q" "pool_ok q" "q = p\<lparr>p_active := p_active q\<rparr>"
    using promoteOutboundLocked_spec [OF assms] by blast
  have "p_owner q = p_owner p" "p_max q = p_max p" by (subst q(3), simp)+
  then show thesis using that q(1,2) by blast
qed

lemma pool_step_ok:
  assumes "pool_ok p" "pool_act_ok (p_owner p) act"
  shows "\<exists>q. pool_step p act = Some q \<and> pool_ok q \<and> p_owner q = p_owner p \<and> p_max q = p_max p"
proof (cases act)
  case (ActReplace e r now)
  then show ?thesis using PoolReplace_ok [OF assms(1), of e r now] by (auto simp: pool_step_def)
next
  case (ActAdd e now)
  then show ?thesis using PoolReplace_ok [OF assms(1), of e 0 now] by (auto simp: pool_step_def PoolAdd_def)
next
  case (ActRollback e r b now)
  then have "pool_ok (RollbackReplace e r b now p)" using assms by (intro RollbackReplace_ok) auto
  then show ?thesis using ActRollback by (auto simp: pool_step_def RollbackReplace_def Let_def)
next
  case (ActRemove e)
  then show ?thesis using assms pool_delete [OF assms(1), of "eID e"] by (simp add: pool_step_def PoolRemove_def)
next
  case (ActClear order)
  then show ?thesis using pool_sub [OF assms(1), of "\<lambda>_. False"] by (simp add: pool_step_def PoolClear_def)
next
  case (ActSelect order d now)
  then have "visits_all order" using assms(2) by simp
  then obtain q where "promoteOutboundLocked order now p = Some q" "pool_ok q" "p_owner q = p_owner p" "p_max q = p_max p" using promote_step [OF assms(1)] by blast
  then show ?thesis using ActSelect by (simp add: pool_step_def PoolSelect_def)
next
  case (ActSelectable order now)
  then have "visits_all order" using assms(2) by simp
  then obtain q where "promoteOutboundLocked order now p = Some q" "pool_ok q" "p_owner q = p_owner p" "p_max q = p_max p" using promote_step [OF assms(1)] by blast
  then show ?thesis using ActSelectable by (simp add: pool_step_def SelectableOutbound_def)
next
  case (ActExpire now)
  then show ?thesis using expireLocked_ok [OF assms(1), of now] by (simp add: pool_step_def PoolExpire_def expireLocked_def)
next
  case (ActTargets t r)
  then show ?thesis using assms by (simp add: pool_step_def pool_targets_def pool_ok_def)
qed

lemma pool_run_ok:
  "pool_ok p \<Longrightarrow> list_all (pool_act_ok (p_owner p)) as \<Longrightarrow> \<exists>q. pool_run p as = Some q \<and> pool_ok q \<and> p_owner q = p_owner p \<and> p_max q = p_max p"
proof (induction as arbitrary: p)
  case (Cons a as)
  then obtain q where q: "pool_step p a = Some q" "pool_ok q" "p_owner q = p_owner p" "p_max q = p_max p" using pool_step_ok [of p a] by auto
  then show ?case using Cons.IH [of q] Cons.prems by simp
qed simp

section \<open>Properties\<close>

text \<open>
  C13. Selection after any history of calls on a new pool: the selection returns, its result is the same for every order
  in which Go may iterate over the maps, and it is a live tunnel of the pool of the requested direction (for an outbound
  selection under a target: an active one) that expires last, the lowest ID winning ties; nothing is returned only
  when there is no such tunnel. Selection never leaves the active set above the target, and the set stays below it
  only when every live outbound tunnel is active.
\<close>

theorem pool_select_best:
  assumes "list_all (pool_act_ok owner) as" "visits_all order"
  shows "\<exists>p q r. pool_run (NewOwnedPool owner n) as = Some p \<and> PoolSelect order direction now p = Some (q, r) \<and>
    PoolSelect (\<lambda>xs. xs) direction now p = Some (q, r) \<and> p_tunnels q = p_tunnels p \<and> length (p_active q) \<le> p_target q \<and>
    (length (p_active q) < p_target q \<longrightarrow> (\<forall>e \<in> snd ` set (p_tunnels q). eDirection e = Outbound \<and> eExpires e > now \<longrightarrow> eID e \<in> set (p_active q))) \<and>
    (let candidates = {e \<in> snd ` set (p_tunnels q). eDirection e = direction \<and> eExpires e > now \<and>
           (direction = Outbound \<and> p_target q > 0 \<longrightarrow> eID e \<in> set (p_active q))}
     in case r of None \<Rightarrow> candidates = {}
        | Some b \<Rightarrow> b \<in> candidates \<and> (\<forall>e \<in> candidates - {b}. eExpires b > eExpires e \<or> eExpires b = eExpires e \<and> eID b < eID e))"
proof -
  obtain p where p: "pool_run (NewOwnedPool owner n) as = Some p" "pool_ok p"
    using pool_run_ok [OF NewOwnedPool_ok, of owner n as] assms(1) by (auto simp: NewOwnedPool_def)
  obtain q where q: "promoteOutboundLocked order now p = Some q" "promoteOutboundLocked (\<lambda>xs. xs) now p = Some q" "pool_ok q" "q = p\<lparr>p_active := p_active q\<rparr>"
    "length (p_active q) < p_target p \<longrightarrow> (\<forall>e \<in> snd ` set (p_tunnels p). \<not> promotable now (p_active q) e)"
    using promoteOutboundLocked_spec [OF p(2) assms(2)] by blast
  have same: "p_tunnels q = p_tunnels p" "p_target q = p_target p" by (subst q(4), simp)+
  let ?P = "\<lambda>e. \<not> (direction = Outbound \<and> p_target q > 0 \<and> eID e \<notin> set (p_active q)) \<and> eDirection e = direction \<and> eExpires e > now"
  let ?r = "best_of entry_better ?P (map snd (p_tunnels q))"
  have scan: "select_scan order direction now q = ?r" "select_scan (\<lambda>xs. xs) direction now q = ?r"
    unfolding select_scan_best using scan_order [OF q(3) assms(2) visits_all_id] by simp_all
  let ?C = "{e \<in> snd ` set (p_tunnels q). eDirection e = direction \<and> eExpires e > now \<and> (direction = Outbound \<and> p_target q > 0 \<longrightarrow> eID e \<in> set (p_active q))}"
  have C: "?C = {e \<in> snd ` set (p_tunnels q). ?P e}" by auto
  have best: "case ?r of None \<Rightarrow> ?C = {} | Some b \<Rightarrow> b \<in> ?C \<and> (\<forall>e \<in> ?C - {b}. entry_better b e)"
  proof (cases ?r)
    case None
    then show ?thesis unfolding C using entries.best_of_None [of ?P "map snd (p_tunnels q)"] by auto
  next
    case (Some b)
    note b = entries.best_of_Some [OF Some]
    have "entry_better b e" if e: "e \<in> snd ` set (p_tunnels q)" "?P e" "e \<noteq> b" for e
      using pool_entries_apart [OF q(3) e(1), of b] b e by auto
    then have "\<forall>e \<in> ?C - {b}. entry_better b e" unfolding C by blast
    then show ?thesis unfolding Some C using b by simp
  qed
  have "length (p_active q) \<le> p_target q" using q(3) by (simp add: pool_ok_def)
  moreover have "length (p_active q) < p_target q \<longrightarrow> (\<forall>e \<in> snd ` set (p_tunnels q). eDirection e = Outbound \<and> eExpires e > now \<longrightarrow> eID e \<in> set (p_active q))"
    using q(5) same by (auto simp: promotable_def)
  ultimately show ?thesis using p(1) q(1,2) scan same(1) best
    by (intro exI [of _ p] exI [of _ q] exI [of _ ?r]) (simp add: PoolSelect_def Let_def entry_better_def cong: option.case_cong)
qed

theorem pool_select_best_witness:
  "\<exists>p q r. pool_run (NewOwnedPool [] 2) [ActTargets 1 0, ActAdd (zero_Entry\<lparr>eID := 5, eDirection := Outbound, eExpires := 9, eOwner := []\<rparr>) 1,
       ActAdd (zero_Entry\<lparr>eID := 3, eDirection := Outbound, eExpires := 9, eOwner := []\<rparr>) 1] = Some p \<and>
     PoolSelect rev Outbound 2 p = Some (q, r) \<and> map_option eID r = Some 3 \<and> p_active q = [3]"
proof -
  let ?as = "[ActTargets 1 0, ActAdd (zero_Entry\<lparr>eID := 5, eDirection := Outbound, eExpires := 9, eOwner := []\<rparr>) 1,
       ActAdd (zero_Entry\<lparr>eID := 3, eDirection := Outbound, eExpires := 9, eOwner := []\<rparr>) 1]"
  have "list_all (pool_act_ok []) ?as" "visits_all (rev :: pool_order)" by (simp_all add: visits_all_def)
  from pool_select_best [OF this, of 2 Outbound 2]
  obtain p q r where run: "pool_run (NewOwnedPool [] 2) ?as = Some p" "PoolSelect rev Outbound 2 p = Some (q, r)" by blast
  have "case pool_run (NewOwnedPool [] 2) ?as of None \<Rightarrow> False | Some p \<Rightarrow>
      (case PoolSelect rev Outbound 2 p of None \<Rightarrow> False | Some (q, r) \<Rightarrow> map_option eID r = Some 3 \<and> p_active q = [3])" by code_simp
  then have "map_option eID r = Some 3 \<and> p_active q = [3]" by (simp only: run option.case prod.case)
  then show ?thesis using run by blast
qed

text \<open>
  A pool stays bounded and consistent: every call of every history returns, and afterwards the pool holds at most
  its capacity of tunnels, each under its own non-zero ID and of the pool's owner, no ID twice, and the active set
  holds at most the outbound target.
\<close>

theorem pool_histories_bounded:
  assumes "list_all (pool_act_ok owner) as"
  shows "\<exists>p. pool_run (NewOwnedPool owner n) as = Some p \<and> length (p_tunnels p) \<le> (if n \<le> 0 then 64 else nat n) \<and>
    distinct (map fst (p_tunnels p)) \<and> (\<forall>(i, e) \<in> set (p_tunnels p). eID e = i \<and> i \<noteq> 0 \<and> eOwner e = owner) \<and>
    card (set (p_active p)) \<le> p_target p"
proof -
  have "p_owner (NewOwnedPool owner n) = owner" "p_max (NewOwnedPool owner n) = (if n \<le> 0 then 64 else nat n)" by (simp_all add: NewOwnedPool_def)
  with pool_run_ok [OF NewOwnedPool_ok, of owner n as] assms
  obtain p where p: "pool_run (NewOwnedPool owner n) as = Some p" "pool_ok p" "p_owner p = owner" "p_max p = (if n \<le> 0 then 64 else nat n)" by auto
  then show ?thesis by (intro exI [of _ p]) (auto simp: pool_ok_def distinct_card)
qed

theorem pool_histories_bounded_witness:
  "\<exists>p. pool_run (NewOwnedPool [] 1) [ActAdd (zero_Entry\<lparr>eID := 5, eExpires := 9, eOwner := []\<rparr>) 1,
      ActReplace (zero_Entry\<lparr>eID := 7, eExpires := 8, eOwner := []\<rparr>) 5 2] = Some p \<and> length (p_tunnels p) \<le> 1 \<and> map fst (p_tunnels p) = [7]"
proof -
  let ?as = "[ActAdd (zero_Entry\<lparr>eID := 5, eExpires := 9, eOwner := []\<rparr>) 1, ActReplace (zero_Entry\<lparr>eID := 7, eExpires := 8, eOwner := []\<rparr>) 5 2]"
  have "list_all (pool_act_ok []) ?as" by simp
  from pool_histories_bounded [OF this, of 1] obtain p where p: "pool_run (NewOwnedPool [] 1) ?as = Some p" "length (p_tunnels p) \<le> (if (1 :: int) \<le> 0 then 64 else nat 1)" by blast
  have "case pool_run (NewOwnedPool [] 1) ?as of None \<Rightarrow> False | Some p \<Rightarrow> map fst (p_tunnels p) = [7]" by code_simp
  then have "map fst (p_tunnels p) = [7]" by (simp only: p(1) option.case)
  moreover have "length (p_tunnels p) \<le> 1" using p(2) by simp
  ultimately show ?thesis using p(1) by (intro exI [of _ p] conjI)
qed

end
