(* ===== verification/Streaming.thy ===== *)
theory Streaming
  imports IVNP_Prelude
begin

text \<open>
  The streaming protocol of \<open>dataplane/internal/streaming\<close>: the packet format (\<open>packet.go\<close>, \<open>encode.go\<close>), the state of
  one stream (\<open>state.go\<close>), and its congestion window (\<open>reliability.go\<close>).

  The array of packets in flight is a list of 128 sequence numbers next to a count, as in the source; the list of its
  first \<open>count\<close> elements is what it means, and the operations are shown to work on that list.
\<close>

section \<open>Packets\<close>

definition StreamHeaderLen :: nat where "StreamHeaderLen = 22"
definition MaxPacketSize :: nat where "MaxPacketSize = 3072"

record StreamPacket =
  pSendStreamID :: u32
  pReceiveStreamID :: u32
  pSequence :: u32
  pAckThrough :: u32
  pNACKCount :: u8
  pResendDelay :: u8
  pFlags :: u16
  pOptions :: bytes
  pNACKs :: bytes
  pPayload :: bytes

definition StreamParse :: "bytes \<Rightarrow> StreamPacket result" where
  "StreamParse src =
     (if length src > MaxPacketSize then Inl ErrPacket
      else if length src < StreamHeaderLen then Inl ErrShortBuffer
      else let nacksLen = unat (src ! 16) * 4 in
        if nacksLen > length src - 17 - 5 then Inl ErrPacket
        else let off = 17 + nacksLen; optionsLen = unat (Uint16 (slice (off + 3) (off + 5) src)) in
          if optionsLen > length src - (off + 5) then Inl ErrPacket
          else Inr \<lparr>pSendStreamID = Uint32 (take 4 src), pReceiveStreamID = Uint32 (slice 4 8 src),
                  pSequence = Uint32 (slice 8 12 src), pAckThrough = Uint32 (slice 12 16 src),
                  pNACKCount = src ! 16, pResendDelay = src ! off, pFlags = Uint16 (slice (off + 1) (off + 3) src),
                  pOptions = slice (off + 5) (off + 5 + optionsLen) src, pNACKs = slice 17 off src,
                  pPayload = drop (off + 5 + optionsLen) src\<rparr>)"

definition StreamEncodedLen :: "StreamPacket \<Rightarrow> int" where
  "StreamEncodedLen p =
     (let nacksLen = length (pNACKs p) in
      if nacksLen mod 4 \<noteq> 0 \<or> nacksLen div 4 > 255 \<or> length (pOptions p) > 0xffff then - 1
      else let encodedLen = StreamHeaderLen + nacksLen + length (pOptions p) + length (pPayload p) in
        if encodedLen > MaxPacketSize then - 1 else int encodedLen)"

definition StreamMarshalTo :: "StreamPacket \<Rightarrow> bytes \<Rightarrow> (bytes \<times> nat) result" where
  "StreamMarshalTo p dst =
     (let encodedLen = StreamEncodedLen p in
      if encodedLen < int StreamHeaderLen then Inl ErrPacket
      else if int (length dst) < encodedLen then Inl ErrShortBuffer
      else let dst = put_at 0 (PutUint32 (pSendStreamID p)) dst;
               dst = put_at 4 (PutUint32 (pReceiveStreamID p)) dst;
               dst = put_at 8 (PutUint32 (pSequence p)) dst;
               dst = put_at 12 (PutUint32 (pAckThrough p)) dst;
               dst = dst[16 := of_nat (length (pNACKs p) div 4)];
               dst = put_at 17 (pNACKs p) dst;
               off = 17 + length (pNACKs p);
               dst = dst[off := pResendDelay p];
               dst = put_at (off + 1) (PutUint16 (pFlags p)) dst;
               dst = put_at (off + 3) (PutUint16 (of_nat (length (pOptions p)))) dst;
               off = off + 5;
               dst = put_at off (pOptions p) dst;
               off = off + length (pOptions p);
               dst = put_at off (pPayload p) dst
           in Inr (dst, nat encodedLen))"

lemmas stream_consts = StreamHeaderLen_def MaxPacketSize_def

text \<open>The bytes of a packet, and the packets that have a wire form.\<close>

definition stream_bytes :: "StreamPacket \<Rightarrow> bytes" where
  "stream_bytes p =
     PutUint32 (pSendStreamID p) @ PutUint32 (pReceiveStreamID p) @ PutUint32 (pSequence p) @ PutUint32 (pAckThrough p)
     @ [of_nat (length (pNACKs p) div 4)] @ pNACKs p @ [pResendDelay p] @ PutUint16 (pFlags p)
     @ PutUint16 (of_nat (length (pOptions p))) @ pOptions p @ pPayload p"

definition stream_packet_wf :: "StreamPacket \<Rightarrow> bool" where
  "stream_packet_wf p \<longleftrightarrow> 4 dvd length (pNACKs p) \<and> length (pNACKs p) \<le> 1020 \<and>
     22 + length (pNACKs p) + length (pOptions p) + length (pPayload p) \<le> 3072"

lemma length_stream_bytes [simp]:
  "length (stream_bytes p) = 22 + length (pNACKs p) + length (pOptions p) + length (pPayload p)"
  by (simp add: stream_bytes_def)

lemma StreamEncodedLen_eq:
  "StreamEncodedLen p = (if stream_packet_wf p then int (length (stream_bytes p)) else - 1)"
  by (auto simp: StreamEncodedLen_def stream_packet_wf_def stream_consts Let_def dvd_eq_mod_eq_0)

lemma StreamMarshalTo_eq:
  "StreamMarshalTo p dst =
     (if \<not> stream_packet_wf p then Inl ErrPacket
      else if length dst < length (stream_bytes p) then Inl ErrShortBuffer
      else Inr (stream_bytes p @ drop (length (stream_bytes p)) dst, length (stream_bytes p)))"
proof (cases "stream_packet_wf p \<and> length (stream_bytes p) \<le> length dst")
  case True
  then have len: "22 + length (pNACKs p) + length (pOptions p) + length (pPayload p) \<le> length dst" by simp
  have "put_at 0 (stream_bytes p) dst = stream_bytes p @ drop (length (stream_bytes p)) dst"
    using True by (intro put_at_0) simp
  then show ?thesis using True len
    by (simp add: StreamMarshalTo_def StreamEncodedLen_eq Let_def list_update_put_at stream_consts put_at_put_at [where m = 0] stream_bytes_def)
qed (auto simp: StreamMarshalTo_def StreamEncodedLen_eq stream_consts Let_def)

lemma StreamParse_bytes:
  assumes "stream_packet_wf p"
  shows "StreamParse (stream_bytes p) = Inr (p\<lparr>pNACKCount := of_nat (length (pNACKs p) div 4)\<rparr>)"
proof -
  obtain k where k: "length (pNACKs p) = 4 * k" "k \<le> 255" using assms by (auto simp: stream_packet_wf_def elim!: dvdE)
  have len: "22 + 4 * k + length (pOptions p) + length (pPayload p) \<le> 3072" using assms k by (simp add: stream_packet_wf_def)
  have n: "stream_bytes p ! 16 = of_nat k" "unat (of_nat k :: u8) = k"
    using k by (simp_all add: stream_bytes_def nth_append)
  let ?o = "length (pOptions p)"
  let ?tail = "[pResendDelay p] @ PutUint16 (pFlags p) @ PutUint16 (of_nat ?o) @ pOptions p @ pPayload p"
  have o: "unat (of_nat ?o :: u16) = ?o" using len by simp
  have tail: "drop (17 + 4 * k + j) (stream_bytes p) = drop j ?tail" for j
    using k by (simp add: stream_bytes_def)
  have at: "stream_bytes p ! (17 + 4 * k) = pResendDelay p" using k by (simp add: stream_bytes_def nth_append)
  have "slice (17 + 4 * k + 1) (17 + 4 * k + 3) (stream_bytes p) = PutUint16 (pFlags p)"
    "slice (17 + 4 * k + 3) (17 + 4 * k + 5) (stream_bytes p) = PutUint16 (of_nat ?o)"
    "slice (17 + 4 * k + 5) (17 + 4 * k + 5 + ?o) (stream_bytes p) = pOptions p"
    "drop (17 + 4 * k + 5 + ?o) (stream_bytes p) = pPayload p"
    unfolding slice_def tail add.assoc [of "17 + 4 * k" 5 ?o] by (simp_all add: drop_Cons')
  moreover have "slice 4 8 (stream_bytes p) = PutUint32 (pReceiveStreamID p)" "slice 8 12 (stream_bytes p) = PutUint32 (pSequence p)"
    "slice 12 16 (stream_bytes p) = PutUint32 (pAckThrough p)" "take 4 (stream_bytes p) = PutUint32 (pSendStreamID p)"
    "slice 17 (17 + 4 * k) (stream_bytes p) = pNACKs p"
    using k by (simp_all add: stream_bytes_def slice_def)
  ultimately show ?thesis using len k n o at
    by (simp add: StreamParse_def stream_consts Let_def mult.commute [of k] codec_simps del: length_stream_bytes add: length_stream_bytes)
qed

lemma StreamParse_Some:
  assumes "StreamParse src = Inr p"
  shows "stream_packet_wf p" "stream_bytes p = src" "pNACKCount p = of_nat (length (pNACKs p) div 4)"
proof -
  define k where "k = unat (src ! 16)"
  define o' where "o' = unat (Uint16 (slice (17 + k * 4 + 3) (17 + k * 4 + 5) src))"
  have g: "length src \<le> 3072" "22 \<le> length src" "k * 4 \<le> length src - 17 - 5" "o' \<le> length src - (17 + k * 4 + 5)"
    and p: "p = \<lparr>pSendStreamID = Uint32 (take 4 src), pReceiveStreamID = Uint32 (slice 4 8 src),
       pSequence = Uint32 (slice 8 12 src), pAckThrough = Uint32 (slice 12 16 src),
       pNACKCount = src ! 16, pResendDelay = src ! (17 + k * 4), pFlags = Uint16 (slice (17 + k * 4 + 1) (17 + k * 4 + 3) src),
       pOptions = slice (17 + k * 4 + 5) (17 + k * 4 + 5 + o') src, pNACKs = slice 17 (17 + k * 4) src,
       pPayload = drop (17 + k * 4 + 5 + o') src\<rparr>"
    using assms unfolding k_def o'_def by (auto simp: StreamParse_def stream_consts Let_def split: if_splits)
  have k: "k \<le> 255" using unat_u8_less [of "src ! 16"] unfolding k_def by linarith
  have len: "length (pNACKs p) = 4 * k" "length (pOptions p) = o'" "length (pPayload p) = length src - (22 + 4 * k + o')"
    using g by (simp_all add: p)
  then show "stream_packet_wf p" using g k unfolding stream_packet_wf_def by simp
  have count: "of_nat (length (pNACKs p) div 4) = src ! 16" unfolding len(1) k_def by simp
  then show "pNACKCount p = of_nat (length (pNACKs p) div 4)" by (simp add: p)
  have "src = take 4 src @ take 4 (drop 4 src) @ take 4 (drop 8 src) @ take 4 (drop 12 src) @ take 1 (drop 16 src)
      @ take (4 * k) (drop 17 src) @ take 1 (drop (17 + 4 * k) src) @ take 2 (drop (17 + 4 * k + 1) src)
      @ take 2 (drop (17 + 4 * k + 3) src) @ take o' (drop (17 + 4 * k + 5) src) @ drop (17 + 4 * k + 5 + o') src"
    by (simp add: take_chunk)
  moreover have "take 1 (drop 16 src) = [src ! 16]" "take 1 (drop (17 + 4 * k) src) = [src ! (17 + 4 * k)]"
    using g by (simp_all add: take_Suc_conv_app_nth)
  moreover have "of_nat o' = Uint16 (slice (17 + k * 4 + 3) (17 + k * 4 + 5) src)" by (simp add: o'_def)
  ultimately show "stream_bytes p = src"
    unfolding stream_bytes_def count len(2) using g by (simp add: p slice_def mult.commute [of k] PutUint32_Uint32 PutUint16_Uint16)
qed

section \<open>The congestion window\<close>

definition MinWindow :: u16 where "MinWindow = 1"
definition MaxWindow :: u16 where "MaxWindow = 128"
definition InitialWindow :: u16 where "InitialWindow = 3"
definition MaxResends :: nat where "MaxResends = 8"

record CongestionWindow =
  cwnd :: u16
  ssthresh :: u16
  credit :: u16

definition NewCongestionWindow :: "u16 \<Rightarrow> CongestionWindow" where
  "NewCongestionWindow initial = \<lparr>cwnd = (if initial < MinWindow then MinWindow else initial), ssthresh = MaxWindow, credit = 0\<rparr>"

text \<open>The loop of \<open>Acknowledge\<close> counts down, so the number of turns left is the first argument.\<close>

fun cwnd_loop :: "nat \<Rightarrow> CongestionWindow \<Rightarrow> CongestionWindow" where
  "cwnd_loop 0 c = c"
| "cwnd_loop (Suc n) c =
     (if cwnd c < MaxWindow then
        if cwnd c < ssthresh c then cwnd_loop n (c\<lparr>cwnd := cwnd c + 1\<rparr>)
        else let c = c\<lparr>credit := credit c + 1\<rparr> in
          if credit c \<ge> cwnd c then cwnd_loop n (c\<lparr>credit := 0, cwnd := cwnd c + 1\<rparr>) else cwnd_loop n c
      else c)"

definition CWAcknowledge :: "u16 \<Rightarrow> CongestionWindow \<Rightarrow> CongestionWindow" where
  "CWAcknowledge count c = cwnd_loop (unat count) c"

definition CWLoss :: "CongestionWindow \<Rightarrow> CongestionWindow" where
  "CWLoss c = (let threshold = max (cwnd c div 2) MinWindow in c\<lparr>ssthresh := threshold, cwnd := MinWindow, credit := 0\<rparr>)"

definition FastRecovery :: "CongestionWindow \<Rightarrow> CongestionWindow" where
  "FastRecovery c = (let threshold = max (cwnd c div 2) MinWindow in c\<lparr>ssthresh := threshold, cwnd := threshold, credit := 0\<rparr>)"

section \<open>The state of a stream\<close>

definition FlagSynchronize :: u16 where "FlagSynchronize = 0x0001"
definition FlagClose :: u16 where "FlagClose = 0x0002"
definition FlagReset :: u16 where "FlagReset = 0x0004"
definition FlagNoACK :: u16 where "FlagNoACK = 0x0400"

datatype Status = New | Open | Closing | Closed | Reset

record Action =
  SendACK :: bool
  SendClose :: bool
  SendReset :: bool

record StreamState =
  sStatus :: Status
  sSendStreamID :: u32
  sReceiveStreamID :: u32
  nextSequence :: u32
  lastReceived :: u32
  haveReceived :: bool
  congestion :: CongestionWindow
  sWindow :: u16
  inflight :: "u32 list"
  inflightCount :: u16

definition NewState :: "u32 \<Rightarrow> u32 \<Rightarrow> StreamState" where
  "NewState sendID receiveID =
     \<lparr>sStatus = New, sSendStreamID = sendID, sReceiveStreamID = receiveID, nextSequence = 0, lastReceived = 0, haveReceived = False,
      congestion = NewCongestionWindow InitialWindow, sWindow = InitialWindow, inflight = replicate 128 0, inflightCount = 0\<rparr>"

definition Window :: "StreamState \<Rightarrow> u16" where
  "Window s = (let window = cwnd (congestion s) in if window \<noteq> 0 then window else sWindow s)"

definition CanSend :: "StreamState \<Rightarrow> bool" where "CanSend s \<longleftrightarrow> sStatus s = Open \<and> inflightCount s < Window s"

text \<open>\<open>OnSend\<close>: writing behind the array would panic.\<close>

definition OnSend :: "bool \<Rightarrow> StreamState \<Rightarrow> (StreamState \<times> u32 option) result" where
  "OnSend noACK s =
     (if \<not> CanSend s then Inr (s, None)
      else let sequence = nextSequence s; s = s\<lparr>nextSequence := nextSequence s + 1\<rparr> in
        if noACK then Inr (s, Some sequence)
        else if unat (inflightCount s) < length (inflight s)
        then Inr (s\<lparr>inflight := (inflight s)[unat (inflightCount s) := sequence], inflightCount := inflightCount s + 1\<rparr>, Some sequence)
        else Inl Panic)"

fun containsNACK :: "bytes \<Rightarrow> u32 \<Rightarrow> bool" where
  "containsNACK (a # b # c # d # nacks) sequence =
     (push_bit 24 (ucast a) OR push_bit 16 (ucast b) OR push_bit 8 (ucast c) OR ucast d = sequence \<or> containsNACK nacks sequence)"
| "containsNACK _ sequence = False"

definition sequenceAfter :: "u32 \<Rightarrow> u32 \<Rightarrow> bool" where "sequenceAfter left right \<longleftrightarrow> sint (left - right) > 0"
definition sequenceBeforeOrEqual :: "u32 \<Rightarrow> u32 \<Rightarrow> bool" where "sequenceBeforeOrEqual left right \<longleftrightarrow> sint (left - right) \<le> 0"

text \<open>The loop of \<open>acknowledge\<close> over the reads that are left: array, write index, number removed.\<close>

fun ack_loop :: "u32 \<Rightarrow> bytes \<Rightarrow> nat list \<Rightarrow> u32 list \<times> nat \<times> u16 \<Rightarrow> u32 list \<times> nat \<times> u16" where
  "ack_loop through nacks [] st = st"
| "ack_loop through nacks (read # reads) (arr, write, removed) =
     (let sequence = arr ! read in
      if sequenceBeforeOrEqual sequence through \<and> \<not> containsNACK nacks sequence
      then ack_loop through nacks reads (arr, write, removed + 1)
      else ack_loop through nacks reads (arr[write := sequence], write + 1, removed))"

definition acknowledge :: "u32 \<Rightarrow> bytes \<Rightarrow> StreamState \<Rightarrow> StreamState" where
  "acknowledge through nacks s =
     (let (arr, write, removed) = ack_loop through nacks [0..<unat (inflightCount s)] (inflight s, 0, 0);
          s = s\<lparr>inflight := arr, inflightCount := of_nat write\<rparr>
      in if removed \<noteq> 0 then let c = CWAcknowledge removed (congestion s) in s\<lparr>congestion := c, sWindow := cwnd c\<rparr>
         else s)"

definition Acknowledge :: "u32 \<Rightarrow> StreamState \<Rightarrow> StreamState" where "Acknowledge through s = acknowledge through [] s"

definition no_action :: Action where "no_action = \<lparr>SendACK = False, SendClose = False, SendReset = False\<rparr>"

definition OnPacket :: "StreamPacket \<Rightarrow> StreamState \<Rightarrow> StreamState \<times> Action" where
  "OnPacket packet s =
     (let action = no_action in
      if sStatus s = Reset \<or> sStatus s = Closed then (s, action)
      else if sSendStreamID s \<noteq> 0 \<and> pReceiveStreamID packet \<noteq> 0 \<and> pReceiveStreamID packet \<noteq> sSendStreamID s
      then (s, action\<lparr>SendReset := True\<rparr>)
      else if pFlags packet AND FlagReset \<noteq> 0 then (s\<lparr>sStatus := Reset\<rparr>, action\<lparr>SendReset := False\<rparr>)
      else
        let s = (if pFlags packet AND FlagSynchronize \<noteq> 0 \<and> sStatus s = New then s\<lparr>sStatus := Open\<rparr> else s);
            (s, action) = (if pFlags packet AND FlagClose \<noteq> 0 then (s\<lparr>sStatus := Closing\<rparr>, action\<lparr>SendClose := True\<rparr>) else (s, action));
            action = action\<lparr>SendACK := pSequence packet \<noteq> 0 \<or> pFlags packet AND FlagSynchronize \<noteq> 0\<rparr>;
            s = (if SendACK action \<and> (\<not> haveReceived s \<or> sequenceAfter (pSequence packet) (lastReceived s))
                 then s\<lparr>lastReceived := pSequence packet, haveReceived := True\<rparr> else s);
            s = (if pFlags packet AND FlagNoACK = 0 \<and> \<not> (pFlags packet AND FlagSynchronize \<noteq> 0 \<and> pSendStreamID packet = 0)
                 then acknowledge (pAckThrough packet) (pNACKs packet) s else s)
        in (s, action))"

definition OnLoss :: "StreamState \<Rightarrow> StreamState" where
  "OnLoss s = (let c = CWLoss (congestion s) in s\<lparr>congestion := c, sWindow := cwnd c\<rparr>)"

text \<open>What \<open>Conn.Close\<close> of \<open>conn.go\<close> does to the state.\<close>

definition conn_close :: "StreamState \<Rightarrow> StreamState" where
  "conn_close s = (if sStatus s \<noteq> Reset then s\<lparr>sStatus := Closed\<rparr> else s)"

section \<open>What the operations do\<close>

definition cw_ok :: "CongestionWindow \<Rightarrow> bool" where
  "cw_ok c \<longleftrightarrow> 1 \<le> unat (cwnd c) \<and> unat (cwnd c) \<le> 128 \<and> 1 \<le> unat (ssthresh c) \<and> unat (ssthresh c) \<le> 128 \<and> unat (credit c) < unat (cwnd c)"

lemmas window_consts = MinWindow_def MaxWindow_def InitialWindow_def

lemma u16_succ: "unat (x :: u16) < 65535 \<Longrightarrow> unat (x + 1) = unat x + 1"
  by (simp add: unat_word_ariths)

lemma unat_u16_numeral [simp]: "unat (128 :: u16) = 128" "unat (3 :: u16) = 3" "unat (2 :: u16) = 2"
  by simp_all

lemma cwnd_loop_ok: "cw_ok c \<Longrightarrow> cw_ok (cwnd_loop n c) \<and> unat (cwnd c) \<le> unat (cwnd (cwnd_loop n c))"
proof (induction n arbitrary: c)
  case (Suc n)
  note le = word_le_nat_alt word_less_nat_alt
  have c: "1 \<le> unat (cwnd c)" "unat (cwnd c) \<le> 128" "1 \<le> unat (ssthresh c)" "unat (ssthresh c) \<le> 128" "unat (credit c) < unat (cwnd c)"
    using Suc.prems by (simp_all add: cw_ok_def)
  show ?case
  proof (cases "cwnd c < MaxWindow")
    case True
    then have small: "unat (cwnd c) < 128" by (simp add: le MaxWindow_def)
    have w: "unat (cwnd c + 1) = unat (cwnd c) + 1" "unat (credit c + 1) = unat (credit c) + 1"
      by (rule u16_succ, use c in linarith)+
    let ?up = "c\<lparr>cwnd := cwnd c + 1\<rparr>" and ?cr = "c\<lparr>credit := credit c + 1\<rparr>" and ?both = "c\<lparr>credit := 0, cwnd := cwnd c + 1\<rparr>"
    have up: "cw_ok ?up" "cw_ok ?both" using c small w by (simp_all add: cw_ok_def)
    have cr: "cw_ok ?cr" if "\<not> credit c + 1 \<ge> cwnd c" using that c w by (simp add: cw_ok_def le not_le)
    show ?thesis using True Suc.IH [OF up(1)] Suc.IH [OF up(2)] Suc.IH [OF cr] w by (auto simp: Let_def)
  qed (use Suc.prems in simp)
qed simp

lemma CWAcknowledge_ok: "cw_ok c \<Longrightarrow> cw_ok (CWAcknowledge n c)"
  by (simp add: CWAcknowledge_def cwnd_loop_ok)

lemma half_window:
  assumes "cw_ok c" shows "1 \<le> unat (max (cwnd c div 2) (1 :: u16))" "unat (max (cwnd c div 2) (1 :: u16)) \<le> 128"
proof -
  have "unat (cwnd c div 2) = unat (cwnd c) div 2" by (simp add: unat_div)
  then show "1 \<le> unat (max (cwnd c div 2) (1 :: u16))" "unat (max (cwnd c div 2) (1 :: u16)) \<le> 128"
    using assms by (auto simp: cw_ok_def max_def word_le_nat_alt)
qed

lemma CWLoss_ok: "cw_ok c \<Longrightarrow> cw_ok (CWLoss c)"
  using half_window [of c] by (simp add: CWLoss_def cw_ok_def Let_def window_consts)

lemma FastRecovery_ok: "cw_ok c \<Longrightarrow> cw_ok (FastRecovery c)"
  using half_window [of c] by (simp add: FastRecovery_def cw_ok_def Let_def window_consts)

text \<open>The packets in flight, and a sequence number that an acknowledgment leaves in flight.\<close>

definition in_flight :: "StreamState \<Rightarrow> u32 list" where "in_flight s = take (unat (inflightCount s)) (inflight s)"

definition stays :: "u32 \<Rightarrow> bytes \<Rightarrow> u32 \<Rightarrow> bool" where
  "stays through nacks q \<longleftrightarrow> \<not> (sequenceBeforeOrEqual q through \<and> \<not> containsNACK nacks q)"

lemma ack_loop_spec:
  assumes "wr \<le> read" "read \<le> n" "n \<le> length arr" "unat removed + (n - read) < 65536" "ack_loop through nacks [read..<n] (arr, wr, removed) = (arr', wr', removed')"
  shows "length arr' = length arr \<and> wr' \<le> wr + (n - read) \<and> take wr' arr' = take wr arr @ filter (stays through nacks) (slice read n arr) \<and>
    unat removed' + wr' = unat removed + wr + (n - read)"
  using assms
proof (induction "n - read" arbitrary: read arr wr removed)
  case 0
  then show ?case by simp
next
  case (Suc d)
  then have lt: "read < n" by simp
  then have ups: "[read..<n] = read # [Suc read..<n]" by (simp add: upt_rec)
  have sl: "slice read n arr = arr ! read # slice (Suc read) n arr"
    using lt Suc.prems(3) by (simp add: slice_def Cons_nth_drop_Suc [symmetric] take_Cons' )
  have d: "d = n - Suc read" using Suc.hyps(2) by simp
  show ?case
  proof (cases "stays through nacks (arr ! read)")
    case True
    let ?arr = "arr[wr := arr ! read]"
    have run: "ack_loop through nacks [Suc read..<n] (?arr, Suc wr, removed) = (arr', wr', removed')"
      using Suc.prems(5) True ups by (simp add: stays_def Let_def split: if_splits)
    have "take (Suc wr) ?arr = take wr arr @ [arr ! read]" using Suc.prems lt by (simp add: take_Suc_conv_app_nth)
    moreover have "slice (Suc read) n ?arr = slice (Suc read) n arr" using Suc.prems(1) by (simp add: slice_def)
    moreover have "Suc wr \<le> Suc read" "Suc read \<le> n" "n \<le> length ?arr" "unat removed + (n - Suc read) < 65536"
      using Suc.prems lt by simp_all
    note Suc.hyps(1) [OF d this run, folded d]
    ultimately show ?thesis unfolding Suc.hyps(2) [symmetric] sl using True by simp
  next
    case False
    have run: "ack_loop through nacks [Suc read..<n] (arr, wr, removed + 1) = (arr', wr', removed')"
      using Suc.prems(5) False ups by (simp add: stays_def Let_def split: if_splits)
    have up: "unat (removed + 1) = unat removed + 1" using Suc.prems(4) lt by (intro u16_succ) linarith
    then have "wr \<le> Suc read" "Suc read \<le> n" "n \<le> length arr" "unat (removed + 1) + (n - Suc read) < 65536"
      using Suc.prems lt by simp_all
    note Suc.hyps(1) [OF d this run, folded d]
    then show ?thesis unfolding Suc.hyps(2) [symmetric] sl using False up by simp
  qed
qed

definition stream_ok :: "StreamState \<Rightarrow> bool" where
  "stream_ok s \<longleftrightarrow> cw_ok (congestion s) \<and> sWindow s = cwnd (congestion s) \<and> length (inflight s) = 128 \<and> unat (inflightCount s) \<le> 128"

lemma NewState_ok: "stream_ok (NewState a b)" "in_flight (NewState a b) = []"
  by (simp_all add: stream_ok_def NewState_def cw_ok_def NewCongestionWindow_def window_consts in_flight_def)

lemma Window_eq: "stream_ok s \<Longrightarrow> Window s = cwnd (congestion s)"
  by (auto simp: Window_def stream_ok_def cw_ok_def Let_def)

lemma length_in_flight: "stream_ok s \<Longrightarrow> length (in_flight s) = unat (inflightCount s)"
  by (simp add: stream_ok_def in_flight_def)

lemma acknowledge_spec:
  assumes "stream_ok s"
  shows "stream_ok (acknowledge through nacks s)" "in_flight (acknowledge through nacks s) = filter (stays through nacks) (in_flight s)"
    "congestion (acknowledge through nacks s) = CWAcknowledge (of_nat (length (filter (\<lambda>q. \<not> stays through nacks q) (in_flight s)))) (congestion s)"
    "sStatus (acknowledge through nacks s) = sStatus s" "nextSequence (acknowledge through nacks s) = nextSequence s"
    "sSendStreamID (acknowledge through nacks s) = sSendStreamID s"
proof -
  let ?n = "unat (inflightCount s)"
  obtain arr wr removed where run: "ack_loop through nacks [0..<?n] (inflight s, 0, 0) = (arr, wr, removed)" by (metis prod_cases3)
  have n: "?n \<le> 128" "length (inflight s) = 128" using assms by (simp_all add: stream_ok_def)
  have l: "length arr = 128" "wr \<le> ?n" "take wr arr = filter (stays through nacks) (in_flight s)" "unat removed + wr = ?n"
    using ack_loop_spec [OF _ _ _ _ run] n by (simp_all add: in_flight_def slice_def)
  have w: "unat (of_nat wr :: u16) = wr" using l n by simp
  have "length (filter (stays through nacks) (in_flight s)) = wr" using arg_cong [OF l(3), of length] l(1,2) n by simp
  then have "unat removed = length (filter (\<lambda>q. \<not> stays through nacks q) (in_flight s))"
    using l(4) sum_length_filter_compl [of "stays through nacks" "in_flight s"] length_in_flight [OF assms] by linarith
  from this [symmetric] have rem: "of_nat (length (filter (\<lambda>q. \<not> stays through nacks q) (in_flight s))) = removed" by simp
  have idle: "CWAcknowledge 0 c = c" for c by (simp add: CWAcknowledge_def)
  have a: "acknowledge through nacks s = s\<lparr>inflight := arr, inflightCount := of_nat wr, congestion := CWAcknowledge removed (congestion s), sWindow := cwnd (CWAcknowledge removed (congestion s))\<rparr>"
    using assms by (simp add: acknowledge_def run Let_def idle stream_ok_def)
  show "stream_ok (acknowledge through nacks s)" using assms l n w CWAcknowledge_ok [of "congestion s" removed] by (simp add: a stream_ok_def)
  show "in_flight (acknowledge through nacks s) = filter (stays through nacks) (in_flight s)" using l(3) w by (simp add: a in_flight_def)
  show "congestion (acknowledge through nacks s) = CWAcknowledge (of_nat (length (filter (\<lambda>q. \<not> stays through nacks q) (in_flight s)))) (congestion s)"
    "sStatus (acknowledge through nacks s) = sStatus s" "nextSequence (acknowledge through nacks s) = nextSequence s"
    "sSendStreamID (acknowledge through nacks s) = sSendStreamID s" by (simp_all add: a rem)
qed


lemma OnSend_spec:
  assumes "stream_ok s"
  shows "\<exists>s' r. OnSend noACK s = Inr (s', r) \<and> stream_ok s' \<and> congestion s' = congestion s \<and> sStatus s' = sStatus s \<and>
    (if sStatus s = Open \<and> length (in_flight s) < unat (cwnd (congestion s))
     then r = Some (nextSequence s) \<and> nextSequence s' = nextSequence s + 1 \<and> in_flight s' = in_flight s @ (if noACK then [] else [nextSequence s])
     else r = None \<and> s' = s)"
proof -
  have n: "unat (inflightCount s) \<le> 128" "length (inflight s) = 128" "unat (cwnd (congestion s)) \<le> 128" using assms by (simp_all add: stream_ok_def cw_ok_def)
  have can: "CanSend s \<longleftrightarrow> sStatus s = Open \<and> length (in_flight s) < unat (cwnd (congestion s))"
    using assms by (simp add: CanSend_def Window_eq length_in_flight word_less_nat_alt)
  have up: "unat (inflightCount s + 1) = unat (inflightCount s) + 1" by (rule u16_succ) (use n in linarith)
  show ?thesis
  proof (cases "CanSend s")
    case True
    then have lt: "unat (inflightCount s) < 128" using can n length_in_flight [OF assms] by linarith
    then have "take (Suc (unat (inflightCount s))) ((inflight s)[unat (inflightCount s) := nextSequence s]) = in_flight s @ [nextSequence s]"
      using n by (simp add: in_flight_def take_Suc_conv_app_nth)
    then show ?thesis using True assms can lt n up by (auto simp: OnSend_def Let_def stream_ok_def in_flight_def)
  qed (use can assms in \<open>auto simp: OnSend_def\<close>)
qed

section \<open>The abstract stream\<close>

text \<open>
  What a stream promises: a status, the next sequence number, the list of unacknowledged sequence numbers in the order
  of sending, and the window. Sequence numbers are compared as serial numbers: \<open>q\<close> is at or before \<open>t\<close> when it is at
  most \<open>2^31\<close> steps behind it on the circle.
\<close>

record stream_spec =
  spStatus :: Status
  spNext :: u32
  spOut :: "u32 list"
  spCw :: CongestionWindow
  spPeer :: u32

definition stream_abs :: "StreamState \<Rightarrow> stream_spec" where
  "stream_abs s = \<lparr>spStatus = sStatus s, spNext = nextSequence s, spOut = in_flight s, spCw = congestion s, spPeer = sSendStreamID s\<rparr>"

definition at_or_before :: "u32 \<Rightarrow> u32 \<Rightarrow> bool" where
  "at_or_before q t \<longleftrightarrow> (uint t - uint q) mod 2 ^ 32 \<le> 2 ^ 31"

fun nack_list :: "bytes \<Rightarrow> u32 list" where
  "nack_list (a # b # c # d # rest) = Uint32 [a, b, c, d] # nack_list rest"
| "nack_list _ = []"

definition spec_ack :: "u32 \<Rightarrow> bytes \<Rightarrow> stream_spec \<Rightarrow> stream_spec" where
  "spec_ack through nacks a =
     (let (acked, rest) = partition (\<lambda>q. at_or_before q through \<and> q \<notin> set (nack_list nacks)) (spOut a)
      in a\<lparr>spOut := rest, spCw := CWAcknowledge (of_nat (length acked)) (spCw a)\<rparr>)"

datatype stream_event = EvSend bool | EvPacket StreamPacket | EvAck u32 | EvLoss | EvClose

fun spec_step :: "stream_spec \<Rightarrow> stream_event \<Rightarrow> stream_spec" where
  "spec_step a (EvSend noACK) =
     (if spStatus a = Open \<and> length (spOut a) < unat (cwnd (spCw a))
      then a\<lparr>spNext := spNext a + 1, spOut := spOut a @ (if noACK then [] else [spNext a])\<rparr> else a)"
| "spec_step a (EvPacket p) =
     (if spStatus a \<in> {Reset, Closed} \<or> (spPeer a \<noteq> 0 \<and> pReceiveStreamID p \<noteq> 0 \<and> pReceiveStreamID p \<noteq> spPeer a) then a
      else if pFlags p AND FlagReset \<noteq> 0 then a\<lparr>spStatus := Reset\<rparr>
      else let a = a\<lparr>spStatus := (if pFlags p AND FlagClose \<noteq> 0 then Closing
                                   else if pFlags p AND FlagSynchronize \<noteq> 0 \<and> spStatus a = New then Open else spStatus a)\<rparr>
        in if pFlags p AND FlagNoACK \<noteq> 0 \<or> (pFlags p AND FlagSynchronize \<noteq> 0 \<and> pSendStreamID p = 0) then a
           else spec_ack (pAckThrough p) (pNACKs p) a)"
| "spec_step a (EvAck through) = spec_ack through [] a"
| "spec_step a EvLoss = a\<lparr>spCw := CWLoss (spCw a)\<rparr>"
| "spec_step a EvClose = (if spStatus a = Reset then a else a\<lparr>spStatus := Closed\<rparr>)"

declare spec_step.simps(2) [simp del]

text \<open>The steps of the implementation. A step exists only where the call does not panic.\<close>

inductive stream_step :: "StreamState \<Rightarrow> stream_event \<Rightarrow> StreamState \<Rightarrow> bool" where
  step_send: "OnSend noACK s = Inr (s', r) \<Longrightarrow> stream_step s (EvSend noACK) s'"
| step_packet: "OnPacket p s = (s', act) \<Longrightarrow> stream_step s (EvPacket p) s'"
| step_ack: "stream_step s (EvAck through) (Acknowledge through s)"
| step_loss: "stream_step s EvLoss (OnLoss s)"
| step_close: "stream_step s EvClose (conn_close s)"

inductive stream_run :: "StreamState \<Rightarrow> stream_event list \<Rightarrow> StreamState \<Rightarrow> bool" where
  run_none: "stream_run s [] s"
| run_step: "stream_run s es t \<Longrightarrow> stream_step t e u \<Longrightarrow> stream_run s (es @ [e]) u"

lemma sint_shift: "sint (w :: 32 word) = (uint w + 2 ^ 31) mod 2 ^ 32 - 2 ^ 31"
  by (simp add: sint_uint signed_take_bit_eq_take_bit_shift take_bit_eq_mod)

lemma sequenceBeforeOrEqual_iff: "sequenceBeforeOrEqual q t \<longleftrightarrow> at_or_before q t"
proof -
  define d where "d = (uint q - uint t) mod 2 ^ 32"
  have u: "uint (q - t) = d" by (simp add: uint_word_ariths d_def)
  have r: "0 \<le> d" "d < 2 ^ 32" by (simp_all add: d_def)
  have "(uint t - uint q) mod 2 ^ 32 = (if d = 0 then 0 else 2 ^ 32 - d)"
    using zmod_zminus1_eq_if [of "uint q - uint t" "2 ^ 32"] by (simp add: d_def)
  moreover have "(d + 2 ^ 31) mod 2 ^ 32 = (if d < 2 ^ 31 then d + 2 ^ 31 else d - 2 ^ 31)"
  proof (cases "d < 2 ^ 31")
    case False
    have "(d + 2 ^ 31) mod 2 ^ 32 = ((d - 2 ^ 31) + 2 ^ 32) mod 2 ^ 32" by (simp add: add.commute)
    also have "\<dots> = d - 2 ^ 31" unfolding mod_add_self2 using r False by (intro mod_pos_pos_trivial) auto
    finally show ?thesis using False by simp
  qed (use r in simp)
  ultimately show ?thesis unfolding sequenceBeforeOrEqual_def at_or_before_def sint_shift u using r by auto
qed

lemma or_add4: "push_bit 24 (ucast (a :: 8 word)) OR push_bit 16 (ucast (b :: 8 word)) OR push_bit 8 (ucast (c :: 8 word)) OR ucast (d :: 8 word) =
  (ucast a * 2 ^ 24 + ucast b * 2 ^ 16 + ucast c * 2 ^ 8 + ucast d :: 32 word)"
proof -
  let ?a = "push_bit 24 (ucast a) :: 32 word" and ?b = "push_bit 16 (ucast b) :: 32 word" and ?c = "push_bit 8 (ucast c) :: 32 word" and ?d = "ucast d :: 32 word"
  have "?a AND ?b = 0" "(?a OR ?b) AND ?c = 0" "(?a OR ?b OR ?c) AND ?d = 0"
    by (rule bit_word_eqI; auto simp: bit_simps dest: bit_imp_le_length)+
  then have "?a OR ?b OR ?c OR ?d = ?a + ?b + ?c + ?d"
    using disjunctive_add_eq_or [of ?a ?b] disjunctive_add_eq_or [of "?a OR ?b" ?c] disjunctive_add_eq_or [of "?a OR ?b OR ?c" ?d]
    by (simp only: or.assoc)
  then show ?thesis by (simp add: push_bit_eq_mult)
qed

lemma containsNACK_iff: "containsNACK nacks q \<longleftrightarrow> q \<in> set (nack_list nacks)"
proof (induction nacks q rule: containsNACK.induct)
  case (1 a b c d nacks q)
  have "Uint32 [a, b, c, d] = ucast a * 2 ^ 24 + ucast b * 2 ^ 16 + ucast c * 2 ^ 8 + ucast d"
    by (simp add: Uint32_def be_val_def unsigned_ucast_eq algebra_simps)
  then show ?case using 1 or_add4 [of a b c d] by auto
qed simp_all

lemma stays_iff: "stays through nacks q \<longleftrightarrow> \<not> (at_or_before q through \<and> q \<notin> set (nack_list nacks))"
  by (simp add: stays_def sequenceBeforeOrEqual_iff containsNACK_iff)

lemma acknowledge_refines: "stream_ok s \<Longrightarrow> stream_abs (acknowledge through nacks s) = spec_ack through nacks (stream_abs s)"
  by (simp add: stream_abs_def spec_ack_def acknowledge_spec stays_iff [abs_def] comp_def)

lemma stream_meta:
  "stream_ok (s\<lparr>sStatus := st, lastReceived := l, haveReceived := h\<rparr>) = stream_ok s"
  "stream_abs (s\<lparr>sStatus := st, lastReceived := l, haveReceived := h\<rparr>) = (stream_abs s)\<lparr>spStatus := st\<rparr>"
  by (simp_all add: stream_ok_def stream_abs_def in_flight_def)

text \<open>Past its early returns, \<open>OnPacket\<close> updates the status and the last sequence number, and then acknowledges.\<close>

lemma OnPacket_main:
  assumes "sStatus s \<notin> {Reset, Closed}" "\<not> (sSendStreamID s \<noteq> 0 \<and> pReceiveStreamID p \<noteq> 0 \<and> pReceiveStreamID p \<noteq> sSendStreamID s)" "pFlags p AND FlagReset = 0"
  shows "\<exists>l h. fst (OnPacket p s) =
    (let m = s\<lparr>sStatus := (if pFlags p AND FlagClose \<noteq> 0 then Closing else if pFlags p AND FlagSynchronize \<noteq> 0 \<and> sStatus s = New then Open else sStatus s),
              lastReceived := l, haveReceived := h\<rparr>
     in if pFlags p AND FlagNoACK \<noteq> 0 \<or> (pFlags p AND FlagSynchronize \<noteq> 0 \<and> pSendStreamID p = 0) then m else acknowledge (pAckThrough p) (pNACKs p) m)"
proof -
  define syn where "syn \<longleftrightarrow> pFlags p AND FlagSynchronize \<noteq> 0"
  define cl where "cl \<longleftrightarrow> pFlags p AND FlagClose \<noteq> 0"
  define upd where "upd \<longleftrightarrow> (pSequence p \<noteq> 0 \<or> syn) \<and> (\<not> haveReceived s \<or> sequenceAfter (pSequence p) (lastReceived s))"
  define ack where "ack \<longleftrightarrow> pFlags p AND FlagNoACK = 0 \<and> \<not> (syn \<and> pSendStreamID p = 0)"
  define m where "m = s\<lparr>sStatus := (if cl then Closing else if syn \<and> sStatus s = New then Open else sStatus s),
    lastReceived := (if upd then pSequence p else lastReceived s), haveReceived := (if upd then True else haveReceived s)\<rparr>"
  have g: "\<not> (sStatus s = Reset \<or> sStatus s = Closed)" "\<not> pFlags p AND FlagReset \<noteq> 0" using assms by auto
  have "fst (OnPacket p s) = (if ack then acknowledge (pAckThrough p) (pNACKs p) m else m)"
    unfolding OnPacket_def Let_def if_not_P [OF g(1)] if_not_P [OF assms(2)] if_not_P [OF g(2)] syn_def [symmetric] cl_def [symmetric] ack_def [symmetric]
    by (cases cl; cases syn; cases "sStatus s"; cases s) (simp_all add: m_def upd_def no_action_def)
  also have "\<dots> = (if pFlags p AND FlagNoACK \<noteq> 0 \<or> (syn \<and> pSendStreamID p = 0) then m else acknowledge (pAckThrough p) (pNACKs p) m)"
    by (auto simp: ack_def)
  finally show ?thesis unfolding Let_def syn_def [symmetric] cl_def [symmetric] m_def by blast
qed

lemma OnPacket_refines:
  assumes "stream_ok s"
  shows "stream_ok (fst (OnPacket p s))" "stream_abs (fst (OnPacket p s)) = spec_step (stream_abs s) (EvPacket p)"
proof -
  let ?stop = "sStatus s \<in> {Reset, Closed} \<or> (sSendStreamID s \<noteq> 0 \<and> pReceiveStreamID p \<noteq> 0 \<and> pReceiveStreamID p \<noteq> sSendStreamID s)"
  let ?st = "if pFlags p AND FlagClose \<noteq> 0 then Closing else if pFlags p AND FlagSynchronize \<noteq> 0 \<and> sStatus s = New then Open else sStatus s"
  have ab: "spStatus (stream_abs s) = sStatus s" "spPeer (stream_abs s) = sSendStreamID s" by (simp_all add: stream_abs_def)
  consider (stop) "?stop" | (reset) "\<not> ?stop" "pFlags p AND FlagReset \<noteq> 0" | (main) "\<not> ?stop" "pFlags p AND FlagReset = 0" by blast
  then have "stream_ok (fst (OnPacket p s)) \<and> stream_abs (fst (OnPacket p s)) = spec_step (stream_abs s) (EvPacket p)"
  proof cases
    case stop
    then have "fst (OnPacket p s) = s" by (auto simp: OnPacket_def Let_def)
    then show ?thesis using assms unfolding spec_step.simps ab if_P [OF stop] by simp
  next
    case reset
    then have "fst (OnPacket p s) = s\<lparr>sStatus := Reset\<rparr>" by (auto simp: OnPacket_def Let_def)
    then show ?thesis using assms unfolding spec_step.simps ab if_not_P [OF reset(1)] if_P [OF reset(2)]
      by (simp add: stream_ok_def stream_abs_def in_flight_def)
  next
    case main
    then obtain l h where m: "fst (OnPacket p s) =
      (let m = s\<lparr>sStatus := ?st, lastReceived := l, haveReceived := h\<rparr>
       in if pFlags p AND FlagNoACK \<noteq> 0 \<or> (pFlags p AND FlagSynchronize \<noteq> 0 \<and> pSendStreamID p = 0) then m else acknowledge (pAckThrough p) (pNACKs p) m)"
      using OnPacket_main [of s p] by blast
    define mm where "mm = s\<lparr>sStatus := ?st, lastReceived := l, haveReceived := h\<rparr>"
    have ok: "stream_ok mm" "stream_abs mm = (stream_abs s)\<lparr>spStatus := ?st\<rparr>" using assms unfolding mm_def by (simp_all only: stream_meta)
    have spec: "spec_step (stream_abs s) (EvPacket p) = (let a = (stream_abs s)\<lparr>spStatus := ?st\<rparr> in
      if pFlags p AND FlagNoACK \<noteq> 0 \<or> (pFlags p AND FlagSynchronize \<noteq> 0 \<and> pSendStreamID p = 0) then a else spec_ack (pAckThrough p) (pNACKs p) a)"
      using main(2) unfolding spec_step.simps ab if_not_P [OF main(1)] by simp
    show ?thesis unfolding m spec Let_def mm_def [symmetric] ok(2) [symmetric]
      using ok(1) acknowledge_spec(1) [OF ok(1)] acknowledge_refines [OF ok(1)] by simp
  qed
  then show "stream_ok (fst (OnPacket p s))" "stream_abs (fst (OnPacket p s)) = spec_step (stream_abs s) (EvPacket p)" by blast+
qed

lemma stream_step_refines:
  assumes "stream_ok s" "stream_step s e s'"
  shows "stream_ok s' \<and> stream_abs s' = spec_step (stream_abs s) e"
  using assms(2)
proof cases
  case (step_send noACK r)
  obtain t q where "OnSend noACK s = Inr (t, q)" "stream_ok t" "congestion t = congestion s" "sStatus t = sStatus s"
    "if sStatus s = Open \<and> length (in_flight s) < unat (cwnd (congestion s))
     then q = Some (nextSequence s) \<and> nextSequence t = nextSequence s + 1 \<and> in_flight t = in_flight s @ (if noACK then [] else [nextSequence s])
     else q = None \<and> t = s" using OnSend_spec [OF assms(1), of noACK] by blast
  moreover have "sSendStreamID t = sSendStreamID s" using calculation(1) by (auto simp: OnSend_def Let_def split: if_splits)
  ultimately show ?thesis using step_send by (auto simp: stream_abs_def split: if_splits)
next
  case (step_packet p act)
  then show ?thesis using OnPacket_refines [OF assms(1), of p] by simp
next
  case step_ack
  then show ?thesis using acknowledge_spec(1) [OF assms(1)] acknowledge_refines [OF assms(1)] by (simp add: Acknowledge_def)
next
  case step_loss
  then show ?thesis using assms(1) CWLoss_ok by (simp add: OnLoss_def Let_def stream_ok_def stream_abs_def in_flight_def)
next
  case step_close
  then show ?thesis using assms(1) by (simp add: conn_close_def stream_ok_def stream_abs_def in_flight_def)
qed

lemma stream_run_refines:
  "stream_run s es t \<Longrightarrow> stream_ok s \<Longrightarrow> stream_ok t \<and> stream_abs t = foldl spec_step (stream_abs s) es"
proof (induction rule: stream_run.induct)
  case (run_step s es t e u)
  then show ?case using stream_step_refines [of t e u] by simp
qed simp

lemma stream_step_total: "stream_ok s \<Longrightarrow> \<exists>t. stream_step s e t"
proof (cases e)
  case (EvSend noACK)
  moreover assume "stream_ok s"
  ultimately show ?thesis using OnSend_spec [of s noACK] step_send by blast
next
  case (EvPacket p)
  then show ?thesis using step_packet [of p s "fst (OnPacket p s)" "snd (OnPacket p s)"] by auto
qed (use step_ack step_loss step_close in blast)+

text \<open>The order of the statuses; closed and reset streams are at an end.\<close>

fun status_rank :: "Status \<Rightarrow> nat" where
  "status_rank New = 0" | "status_rank Open = 1" | "status_rank Closing = 2" | "status_rank Closed = 3" | "status_rank Reset = 3"

lemma spec_step_status:
  "status_rank (spStatus a) \<le> status_rank (spStatus (spec_step a e)) \<and> (spStatus a \<in> {Closed, Reset} \<longrightarrow> spStatus (spec_step a e) = spStatus a)"
proof (cases e)
  case (EvPacket p)
  have ack: "spStatus (spec_ack t n x) = spStatus x" for t n x by (simp add: spec_ack_def)
  show ?thesis unfolding EvPacket spec_step.simps Let_def
    by (cases "spStatus a") (simp_all add: ack)
qed (cases "spStatus a"; simp add: spec_ack_def)+

lemma spec_run_status:
  "status_rank (spStatus a) \<le> status_rank (spStatus (foldl spec_step a es)) \<and> (spStatus a \<in> {Closed, Reset} \<longrightarrow> spStatus (foldl spec_step a es) = spStatus a)"
proof (induction es arbitrary: a)
  case (Cons e es)
  show ?case using spec_step_status [of a e] Cons.IH [of "spec_step a e"] by auto
qed simp

section \<open>Properties\<close>

text \<open>
  C8. A stream implements its abstract specification: whatever the history of sends, received packets, acknowledgments,
  losses and the close, the array of packets in flight is the list of exactly the sequence numbers that were sent and
  not yet acknowledged, in the order of sending, where an acknowledgment removes what is at or before its sequence
  number on the circle and not listed as missing. No call panics, the window stays within 1 to 128 packets and at
  most 128 packets are in flight.
\<close>

theorem stream_refines_spec:
  assumes "stream_run (NewState sendID receiveID) es s"
  shows "stream_abs s = foldl spec_step \<lparr>spStatus = New, spNext = 0, spOut = [], spCw = \<lparr>cwnd = 3, ssthresh = 128, credit = 0\<rparr>, spPeer = sendID\<rparr> es \<and>
    (\<forall>e. \<exists>t. stream_step s e t) \<and> 1 \<le> unat (Window s) \<and> unat (Window s) \<le> 128 \<and> length (in_flight s) \<le> 128"
proof -
  have init: "stream_abs (NewState sendID receiveID) = \<lparr>spStatus = New, spNext = 0, spOut = [], spCw = \<lparr>cwnd = 3, ssthresh = 128, credit = 0\<rparr>, spPeer = sendID\<rparr>"
    by (simp add: stream_abs_def NewState_def in_flight_def NewCongestionWindow_def window_consts)
  have s: "stream_ok s" "stream_abs s = foldl spec_step (stream_abs (NewState sendID receiveID)) es"
    using stream_run_refines [OF assms NewState_ok(1)] by blast+
  then have "1 \<le> unat (Window s) \<and> unat (Window s) \<le> 128 \<and> length (in_flight s) \<le> 128"
    using Window_eq length_in_flight by (simp add: stream_ok_def cw_ok_def)
  then show ?thesis using s stream_step_total init by auto
qed

text \<open>The hypothesis at the handshake: a packet with the synchronize flag opens the stream.\<close>

theorem stream_refines_spec_witness:
  "\<exists>s. stream_run (NewState 7 9) [EvPacket \<lparr>pSendStreamID = 0, pReceiveStreamID = 7, pSequence = 0, pAckThrough = 0, pNACKCount = 0,
      pResendDelay = 0, pFlags = 1, pOptions = [], pNACKs = [], pPayload = []\<rparr>] s \<and> sStatus s = Open \<and> in_flight s = []"
proof -
  let ?p = "\<lparr>pSendStreamID = 0, pReceiveStreamID = 7, pSequence = 0, pAckThrough = 0, pNACKCount = 0,
      pResendDelay = 0, pFlags = 1, pOptions = [], pNACKs = [], pPayload = []\<rparr>"
  have "stream_step (NewState 7 9) (EvPacket ?p) (fst (OnPacket ?p (NewState 7 9)))"
    using step_packet [of ?p "NewState 7 9" "fst (OnPacket ?p (NewState 7 9))" "snd (OnPacket ?p (NewState 7 9))"] by simp
  then have run: "stream_run (NewState 7 9) [EvPacket ?p] (fst (OnPacket ?p (NewState 7 9)))"
    using run_step [OF run_none] by fastforce
  let ?s = "fst (OnPacket ?p (NewState 7 9))"
  have flags: "(1 :: u16) AND 4 = 0" "(1 :: u16) AND 2 = 0" "(1 :: u16) AND 1 \<noteq> 0" by simp_all
  have "stream_abs ?s = spec_step \<lparr>spStatus = New, spNext = 0, spOut = [], spCw = \<lparr>cwnd = 3, ssthresh = 128, credit = 0\<rparr>, spPeer = 7\<rparr> (EvPacket ?p)"
    using stream_refines_spec [OF run] by simp
  then have "spStatus (stream_abs ?s) = Open" "spOut (stream_abs ?s) = []"
    by (simp_all add: spec_step.simps(2) FlagReset_def FlagClose_def FlagSynchronize_def flags)
  then show ?thesis using run by (intro exI [of _ ?s]) (simp add: stream_abs_def)
qed

text \<open>
  The life of a stream goes one way: from any well-formed state, no history leads back to an earlier status, a closed or
  reset stream stays so, and only an open stream with room in its window hands out a sequence number.
\<close>

theorem stream_status_one_way:
  assumes "stream_ok s" "stream_run s es t"
  shows "status_rank (sStatus s) \<le> status_rank (sStatus t) \<and> (sStatus s \<in> {Closed, Reset} \<longrightarrow> sStatus t = sStatus s) \<and>
    (\<exists>u r. OnSend noACK t = Inr (u, r) \<and> (r \<noteq> None \<longleftrightarrow> sStatus t = Open \<and> length (in_flight t) < unat (Window t)))"
proof -
  have t: "stream_ok t" "stream_abs t = foldl spec_step (stream_abs s) es" using stream_run_refines [OF assms(2,1)] by blast+
  have "spStatus (stream_abs x) = sStatus x" for x by (simp add: stream_abs_def)
  then have "status_rank (sStatus s) \<le> status_rank (sStatus t) \<and> (sStatus s \<in> {Closed, Reset} \<longrightarrow> sStatus t = sStatus s)"
    using spec_run_status [of "stream_abs s" es] t(2) by metis
  moreover have "\<exists>u r. OnSend noACK t = Inr (u, r) \<and> (r \<noteq> None \<longleftrightarrow> sStatus t = Open \<and> length (in_flight t) < unat (Window t))"
    using OnSend_spec [OF t(1), of noACK] unfolding Window_eq [OF t(1)] by (auto split: if_splits)
  ultimately show ?thesis by blast
qed

text \<open>The hypotheses at a stream that is closed before it opens.\<close>

theorem stream_status_one_way_witness:
  "stream_run (NewState 7 9) [EvClose] (conn_close (NewState 7 9)) \<and> (\<exists>u r. OnSend False (conn_close (NewState 7 9)) = Inr (u, r) \<and> r = None)"
proof -
  have run: "stream_run (NewState 7 9) [EvClose] (conn_close (NewState 7 9))"
    using run_step [OF run_none step_close] by fastforce
  have "sStatus (conn_close (NewState 7 9)) = Closed" by (simp add: conn_close_def NewState_def)
  then show ?thesis using run stream_status_one_way [OF NewState_ok(1) run, of False] by auto
qed

text \<open>
  C29. The wire format is exact in both directions: \<open>MarshalTo\<close> succeeds exactly for a packet with whole missing-sequence
  entries (at most 255) that fits in 3072 bytes, when the buffer has room; it writes only the packet's bytes, and
  parsing them gives the packet back, with the count of the entries filled in. Every accepted byte string is at most
  3072 bytes long and is what \<open>MarshalTo\<close> writes for the parsed packet, so no two byte strings parse alike.
\<close>

theorem stream_packet_exact:
  "(\<forall>out n. StreamMarshalTo p dst = Inr (out, n) \<longrightarrow> StreamParse (take n out) = Inr (p\<lparr>pNACKCount := of_nat (length (pNACKs p) div 4)\<rparr>) \<and>
      n \<le> MaxPacketSize \<and> n \<le> length dst \<and> drop n out = drop n dst) \<and>
   ((\<exists>e. StreamMarshalTo p dst = Inl e) \<longleftrightarrow> \<not> stream_packet_wf p \<or> int (length dst) < StreamEncodedLen p) \<and>
   (\<forall>q. StreamParse src = Inr q \<longrightarrow> length src \<le> MaxPacketSize \<and>
      (\<forall>buf. length src \<le> length buf \<longrightarrow> StreamMarshalTo q buf = Inr (src @ drop (length src) buf, length src)))"
proof (intro conjI allI impI)
  fix out n assume "StreamMarshalTo p dst = Inr (out, n)"
  then have wf: "stream_packet_wf p" "length (stream_bytes p) \<le> length dst" "n = length (stream_bytes p)" "out = stream_bytes p @ drop n dst"
    unfolding StreamMarshalTo_eq by (auto split: if_splits)
  then have "take n out = stream_bytes p" "drop n out = drop n dst" by simp_all
  then show "StreamParse (take n out) = Inr (p\<lparr>pNACKCount := of_nat (length (pNACKs p) div 4)\<rparr>)" "drop n out = drop n dst"
    using StreamParse_bytes [OF wf(1)] by simp_all
  show "n \<le> MaxPacketSize" "n \<le> length dst" using wf by (simp_all add: stream_packet_wf_def stream_consts)
next
  show "(\<exists>e. StreamMarshalTo p dst = Inl e) \<longleftrightarrow> \<not> stream_packet_wf p \<or> int (length dst) < StreamEncodedLen p"
    unfolding StreamMarshalTo_eq StreamEncodedLen_eq by auto
next
  fix q assume q: "StreamParse src = Inr q"
  show "length src \<le> MaxPacketSize" using q by (auto simp: StreamParse_def split: if_splits)
  fix buf :: bytes assume "length src \<le> length buf"
  then show "StreamMarshalTo q buf = Inr (src @ drop (length src) buf, length src)"
    unfolding StreamMarshalTo_eq StreamParse_Some(2) [OF q] using StreamParse_Some(1) [OF q] by simp
qed

text \<open>A packet with one missing-sequence entry, and the bytes of the empty packet.\<close>

theorem stream_packet_exact_witness:
  "\<exists>p out. StreamMarshalTo p (replicate 40 0) = Inr (out, 27) \<and> StreamParse (take 27 out) = Inr (p\<lparr>pNACKCount := 1\<rparr>) \<and>
     (\<exists>q. StreamParse (replicate 22 0) = Inr q \<and> StreamMarshalTo q (replicate 22 5) = Inr (replicate 22 0, 22))"
proof -
  let ?p = "\<lparr>pSendStreamID = 1, pReceiveStreamID = 2, pSequence = 3, pAckThrough = 4, pNACKCount = 0, pResendDelay = 5,
    pFlags = 6, pOptions = [], pNACKs = [0, 0, 0, 1], pPayload = [9]\<rparr>"
  let ?q = "\<lparr>pSendStreamID = 0, pReceiveStreamID = 0, pSequence = 0, pAckThrough = 0, pNACKCount = 0, pResendDelay = 0,
    pFlags = 0, pOptions = [], pNACKs = [], pPayload = []\<rparr>"
  have m: "StreamMarshalTo ?p (replicate 40 0) = Inr (stream_bytes ?p @ drop 27 (replicate 40 0), 27)"
    by (simp add: StreamMarshalTo_eq stream_packet_wf_def dvd_eq_mod_eq_0)
  have q: "StreamParse (replicate 22 0) = Inr ?q" by code_simp
  have "StreamParse (take 27 (stream_bytes ?p @ drop 27 (replicate 40 0))) = Inr (?p\<lparr>pNACKCount := of_nat (length (pNACKs ?p) div 4)\<rparr>)"
    using stream_packet_exact [of ?p "replicate 40 0" "[]"] m by blast
  moreover have "StreamMarshalTo ?q (replicate 22 5) = Inr (replicate 22 0 @ drop (length (replicate 22 (0 :: u8))) (replicate 22 5), length (replicate 22 (0 :: u8)))"
    using stream_packet_exact [of ?q "[]" "replicate 22 0"] q by simp
  ultimately show ?thesis using m q by (intro exI [of _ ?p] exI [of _ "stream_bytes ?p @ drop 27 (replicate 40 0)"] conjI exI [of _ ?q]) simp_all
qed

end
