(* ===== verification/Streaming_Timer.thy ===== *)
theory Streaming_Timer
  imports IVNP_Prelude "HOL-Library.Signed_Division"
begin

text \<open>
  The retransmission timer of \<open>dataplane/internal/streaming/reliability.go\<close>, an estimator after Jacobson and Karels. A
  \<open>time.Duration\<close> is a signed 64-bit integer: arithmetic wraps around and division truncates toward zero.
\<close>

section \<open>Operations\<close>

text \<open>A result that wraps around at 64 bits.\<close>

definition dur :: "int \<Rightarrow> int" where "dur x = (x + 2 ^ 63) mod 2 ^ 64 - 2 ^ 63"

definition InitialRTO :: int where "InitialRTO = 9000000000"
definition MinRTO :: int where "MinRTO = 100000000"
definition MaxRTO :: int where "MaxRTO = 60000000000"

record RTOEstimator =
  srtt :: int
  rttvar :: int
  rto :: int
  rvalid :: bool

definition clampRTO :: "int \<Rightarrow> int" where
  "clampRTO v = (if v < MinRTO then MinRTO else if v > MaxRTO then MaxRTO else v)"

definition NewRTOEstimator :: "int \<Rightarrow> RTOEstimator" where
  "NewRTOEstimator initial =
     \<lparr>srtt = 0, rttvar = 0, rto = clampRTO (if initial \<le> 0 then InitialRTO else initial), rvalid = False\<rparr>"

definition RTOObserve :: "int \<Rightarrow> RTOEstimator \<Rightarrow> RTOEstimator" where
  "RTOObserve sample r =
     (let sample = (if sample \<le> 0 then 1 else sample);
          r = (if \<not> rvalid r then r\<lparr>srtt := sample, rttvar := sample sdiv 2, rvalid := True\<rparr>
               else let delta = dur (srtt r - sample); delta = (if delta < 0 then dur (- delta) else delta)
                 in r\<lparr>rttvar := dur (dur (3 * rttvar r) + delta) sdiv 4, srtt := dur (dur (7 * srtt r) + sample) sdiv 8\<rparr>)
      in r\<lparr>rto := clampRTO (dur (srtt r + dur (4 * rttvar r)))\<rparr>)"

definition RTO :: "RTOEstimator \<Rightarrow> int" where "RTO r = (if rto r \<le> 0 then InitialRTO else rto r)"

definition Backoff :: "RTOEstimator \<Rightarrow> RTOEstimator" where "Backoff r = r\<lparr>rto := clampRTO (dur (RTO r * 2))\<rparr>"

section \<open>The exact estimator\<close>

datatype rto_event = RObserve int | RBackoff

definition rto_step :: "RTOEstimator \<Rightarrow> rto_event \<Rightarrow> RTOEstimator" where
  "rto_step r e = (case e of RObserve x \<Rightarrow> RTOObserve x r | RBackoff \<Rightarrow> Backoff r)"

text \<open>The estimator of Jacobson and Karels over the integers, without wrap-around.\<close>

definition exact_observe :: "int \<Rightarrow> RTOEstimator \<Rightarrow> RTOEstimator" where
  "exact_observe x r =
     (let x = max 1 x;
          r = (if rvalid r then r\<lparr>rttvar := (3 * rttvar r + \<bar>srtt r - x\<bar>) div 4, srtt := (7 * srtt r + x) div 8\<rparr>
               else r\<lparr>srtt := x, rttvar := x div 2, rvalid := True\<rparr>)
      in r\<lparr>rto := max MinRTO (min MaxRTO (srtt r + 4 * rttvar r))\<rparr>)"

definition exact_step :: "RTOEstimator \<Rightarrow> rto_event \<Rightarrow> RTOEstimator" where
  "exact_step r e = (case e of RObserve x \<Rightarrow> exact_observe x r | RBackoff \<Rightarrow> r\<lparr>rto := min MaxRTO (2 * rto r)\<rparr>)"

lemmas rto_consts = InitialRTO_def MinRTO_def MaxRTO_def

lemma min_le_max: "MinRTO \<le> MaxRTO"
  by (simp add: rto_consts)

lemma dur_id: "0 \<le> x \<Longrightarrow> x < 2 ^ 63 \<Longrightarrow> dur x = x"
  by (simp add: dur_def)

lemma dur_neg: "- (2 ^ 63) \<le> x \<Longrightarrow> x < 0 \<Longrightarrow> dur x = x"
  by (simp add: dur_def)

lemma sdiv_nonneg: "0 \<le> x \<Longrightarrow> 0 < (y :: int) \<Longrightarrow> x sdiv y = x div y"
  by (simp add: signed_divide_int_def sgn_if zero_less_mult_iff)

lemma div_bounded: "0 < k \<Longrightarrow> a \<le> k * B \<Longrightarrow> a div k \<le> (B :: int)"
  using zdiv_mono1 [of a "k * B" k] by simp

lemma div_nonneg: "0 < k \<Longrightarrow> 0 \<le> a \<Longrightarrow> 0 \<le> a div (k :: int)"
  by (simp add: pos_imp_zdiv_nonneg_iff)

definition rto_ok :: "int \<Rightarrow> RTOEstimator \<Rightarrow> bool" where
  "rto_ok B r \<longleftrightarrow> 0 \<le> srtt r \<and> srtt r \<le> B \<and> 0 \<le> rttvar r \<and> rttvar r \<le> B \<and> MinRTO \<le> rto r \<and> rto r \<le> MaxRTO"

lemma clampRTO_eq: "clampRTO v = max MinRTO (min MaxRTO v)"
  by (simp add: clampRTO_def rto_consts)

lemma RTOObserve_exact:
  assumes "rto_ok B r" "1 \<le> B" "B \<le> 2 ^ 59" "x \<le> B"
  shows "RTOObserve x r = exact_observe x r" "rto_ok B (exact_observe x r)"
proof -
  define y where "y = (if x \<le> 0 then 1 else x)"
  have y: "1 \<le> y" "y \<le> B" "max 1 x = y" using assms by (auto simp: y_def)
  have r: "0 \<le> srtt r" "srtt r \<le> B" "0 \<le> rttvar r" "rttvar r \<le> B" using assms(1) by (simp_all add: rto_ok_def)
  have B: "B \<le> 576460752303423488" using assms(3) by simp
  define d where "d = \<bar>srtt r - y\<bar>"
  have d: "0 \<le> d" "d \<le> B" using y r by (auto simp: d_def)
  have delta: "(let delta = dur (srtt r - y) in if delta < 0 then dur (- delta) else delta) = d"
  proof (cases "srtt r - y < 0")
    case True
    then have "dur (srtt r - y) = srtt r - y" using y r B by (intro dur_neg) auto
    then show ?thesis using True dur_id [of "- (srtt r - y)"] y r B by (simp add: d_def)
  next
    case False
    then have "dur (srtt r - y) = srtt r - y" using y r B by (intro dur_id) auto
    then show ?thesis using False by (simp add: d_def)
  qed
  have "dur (3 * rttvar r) = 3 * rttvar r" "dur (3 * rttvar r + d) = 3 * rttvar r + d" "dur (7 * srtt r) = 7 * srtt r" "dur (7 * srtt r + y) = 7 * srtt r + y"
    using y r d B by (simp_all add: dur_id)
  note calc = this sdiv_nonneg [of "3 * rttvar r + d" 4] sdiv_nonneg [of "7 * srtt r + y" 8] sdiv_nonneg [of y 2]
  have bounds: "0 \<le> (3 * rttvar r + d) div 4" "(3 * rttvar r + d) div 4 \<le> B" "0 \<le> (7 * srtt r + y) div 8" "(7 * srtt r + y) div 8 \<le> B" "0 \<le> y div 2" "y div 2 \<le> B"
    using y r d by (intro div_bounded div_nonneg; linarith)+
  have last: "dur (s + dur (4 * v)) = s + 4 * v" if "0 \<le> s" "s \<le> B" "0 \<le> v" "v \<le> B" for s v
    using that B by (simp add: dur_id)
  show "RTOObserve x r = exact_observe x r"
  proof (cases "rvalid r")
    case True
    have 1: "dur (dur (3 * rttvar r) + d) sdiv 4 = (3 * rttvar r + d) div 4" "dur (dur (7 * srtt r) + y) sdiv 8 = (7 * srtt r + y) div 8"
      using calc r d y by simp_all
    show ?thesis
      unfolding RTOObserve_def exact_observe_def y(3) y_def [symmetric] clampRTO_eq d_def [symmetric] Let_def delta [unfolded Let_def] 1
      using True last [OF bounds(3,4,1,2)] by simp
  next
    case False
    have 2: "y sdiv 2 = y div 2" using calc y by simp
    show ?thesis
      unfolding RTOObserve_def exact_observe_def y(3) y_def [symmetric] clampRTO_eq d_def [symmetric] Let_def 2
      using False last [OF _ y(2) bounds(5,6)] y by simp
  qed
  show "rto_ok B (exact_observe x r)"
  proof -
    let ?e = "exact_observe x r"
    have s: "srtt ?e = (if rvalid r then (7 * srtt r + y) div 8 else y)" and v: "rttvar ?e = (if rvalid r then (3 * rttvar r + d) div 4 else y div 2)"
      by (simp_all add: exact_observe_def Let_def y(3) d_def)
    have t: "rto ?e = max MinRTO (min MaxRTO (srtt ?e + 4 * rttvar ?e))" by (simp add: exact_observe_def Let_def)
    have "0 \<le> y" using y(1) by linarith
    then have "srtt ?e \<in> {0..B}" "rttvar ?e \<in> {0..B}" unfolding s v atLeastAtMost_iff using bounds y(2) by (cases "rvalid r"; simp only: if_True if_False simp_thms)+
    moreover have "MinRTO \<le> rto ?e" "rto ?e \<le> MaxRTO" unfolding t using min_le_max by (simp_all only: max.cobounded1 max.bounded_iff min.cobounded1 simp_thms)
    ultimately show ?thesis unfolding rto_ok_def atLeastAtMost_iff by blast
  qed
qed

lemma Backoff_exact:
  assumes "rto_ok B r" shows "Backoff r = r\<lparr>rto := min MaxRTO (2 * rto r)\<rparr>" "rto_ok B (r\<lparr>rto := min MaxRTO (2 * rto r)\<rparr>)"
proof -
  have r: "100000000 \<le> rto r" "rto r \<le> 60000000000" using assms by (simp_all add: rto_ok_def rto_consts)
  then have "RTO r = rto r" "dur (rto r * 2) = 2 * rto r" using dur_id [of "2 * rto r"] by (simp_all add: RTO_def mult.commute)
  then show "Backoff r = r\<lparr>rto := min MaxRTO (2 * rto r)\<rparr>" using r by (simp add: Backoff_def clampRTO_eq rto_consts)
  show "rto_ok B (r\<lparr>rto := min MaxRTO (2 * rto r)\<rparr>)" using assms r by (simp add: rto_ok_def rto_consts)
qed

lemma rto_run_bounds: "MinRTO \<le> rto r \<and> rto r \<le> MaxRTO \<Longrightarrow> MinRTO \<le> rto (foldl rto_step r es) \<and> rto (foldl rto_step r es) \<le> MaxRTO"
proof (induction es arbitrary: r)
  case (Cons e es)
  have "MinRTO \<le> clampRTO v \<and> clampRTO v \<le> MaxRTO" for v by (simp add: clampRTO_def rto_consts)
  then have "MinRTO \<le> rto (rto_step r e) \<and> rto (rto_step r e) \<le> MaxRTO" by (cases e) (simp_all add: rto_step_def RTOObserve_def Backoff_def Let_def)
  then show ?case using Cons.IH by simp
qed simp

lemma rto_run_exact:
  assumes "1 \<le> B" "B \<le> 2 ^ 59"
  shows "rto_ok B r \<Longrightarrow> (\<And>x. RObserve x \<in> set es \<Longrightarrow> x \<le> B) \<Longrightarrow> foldl rto_step r es = foldl exact_step r es \<and> rto_ok B (foldl exact_step r es)"
proof (induction es arbitrary: r)
  case (Cons e es)
  have "rto_step r e = exact_step r e \<and> rto_ok B (exact_step r e)"
  proof (cases e)
    case (RObserve x)
    then have "x \<le> B" using Cons.prems(2) by simp
    then show ?thesis using RObserve RTOObserve_exact [OF Cons.prems(1) assms] by (simp add: rto_step_def exact_step_def)
  next
    case RBackoff
    then show ?thesis using Backoff_exact [OF Cons.prems(1)] by (simp add: rto_step_def exact_step_def)
  qed
  then show ?case using Cons.IH [of "exact_step r e"] Cons.prems(2) by simp
qed simp

section \<open>Properties\<close>

text \<open>
  C34. The retransmission timeout lies between 100 ms and 60 s after any history of measurements and back-offs, even where
  the arithmetic on durations wraps around. When the measurements are at most \<open>B\<close> (up to \<open>2^59\<close> ns, 18 years),
  nothing wraps: the estimator is the exact one of Jacobson and Karels over the integers, and the smoothed round trip and
  its deviation stay within 0 and \<open>B\<close>.
\<close>

theorem rto_exact:
  assumes "1 \<le> B" "B \<le> 2 ^ 59" "\<And>x. RObserve x \<in> set es \<Longrightarrow> x \<le> B"
  shows "MinRTO \<le> RTO (foldl rto_step (NewRTOEstimator initial) es') \<and> RTO (foldl rto_step (NewRTOEstimator initial) es') \<le> MaxRTO \<and>
    foldl rto_step (NewRTOEstimator initial) es = foldl exact_step (NewRTOEstimator initial) es \<and>
    srtt (foldl rto_step (NewRTOEstimator initial) es) \<in> {0..B} \<and> rttvar (foldl rto_step (NewRTOEstimator initial) es) \<in> {0..B}"
proof -
  have b: "MinRTO \<le> rto (NewRTOEstimator initial) \<and> rto (NewRTOEstimator initial) \<le> MaxRTO"
    by (simp add: NewRTOEstimator_def clampRTO_def rto_consts)
  have "rto_ok B (NewRTOEstimator initial)" using b assms(1) unfolding rto_ok_def by (simp add: NewRTOEstimator_def)
  from rto_run_exact [OF assms(1,2) this assms(3)]
  have "foldl rto_step (NewRTOEstimator initial) es = foldl exact_step (NewRTOEstimator initial) es" "rto_ok B (foldl exact_step (NewRTOEstimator initial) es)" by simp_all
  moreover have "RTO (foldl rto_step (NewRTOEstimator initial) es') = rto (foldl rto_step (NewRTOEstimator initial) es')"
    using rto_run_bounds [OF b, of es'] by (simp add: RTO_def rto_consts)
  ultimately show ?thesis using rto_run_bounds [OF b, of es'] by (simp add: rto_ok_def)
qed

text \<open>A measurement of one second and a back-off: 1 s + 4 * 0.5 s, doubled.\<close>

theorem rto_exact_witness:
  "RTO (foldl rto_step (NewRTOEstimator 0) [RObserve 1000000000, RBackoff]) = 6000000000 \<and>
   srtt (foldl rto_step (NewRTOEstimator 0) [RObserve 1000000000, RBackoff]) = 1000000000"
proof -
  have "foldl rto_step (NewRTOEstimator 0) [RObserve 1000000000, RBackoff] = foldl exact_step (NewRTOEstimator 0) [RObserve 1000000000, RBackoff]"
    using rto_exact [of 1000000000 "[RObserve 1000000000, RBackoff]" 0 "[]"] by auto
  then show ?thesis by (simp add: exact_step_def exact_observe_def NewRTOEstimator_def Let_def RTO_def rto_consts)
qed

end
