(* ===== verification/Garlic_Clove.thy ===== *)
theory Garlic_Clove
  imports I2NP Identity
begin

text \<open>
  Garlic cloves (\<open>dataplane/internal/garlic/clove.go\<close> and \<open>serialize.go\<close>): delivery instructions, cloves that carry a
  standard I2NP message, and clove sets. A call on a sub-slice \<open>dst[off:]\<close> is a call on \<open>drop off dst\<close> whose result is
  put back behind the first \<open>off\<close> bytes.
\<close>

section \<open>Delivery instructions\<close>

type_synonym GarlicDeliveryType = u8

abbreviation DeliveryLocal :: GarlicDeliveryType where "DeliveryLocal \<equiv> 0"
abbreviation DeliveryDestination :: GarlicDeliveryType where "DeliveryDestination \<equiv> 1"
abbreviation DeliveryRouter :: GarlicDeliveryType where "DeliveryRouter \<equiv> 2"
abbreviation DeliveryTunnel :: GarlicDeliveryType where "DeliveryTunnel \<equiv> 3"

record Delivery =
  dType :: GarlicDeliveryType
  dTo :: bytes
  dTunnelID :: u32
  dDelay :: u32

definition delivery_tunnel :: "bytes \<Rightarrow> Delivery \<Rightarrow> nat \<Rightarrow> (Delivery \<times> nat) result" where
  "delivery_tunnel src out off =
     (if dType out = DeliveryTunnel then
        if length src - off < 4 then Inl ErrShortBuffer
        else let out = out\<lparr>dTunnelID := Uint32 (slice off (off + 4) src)\<rparr> in
          if dTunnelID out = 0 then Inl ErrDelivery else Inr (out, off + 4)
      else Inr (out, off))"

definition delivery_delay :: "bytes \<Rightarrow> u8 \<Rightarrow> Delivery \<Rightarrow> nat \<Rightarrow> (Delivery \<times> nat) result" where
  "delivery_delay src flags out off =
     (if flags AND 0x10 \<noteq> 0 then
        if length src - off < 4 then Inl ErrShortBuffer
        else Inr (out\<lparr>dDelay := Uint32 (slice off (off + 4) src)\<rparr>, off + 4)
      else Inr (out, off))"

definition ParseDelivery :: "bytes \<Rightarrow> (Delivery \<times> nat) result" where
  "ParseDelivery src =
     (if length src < 1 then Inl ErrShortBuffer
      else let flags = src ! 0 in
        if flags AND 0x0f \<noteq> 0 then Inl ErrDelivery
        else let out = \<lparr>dType = drop_bit 5 flags AND 3, dTo = replicate 32 0, dTunnelID = 0, dDelay = 0\<rparr>; off = 1 in
          if dType out \<noteq> DeliveryLocal \<and> length src - off < 32 then Inl ErrShortBuffer
          else let (out, off) = (if dType out \<noteq> DeliveryLocal then (out\<lparr>dTo := slice off (off + 32) src\<rparr>, off + 32) else (out, off)) in
            bindR (delivery_tunnel src out off) (\<lambda>(out, off). delivery_delay src flags out off))"

definition DeliveryEncodedLen :: "Delivery \<Rightarrow> nat" where
  "DeliveryEncodedLen d =
     (let n = 1;
          n = (if dType d \<noteq> DeliveryLocal then n + 32 else n);
          n = (if dType d = DeliveryTunnel then n + 4 else n)
      in if dDelay d \<noteq> 0 then n + 4 else n)"

definition Delivery_valid :: "Delivery \<Rightarrow> bool" where
  "Delivery_valid d \<longleftrightarrow> dType d \<le> DeliveryTunnel \<and> (dType d \<noteq> DeliveryTunnel \<or> dTunnelID d \<noteq> 0)"

definition DeliveryMarshalTo :: "Delivery \<Rightarrow> bytes \<Rightarrow> (bytes \<times> nat) result" where
  "DeliveryMarshalTo d dst =
     (if \<not> Delivery_valid d then Inl ErrDelivery
      else if length dst < DeliveryEncodedLen d then Inl ErrShortBuffer
      else let flags = push_bit 5 (dType d);
               flags = (if dDelay d \<noteq> 0 then flags OR 0x10 else flags) in
        if flags AND 0x0f \<noteq> 0 then Inl ErrDelivery
        else let dst = dst[0 := flags]; off = 1;
                 (dst, off) = (if dType d \<noteq> DeliveryLocal then (put_at off (dTo d) dst, off + length (dTo d)) else (dst, off));
                 (dst, off) = (if dType d = DeliveryTunnel then (put_at off (PutUint32 (dTunnelID d)) dst, off + 4) else (dst, off));
                 (dst, off) = (if dDelay d \<noteq> 0 then (put_at off (PutUint32 (dDelay d)) dst, off + 4) else (dst, off))
             in Inr (dst, off))"

section \<open>Cloves\<close>

definition cloveCertificateLen :: nat where "cloveCertificateLen = 3"
definition cloveMetadataLen :: nat where "cloveMetadataLen = 4 + 8 + cloveCertificateLen"
definition cloveSetMetadataLen :: nat where "cloveSetMetadataLen = cloveCertificateLen + 4 + 8"
definition cloveSetPrefixLen :: nat where "cloveSetPrefixLen = 1"

lemmas clove_consts = cloveCertificateLen_def cloveMetadataLen_def cloveSetMetadataLen_def cloveSetPrefixLen_def

record Clove =
  cvDelivery :: Delivery
  cvMessage :: Message
  cvID :: u32
  cvExpiration :: u64

definition ParseClove :: "bytes \<Rightarrow> (Clove \<times> nat) result" where
  "ParseClove src =
     bindR (ParseDelivery src) (\<lambda>(delivery, n).
     bindR (ParseUnchecked (drop n src)) (\<lambda>(message, used).
       let off = n + used in
       if length src - off < 15 then Inl ErrShortBuffer
       else let id' = Uint32 (slice off (off + 4) src); expiration = Uint64 (slice (off + 4) (off + 12) src) in
         bindR (ParseCertificate (drop (off + 12) src)) (\<lambda>(certificate, certLen).
           if cType certificate \<noteq> CertificateNull then Inl ErrClove
           else Inr (\<lparr>cvDelivery = delivery, cvMessage = message, cvID = id', cvExpiration = expiration\<rparr>, off + 12 + certLen))))"

definition CloveEncodedLen :: "Clove \<Rightarrow> nat" where
  "CloveEncodedLen c = DeliveryEncodedLen (cvDelivery c) + EncodedLen (cvMessage c) + cloveMetadataLen"

definition Clove_valid :: "Clove \<Rightarrow> unit result" where
  "Clove_valid c =
     (if \<not> Delivery_valid (cvDelivery c) then Inl ErrDelivery
      else if length (mPayload (cvMessage c)) > I2PDMaxPayload then Inl I2NPErrPayloadTooLarge
      else Inr ())"

definition CloveMarshalTo :: "Clove \<Rightarrow> bytes \<Rightarrow> (bytes \<times> nat) result" where
  "CloveMarshalTo c dst =
     bindR (Clove_valid c) (\<lambda>_.
       if length dst < CloveEncodedLen c then Inl ErrShortBuffer
       else bindR (DeliveryMarshalTo (cvDelivery c) dst) (\<lambda>(dst, off).
         bindR (MarshalTo (cvMessage c) (drop off dst)) (\<lambda>(rest, messageLen).
           let dst = take off dst @ rest;
               off = off + messageLen;
               dst = put_at off (PutUint32 (cvID c)) dst;
               off = off + 4;
               dst = put_at off (PutUint64 (cvExpiration c)) dst;
               off = off + 8;
               dst = dst[off := 0]; dst = dst[off + 1 := 0]; dst = dst[off + 2 := 0];
               off = off + cloveCertificateLen
           in Inr (dst, off))))"

section \<open>Clove sets\<close>

record CloveSet =
  csCount :: u8
  csCloves :: bytes
  csMessageID :: u32
  csExpiration :: u64

definition Cloves :: "CloveSet \<Rightarrow> bytes \<times> u8" where "Cloves s = (csCloves s, csCount s)"

definition CloveNext :: "bytes \<times> u8 \<Rightarrow> (Clove \<times> bytes \<times> u8) option result" where
  "CloveNext it =
     (if snd it = 0 then Inr None
      else bindR (ParseClove (fst it)) (\<lambda>(clove, n). Inr (Some (clove, (drop n (fst it), snd it - 1)))))"

fun clove_loop :: "nat \<Rightarrow> bytes \<Rightarrow> nat \<Rightarrow> nat result" where
  "clove_loop 0 src off = Inr off"
| "clove_loop (Suc k) src off = bindR (ParseClove (drop off src)) (\<lambda>(_, n). clove_loop k src (off + n))"

definition ParseCloveSet :: "bytes \<Rightarrow> CloveSet result" where
  "ParseCloveSet src =
     (if length src < 1 then Inl ErrShortBuffer
      else let count = src ! 0 in
        bindR (clove_loop (unat count) src 1) (\<lambda>off.
          if int (length src) - int off \<noteq> 15 then Inl ErrClove
          else case ParseCertificate (drop off src) of
            Inl _ \<Rightarrow> Inl ErrClove
          | Inr (certificate, n) \<Rightarrow>
              if cType certificate \<noteq> CertificateNull \<or> n \<noteq> 3 then Inl ErrClove
              else Inr \<lparr>csCount = count, csCloves = slice 1 off src, csMessageID = Uint32 (slice (off + 3) (off + 7) src),
                csExpiration = Uint64 (slice (off + 7) (off + 15) src)\<rparr>))"

text \<open>\<open>int(^uint(0)>>1)\<close> is the largest int.\<close>

fun clove_lens :: "int \<Rightarrow> Clove list \<Rightarrow> int result" where
  "clove_lens n [] = Inr n"
| "clove_lens n (clove # cloves) =
     bindR (Clove_valid clove) (\<lambda>_.
       let cloveLen = int (CloveEncodedLen clove) in
       if cloveLen > 2 ^ 63 - 1 - n then Inl ErrClove else clove_lens (n + cloveLen) cloves)"

definition CloveSetEncodedLen :: "Clove list \<Rightarrow> int result" where
  "CloveSetEncodedLen cloves =
     (if length cloves > 255 then Inl ErrClove else clove_lens (int (cloveSetPrefixLen + cloveSetMetadataLen)) cloves)"

fun marshal_cloves :: "Clove list \<Rightarrow> bytes \<Rightarrow> nat \<Rightarrow> (bytes \<times> nat) result" where
  "marshal_cloves [] dst off = Inr (dst, off)"
| "marshal_cloves (clove # cloves) dst off =
     bindR (CloveMarshalTo clove (drop off dst)) (\<lambda>(rest, used). marshal_cloves cloves (take off dst @ rest) (off + used))"

text \<open>The null certificate and the metadata that end a clove set.\<close>

definition set_trailer :: "u32 \<Rightarrow> u64 \<Rightarrow> bytes \<Rightarrow> nat \<Rightarrow> bytes \<times> nat" where
  "set_trailer messageID expiration dst off =
     (let dst = dst[off := 0]; dst = dst[off + 1 := 0]; dst = dst[off + 2 := 0];
          off = off + cloveCertificateLen;
          dst = put_at off (PutUint32 messageID) dst;
          off = off + 4;
          dst = put_at off (PutUint64 expiration) dst;
          off = off + 8
      in (dst, off))"

definition MarshalCloveSetTo :: "bytes \<Rightarrow> Clove list \<Rightarrow> u32 \<Rightarrow> u64 \<Rightarrow> (bytes \<times> nat) result" where
  "MarshalCloveSetTo dst cloves messageID expiration =
     bindR (CloveSetEncodedLen cloves) (\<lambda>n.
       if int (length dst) < n then Inl ErrShortBuffer
       else bindR (marshal_cloves cloves (dst[0 := of_nat (length cloves)]) cloveSetPrefixLen) (\<lambda>(dst, off).
         Inr (set_trailer messageID expiration dst off)))"

definition CloveSet_EncodedLen :: "CloveSet \<Rightarrow> nat" where
  "CloveSet_EncodedLen s = cloveSetPrefixLen + length (csCloves s) + cloveSetMetadataLen"

definition CloveSet_MarshalTo :: "CloveSet \<Rightarrow> bytes \<Rightarrow> (bytes \<times> nat) result" where
  "CloveSet_MarshalTo s dst =
     (if length dst < CloveSet_EncodedLen s then Inl ErrShortBuffer
      else let dst = dst[0 := csCount s];
               off = cloveSetPrefixLen;
               dst = put_at off (csCloves s) dst;
               off = off + length (csCloves s)
           in Inr (set_trailer (csMessageID s) (csExpiration s) dst off))"

section \<open>Delivery instructions on the wire\<close>

text \<open>The model's arrays have no length of their own: a hash has 32 bytes.\<close>

definition delivery_wf :: "Delivery \<Rightarrow> bool" where "delivery_wf d \<longleftrightarrow> Delivery_valid d \<and> length (dTo d) = 32"

definition delivery_flags :: "Delivery \<Rightarrow> u8" where
  "delivery_flags d = (if dDelay d \<noteq> 0 then push_bit 5 (dType d) OR 0x10 else push_bit 5 (dType d))"

definition delivery_bytes :: "Delivery \<Rightarrow> bytes" where
  "delivery_bytes d =
     [delivery_flags d] @ (if dType d \<noteq> DeliveryLocal then dTo d else []) @ (if dType d = DeliveryTunnel then PutUint32 (dTunnelID d) else [])
     @ (if dDelay d \<noteq> 0 then PutUint32 (dDelay d) else [])"

text \<open>What the format carries: no hash for a local clove, a tunnel only for a tunnel delivery.\<close>

definition delivery_view :: "Delivery \<Rightarrow> Delivery" where
  "delivery_view d =
     d\<lparr>dTo := (if dType d \<noteq> DeliveryLocal then dTo d else replicate 32 0), dTunnelID := (if dType d = DeliveryTunnel then dTunnelID d else 0)\<rparr>"

lemma delivery_types: "(t :: u8) \<le> 3 \<Longrightarrow> t = 0 \<or> t = 1 \<or> t = 2 \<or> t = 3"
proof -
  assume "t \<le> 3"
  then have "unat t \<le> 3" by (simp add: word_le_nat_alt)
  then have "unat t = 0 \<or> unat t = 1 \<or> unat t = 2 \<or> unat t = 3" by linarith
  then show ?thesis by (auto simp: word_unat_eq_iff)
qed

lemma delivery_wf_cases:
  assumes "delivery_wf d"
  obtains (local) "dType d = 0" | (dest) "dType d = 1" | (router) "dType d = 2" | (tunnel) "dType d = 3" "dTunnelID d \<noteq> 0"
  using assms delivery_types [of "dType d"] by (auto simp: delivery_wf_def Delivery_valid_def)

lemma length_delivery_bytes: "delivery_wf d \<Longrightarrow> length (delivery_bytes d) = DeliveryEncodedLen d"
  by (auto simp: delivery_bytes_def DeliveryEncodedLen_def delivery_wf_def Let_def)

lemma delivery_flags_low: "delivery_wf d \<Longrightarrow> delivery_flags d AND 0x0f = 0"
  by (cases rule: delivery_wf_cases [of d]) (simp_all add: delivery_flags_def)

lemma delivery_flags_type: "delivery_wf d \<Longrightarrow> drop_bit 5 (delivery_flags d) AND 3 = dType d"
  by (cases rule: delivery_wf_cases [of d]) (simp_all add: delivery_flags_def)

lemma delivery_flags_delay: "delivery_wf d \<Longrightarrow> delivery_flags d AND 0x10 \<noteq> 0 \<longleftrightarrow> dDelay d \<noteq> 0"
  by (cases rule: delivery_wf_cases [of d]) (simp_all add: delivery_flags_def)

lemma DeliveryMarshalTo_eq:
  assumes "delivery_wf d" "DeliveryEncodedLen d \<le> length dst"
  shows "DeliveryMarshalTo d dst = Inr (delivery_bytes d @ drop (DeliveryEncodedLen d) dst, DeliveryEncodedLen d)"
proof -
  have "put_at 0 (delivery_bytes d) dst = delivery_bytes d @ drop (DeliveryEncodedLen d) dst"
    using put_at_0 [of "delivery_bytes d" dst] length_delivery_bytes [OF assms(1)] assms(2) by simp
  moreover have "(if dDelay d \<noteq> 0 then push_bit 5 (dType d) OR 0x10 else push_bit 5 (dType d)) = delivery_flags d" by (simp add: delivery_flags_def)
  moreover have "Delivery_valid d" "length (dTo d) = 32" using assms by (auto simp: delivery_wf_def)
  moreover have "0 < DeliveryEncodedLen d" by (simp add: DeliveryEncodedLen_def Let_def)
  then have "0 < length dst" using assms(2) by linarith
  ultimately show ?thesis
    using assms delivery_flags_low [OF assms(1)]
    by (simp add: DeliveryMarshalTo_def Let_def list_update_put_at put_at_put_at [where m = 0] delivery_bytes_def DeliveryEncodedLen_def split: if_splits)
qed

lemma ParseDelivery_bytes:
  assumes "delivery_wf d"
  shows "ParseDelivery (delivery_bytes d @ rest) = Inr (delivery_view d, DeliveryEncodedLen d)"
  using assms delivery_flags_low [OF assms] delivery_flags_type [OF assms] delivery_flags_delay [OF assms]
  by (cases rule: delivery_wf_cases [OF assms])
    (simp_all add: ParseDelivery_def delivery_tunnel_def delivery_delay_def Let_def delivery_bytes_def delivery_view_def DeliveryEncodedLen_def
      delivery_wf_def slice_def codec_simps)

section \<open>Cloves and clove sets on the wire\<close>

definition clove_wf :: "Clove \<Rightarrow> bool" where
  "clove_wf c \<longleftrightarrow> delivery_wf (cvDelivery c) \<and> length (mPayload (cvMessage c)) \<le> I2PDMaxPayload"

definition clove_bytes :: "Clove \<Rightarrow> bytes" where
  "clove_bytes c =
     delivery_bytes (cvDelivery c) @ standard_bytes (mHeader (cvMessage c)) (mPayload (cvMessage c)) @ PutUint32 (cvID c)
     @ PutUint64 (cvExpiration c) @ [0, 0, 0]"

definition clove_view :: "Clove \<Rightarrow> Clove" where "clove_view c = c\<lparr>cvDelivery := delivery_view (cvDelivery c)\<rparr>"

lemma max_payload: "I2PDMaxPayload < 65536"
  by (simp add: i2np_consts)

lemma length_clove_bytes: "clove_wf c \<Longrightarrow> length (clove_bytes c) = CloveEncodedLen c"
  by (simp add: clove_wf_def clove_bytes_def CloveEncodedLen_def length_delivery_bytes EncodedLen_def clove_consts)

lemma CloveMarshalTo_eq:
  assumes "clove_wf c" "CloveEncodedLen c \<le> length dst"
  shows "CloveMarshalTo c dst = Inr (clove_bytes c @ drop (CloveEncodedLen c) dst, CloveEncodedLen c)"
proof -
  define d where "d = cvDelivery c"
  define sb where "sb = standard_bytes (mHeader (cvMessage c)) (mPayload (cvMessage c))"
  define n where "n = DeliveryEncodedLen d"
  have d: "delivery_wf d" and pl: "length (mPayload (cvMessage c)) \<le> I2PDMaxPayload" using assms(1) by (simp_all add: clove_wf_def d_def)
  have db: "length (delivery_bytes d) = n" using length_delivery_bytes [OF d] by (simp add: n_def)
  have sb: "length sb = StandardHeaderLen + length (mPayload (cvMessage c))" by (simp add: sb_def)
  have len: "CloveEncodedLen c = n + length sb + 15" by (simp add: CloveEncodedLen_def d_def n_def sb EncodedLen_def clove_consts)
  have room: "n + length sb + 15 \<le> length dst" using assms(2) len by simp
  have v: "Clove_valid c = Inr ()" using d pl by (simp add: Clove_valid_def delivery_wf_def d_def)
  have m: "DeliveryMarshalTo (cvDelivery c) dst = Inr (delivery_bytes d @ drop n dst, n)"
    using DeliveryMarshalTo_eq [OF d, of dst] room by (simp add: d_def n_def)
  have i: "MarshalTo (cvMessage c) (drop n dst) = Inr (sb @ drop (n + length sb) dst, length sb)"
    using marshalStandard_eq [OF pl, of "drop n dst" "mHeader (cvMessage c)"] room sb
    by (simp add: MarshalTo_def sb_def [symmetric] add.commute)
  let ?x = "delivery_bytes d @ sb @ drop (n + length sb) dst"
  have x: "length ?x = length dst" using room db by simp
  have "CloveMarshalTo c dst =
    Inr (put_at (n + length sb) (PutUint32 (cvID c) @ PutUint64 (cvExpiration c) @ [0, 0, 0]) ?x, n + length sb + 15)"
    using len room v m i x db by (simp add: CloveMarshalTo_def Let_def clove_consts list_update_put_at put_at_put_at)
  also have "put_at (n + length sb) (PutUint32 (cvID c) @ PutUint64 (cvExpiration c) @ [0, 0, 0]) ?x = clove_bytes c @ drop (CloveEncodedLen c) dst"
    using put_at_prefix [of "delivery_bytes d @ sb" "n + length sb" "PutUint32 (cvID c) @ PutUint64 (cvExpiration c) @ [0, 0, 0]" 15 "drop (n + length sb) dst"] room db
    by (simp add: clove_bytes_def d_def sb_def len add.commute)
  finally show ?thesis by (simp add: len)
qed

lemma null_certificate: "ParseCertificate ([0, 0, 0] @ rest) = Inr (\<lparr>cType = 0, cPayload = []\<rparr>, 3)"
  by (simp add: ParseCertificate_def CertificateHeader_def Let_def Uint16_def be_val_def validCertificate_def slice_def)

lemma ParseClove_bytes:
  assumes "clove_wf c"
  shows "ParseClove (clove_bytes c @ rest) = Inr (clove_view c, CloveEncodedLen c)"
proof -
  define d where "d = cvDelivery c"
  define sb where "sb = standard_bytes (mHeader (cvMessage c)) (mPayload (cvMessage c))"
  define n where "n = DeliveryEncodedLen d"
  have d: "delivery_wf d" and pl: "length (mPayload (cvMessage c)) \<le> I2PDMaxPayload" using assms(1) by (simp_all add: clove_wf_def d_def)
  have db: "length (delivery_bytes d) = n" using length_delivery_bytes [OF d] by (simp add: n_def)
  have sb: "StandardHeaderLen + length (mPayload (cvMessage c)) = length sb" by (simp add: sb_def)
  have len: "CloveEncodedLen c = n + length sb + 15" by (simp add: CloveEncodedLen_def d_def n_def sb [symmetric] EncodedLen_def clove_consts)
  let ?t = "PutUint32 (cvID c) @ PutUint64 (cvExpiration c) @ 0 # 0 # 0 # rest"
  have src: "clove_bytes c @ rest = delivery_bytes d @ sb @ ?t" by (simp add: clove_bytes_def d_def sb_def)
  have p: "ParseDelivery (delivery_bytes d @ sb @ ?t) = Inr (delivery_view d, n)" using ParseDelivery_bytes [OF d] by (simp add: n_def)
  have u: "ParseUnchecked (sb @ ?t) = Inr (cvMessage c, length sb)"
    using parseStandard_bytes [OF pl, of "mHeader (cvMessage c)" ?t False] max_payload pl by (simp add: ParseUnchecked_def sb sb_def [symmetric])
  show ?thesis unfolding src ParseClove_def
    by (simp add: p db u Let_def slice_def codec_simps null_certificate [simplified] len clove_view_def d_def [symmetric])
qed

interpretation cloves: counted_reader CloveNext clove_wf clove_bytes clove_view
proof
  show "CloveNext (s, 0) = Inr None" for s by (simp add: CloveNext_def)
  show "CloveNext (clove_bytes b @ s, k) = Inr (Some (clove_view b, (s, k - 1)))" if "clove_wf b" "k \<noteq> 0" for b s k
    using that by (simp add: CloveNext_def ParseClove_bytes length_clove_bytes [symmetric])
qed

lemma Clove_valid_iff: "(\<forall>c \<in> set cs. length (dTo (cvDelivery c)) = 32) \<Longrightarrow> list_all clove_wf cs \<longleftrightarrow> (\<forall>c \<in> set cs. Clove_valid c = Inr ())"
  by (induction cs) (auto simp: clove_wf_def delivery_wf_def Clove_valid_def)

lemma clove_lens_Inr: "clove_lens n cs = Inr k \<Longrightarrow> (\<forall>c \<in> set cs. Clove_valid c = Inr ()) \<and> k = n + int (sum_list (map CloveEncodedLen cs))"
proof (induction cs arbitrary: n)
  case (Cons c cs)
  then have "Clove_valid c = Inr ()" "clove_lens (n + int (CloveEncodedLen c)) cs = Inr k" by (auto simp: bindR_eq_Inr Let_def split: if_splits)
  then show ?case using Cons.IH [of "n + int (CloveEncodedLen c)"] by simp
qed simp

lemma length_cloves: "list_all clove_wf cs \<Longrightarrow> length (concat (map clove_bytes cs)) = sum_list (map CloveEncodedLen cs)"
  by (induction cs) (simp_all add: length_clove_bytes)

lemma marshal_cloves_eq:
  "list_all clove_wf cs \<Longrightarrow> off + sum_list (map CloveEncodedLen cs) \<le> length dst \<Longrightarrow>
   marshal_cloves cs dst off = Inr (put_at off (concat (map clove_bytes cs)) dst, off + sum_list (map CloveEncodedLen cs))"
proof (induction cs arbitrary: dst off)
  case (Cons c cs)
  let ?n = "CloveEncodedLen c"
  have wf: "clove_wf c" and room: "off + ?n + sum_list (map CloveEncodedLen cs) \<le> length dst" using Cons.prems by simp_all
  have m: "CloveMarshalTo c (drop off dst) = Inr (clove_bytes c @ drop (off + ?n) dst, ?n)"
    using CloveMarshalTo_eq [OF wf, of "drop off dst"] room by (simp add: add.commute)
  have pa: "take off dst @ clove_bytes c @ drop (off + ?n) dst = put_at off (clove_bytes c) dst"
    using room length_clove_bytes [OF wf] by (simp add: put_at_def)
  have "marshal_cloves cs (put_at off (clove_bytes c) dst) (off + ?n) =
      Inr (put_at (off + ?n) (concat (map clove_bytes cs)) (put_at off (clove_bytes c) dst), off + ?n + sum_list (map CloveEncodedLen cs))"
    using Cons.IH [of "off + ?n" "put_at off (clove_bytes c) dst"] Cons.prems room by simp
  then show ?case
    using m pa room length_clove_bytes [OF wf] length_cloves [of cs] Cons.prems by (simp add: put_at_put_at add.assoc)
qed (simp add: put_at_Nil)

lemma set_trailer_eq:
  assumes "off + 15 \<le> length dst"
  shows "set_trailer messageID expiration dst off = (put_at off ([0, 0, 0] @ PutUint32 messageID @ PutUint64 expiration) dst, off + 15)"
  using assms by (simp add: set_trailer_def Let_def clove_consts list_update_put_at put_at_put_at)

definition clove_set_bytes :: "Clove list \<Rightarrow> u32 \<Rightarrow> u64 \<Rightarrow> bytes" where
  "clove_set_bytes cs messageID expiration =
     [of_nat (length cs)] @ concat (map clove_bytes cs) @ [0, 0, 0] @ PutUint32 messageID @ PutUint64 expiration"

lemma MarshalCloveSetTo_back:
  assumes "MarshalCloveSetTo dst cs messageID expiration = Inr (out, n)" "\<forall>c \<in> set cs. length (dTo (cvDelivery c)) = 32"
  shows "length cs \<le> 255" "list_all clove_wf cs" "n = length (clove_set_bytes cs messageID expiration)" "n \<le> length dst"
    "out = clove_set_bytes cs messageID expiration @ drop n dst"
proof -
  obtain k where k: "CloveSetEncodedLen cs = Inr k" "k \<le> int (length dst)"
    and go: "bindR (marshal_cloves cs (dst[0 := of_nat (length cs)]) cloveSetPrefixLen) (\<lambda>(dst, off). Inr (set_trailer messageID expiration dst off)) = Inr (out, n)"
    using assms(1) by (auto simp: MarshalCloveSetTo_def bindR_eq_Inr split: if_splits)
  show "length cs \<le> 255" using k(1) by (auto simp: CloveSetEncodedLen_def split: if_splits)
  have l: "(\<forall>c \<in> set cs. Clove_valid c = Inr ())" "k = 16 + int (sum_list (map CloveEncodedLen cs))"
    using k(1) clove_lens_Inr [of 16 cs k] by (auto simp: CloveSetEncodedLen_def clove_consts split: if_splits)
  then show wf: "list_all clove_wf cs" using Clove_valid_iff [OF assms(2)] by blast
  let ?s = "sum_list (map CloveEncodedLen cs)" and ?b = "concat (map clove_bytes cs)" and ?c = "of_nat (length cs) :: u8"
  have room: "16 + ?s \<le> length dst" using k(2) l(2) by linarith
  then have d0: "dst[0 := ?c] = put_at 0 [?c] dst" by (intro list_update_put_at) linarith
  have "marshal_cloves cs (dst[0 := ?c]) cloveSetPrefixLen = Inr (put_at 0 (?c # ?b) dst, 1 + ?s)"
    using marshal_cloves_eq [OF wf, of 1 "dst[0 := ?c]"] room length_cloves [OF wf] unfolding d0 by (simp add: cloveSetPrefixLen_def put_at_put_at)
  then have o: "(out, n) = set_trailer messageID expiration (put_at 0 (?c # ?b) dst) (1 + ?s)" using go by simp
  have res: "(out, n) = (put_at 0 (clove_set_bytes cs messageID expiration) dst, 1 + ?s + 15)"
    unfolding o using set_trailer_eq [of "1 + ?s" "put_at 0 (?c # ?b) dst" messageID expiration] room length_cloves [OF wf]
    by (simp add: put_at_put_at clove_set_bytes_def)
  have "length (clove_set_bytes cs messageID expiration) = 1 + ?s + 15" by (simp add: clove_set_bytes_def length_cloves [OF wf])
  then show n: "n = length (clove_set_bytes cs messageID expiration)" "n \<le> length dst" using res room by simp_all
  then show "out = clove_set_bytes cs messageID expiration @ drop n dst"
    using res put_at_0 [of "clove_set_bytes cs messageID expiration" dst] by simp
qed

lemma clove_loop_bytes:
  "list_all clove_wf cs \<Longrightarrow> drop off src = concat (map clove_bytes cs) @ rest \<Longrightarrow>
   clove_loop (length cs) src off = Inr (off + length (concat (map clove_bytes cs)))"
proof (induction cs arbitrary: off)
  case (Cons c cs)
  have "ParseClove (drop off src) = Inr (clove_view c, length (clove_bytes c))"
    using Cons.prems ParseClove_bytes [of c] by (simp add: length_clove_bytes)
  moreover have "drop (off + length (clove_bytes c)) src = drop (length (clove_bytes c)) (drop off src)" by (simp add: add.commute)
  then have "drop (off + length (clove_bytes c)) src = concat (map clove_bytes cs) @ rest" using Cons.prems(2) by simp
  ultimately show ?case using Cons by simp
qed simp

lemma ParseCloveSet_bytes:
  assumes "list_all clove_wf cs" "length cs \<le> 255"
  shows "ParseCloveSet (clove_set_bytes cs messageID expiration) =
    Inr \<lparr>csCount = of_nat (length cs), csCloves = concat (map clove_bytes cs), csMessageID = messageID, csExpiration = expiration\<rparr>"
proof -
  let ?src = "clove_set_bytes cs messageID expiration" and ?b = "concat (map clove_bytes cs)"
  let ?off = "1 + length ?b"
  have c: "unat (of_nat (length cs) :: u8) = length cs" using assms(2) by simp
  have loop: "clove_loop (length cs) ?src 1 = Inr ?off" using clove_loop_bytes [OF assms(1), of 1 ?src] by (simp add: clove_set_bytes_def)
  have d: "drop ?off ?src = 0 # 0 # 0 # PutUint32 messageID @ PutUint64 expiration" by (simp add: clove_set_bytes_def)
  have more: "drop (?off + k) ?src = drop k (0 # 0 # 0 # PutUint32 messageID @ PutUint64 expiration)" for k
    unfolding d [symmetric] drop_drop by (simp only: add.commute)
  have s: "slice (?off + 3) (?off + 7) ?src = PutUint32 messageID" "slice (?off + 7) (?off + 15) ?src = PutUint64 expiration"
    unfolding slice_def more by simp_all
  have "slice 1 ?off ?src = ?b" "?src ! 0 = of_nat (length cs)" "length ?src = ?off + 15" by (simp_all add: clove_set_bytes_def slice_def)
  then show ?thesis unfolding ParseCloveSet_def Let_def
    using c loop d s null_certificate [of "PutUint32 messageID @ PutUint64 expiration"] by (simp add: codec_simps)
qed

section \<open>Parsers read a prefix\<close>

text \<open>A parser that reports how much it read does not look further.\<close>

lemma slice_take: "j \<le> m \<Longrightarrow> slice i j (take m s) = slice i j s"
  by (cases "i \<le> j") (simp_all add: slice_def take_drop min_def)

lemma Uint16_take: "2 \<le> m \<Longrightarrow> Uint16 (take m s) = Uint16 s" and Uint32_take: "4 \<le> m \<Longrightarrow> Uint32 (take m s) = Uint32 s"
  and Uint64_take: "8 \<le> m \<Longrightarrow> Uint64 (take m s) = Uint64 s"
  by (simp_all add: Uint16_def Uint32_def Uint64_def min_def)

lemma ParseDelivery_prefix:
  assumes "ParseDelivery s = Inr (d, n)"
  shows "1 \<le> n \<and> n \<le> length s \<and> (n \<le> m \<longrightarrow> ParseDelivery (take m s) = Inr (d, n))"
proof -
  define t where "t = drop_bit 5 (s ! 0) AND 3"
  have "t = 0 \<or> t \<noteq> 0 \<and> t \<noteq> 3 \<or> t = 3" by blast
  then show ?thesis
    using assms
    by (elim disjE; cases "s ! 0 AND 0x10 = 0")
      (auto simp: ParseDelivery_def delivery_tunnel_def delivery_delay_def Let_def t_def [symmetric] bindR_eq_Inr slice_take min_def Suc_le_eq split: if_splits)
qed

lemma parseStandard_prefix:
  assumes "parseStandard s limit False = Inr (msg, n)"
  shows "n \<le> length s \<and> (n \<le> m \<longrightarrow> parseStandard (take m s) limit False = Inr (msg, n))"
  using assms
  by (auto simp: parseStandard_def StandardHeaderLen_def Let_def slice_take drop_take Uint16_take Uint32_take Uint64_take min_def split: if_splits)

lemma ParseCertificate_prefix:
  assumes "ParseCertificate s = Inr (c, n)"
  shows "3 \<le> n \<and> n \<le> length s \<and> (n \<le> m \<longrightarrow> ParseCertificate (take m s) = Inr (c, n))"
  using assms
  by (auto simp: ParseCertificate_def CertificateHeader_def Let_def slice_take drop_take Uint16_take min_def split: if_splits)

lemma ParseClove_prefix:
  assumes "ParseClove s = Inr (c, n)"
  shows "1 \<le> n \<and> n \<le> length s \<and> (n \<le> m \<longrightarrow> ParseClove (take m s) = Inr (c, n))"
proof -
  obtain d a msg b cert l where p: "ParseDelivery s = Inr (d, a)" "ParseUnchecked (drop a s) = Inr (msg, b)" "\<not> length s - (a + b) < 15"
    "ParseCertificate (drop (a + b + 12) s) = Inr (cert, l)" "cType cert = CertificateNull" "n = a + b + 12 + l"
    "c = \<lparr>cvDelivery = d, cvMessage = msg, cvID = Uint32 (slice (a + b) (a + b + 4) s), cvExpiration = Uint64 (slice (a + b + 4) (a + b + 12) s)\<rparr>"
    using assms by (auto simp: ParseClove_def bindR_eq_Inr Let_def split: if_splits prod.splits)
  note d = ParseDelivery_prefix [OF p(1)] and u = parseStandard_prefix [OF p(2) [unfolded ParseUnchecked_def]] and l = ParseCertificate_prefix [OF p(4)]
  have ab: "a + b + 12 \<le> length s" "l \<le> length s - (a + b + 12)" "3 \<le> l" using p(3) l by auto
  have "ParseClove (take m s) = Inr (c, n)" if "n \<le> m"
  proof -
    have "ParseDelivery (take m s) = Inr (d, a)" using d that p(6) by simp
    moreover have "ParseUnchecked (drop a (take m s)) = Inr (msg, b)"
      using u that p(6) unfolding drop_take ParseUnchecked_def by simp
    moreover have "ParseCertificate (drop (a + b + 12) (take m s)) = Inr (cert, l)" using l that p(6) unfolding drop_take by simp
    moreover have "\<not> length (take m s) - (a + b) < 15" using p(3,6) that ab by auto
    ultimately show ?thesis using p(5-7) that ab by (simp add: ParseClove_def Let_def slice_take)
  qed
  then show ?thesis using ab p(6) d by auto
qed

lemma clove_loop_Inr:
  "clove_loop k src off = Inr stop \<Longrightarrow> off \<le> length src \<Longrightarrow> off \<le> stop \<and> stop \<le> length src \<and>
   (\<exists>cs. length cs = k \<and> (k \<le> 255 \<longrightarrow> (\<forall>fuel > k. drain CloveNext fuel (slice off stop src, of_nat k) = Some (Inr cs))))"
proof (induction k arbitrary: off)
  case 0
  have "drain CloveNext fuel (s, 0) = Some (Inr [])" if "fuel > 0" for fuel s using that by (cases fuel) (simp_all add: CloveNext_def)
  then show ?case using 0 by auto
next
  case (Suc k)
  then obtain c n where c: "ParseClove (drop off src) = Inr (c, n)" "clove_loop k src (off + n) = Inr stop"
    by (auto simp: bindR_eq_Inr)
  have "n \<le> length (drop off src)" using ParseClove_prefix [OF c(1)] by blast
  then have "off + n \<le> length src" using Suc.prems(2) by simp
  from Suc.IH [OF c(2) this] obtain cs where cs: "off + n \<le> stop" "stop \<le> length src" "length cs = k"
    "k \<le> 255 \<longrightarrow> (\<forall>fuel > k. drain CloveNext fuel (slice (off + n) stop src, of_nat k) = Some (Inr cs))" by blast
  have "drain CloveNext fuel (slice off stop src, of_nat (Suc k)) = Some (Inr (c # cs))" if "Suc k \<le> 255" "fuel > Suc k" for fuel
  proof -
    obtain g where g: "fuel = Suc g" "g > k" using \<open>fuel > Suc k\<close> by (cases fuel) auto
    have "unat (of_nat (Suc k) :: u8) = Suc k" using that(1) by (intro unat_of_nat_u8) simp
    then have "(of_nat (Suc k) :: u8) \<noteq> 0" by auto
    moreover have "ParseClove (slice off stop src) = Inr (c, n)" using ParseClove_prefix [OF c(1), of "stop - off"] cs(1) unfolding slice_def by simp
    moreover have "drop n (slice off stop src) = slice (off + n) stop src" by (simp add: slice_def drop_take add.commute)
    ultimately have "CloveNext (slice off stop src, of_nat (Suc k)) = Inr (Some (c, (slice (off + n) stop src, of_nat k)))"
      by (simp add: CloveNext_def)
    then show ?thesis using cs(4) that(1) g by simp
  qed
  then have "\<exists>cs. length cs = Suc k \<and> (Suc k \<le> 255 \<longrightarrow> (\<forall>fuel > Suc k. drain CloveNext fuel (slice off stop src, of_nat (Suc k)) = Some (Inr cs)))"
    using cs(3) by (intro exI [of _ "c # cs"]) (simp del: of_nat_Suc)
  then show ?case using cs(1,2) by (simp del: of_nat_Suc)
qed

lemma null_certificate_back:
  assumes "ParseCertificate t = Inr (c, 3)" "cType c = CertificateNull"
  shows "take 3 t = [0, 0, 0]"
proof -
  have len: "3 \<le> length t" and c: "t ! 0 = 0" "unat (Uint16 (drop 1 t)) = 0"
    using assms by (auto simp: ParseCertificate_def CertificateHeader_def Let_def split: if_splits)
  have "take 2 (drop 1 t) = PutUint16 (Uint16 (drop 1 t))" using PutUint16_Uint16 [of "drop 1 t"] len by simp
  also have "\<dots> = [0, 0]" using c(2) by (simp add: unat_eq_0 eval_simps)
  finally have "take 2 (drop 1 t) = [0, 0]" .
  then show ?thesis using c(1) len by (cases t) simp_all
qed

lemma ParseCloveSet_back:
  assumes "ParseCloveSet src = Inr s"
  shows "src = [csCount s] @ csCloves s @ [0, 0, 0] @ PutUint32 (csMessageID s) @ PutUint64 (csExpiration s)"
    "\<exists>cs. drain CloveNext 256 (Cloves s) = Some (Inr cs) \<and> length cs = unat (csCount s)"
proof -
  obtain off c where p: "0 < length src" "clove_loop (unat (src ! 0)) src 1 = Inr off" "int (length src) - int off = 15"
    "ParseCertificate (drop off src) = Inr (c, 3)" "cType c = CertificateNull"
    "s = \<lparr>csCount = src ! 0, csCloves = slice 1 off src, csMessageID = Uint32 (slice (off + 3) (off + 7) src), csExpiration = Uint64 (slice (off + 7) (off + 15) src)\<rparr>"
    using assms by (auto simp: ParseCloveSet_def Let_def bindR_eq_Inr split: if_splits sum.splits)
  have len: "length src = off + 15" using p(3) by linarith
  have "1 \<le> length src" using p(1) by linarith
  from clove_loop_Inr [OF p(2) this] obtain cs where cs: "1 \<le> off" "length cs = unat (src ! 0)"
    "unat (src ! 0) \<le> 255 \<longrightarrow> (\<forall>fuel > unat (src ! 0). drain CloveNext fuel (slice 1 off src, of_nat (unat (src ! 0))) = Some (Inr cs))" by blast
  have "unat (src ! 0) \<le> 255" "unat (src ! 0) < 256" using unat_u8_less [of "src ! 0"] by linarith+
  then have "drain CloveNext 256 (slice 1 off src, of_nat (unat (src ! 0))) = Some (Inr cs)" using cs(3) by blast
  then show "\<exists>cs. drain CloveNext 256 (Cloves s) = Some (Inr cs) \<and> length cs = unat (csCount s)"
    using cs(2) by (intro exI [of _ cs]) (simp add: p(6) Cloves_def del: drain.simps)
  have hd: "src = [src ! 0] @ drop 1 src" using p(1) by (cases src) simp_all
  have last: "take 8 (drop (off + 7) src) = drop (off + 7) src" using len by simp
  have chunks: "take 4 (drop (off + 3) src) @ drop (off + 7) src = drop (off + 3) src"
    "take 3 (drop off src) @ drop (off + 3) src = drop off src" "slice 1 off src @ drop off src = drop 1 src"
    unfolding slice_def using cs(1) by (intro take_chunk, simp)+
  have "src = [src ! 0] @ slice 1 off src @ take 3 (drop off src) @ take 4 (drop (off + 3) src) @ take 8 (drop (off + 7) src)"
    unfolding last chunks by (rule hd)
  moreover have "PutUint32 (csMessageID s) = take 4 (drop (off + 3) src)" "PutUint64 (csExpiration s) = take 8 (drop (off + 7) src)"
    using len by (simp_all add: p(6) slice_def PutUint32_Uint32 PutUint64_Uint64)
  moreover have "csCount s = src ! 0" "csCloves s = slice 1 off src" by (simp_all add: p(6))
  ultimately show "src = [csCount s] @ csCloves s @ [0, 0, 0] @ PutUint32 (csMessageID s) @ PutUint64 (csExpiration s)"
    using null_certificate_back [OF p(4,5)] by (simp only:)
qed

section \<open>Properties\<close>

text \<open>
  C21. What is packed into a clove set comes out of it: if \<open>MarshalCloveSetTo\<close> accepts a list of cloves, the bytes it reports
  parse as a clove set with the given id and expiration, the loop over the iterator ends and yields exactly the given
  cloves in order (with the fields that the format does not carry for their delivery type at zero), and nothing is
  written behind those bytes.
\<close>

theorem clove_set_roundtrip:
  assumes "MarshalCloveSetTo dst cs messageID expiration = Inr (out, n)" "\<forall>c \<in> set cs. length (dTo (cvDelivery c)) = 32"
  shows "\<exists>s. ParseCloveSet (take n out) = Inr s \<and> csMessageID s = messageID \<and> csExpiration s = expiration \<and>
    drain CloveNext 256 (Cloves s) = Some (Inr (map clove_view cs)) \<and> n \<le> length dst \<and> drop n out = drop n dst"
proof -
  note b = MarshalCloveSetTo_back [OF assms]
  have t: "take n out = clove_set_bytes cs messageID expiration" "drop n out = drop n dst" using b(3,5) by simp_all
  have "drain CloveNext 256 (concat (map clove_bytes cs) @ [], of_nat (length cs)) = Some (Inr (map clove_view cs))"
    using b(1,2) by (intro cloves.drain_counted_items) simp_all
  then show ?thesis using t b(4) ParseCloveSet_bytes [OF b(2,1)] by (simp add: Cloves_def del: drain.simps)
qed

text \<open>A set of one tunnel clove with an empty message.\<close>

definition sample_clove :: Clove where
  "sample_clove = \<lparr>cvDelivery = \<lparr>dType = DeliveryTunnel, dTo = replicate 32 7, dTunnelID = 9, dDelay = 0\<rparr>,
     cvMessage = \<lparr>mHeader = \<lparr>hType = 20, hID = 5, hExpiration = 6\<rparr>, mPayload = []\<rparr>, cvID = 3, cvExpiration = 4\<rparr>"

lemma sample_clove_wf: "clove_wf sample_clove" "CloveEncodedLen sample_clove = 68"
  by (simp_all add: clove_wf_def delivery_wf_def Delivery_valid_def sample_clove_def CloveEncodedLen_def DeliveryEncodedLen_def Let_def EncodedLen_def
      clove_consts StandardHeaderLen_def)

theorem clove_set_roundtrip_witness:
  "\<exists>out s. MarshalCloveSetTo (replicate 84 0) [sample_clove] 1 2 = Inr (out, 84) \<and> ParseCloveSet (take 84 out) = Inr s \<and>
     drain CloveNext 256 (Cloves s) = Some (Inr [sample_clove])"
proof -
  have l: "CloveSetEncodedLen [sample_clove] = Inr 84"
    using sample_clove_wf by (simp add: CloveSetEncodedLen_def Clove_valid_iff [of "[sample_clove]"] clove_consts)
      (simp add: Clove_valid_def clove_wf_def delivery_wf_def)
  have "marshal_cloves [sample_clove] ((replicate 84 0)[0 := of_nat 1]) 1 = Inr (put_at 1 (clove_bytes sample_clove) ((replicate 84 0)[0 := of_nat 1]), 69)"
    using marshal_cloves_eq [of "[sample_clove]" 1 "(replicate 84 0)[0 := of_nat 1]"] sample_clove_wf by simp
  then obtain out where m: "MarshalCloveSetTo (replicate 84 0) [sample_clove] 1 2 = Inr (out, 84)"
    using l by (simp add: MarshalCloveSetTo_def cloveSetPrefixLen_def set_trailer_def Let_def cloveCertificateLen_def)
  have "\<forall>c \<in> set [sample_clove]. length (dTo (cvDelivery c)) = 32" by (simp add: sample_clove_def)
  from clove_set_roundtrip [OF m this] m show ?thesis
    by (auto simp: clove_view_def delivery_view_def sample_clove_def simp del: drain.simps)
qed

text \<open>
  An accepted clove set is fully usable and canonical: the loop over its iterator ends without error after exactly the
  announced number of cloves, although the iterator only sees the bytes of the cloves, and \<open>MarshalTo\<close> reproduces the
  source bytes.
\<close>

theorem clove_set_exact:
  assumes "ParseCloveSet src = Inr s"
  shows "(\<exists>cs. drain CloveNext 256 (Cloves s) = Some (Inr cs) \<and> length cs = unat (csCount s)) \<and>
    (\<forall>buf. length src \<le> length buf \<longrightarrow> CloveSet_MarshalTo s buf = Inr (src @ drop (length src) buf, length src))"
proof (intro conjI allI impI)
  show "\<exists>cs. drain CloveNext 256 (Cloves s) = Some (Inr cs) \<and> length cs = unat (csCount s)" using ParseCloveSet_back(2) [OF assms] .
  fix buf :: bytes assume room: "length src \<le> length buf"
  let ?n = "length (csCloves s)"
  have src: "src = [csCount s] @ csCloves s @ [0, 0, 0] @ PutUint32 (csMessageID s) @ PutUint64 (csExpiration s)" using ParseCloveSet_back(1) [OF assms] .
  have len: "length src = 1 + ?n + 15" unfolding src by simp
  have "buf[0 := csCount s] = put_at 0 [csCount s] buf" using room len by (intro list_update_put_at) linarith
  then have "CloveSet_MarshalTo s buf = Inr (put_at 0 src buf, length src)"
    using room len set_trailer_eq [of "1 + ?n" "put_at 0 (csCount s # csCloves s) buf" "csMessageID s" "csExpiration s"]
    unfolding src by (simp add: CloveSet_MarshalTo_def CloveSet_EncodedLen_def clove_consts put_at_put_at)
  then show "CloveSet_MarshalTo s buf = Inr (src @ drop (length src) buf, length src)" using put_at_0 [OF room] by simp
qed

text \<open>The empty clove set.\<close>

theorem clove_set_exact_witness:
  "\<exists>s. ParseCloveSet (replicate 16 0) = Inr s \<and> CloveSet_MarshalTo s (replicate 16 1) = Inr (replicate 16 0, 16)"
proof -
  have "clove_set_bytes [] 0 0 = replicate 16 0" by code_simp
  then obtain s where s: "ParseCloveSet (replicate 16 0) = Inr s" using ParseCloveSet_bytes [of "[]" 0 0] by simp
  have "CloveSet_MarshalTo s (replicate 16 1) = Inr (replicate 16 0 @ drop (length (replicate 16 (0 :: u8))) (replicate 16 1), length (replicate 16 (0 :: u8)))"
    using clove_set_exact [OF s] by simp
  then show ?thesis using s by simp
qed

end
