(* ===== verification/Garlic_Tags.thy ===== *)
theory Garlic_Tags
  imports Bounded_Store
begin

text \<open>
  The store of one-use session tags (\<open>dataplane/internal/garlic/tags.go\<close>). A tag and a key are lists of 32 bytes. The
  map is an association list with distinct keys; \<open>order\<close> is the order of a range loop over it. Every method holds
  the mutex for its whole body. The nil map of a cleared store behaves like the empty one. Overwriting a key before its
  entry is deleted leaves no trace in the map, so it is not part of the model.
\<close>

section \<open>Operations\<close>

record tagEntry =
  tKey :: bytes
  tExpires :: u64

record TagStore =
  tMax :: nat
  tTags :: "(bytes \<times> tagEntry) list"

type_synonym tag_order = "(bytes \<times> tagEntry) list \<Rightarrow> (bytes \<times> tagEntry) list"

definition NewTagStore :: "int \<Rightarrow> TagStore" where
  "NewTagStore m = \<lparr>tMax = (if m \<le> 0 then 4096 else nat m), tTags = []\<rparr>"

text \<open>The scan for the entry to drop; the zero tag stands until an entry with an earlier deadline is met.\<close>

definition oldest_tag :: "(bytes \<times> tagEntry) list \<Rightarrow> bytes" where
  "oldest_tag ts =
     fst (foldl (\<lambda>(oldest, deadline) (candidate, e). if tExpires e < deadline then (candidate, tExpires e) else (oldest, deadline))
       (replicate 32 0, NOT 0) ts)"

definition TagPut :: "tag_order \<Rightarrow> bytes \<Rightarrow> bytes \<Rightarrow> u64 \<Rightarrow> TagStore \<Rightarrow> TagStore \<times> bool" where
  "TagPut order tag key expires s =
     (if length tag \<noteq> 32 \<or> length key \<noteq> 32 then (s, False)
      else let ts = (if length (tTags s) = tMax s then AList.delete (oldest_tag (order (tTags s))) (tTags s) else tTags s)
        in (s\<lparr>tTags := AList.update tag \<lparr>tKey = key, tExpires = expires\<rparr> ts\<rparr>, True))"

text \<open>\<open>subtle.ConstantTimeCompare\<close> of the tag with its own copy.\<close>

definition TagTake :: "bytes \<Rightarrow> u64 \<Rightarrow> TagStore \<Rightarrow> TagStore \<times> bytes option" where
  "TagTake tag now s =
     (if length tag \<noteq> 32 then (s, None)
      else case map_of (tTags s) tag of
        None \<Rightarrow> (s, None)
      | Some e \<Rightarrow> (s\<lparr>tTags := AList.delete tag (tTags s)\<rparr>, if tExpires e < now then None else Some (tKey e)))"

definition TagExpire :: "u64 \<Rightarrow> TagStore \<Rightarrow> TagStore \<times> nat" where
  "TagExpire now s =
     (s\<lparr>tTags := filter (\<lambda>(tag, e). \<not> tExpires e < now) (tTags s)\<rparr>, length (filter (\<lambda>(tag, e). tExpires e < now) (tTags s)))"

definition TagClear :: "TagStore \<Rightarrow> TagStore" where "TagClear s = s\<lparr>tTags := []\<rparr>"

section \<open>Histories\<close>

datatype tag_act = ActPut tag_order bytes bytes u64 | ActTake bytes u64 | ActTagExpire u64 | ActTagClear

definition tag_step :: "TagStore \<Rightarrow> tag_act \<Rightarrow> TagStore" where
  "tag_step s act =
     (case act of ActPut order tag key e \<Rightarrow> fst (TagPut order tag key e s) | ActTake tag now \<Rightarrow> fst (TagTake tag now s)
      | ActTagExpire now \<Rightarrow> fst (TagExpire now s) | ActTagClear \<Rightarrow> TagClear s)"

text \<open>
  What a tag stands for after a history: the key and deadline of the last successful put of the tag, unless the tag was
  taken or everything was cleared since. This is all that the store may answer.
\<close>

definition tag_offer :: "bytes \<Rightarrow> (bytes \<times> u64) option \<Rightarrow> tag_act \<Rightarrow> (bytes \<times> u64) option" where
  "tag_offer tag o' act =
     (case act of ActPut order t key e \<Rightarrow> if t = tag \<and> length t = 32 \<and> length key = 32 then Some (key, e) else o'
      | ActTake t now \<Rightarrow> if t = tag then None else o' | ActTagExpire now \<Rightarrow> o' | ActTagClear \<Rightarrow> None)"

definition tag_offers :: "tag_act list \<Rightarrow> bytes \<Rightarrow> (bytes \<times> u64) option" where "tag_offers as tag = foldl (tag_offer tag) None as"

lemma map_of_filter_Some:
  assumes "distinct (map fst ts)" "map_of (filter P ts) k = Some v" shows "map_of ts k = Some v"
  using map_of_SomeD [OF assms(2)] assms(1) by (auto intro: map_of_is_SomeI)

definition tags_ok :: "TagStore \<Rightarrow> bool" where
  "tags_ok s \<longleftrightarrow> distinct (map fst (tTags s)) \<and> 0 < tMax s \<and> fst ` set (tTags s) \<subseteq> {k. length k = 32}"

lemma tags_ok_key: "tags_ok s \<Longrightarrow> map_of (tTags s) k = Some e \<Longrightarrow> length k = 32"
  by (force simp: tags_ok_def dest: map_of_SomeD)

lemma tags_ok_sub: "tags_ok s \<Longrightarrow> distinct (map fst ts) \<Longrightarrow> fst ` set ts \<subseteq> insert k (fst ` set (tTags s)) \<Longrightarrow> length k = 32 \<Longrightarrow> tags_ok (s\<lparr>tTags := ts\<rparr>)"
  by (simp add: tags_ok_def) blast

lemma AList_delete_map: "map_of (AList.delete j ts) k = (if k = j then None else map_of ts k)"
  by (simp add: AList.delete_conv)

lemma AList_update_map: "map_of (AList.update j v ts) k = (if k = j then Some v else map_of ts k)"
  by (simp add: AList.update_conv)

lemma update_length_le: "length (AList.update k v ts) \<le> Suc (length ts)"
  by (induction ts) auto

lemma update_keys_subset: "fst ` set (AList.update k v ts) \<subseteq> insert k (fst ` set ts)"
  by (induction ts) auto

lemma delete_keys_subset: "fst ` set (AList.delete k ts) \<subseteq> fst ` set ts"
  by (auto simp: AList.delete_eq)

lemma tag_step_ok: "tags_ok s \<Longrightarrow> tags_ok (tag_step s act) \<and> tMax (tag_step s act) = tMax s"
proof (cases act)
  case (ActPut order tag key e)
  moreover assume s: "tags_ok s"
  define ts where "ts = (if length (tTags s) = tMax s then AList.delete (oldest_tag (order (tTags s))) (tTags s) else tTags s)"
  have "distinct (map fst ts)" "fst ` set ts \<subseteq> fst ` set (tTags s)"
    using s delete_keys_subset [of "oldest_tag (order (tTags s))" "tTags s"] by (simp_all add: ts_def tags_ok_def distinct_delete)
  then have "tags_ok (s\<lparr>tTags := AList.update tag \<lparr>tKey = key, tExpires = e\<rparr> ts\<rparr>)" if "length tag = 32"
    using update_keys_subset [of tag "\<lparr>tKey = key, tExpires = e\<rparr>" ts] by (intro tags_ok_sub [OF s _ _ that] distinct_update) blast+
  ultimately show ?thesis using s by (auto simp: tag_step_def TagPut_def Let_def ts_def [symmetric])
next
  case (ActTake tag now)
  moreover assume "tags_ok s"
  ultimately show ?thesis using delete_keys_subset [of tag "tTags s"]
    by (simp add: tag_step_def TagTake_def tags_ok_def distinct_delete split: option.split) blast
next
  case (ActTagExpire now)
  moreover assume "tags_ok s"
  ultimately show ?thesis by (auto simp: tag_step_def TagExpire_def tags_ok_def distinct_map_filter)
qed (auto simp: tag_step_def TagClear_def tags_ok_def)

text \<open>The store holds nothing but what was offered.\<close>

lemma tag_step_sound:
  assumes "tags_ok s" "\<And>tag e. map_of (tTags s) tag = Some e \<Longrightarrow> f tag = Some (tKey e, tExpires e)" "map_of (tTags (tag_step s act)) tag = Some e"
  shows "tag_offer tag (f tag) act = Some (tKey e, tExpires e)"
proof (cases act)
  case (ActPut order t key x)
  then show ?thesis using assms
    by (auto simp: tag_step_def TagPut_def tag_offer_def Let_def AList_update_map AList_delete_map split: if_splits)
next
  case (ActTake t now)
  then show ?thesis using assms tags_ok_key [OF assms(1)]
    by (auto simp: tag_step_def TagTake_def tag_offer_def AList_delete_map split: if_splits option.splits)
next
  case (ActTagExpire now)
  then have kept: "map_of (filter (\<lambda>(tag, e). \<not> tExpires e < now) (tTags s)) tag = Some e" using assms(3) by (simp add: tag_step_def TagExpire_def)
  have "map_of (tTags s) tag = Some e" by (rule map_of_filter_Some [OF _ kept]) (use assms(1) in \<open>simp add: tags_ok_def\<close>)
  then show ?thesis using ActTagExpire assms(2) by (simp add: tag_offer_def)
qed (use assms in \<open>auto simp: tag_step_def TagClear_def\<close>)

lemma tag_run_sound:
  "tags_ok s \<Longrightarrow> (\<And>tag e. map_of (tTags s) tag = Some e \<Longrightarrow> f tag = Some (tKey e, tExpires e)) \<Longrightarrow>
   tags_ok (foldl tag_step s as) \<and> tMax (foldl tag_step s as) = tMax s \<and>
   (\<forall>tag e. map_of (tTags (foldl tag_step s as)) tag = Some e \<longrightarrow> foldl (tag_offer tag) (f tag) as = Some (tKey e, tExpires e))"
proof (induction as arbitrary: s f)
  case (Cons a as)
  have "tags_ok (tag_step s a)" "tMax (tag_step s a) = tMax s" using tag_step_ok [OF Cons.prems(1)] by blast+
  moreover have "tag_offer tag (f tag) a = Some (tKey e, tExpires e)" if "map_of (tTags (tag_step s a)) tag = Some e" for tag e
    using tag_step_sound [OF Cons.prems(1) _ that] Cons.prems(2) by blast
  ultimately show ?case using Cons.IH [of "tag_step s a" "\<lambda>tag. tag_offer tag (f tag) a"] by simp
qed simp

lemma NewTagStore_ok: "tags_ok (NewTagStore m)" "tTags (NewTagStore m) = []"
  by (simp_all add: NewTagStore_def tags_ok_def)

text \<open>The size: a put below the cap adds at most one entry, a put at the cap first drops one, if the scan finds one.\<close>

definition early :: "TagStore \<Rightarrow> bool" where "early s \<longleftrightarrow> length (tTags s) \<le> tMax s \<and> (\<forall>(k, e) \<in> set (tTags s). tExpires e \<noteq> NOT 0)"

lemma early_filter: "early s \<Longrightarrow> early (s\<lparr>tTags := filter P (tTags s)\<rparr>)"
  using le_trans [OF length_filter_le [of P "tTags s"]] by (auto simp: early_def)

lemma oldest_tag_found:
  assumes "(k, e) \<in> set ts" "\<forall>(k, e) \<in> set ts. tExpires e \<noteq> NOT 0"
  shows "oldest_tag ts \<in> fst ` set ts"
proof -
  let ?g = "\<lambda>(oldest, deadline) (candidate, e). if tExpires e < deadline then (candidate, tExpires e) else (oldest, deadline)"
  have inv: "fst (foldl ?g s xs) \<in> fst ` set xs \<or> (foldl ?g s xs = s \<and> (\<forall>(k, e) \<in> set xs. \<not> tExpires e < snd s))" for s and xs :: "(bytes \<times> tagEntry) list"
  proof (induction xs arbitrary: s)
    case (Cons x xs)
    show ?case using Cons.IH [of "?g s x"] by (cases x; cases s) (auto split: if_splits)
  qed simp
  have "tExpires e \<noteq> NOT 0" using assms by auto
  then have "unat (tExpires e) \<noteq> 18446744073709551615" by (simp add: word_unat_eq_iff)
  then have "tExpires e < NOT 0" using unat_u64_less [of "tExpires e"] by (simp add: word_less_nat_alt del: unat_u64_less)
  then show ?thesis using inv [of "(replicate 32 0, NOT 0)" ts] assms(1) unfolding oldest_tag_def by auto
qed

lemma put_size:
  assumes "tags_ok s" "early s" "visits_all order" "e \<noteq> NOT 0"
  shows "early (fst (TagPut order tag key e s))"
proof -
  define ts where "ts = (if length (tTags s) = tMax s then AList.delete (oldest_tag (order (tTags s))) (tTags s) else tTags s)"
  have sub: "set ts \<subseteq> set (tTags s)" by (auto simp: ts_def AList.delete_eq)
  have "length ts < tMax s"
  proof (cases "length (tTags s) = tMax s")
    case True
    then obtain k v where "(k, v) \<in> set (tTags s)" using assms(1) unfolding tags_ok_def by (cases "tTags s") auto
    then have "oldest_tag (order (tTags s)) \<in> fst ` set (tTags s)"
      using oldest_tag_found [of k v "order (tTags s)"] assms(2) unfolding visits_all_set [OF assms(3)] early_def by blast
    then show ?thesis using length_delete_distinct [of "tTags s"] assms(1) True by (simp add: ts_def tags_ok_def)
  next
    case False
    then show ?thesis using assms(2) by (simp add: ts_def early_def)
  qed
  then have "length (AList.update tag \<lparr>tKey = key, tExpires = e\<rparr> ts) \<le> tMax s" using update_length_le [of tag _ ts] by (meson Suc_leI le_trans)
  moreover have "set (AList.update tag \<lparr>tKey = key, tExpires = e\<rparr> ts) \<subseteq> insert (tag, \<lparr>tKey = key, tExpires = e\<rparr>) (set ts)"
    by (induction ts) auto
  ultimately have "early (s\<lparr>tTags := AList.update tag \<lparr>tKey = key, tExpires = e\<rparr> ts\<rparr>)"
    using assms(2,4) sub unfolding early_def by (fastforce simp: early_def)
  then show ?thesis using assms(2) by (simp add: TagPut_def Let_def ts_def [symmetric])
qed

lemma step_size:
  assumes "tags_ok s" "early s" "\<And>order tag key e. act = ActPut order tag key e \<Longrightarrow> visits_all order \<and> e \<noteq> NOT 0"
  shows "early (tag_step s act)"
proof (cases act)
  case (ActPut order tag key e)
  then show ?thesis using put_size [OF assms(1,2)] assms(3) by (simp add: tag_step_def)
next
  case (ActTake tag now)
  then show ?thesis using assms(2) early_filter [of s "\<lambda>(k, _). tag \<noteq> k"] by (simp add: tag_step_def TagTake_def AList.delete_eq split: option.splits)
next
  case (ActTagExpire now)
  then show ?thesis using assms(2) by (simp add: tag_step_def TagExpire_def early_filter)
qed (simp add: tag_step_def TagClear_def early_def)

lemma run_size:
  "tags_ok s \<Longrightarrow> early s \<Longrightarrow> (\<And>order tag key e. ActPut order tag key e \<in> set as \<Longrightarrow> visits_all order \<and> e \<noteq> NOT 0) \<Longrightarrow> early (foldl tag_step s as)"
proof (induction as arbitrary: s)
  case (Cons a as)
  have "early (tag_step s a)" using Cons.prems by (intro step_size) auto
  then show ?case using Cons.IH [of "tag_step s a"] tag_step_ok [OF Cons.prems(1), of a] Cons.prems(3) by auto
qed simp

section \<open>Properties\<close>

text \<open>
  C24. A session tag works once and only for its own key: after any history of calls, \<open>Take\<close> answers at most the key of the
  last put of that tag, provided that the tag was neither taken nor cleared since and its deadline is not past; and a
  second take of the tag answers nothing. The store stays within its cap as long as no tag has the largest possible
  deadline.
\<close>

theorem tag_store_one_use:
  assumes "s = foldl tag_step (NewTagStore m) as"
  shows "(\<forall>key. snd (TagTake tag now s) = Some key \<longrightarrow> (\<exists>e. tag_offers as tag = Some (key, e) \<and> now \<le> e)) \<and>
    snd (TagTake tag now' (fst (TagTake tag now s))) = None \<and>
    ((\<forall>order tag key e. ActPut order tag key e \<in> set as \<longrightarrow> visits_all order \<and> e \<noteq> NOT 0) \<longrightarrow> length (tTags s) \<le> (if m \<le> 0 then 4096 else nat m))"
proof -
  have s: "tags_ok s" "tMax s = tMax (NewTagStore m)" "\<And>tag e. map_of (tTags s) tag = Some e \<Longrightarrow> tag_offers as tag = Some (tKey e, tExpires e)"
    using tag_run_sound [OF NewTagStore_ok(1) [of m], of "\<lambda>_. None" as] unfolding assms tag_offers_def by (auto simp: NewTagStore_ok)
  have "\<exists>e. tag_offers as tag = Some (key, e) \<and> now \<le> e" if "snd (TagTake tag now s) = Some key" for key
    using that s(3) by (auto simp: TagTake_def not_less split: if_splits option.splits)
  moreover have "snd (TagTake tag now' (fst (TagTake tag now s))) = None"
    by (auto simp: TagTake_def AList_delete_map split: option.splits)
  moreover have "length (tTags s) \<le> (if m \<le> 0 then 4096 else nat m)"
    if "\<forall>order tag key e. ActPut order tag key e \<in> set as \<longrightarrow> visits_all order \<and> e \<noteq> NOT 0"
  proof -
    have "early (NewTagStore m)" by (simp add: early_def NewTagStore_ok)
    then have "early s" unfolding assms using run_size [OF NewTagStore_ok(1)] that by blast
    then show ?thesis using s(2) by (simp add: early_def NewTagStore_def)
  qed
  ultimately show ?thesis by blast
qed

text \<open>A tag that is put and taken.\<close>

theorem tag_store_one_use_witness:
  "snd (TagTake (replicate 32 1) 5 (foldl tag_step (NewTagStore 1) [ActPut (\<lambda>xs. xs) (replicate 32 1) (replicate 32 2) 9])) = Some (replicate 32 2) \<and>
   snd (TagTake (replicate 32 1) 5 (fst (TagTake (replicate 32 1) 5 (foldl tag_step (NewTagStore 1) [ActPut (\<lambda>xs. xs) (replicate 32 1) (replicate 32 2) 9])))) = None"
proof -
  let ?as = "[ActPut (\<lambda>xs. xs) (replicate 32 1) (replicate 32 2) 9]"
  have "snd (TagTake (replicate 32 1) 5 (foldl tag_step (NewTagStore 1) ?as)) = Some (replicate 32 2)"
    by (simp add: tag_step_def TagPut_def TagTake_def NewTagStore_def word_less_nat_alt)
  then show ?thesis using tag_store_one_use [OF refl, of "replicate 32 1" 5 1 ?as 5] by blast
qed



end
