(* ===== verification/Block_Grammar.thy ===== *)
theory Block_Grammar
  imports Iterators
begin

text \<open>
  The contract of the payload iterators of SSU2 and NTCP2, which keep a padding and a termination flag: \<open>Next\<close> reads one block of the
  form \<open>enc\<close>, padding stands last and only padding follows a termination. Every payload that the loop accepts is then the concatenation of
  its blocks, and every well-ordered concatenation is accepted.
\<close>

text \<open>A block is its type, the length of its data as two bytes, and its data.\<close>

definition block_layout :: "u8 \<Rightarrow> bytes \<Rightarrow> bytes" where
  "block_layout kind data = kind # PutUint16 (of_nat (length data)) @ data"

lemma length_block_layout [simp]: "length (block_layout kind data) = 3 + length data"
  by (simp add: block_layout_def)

lemma block_layout_split:
  assumes "3 \<le> length rest" "n = unat (Uint16 (slice 1 3 rest))" "n \<le> length rest - 3"
  shows "rest = block_layout (rest ! 0) (slice 3 (3 + n) rest) @ drop (3 + n) rest"
proof -
  have n: "n < 65536" "(of_nat n :: u16) = Uint16 (slice 1 3 rest)" using assms(2) by simp_all
  have "PutUint16 (of_nat n) = slice 1 3 rest" using assms(1) n(2) by (simp add: codec_simps)
  then have "block_layout (rest ! 0) (slice 3 (3 + n) rest) = rest ! 0 # slice 1 3 rest @ slice 3 (3 + n) rest"
    using assms(1,3) by (simp add: block_layout_def min_def)
  moreover have "rest ! 0 # slice 1 3 rest @ slice 3 (3 + n) rest @ drop (3 + n) rest = rest"
  proof -
    have "slice 3 (3 + n) rest @ drop (3 + n) rest = drop 3 rest" by (simp add: slice_def take_chunk)
    moreover have "slice 1 3 rest @ drop 3 rest = drop 1 rest" by (simp add: slice_def take_chunk)
    moreover have "rest ! 0 # drop 1 rest = rest" using assms(1) by (cases rest) simp_all
    ultimately show ?thesis by simp
  qed
  ultimately show ?thesis by simp
qed

lemma block_layout_read:
  assumes "length data < 65536"
  shows "unat (Uint16 (slice 1 3 (block_layout kind data @ r))) = length data" "(block_layout kind data @ r) ! 0 = kind"
    "slice 3 (3 + length data) (block_layout kind data @ r) = data" "drop (3 + length data) (block_layout kind data @ r) = r"
  using assms drop_append [of "3 + length data" "block_layout kind data" r]
  by (simp_all add: block_layout_def slice_def codec_simps)

definition block_precedes :: "('b \<Rightarrow> u8) \<Rightarrow> u8 \<Rightarrow> u8 \<Rightarrow> 'b \<Rightarrow> 'b \<Rightarrow> bool" where
  "block_precedes kind padding closing a b \<longleftrightarrow> kind a \<noteq> padding \<and> (kind a = closing \<longrightarrow> kind b = padding)"

fun blocks_ok :: "('b \<Rightarrow> bool) \<Rightarrow> ('b \<Rightarrow> u8) \<Rightarrow> u8 \<Rightarrow> u8 \<Rightarrow> bool \<Rightarrow> 'b list \<Rightarrow> bool" where
  "blocks_ok ok kind padding closing terminated [] = True"
| "blocks_ok ok kind padding closing terminated (b # bs) =
     (ok b \<and> (terminated \<longrightarrow> kind b = padding) \<and> (kind b = padding \<longrightarrow> bs = []) \<and>
      blocks_ok ok kind padding closing (terminated \<or> kind b = closing) bs)"

lemma blocks_ok_iff:
  "blocks_ok ok kind padding closing t bs \<longleftrightarrow>
     list_all ok bs \<and> (t \<longrightarrow> (\<forall>b \<in> set bs. kind b = padding)) \<and> sorted_wrt (block_precedes kind padding closing) bs"
proof (induction bs arbitrary: t)
  case (Cons b bs)
  have "(kind b = padding \<longrightarrow> bs = []) \<longleftrightarrow> (\<forall>c \<in> set bs. kind b \<noteq> padding)" by (cases bs) auto
  moreover have "(\<forall>c \<in> set bs. block_precedes kind padding closing b c) \<longleftrightarrow>
      (\<forall>c \<in> set bs. kind b \<noteq> padding) \<and> (kind b = closing \<longrightarrow> (\<forall>c \<in> set bs. kind c = padding))"
    by (auto simp: block_precedes_def)
  ultimately show ?case using Cons.IH [of "t \<or> kind b = closing"] by auto
qed simp

locale block_grammar =
  fixes nxt :: "'s \<Rightarrow> ('b \<times> 's) option result" and rest :: "'s \<Rightarrow> bytes" and terminated :: "'s \<Rightarrow> bool" and padded :: "'s \<Rightarrow> bool"
    and enc :: "'b \<Rightarrow> bytes" and ok :: "'b \<Rightarrow> bool" and kind :: "'b \<Rightarrow> u8" and padding :: u8 and closing :: u8
  assumes enc_kind: "\<exists>body. enc b = kind b # body"
    and next_end: "nxt s = Inr None \<longleftrightarrow> rest s = []"
    and next_Some: "nxt s = Inr (Some (b, s')) \<Longrightarrow>
      rest s = enc b @ rest s' \<and> ok b \<and> \<not> padded s \<and> (terminated s \<longrightarrow> kind b = padding) \<and> (kind b = padding \<longrightarrow> rest s' = []) \<and>
      terminated s' = (terminated s \<or> kind b = closing) \<and> padded s' = (kind b = padding)"
    and next_enc: "rest s = enc b @ r \<Longrightarrow> ok b \<Longrightarrow> \<not> padded s \<Longrightarrow> (terminated s \<longrightarrow> kind b = padding) \<Longrightarrow> (kind b = padding \<longrightarrow> r = []) \<Longrightarrow>
      (kind b = closing \<longrightarrow> r = [] \<or> hd r = padding) \<Longrightarrow> \<exists>s'. nxt s = Inr (Some (b, s')) \<and> rest s' = r"
begin

lemma next_shrinks: "nxt s = Inr (Some (b, s')) \<Longrightarrow> length (rest s') < length (rest s)"
  using next_Some [of s b s'] enc_kind [of b] by auto

abbreviation parses where "parses \<equiv> blocks_ok ok kind padding closing"

lemma drain_blocks_ok:
  "parses (terminated s) bs \<Longrightarrow> rest s = concat (map enc bs) \<Longrightarrow> (padded s \<longrightarrow> bs = []) \<Longrightarrow> length bs < fuel \<Longrightarrow> drain nxt fuel s = Some (Inr bs)"
proof (induction bs arbitrary: s fuel)
  case Nil
  then obtain g where "fuel = Suc g" by (cases fuel) auto
  moreover have "nxt s = Inr None" using Nil.prems(2) next_end by simp
  ultimately show ?case by simp
next
  case (Cons b bs)
  obtain g where g: "fuel = Suc g" "length bs < g" using Cons.prems(4) by (cases fuel) auto
  have "concat (map enc bs) = [] \<or> hd (concat (map enc bs)) = padding" if "kind b = closing"
    using Cons.prems(1) that enc_kind [of "hd bs"] by (cases bs) auto
  then obtain s' where s': "nxt s = Inr (Some (b, s'))" "rest s' = concat (map enc bs)"
    using next_enc [of s b "concat (map enc bs)"] Cons.prems by auto
  then have "drain nxt g s' = Some (Inr bs)" using Cons.IH [of s' g] Cons.prems(1) next_Some [OF s'(1)] g by simp
  then show ?case using s' g by simp
qed

lemma drain_blocks_back:
  "drain nxt fuel s = Some (Inr bs) \<Longrightarrow> rest s = concat (map enc bs) \<and> parses (terminated s) bs \<and> (padded s \<longrightarrow> bs = [])"
proof (induction fuel arbitrary: s bs)
  case (Suc fuel)
  show ?case
  proof (cases "nxt s")
    case (Inr o')
    show ?thesis
    proof (cases o')
      case None
      then have "rest s = []" using Inr next_end by simp
      moreover have "bs = []" using Suc.prems Inr None by simp
      ultimately show ?thesis by simp
    next
      case (Some q)
      then obtain b s' where n: "nxt s = Inr (Some (b, s'))" using Inr by (cases q) auto
      then obtain bs' where r: "drain nxt fuel s' = Some (Inr bs')" "bs = b # bs'"
        using Suc.prems by (auto split: option.splits sum.splits)
      then show ?thesis using next_Some [OF n] Suc.IH [OF r(1)] enc_kind by (cases bs') auto
    qed
  qed (use Suc.prems in simp)
qed simp

lemma drain_blocks_iff:
  assumes "\<not> terminated s" "\<not> padded s" "length (rest s) < fuel"
  shows "drain nxt fuel s = Some (Inr bs) \<longleftrightarrow>
    rest s = concat (map enc bs) \<and> list_all ok bs \<and> sorted_wrt (block_precedes kind padding closing) bs"
proof -
  have l: "length bs \<le> length (concat (map enc bs))"
  proof (induction bs)
    case (Cons b bs)
    obtain body where "enc b = kind b # body" using enc_kind by blast
    then show ?case using Cons by simp
  qed simp
  show ?thesis
  proof
    assume "drain nxt fuel s = Some (Inr bs)"
    from drain_blocks_back [OF this] show "rest s = concat (map enc bs) \<and> list_all ok bs \<and> sorted_wrt (block_precedes kind padding closing) bs"
      unfolding blocks_ok_iff by blast
  next
    assume a: "rest s = concat (map enc bs) \<and> list_all ok bs \<and> sorted_wrt (block_precedes kind padding closing) bs"
    then have "parses (terminated s) bs" unfolding blocks_ok_iff using assms(1) by blast
    moreover have "length bs < fuel" using a l assms(3) by simp
    ultimately show "drain nxt fuel s = Some (Inr bs)" using a assms(2) by (intro drain_blocks_ok) simp_all
  qed
qed

end

sublocale block_grammar \<subseteq> item_iterator nxt "\<lambda>s. length (rest s)"
  by unfold_locales (rule next_shrinks)

end
