(* ===== verification/ChaCha.thy ===== *)
theory ChaCha
  imports IVNP_Prelude
begin

text \<open>
  The ChaCha20 and Poly1305 helpers of \<open>cryptography/chacha.go\<close>. The primitives are those of
  \<open>golang.org/x/crypto\<close>; they are the fields of a \<open>chacha_backend\<close> on which the functions depend:

  \<^item> \<open>keystream key nonce counter n\<close>: the first \<open>n\<close> bytes of the ChaCha20 key stream from the given block counter
    (\<open>chacha20.NewUnauthenticatedCipher\<close>, \<open>SetCounter\<close>, \<open>XORKeyStream\<close>);
  \<^item> \<open>poly1305_sum key message\<close>: the Poly1305 tag;
  \<^item> \<open>aead_Seal\<close> and \<open>aead_Open\<close>: the AEAD of \<open>chacha20poly1305.New\<close>.

  \<open>backend_ok\<close> is what they are documented to do: a key stream and a tag have their lengths, and the AEAD opens what
  it sealed. Wiping buffers has no observable result and is left out.
\<close>

record chacha_backend =
  keystream :: "bytes \<Rightarrow> bytes \<Rightarrow> nat \<Rightarrow> nat \<Rightarrow> bytes"
  poly1305_sum :: "bytes \<Rightarrow> bytes \<Rightarrow> bytes"
  aead_Seal :: "bytes \<Rightarrow> bytes \<Rightarrow> bytes \<Rightarrow> bytes \<Rightarrow> bytes"
  aead_Open :: "bytes \<Rightarrow> bytes \<Rightarrow> bytes \<Rightarrow> bytes \<Rightarrow> bytes option"

definition backend_ok :: "chacha_backend \<Rightarrow> bool" where
  "backend_ok B \<longleftrightarrow> (\<forall>key nonce c n. length (keystream B key nonce c n) = n) \<and> (\<forall>key m. length (poly1305_sum B key m) = 16) \<and>
     (\<forall>key nonce plain ad. length (aead_Seal B key nonce plain ad) = length plain + 16 \<and>
        aead_Open B key nonce (aead_Seal B key nonce plain ad) ad = Some plain)"

definition ChaChaKeySize :: nat where "ChaChaKeySize = 32"
definition ChaChaNonceSize :: nat where "ChaChaNonceSize = 12"
definition ChaChaTagSize :: nat where "ChaChaTagSize = 16"

lemmas chacha_consts = ChaChaKeySize_def ChaChaNonceSize_def ChaChaTagSize_def

text \<open>\<open>binary.LittleEndian.PutUint64\<close>.\<close>

definition PutUint64_LE :: "u64 \<Rightarrow> bytes" where "PutUint64_LE v = rev (PutUint64 v)"

lemma length_PutUint64_LE [simp]: "length (PutUint64_LE v) = 8"
  by (simp add: PutUint64_LE_def)

section \<open>The cipher object\<close>

text \<open>The AEAD of a cipher is the one for its key; a released cipher has none. \<open>None\<close> is the nil receiver.\<close>

record ChaCha20Poly1305 =
  cc_key :: bytes
  cc_aead :: "bytes option"
  cc_released :: bool

definition NewChaCha20Poly1305 :: "bytes \<Rightarrow> ChaCha20Poly1305 result" where
  "NewChaCha20Poly1305 key =
     (if length key \<noteq> ChaChaKeySize then Inl ErrKeyLength else Inr \<lparr>cc_key = key, cc_aead = Some key, cc_released = False\<rparr>)"

definition CopyKey :: "ChaCha20Poly1305 option \<Rightarrow> bytes \<Rightarrow> bytes result" where
  "CopyKey c dst =
     (case c of None \<Rightarrow> Inl ErrSensitiveReleased
      | Some c \<Rightarrow> if cc_released c then Inl ErrSensitiveReleased
          else if length dst < ChaChaKeySize then Inl ErrDestination
          else Inr (put_at 0 (cc_key c) dst))"

definition SealTo :: "chacha_backend \<Rightarrow> ChaCha20Poly1305 option \<Rightarrow> bytes \<Rightarrow> bytes \<Rightarrow> bytes \<Rightarrow> bytes \<Rightarrow> bytes result" where
  "SealTo B c dst nonce plaintext additionalData =
     (case c of None \<Rightarrow> Inl ErrSensitiveReleased
      | Some c \<Rightarrow> if cc_released c then Inl ErrSensitiveReleased
          else if length nonce \<noteq> ChaChaNonceSize then Inl ErrNonceLength
          else if length dst < length plaintext + ChaChaTagSize then Inl ErrDestination
          else case cc_aead c of None \<Rightarrow> Inl Panic | Some key \<Rightarrow> Inr (aead_Seal B key nonce plaintext additionalData))"

definition OpenTo :: "chacha_backend \<Rightarrow> ChaCha20Poly1305 option \<Rightarrow> bytes \<Rightarrow> bytes \<Rightarrow> bytes \<Rightarrow> bytes \<Rightarrow> bytes result" where
  "OpenTo B c dst nonce ciphertext additionalData =
     (case c of None \<Rightarrow> Inl ErrSensitiveReleased
      | Some c \<Rightarrow> if cc_released c then Inl ErrSensitiveReleased
          else if length nonce \<noteq> ChaChaNonceSize then Inl ErrNonceLength
          else if length ciphertext < ChaChaTagSize \<or> length dst < length ciphertext - ChaChaTagSize then Inl ErrDestination
          else case cc_aead c of None \<Rightarrow> Inl Panic
            | Some key \<Rightarrow> (case aead_Open B key nonce ciphertext additionalData of None \<Rightarrow> Inl errOpen | Some plain \<Rightarrow> Inr plain))"

definition ReleaseSensitive :: "ChaCha20Poly1305 option \<Rightarrow> ChaCha20Poly1305 option" where
  "ReleaseSensitive c =
     (case c of None \<Rightarrow> None
      | Some c \<Rightarrow> Some (if cc_released c then c else \<lparr>cc_key = replicate 32 0, cc_aead = None, cc_released = True\<rparr>))"

section \<open>One-off encryption\<close>

text \<open>\<open>XORKeyStream\<close> over a slice.\<close>

definition xor_bytes :: "bytes \<Rightarrow> bytes \<Rightarrow> bytes" where "xor_bytes ks xs = map2 (XOR) ks xs"

lemma length_xor_bytes [simp]: "length (xor_bytes ks xs) = min (length ks) (length xs)"
  by (simp add: xor_bytes_def)

lemma xor_bytes_involution: "length ks = length xs \<Longrightarrow> xor_bytes ks (xor_bytes ks xs) = xs"
proof (induction ks xs rule: list_induct2)
  case (Cons k ks x xs)
  have "k XOR (k XOR x) = x" by (simp add: xor.assoc [symmetric])
  then show ?case using Cons by (simp add: xor_bytes_def)
qed (simp add: xor_bytes_def)

text \<open>The padding to a multiple of 16 bytes; \<open>&15\<close> is the remainder.\<close>

definition pad16 :: "bytes \<Rightarrow> bytes" where
  "pad16 xs = (let remainder = length xs AND 15 in if remainder \<noteq> 0 then replicate (16 - remainder) 0 else [])"

definition mac_input :: "bytes \<Rightarrow> bytes \<Rightarrow> bytes" where
  "mac_input additionalData ciphertext =
     additionalData @ pad16 additionalData @ ciphertext @ pad16 ciphertext
     @ PutUint64_LE (of_nat (length additionalData)) @ PutUint64_LE (of_nat (length ciphertext))"

definition poly1305Tag :: "chacha_backend \<Rightarrow> bytes \<Rightarrow> bytes \<Rightarrow> bytes \<Rightarrow> bytes" where
  "poly1305Tag B key additionalData ciphertext = poly1305_sum B key (mac_input additionalData ciphertext)"

definition SealChaCha20Poly1305To :: "chacha_backend \<Rightarrow> bytes \<Rightarrow> bytes \<Rightarrow> bytes \<Rightarrow> bytes \<Rightarrow> bytes \<Rightarrow> bytes result" where
  "SealChaCha20Poly1305To B dst key nonce plaintext additionalData =
     (if length key \<noteq> ChaChaKeySize then Inl ErrKeyLength
      else if length nonce \<noteq> ChaChaNonceSize then Inl ErrNonceLength
      else if length dst < length plaintext + ChaChaTagSize then Inl ErrDestination
      else let polyKey = xor_bytes (keystream B key nonce 0 32) (replicate 32 0);
               ciphertext = xor_bytes (keystream B key nonce 1 (length plaintext)) plaintext;
               tag = poly1305Tag B polyKey additionalData ciphertext;
               dst = put_at 0 ciphertext dst;
               dst = put_at (length plaintext) tag dst
           in Inr (take (length plaintext + ChaChaTagSize) dst))"

definition OpenChaCha20Poly1305To :: "chacha_backend \<Rightarrow> bytes \<Rightarrow> bytes \<Rightarrow> bytes \<Rightarrow> bytes \<Rightarrow> bytes \<Rightarrow> bytes result" where
  "OpenChaCha20Poly1305To B dst key nonce ciphertext additionalData =
     (if length key \<noteq> ChaChaKeySize then Inl ErrKeyLength
      else if length nonce \<noteq> ChaChaNonceSize then Inl ErrNonceLength
      else if length ciphertext < ChaChaTagSize \<or> length dst < length ciphertext - ChaChaTagSize then Inl ErrDestination
      else let body = take (length ciphertext - ChaChaTagSize) ciphertext;
               polyKey = xor_bytes (keystream B key nonce 0 32) (replicate 32 0);
               expected = poly1305Tag B polyKey additionalData body
           in if expected \<noteq> drop (length body) ciphertext then Inl ErrAuthentication
              else Inr (xor_bytes (keystream B key nonce 1 (length body)) body))"

text \<open>A stream at block counter 1: the key and the nonce of the cipher that is returned.\<close>

definition NewChaCha20Stream :: "bytes \<Rightarrow> bytes \<Rightarrow> (bytes \<times> bytes) result" where
  "NewChaCha20Stream key nonce =
     (if length key \<noteq> ChaChaKeySize then Inl ErrKeyLength else if length nonce \<noteq> ChaChaNonceSize then Inl ErrNonceLength else Inr (key, nonce))"

definition XORKeyStream :: "chacha_backend \<Rightarrow> bytes \<times> bytes \<Rightarrow> bytes \<Rightarrow> bytes" where
  "XORKeyStream B stream src = xor_bytes (keystream B (fst stream) (snd stream) 1 (length src)) src"

lemma XORKeyStream_involution: "backend_ok B \<Longrightarrow> XORKeyStream B s (XORKeyStream B s xs) = xs"
  by (simp add: XORKeyStream_def backend_ok_def xor_bytes_involution)

lemma length_XORKeyStream [simp]: "backend_ok B \<Longrightarrow> length (XORKeyStream B s xs) = length xs"
  by (simp add: XORKeyStream_def backend_ok_def)

section \<open>What is sealed is opened, and nothing else\<close>

lemma seal_eq:
  assumes "backend_ok B" "length key = 32" "length nonce = 12" "length plain + 16 \<le> length dst"
  defines "ct \<equiv> xor_bytes (keystream B key nonce 1 (length plain)) plain"
  shows "SealChaCha20Poly1305To B dst key nonce plain ad =
    Inr (ct @ poly1305Tag B (xor_bytes (keystream B key nonce 0 32) (replicate 32 0)) ad ct)"
proof -
  let ?tag = "poly1305Tag B (xor_bytes (keystream B key nonce 0 32) (replicate 32 0)) ad ct"
  have l: "length ct = length plain" "length ?tag = 16" using assms(1) by (simp_all add: ct_def backend_ok_def poly1305Tag_def)
  have "put_at (length plain) ?tag (put_at 0 ct dst) = put_at 0 (ct @ ?tag) dst" using l assms(4) by (intro put_at_put_at) simp_all
  moreover have "take (length plain + 16) (put_at 0 (ct @ ?tag) dst) = ct @ ?tag" using l assms(4) by (simp add: put_at_def)
  ultimately show ?thesis
    using assms(2-4) by (simp add: SealChaCha20Poly1305To_def chacha_consts Let_def ct_def)
qed

lemma open_iff:
  assumes "backend_ok B" "length key = 32" "length nonce = 12" "length ct - 16 \<le> length dst"
  shows "OpenChaCha20Poly1305To B dst key nonce ct ad = Inr plain \<longleftrightarrow>
    SealChaCha20Poly1305To B (replicate (length plain + 16) 0) key nonce plain ad = Inr ct"
proof -
  let ?pk = "xor_bytes (keystream B key nonce 0 32) (replicate 32 0)"
  define ks where "ks = keystream B key nonce 1 (length ct - 16)"
  have ks: "length ks = length ct - 16" using assms(1) by (simp add: ks_def backend_ok_def)
  have seal: "SealChaCha20Poly1305To B (replicate (length plain + 16) 0) key nonce plain ad =
      Inr (xor_bytes (keystream B key nonce 1 (length plain)) plain @ poly1305Tag B ?pk ad (xor_bytes (keystream B key nonce 1 (length plain)) plain))"
    using seal_eq [OF assms(1-3)] by simp
  have tag: "length (poly1305Tag B k a c) = 16" for k a c using assms(1) by (simp add: backend_ok_def poly1305Tag_def)
  have kl: "length (keystream B key nonce c n) = n" for c n using assms(1) by (simp add: backend_ok_def)
  show ?thesis
  proof
    assume "OpenChaCha20Poly1305To B dst key nonce ct ad = Inr plain"
    then have p: "16 \<le> length ct" "poly1305Tag B ?pk ad (take (length ct - 16) ct) = drop (length ct - 16) ct" "plain = xor_bytes ks (take (length ct - 16) ct)"
      by (auto simp: OpenChaCha20Poly1305To_def chacha_consts Let_def ks_def split: if_splits)
    then have "length plain = length ct - 16" "xor_bytes ks plain = take (length ct - 16) ct" using ks by (simp_all add: xor_bytes_involution)
    then show "SealChaCha20Poly1305To B (replicate (length plain + 16) 0) key nonce plain ad = Inr ct" unfolding seal using p(2) by (simp add: ks_def)
  next
    assume "SealChaCha20Poly1305To B (replicate (length plain + 16) 0) key nonce plain ad = Inr ct"
    then have ct: "ct = xor_bytes (keystream B key nonce 1 (length plain)) plain @ poly1305Tag B ?pk ad (xor_bytes (keystream B key nonce 1 (length plain)) plain)"
      unfolding seal by simp
    then have "length ct = length plain + 16" by (simp add: tag kl)
    then show "OpenChaCha20Poly1305To B dst key nonce ct ad = Inr plain"
      using assms(2-4) ct by (simp add: OpenChaCha20Poly1305To_def chacha_consts Let_def kl xor_bytes_involution)
  qed
qed

text \<open>The MAC input determines the additional data and the ciphertext.\<close>

lemma le_length_inj: "a < 2 ^ 64 \<Longrightarrow> b < 2 ^ 64 \<Longrightarrow> PutUint64_LE (of_nat a) = PutUint64_LE (of_nat b) \<Longrightarrow> a = b"
proof -
  assume "a < 2 ^ 64" "b < 2 ^ 64" "PutUint64_LE (of_nat a) = PutUint64_LE (of_nat b)"
  then have "PutUint64 (of_nat a :: u64) = PutUint64 (of_nat b)" by (simp add: PutUint64_LE_def)
  then have "(of_nat a :: u64) = of_nat b" by (metis Uint64_PutUint64 append_Nil2)
  then have "unat (of_nat a :: u64) = unat (of_nat b :: u64)" by simp
  then show ?thesis using \<open>a < 2 ^ 64\<close> \<open>b < 2 ^ 64\<close> by (simp add: unat_of_nat)
qed

lemma mac_input_inj:
  assumes "length a < 2 ^ 64" "length a' < 2 ^ 64" "length c < 2 ^ 64" "length c' < 2 ^ 64" "mac_input a c = mac_input a' c'"
  shows "a = a' \<and> c = c'"
proof -
  have pad: "length x = length y \<Longrightarrow> pad16 x = pad16 y" for x y by (simp add: pad16_def)
  let ?x = "a @ pad16 a @ c @ pad16 c" and ?y = "a' @ pad16 a' @ c' @ pad16 c'"
  let ?t = "PutUint64_LE (of_nat (length a)) @ PutUint64_LE (of_nat (length c))" and ?u = "PutUint64_LE (of_nat (length a')) @ PutUint64_LE (of_nat (length c'))"
  have "?x @ ?t = ?y @ ?u" using assms(5) by (simp add: mac_input_def)
  moreover have "length ?t = length ?u" by simp
  ultimately have eq: "?x = ?y" "?t = ?u" using append_eq_append_conv [of ?x ?y ?t ?u] by blast+
  have "length (PutUint64_LE (of_nat (length a))) = length (PutUint64_LE (of_nat (length a')))" by simp
  then have "PutUint64_LE (of_nat (length a)) = PutUint64_LE (of_nat (length a'))" "PutUint64_LE (of_nat (length c)) = PutUint64_LE (of_nat (length c'))"
    using eq(2) append_eq_append_conv by blast+
  then have "length a = length a'" "length c = length c'" using le_length_inj assms(1-4) by blast+
  then show ?thesis using eq(1) pad [of a a'] by simp
qed

text \<open>A backend without secrecy, at which the documented behaviour holds.\<close>

definition null_backend :: chacha_backend where
  "null_backend = \<lparr>keystream = (\<lambda>key nonce c n. replicate n 0), poly1305_sum = (\<lambda>key m. replicate 16 0),
     aead_Seal = (\<lambda>key nonce plain ad. plain @ replicate 16 0), aead_Open = (\<lambda>key nonce ct ad. Some (take (length ct - 16) ct))\<rparr>"

lemma null_backend_ok: "backend_ok null_backend"
  by (simp add: backend_ok_def null_backend_def)

section \<open>Properties\<close>

text \<open>
  One-off authenticated encryption is exact: what \<open>SealChaCha20Poly1305To\<close> writes is 16 bytes longer than the plaintext
  and opens to it under the same key, nonce and additional data; conversely, \<open>OpenChaCha20Poly1305To\<close> accepts only what
  sealing the answered plaintext produces. The authenticated byte string determines both the additional data and
  the ciphertext.
\<close>

theorem chacha_oneshot_exact:
  assumes "backend_ok B"
  shows "(SealChaCha20Poly1305To B dst key nonce plain ad = Inr ct \<longrightarrow> length ct = length plain + 16 \<and>
      (\<forall>buf. length plain \<le> length buf \<longrightarrow> OpenChaCha20Poly1305To B buf key nonce ct ad = Inr plain)) \<and>
    (OpenChaCha20Poly1305To B dst key nonce ct ad = Inr plain \<longrightarrow> SealChaCha20Poly1305To B (replicate (length plain + 16) 0) key nonce plain ad = Inr ct) \<and>
    (length a < 2 ^ 64 \<and> length a' < 2 ^ 64 \<and> length c < 2 ^ 64 \<and> length c' < 2 ^ 64 \<and> mac_input a c = mac_input a' c' \<longrightarrow> a = a' \<and> c = c')"
proof (intro conjI impI allI)
  assume s: "SealChaCha20Poly1305To B dst key nonce plain ad = Inr ct"
  then have g: "length key = 32" "length nonce = 12" "length plain + 16 \<le> length dst"
    by (auto simp: SealChaCha20Poly1305To_def chacha_consts split: if_splits)
  note eq = seal_eq [OF assms g(1,2)]
  have ct: "ct = xor_bytes (keystream B key nonce 1 (length plain)) plain @ poly1305Tag B (xor_bytes (keystream B key nonce 0 32) (replicate 32 0)) ad (xor_bytes (keystream B key nonce 1 (length plain)) plain)"
    using s eq [OF g(3)] by simp
  show len: "length ct = length plain + 16" using assms unfolding ct by (simp add: backend_ok_def poly1305Tag_def)
  fix buf :: bytes assume "length plain \<le> length buf"
  then show "OpenChaCha20Poly1305To B buf key nonce ct ad = Inr plain"
    using open_iff [OF assms g(1,2), of ct buf ad plain] eq [of plain "replicate (length plain + 16) 0" ad] len ct by simp
next
  assume o: "OpenChaCha20Poly1305To B dst key nonce ct ad = Inr plain"
  then have "length key = 32" "length nonce = 12" "length ct - 16 \<le> length dst"
    by (auto simp: OpenChaCha20Poly1305To_def chacha_consts split: if_splits)
  then show "SealChaCha20Poly1305To B (replicate (length plain + 16) 0) key nonce plain ad = Inr ct" using open_iff [OF assms] o by blast
qed (use mac_input_inj in blast)+

text \<open>Two bytes under the null backend.\<close>

theorem chacha_oneshot_exact_witness:
  "SealChaCha20Poly1305To null_backend (replicate 18 0) (replicate 32 1) (replicate 12 2) [5, 6] [] = Inr ([5, 6] @ replicate 16 0) \<and>
   OpenChaCha20Poly1305To null_backend [0, 0] (replicate 32 1) (replicate 12 2) ([5, 6] @ replicate 16 0) [] = Inr [5, 6]"
proof -
  have s: "SealChaCha20Poly1305To null_backend (replicate 18 0) (replicate 32 1) (replicate 12 2) [5, 6] [] = Inr ([5, 6] @ replicate 16 0)"
    using seal_eq [OF null_backend_ok, of "replicate 32 1" "replicate 12 2" "[5, 6]" "replicate 18 0" "[]"]
    by (simp add: null_backend_def xor_bytes_def poly1305Tag_def eval_nat_numeral)
  then show ?thesis
    using chacha_oneshot_exact [OF null_backend_ok, of "replicate 18 0" "replicate 32 1" "replicate 12 2" "[5, 6]" "[]" "[5, 6] @ replicate 16 0"] by auto
qed

end
