(* ===== verification/SSU2_Packet.thy ===== *)
theory SSU2_Packet
  imports ChaCha
begin

text \<open>
  SSU2 headers, header protection and the data-phase cipher (\<open>dataplane/internal/transport/ssu2/packet.go\<close>). The
  functions that encrypt depend on a \<open>chacha_backend\<close>. A method of \<open>DataCipher\<close> holds its mutex for the whole body; its
  nonce buffer is overwritten before every use and is not part of the state.
\<close>

section \<open>Headers\<close>

definition SSU2Version :: u8 where "SSU2Version = 2"
definition SSU2NetworkID :: u8 where "SSU2NetworkID = 2"
definition SSU2ShortHeaderLen :: nat where "SSU2ShortHeaderLen = 16"
definition LongHeaderLen :: nat where "LongHeaderLen = 32"
definition MinPacketLen :: nat where "MinPacketLen = 40"
definition MaxIPv4PacketLen :: nat where "MaxIPv4PacketLen = 1472"
definition MaxIPv6PacketLen :: nat where "MaxIPv6PacketLen = 1452"
definition PacketTagLen :: nat where "PacketTagLen = ChaChaTagSize"

lemmas ssu2_consts = SSU2Version_def SSU2ShortHeaderLen_def LongHeaderLen_def MinPacketLen_def MaxIPv4PacketLen_def PacketTagLen_def chacha_consts

type_synonym PacketType = u8

abbreviation SessionRequest :: PacketType where "SessionRequest \<equiv> 0"
abbreviation SessionCreated :: PacketType where "SessionCreated \<equiv> 1"
abbreviation SessionConfirmed :: PacketType where "SessionConfirmed \<equiv> 2"
abbreviation SSU2Data :: PacketType where "SSU2Data \<equiv> 6"
abbreviation PeerTest :: PacketType where "PeerTest \<equiv> 7"
abbreviation Retry :: PacketType where "Retry \<equiv> 9"
abbreviation TokenRequest :: PacketType where "TokenRequest \<equiv> 10"
abbreviation HolePunch :: PacketType where "HolePunch \<equiv> 11"

record LongHeader =
  lhDestinationID :: u64
  lhPacketNumber :: u32
  lhType :: PacketType
  lhVersion :: u8
  lhNetworkID :: u8
  lhFlags :: u8
  lhSourceID :: u64
  lhToken :: u64

definition ParseLongHeader :: "bytes \<Rightarrow> u8 \<Rightarrow> LongHeader result" where
  "ParseLongHeader src expectedNetwork =
     (if length src < LongHeaderLen then Inl ErrShortBuffer
      else let header = \<lparr>lhDestinationID = Uint64 (take 8 src), lhPacketNumber = Uint32 (slice 8 12 src), lhType = src ! 12,
                  lhVersion = src ! 13, lhNetworkID = src ! 14, lhFlags = src ! 15, lhSourceID = Uint64 (slice 16 24 src),
                  lhToken = Uint64 (slice 24 32 src)\<rparr> in
        if lhVersion header \<noteq> SSU2Version \<or> lhNetworkID header \<noteq> expectedNetwork \<or> lhFlags header \<noteq> 0 then Inl ErrNetwork
        else if lhType header \<in> {SessionRequest, SessionCreated, PeerTest, Retry, TokenRequest, HolePunch} then Inr header
        else Inl ErrPacketType)"

definition LongHeaderMarshalTo :: "LongHeader \<Rightarrow> bytes \<Rightarrow> bytes result" where
  "LongHeaderMarshalTo h dst =
     (if length dst < LongHeaderLen then Inl ErrShortBuffer
      else if lhVersion h \<noteq> SSU2Version \<or> lhFlags h \<noteq> 0 then Inl ErrNetwork
      else let dst = put_at 0 (PutUint64 (lhDestinationID h)) dst;
               dst = put_at 8 (PutUint32 (lhPacketNumber h)) dst;
               dst = dst[12 := lhType h]; dst = dst[13 := lhVersion h]; dst = dst[14 := lhNetworkID h]; dst = dst[15 := lhFlags h];
               dst = put_at 16 (PutUint64 (lhSourceID h)) dst;
               dst = put_at 24 (PutUint64 (lhToken h)) dst
           in Inr dst)"

record SSU2ShortHeader =
  shDestinationID :: u64
  shPacketNumber :: u32
  shType :: PacketType
  shFragment :: u8
  shFlags :: u16

definition ParseShortHeader :: "bytes \<Rightarrow> SSU2ShortHeader result" where
  "ParseShortHeader src =
     (if length src < SSU2ShortHeaderLen then Inl ErrShortBuffer
      else let header = \<lparr>shDestinationID = Uint64 (take 8 src), shPacketNumber = Uint32 (slice 8 12 src), shType = src ! 12,
                  shFragment = src ! 13, shFlags = Uint16 (slice 14 16 src)\<rparr> in
        if shType header = SessionConfirmed then
          if shPacketNumber header \<noteq> 0 \<or> drop_bit 4 (shFragment header) = 15 \<or> shFragment header AND 0x0f = 0 \<or> shFlags header \<noteq> 0
          then Inl ErrPacketType else Inr header
        else if shType header = SSU2Data then
          if shFragment header AND 0xfe \<noteq> 0 \<or> shFlags header \<noteq> 0 then Inl ErrPacketType else Inr header
        else Inl ErrPacketType)"

definition ShortHeaderMarshalTo :: "SSU2ShortHeader \<Rightarrow> bytes \<Rightarrow> bytes result" where
  "ShortHeaderMarshalTo h dst =
     (if length dst < SSU2ShortHeaderLen then Inl ErrShortBuffer
      else let dst = put_at 0 (PutUint64 (shDestinationID h)) dst;
               dst = put_at 8 (PutUint32 (shPacketNumber h)) dst;
               dst = dst[12 := shType h]; dst = dst[13 := shFragment h];
               dst = put_at 14 (PutUint16 (shFlags h)) dst
           in Inr dst)"

section \<open>Header protection\<close>

text \<open>\<open>chacha20.NewUnauthenticatedCipher\<close> with counter 1; it refuses a key or nonce of the wrong length.\<close>

definition xorHeaderMask :: "chacha_backend \<Rightarrow> bytes \<Rightarrow> bytes \<Rightarrow> bytes \<Rightarrow> bytes result" where
  "xorHeaderMask B dst key nonce =
     (if length key \<noteq> ChaChaKeySize then Inl ErrKeyLength
      else if length nonce \<noteq> ChaChaNonceSize then Inl ErrNonceLength
      else let mask = xor_bytes (keystream B key nonce 1 8) (replicate 8 0) in Inr (xor_bytes mask dst))"

definition ProtectHeader :: "chacha_backend \<Rightarrow> bytes \<Rightarrow> bytes \<Rightarrow> bytes \<Rightarrow> nat \<Rightarrow> bytes result" where
  "ProtectHeader B packet headerKey1 headerKey2 extra =
     (if length headerKey1 \<noteq> ChaChaKeySize \<or> length headerKey2 \<noteq> ChaChaKeySize \<or> length packet < MinPacketLen \<or> length packet > MaxIPv4PacketLen
      then Inl ErrHeaderProtection
      else if extra \<noteq> 0 \<and> (extra \<noteq> 16 \<and> extra \<noteq> 48) then Inl ErrHeaderProtection
      else if length packet < SSU2ShortHeaderLen + extra then Inl ErrHeaderProtection
      else bindR (xorHeaderMask B (take 8 packet) headerKey1 (slice (length packet - 24) (length packet - 12) packet)) (\<lambda>h1.
        let packet = put_at 0 h1 packet in
        bindR (xorHeaderMask B (slice 8 16 packet) headerKey2 (drop (length packet - 12) packet)) (\<lambda>h2.
          let packet = put_at 8 h2 packet in
          if extra \<noteq> 0 then Inr (put_at 16 (XORKeyStream B (headerKey2, replicate 12 0) (slice 16 (16 + extra) packet)) packet)
          else Inr packet)))"

definition SameConnectionID :: "u64 \<Rightarrow> u64 \<Rightarrow> bool" where
  "SameConnectionID left right \<longleftrightarrow>
     (ucast (drop_bit 32 left) :: 32 word) = ucast (drop_bit 32 right) \<and> (ucast left :: 32 word) = ucast right"

section \<open>The data cipher\<close>

record DataCipher =
  dc_aead :: "ChaCha20Poly1305 option"
  dc_headerKey1 :: bytes
  dc_headerKey2 :: bytes
  dc_released :: bool

definition NewDataCipher :: "bytes \<Rightarrow> bytes \<Rightarrow> bytes \<Rightarrow> DataCipher result" where
  "NewDataCipher dataKey headerKey1 headerKey2 =
     bindR (NewChaCha20Poly1305 dataKey) (\<lambda>aead.
       if length headerKey1 \<noteq> ChaChaKeySize \<or> length headerKey2 \<noteq> ChaChaKeySize then Inl ErrKeyLength
       else Inr \<lparr>dc_aead = Some aead, dc_headerKey1 = headerKey1, dc_headerKey2 = headerKey2, dc_released = False\<rparr>)"

definition DataCipher_ReleaseSensitive :: "DataCipher option \<Rightarrow> DataCipher option" where
  "DataCipher_ReleaseSensitive c =
     (case c of None \<Rightarrow> None
      | Some c \<Rightarrow> Some (if dc_released c then c
          else \<lparr>dc_aead = None, dc_headerKey1 = replicate 32 0, dc_headerKey2 = replicate 32 0, dc_released = True\<rparr>))"

definition packet_nonce :: "u32 \<Rightarrow> bytes" where
  "packet_nonce n = put_at 4 (PutUint64_LE (ucast n)) (replicate ChaChaNonceSize 0)"

text \<open>The result of \<open>SealDataTo\<close> is \<open>dst[:total]\<close>.\<close>

definition SealDataTo :: "chacha_backend \<Rightarrow> DataCipher option \<Rightarrow> bytes \<Rightarrow> SSU2ShortHeader \<Rightarrow> bytes \<Rightarrow> bytes result" where
  "SealDataTo B c dst header plaintext =
     (case c of None \<Rightarrow> Inl ErrSensitiveReleased
      | Some c \<Rightarrow>
          if dc_released c then Inl ErrSensitiveReleased
          else if shType header \<noteq> SSU2Data \<or> shFragment header AND 0xfe \<noteq> 0 \<or> shFlags header \<noteq> 0 \<or> length plaintext < 8 then Inl ErrPacketLength
          else let total = SSU2ShortHeaderLen + length plaintext + PacketTagLen in
            if total > MaxIPv4PacketLen then Inl ErrPacketLength
            else if length dst < total then Inl ErrShortBuffer
            else bindR (ShortHeaderMarshalTo header (take SSU2ShortHeaderLen dst)) (\<lambda>h.
              let dst = put_at 0 h dst in
              bindR (SealTo B (dc_aead c) (slice SSU2ShortHeaderLen total dst) (packet_nonce (shPacketNumber header)) plaintext (take SSU2ShortHeaderLen dst)) (\<lambda>sealed.
                let dst = put_at SSU2ShortHeaderLen sealed dst in
                ProtectHeader B (take total dst) (dc_headerKey1 c) (dc_headerKey2 c) 0)))"

definition OpenDataTo :: "chacha_backend \<Rightarrow> DataCipher option \<Rightarrow> bytes \<Rightarrow> bytes \<Rightarrow> (SSU2ShortHeader \<times> bytes) result" where
  "OpenDataTo B c dst packet =
     (case c of None \<Rightarrow> Inl ErrSensitiveReleased
      | Some c \<Rightarrow>
          if dc_released c then Inl ErrSensitiveReleased
          else if length packet < MinPacketLen \<or> length packet > MaxIPv4PacketLen then Inl ErrPacketLength
          else bindR (ProtectHeader B packet (dc_headerKey1 c) (dc_headerKey2 c) 0) (\<lambda>packet.
            bindR (ParseShortHeader (take SSU2ShortHeaderLen packet)) (\<lambda>header.
              bindR (OpenTo B (dc_aead c) dst (packet_nonce (shPacketNumber header)) (drop SSU2ShortHeaderLen packet) (take SSU2ShortHeaderLen packet)) (\<lambda>plain.
                Inr (header, plain)))))"

section \<open>Header protection is an involution\<close>

definition short_header_bytes :: "SSU2ShortHeader \<Rightarrow> bytes" where
  "short_header_bytes h =
     PutUint64 (shDestinationID h) @ PutUint32 (shPacketNumber h) @ [shType h, shFragment h] @ PutUint16 (shFlags h)"

definition long_header_bytes :: "LongHeader \<Rightarrow> bytes" where
  "long_header_bytes h =
     PutUint64 (lhDestinationID h) @ PutUint32 (lhPacketNumber h) @ [lhType h, lhVersion h, lhNetworkID h, lhFlags h]
     @ PutUint64 (lhSourceID h) @ PutUint64 (lhToken h)"

lemma length_header_bytes [simp]: "length (short_header_bytes h) = 16" "length (long_header_bytes l) = 32"
  by (simp_all add: short_header_bytes_def long_header_bytes_def)

lemma ShortHeaderMarshalTo_eq: "16 \<le> length dst \<Longrightarrow> ShortHeaderMarshalTo h dst = Inr (short_header_bytes h @ drop 16 dst)"
  using put_at_0 [of "short_header_bytes h" dst]
  by (simp add: ShortHeaderMarshalTo_def ssu2_consts Let_def list_update_put_at put_at_put_at [where m = 0] short_header_bytes_def)

lemma LongHeaderMarshalTo_eq:
  "32 \<le> length dst \<Longrightarrow> lhVersion h = 2 \<Longrightarrow> lhFlags h = 0 \<Longrightarrow> LongHeaderMarshalTo h dst = Inr (long_header_bytes h @ drop 32 dst)"
  using put_at_0 [of "long_header_bytes h" dst]
  by (simp add: LongHeaderMarshalTo_def ssu2_consts Let_def list_update_put_at put_at_put_at [where m = 0] long_header_bytes_def)

lemma ParseShortHeader_bytes:
  "shType h = SSU2Data \<Longrightarrow> shFragment h AND 0xfe = 0 \<Longrightarrow> shFlags h = 0 \<Longrightarrow> ParseShortHeader (short_header_bytes h @ rest) = Inr h"
  by (simp add: ParseShortHeader_def ssu2_consts Let_def short_header_bytes_def slice_def codec_simps nth_append)

lemma ParseLongHeader_bytes:
  "lhVersion h = 2 \<Longrightarrow> lhFlags h = 0 \<Longrightarrow> lhType h \<in> {SessionRequest, SessionCreated, PeerTest, Retry, TokenRequest, HolePunch} \<Longrightarrow>
   ParseLongHeader (long_header_bytes h @ rest) (lhNetworkID h) = Inr h"
  by (auto simp: ParseLongHeader_def ssu2_consts Let_def long_header_bytes_def slice_def codec_simps nth_append)

text \<open>The protected packet: 16 header bytes in two halves, an optional extra part, and a tail that supplies the nonces.\<close>

definition mask8 :: "chacha_backend \<Rightarrow> bytes \<Rightarrow> bytes \<Rightarrow> bytes" where
  "mask8 B key nonce = xor_bytes (keystream B key nonce 1 8) (replicate 8 0)"

lemma length_mask8 [simp]: "backend_ok B \<Longrightarrow> length (mask8 B key nonce) = 8"
  by (simp add: mask8_def backend_ok_def)

lemma protect_parts:
  assumes "backend_ok B" "length k1 = 32" "length k2 = 32" "length h1 = 8" "length h2 = 8" "length x = extra" "extra \<in> {0, 16, 48}"
    "24 \<le> length rear" "16 + extra + length rear \<le> 1472"
  shows "ProtectHeader B (h1 @ h2 @ x @ rear) k1 k2 extra =
    Inr (xor_bytes (mask8 B k1 (slice (length rear - 24) (length rear - 12) rear)) h1 @ xor_bytes (mask8 B k2 (drop (length rear - 12) rear)) h2
      @ (if extra = 0 then [] else XORKeyStream B (k2, replicate 12 0) x) @ rear)"
proof -
  let ?p = "h1 @ h2 @ x @ rear" and ?n1 = "slice (length rear - 24) (length rear - 12) rear" and ?n2 = "drop (length rear - 12) rear"
  let ?a = "xor_bytes (mask8 B k1 ?n1) h1" and ?b = "xor_bytes (mask8 B k2 ?n2) h2"
  have len: "length ?p = 16 + extra + length rear" "length ?a = 8" "length ?b = 8" using assms by simp_all
  have n: "slice (length ?p - 24) (length ?p - 12) ?p = ?n1" "drop (length (?a @ h2 @ x @ rear) - 12) (?a @ h2 @ x @ rear) = ?n2"
    using assms by (simp_all add: slice_def)
  have m1: "xorHeaderMask B (take 8 ?p) k1 ?n1 = Inr ?a" using assms by (simp add: xorHeaderMask_def chacha_consts mask8_def)
  have p1: "put_at 0 ?a ?p = ?a @ h2 @ x @ rear" using put_at_0 [of ?a ?p] len assms by simp
  have m2: "xorHeaderMask B (slice 8 16 (?a @ h2 @ x @ rear)) k2 ?n2 = Inr ?b" using assms len by (simp add: xorHeaderMask_def chacha_consts mask8_def slice_def)
  have p2: "put_at 8 ?b (?a @ h2 @ x @ rear) = ?a @ ?b @ x @ rear" using put_at_prefix [of ?a 8 ?b 8 "h2 @ x @ rear"] len assms by simp
  have s3: "slice 16 (16 + extra) (?a @ ?b @ x @ rear) = x" using len assms by (simp add: slice_def)
  have p3: "put_at 16 y (?a @ ?b @ x @ rear) = ?a @ ?b @ y @ rear" if "length y = extra" for y
    using put_at_prefix [of "?a @ ?b" 16 y extra "x @ rear"] len assms that by simp
  show ?thesis
    unfolding ProtectHeader_def n(1) m1 using assms len
    by (auto simp: ssu2_consts Let_def p1 n(2) m2 p2 s3 p3)
qed

lemma protect_involution:
  assumes "backend_ok B" "ProtectHeader B packet k1 k2 extra = Inr protected" "16 + extra + 24 \<le> length packet"
  shows "ProtectHeader B protected k1 k2 extra = Inr packet" "length protected = length packet" "drop (16 + extra) protected = drop (16 + extra) packet"
proof -
  have g: "length k1 = 32" "length k2 = 32" "length packet \<le> 1472" "extra \<in> {0, 16, 48}"
    using assms(2) by (auto simp: ProtectHeader_def ssu2_consts split: if_splits)
  define h1 h2 x rear where "h1 = take 8 packet" and "h2 = slice 8 16 packet" and "x = slice 16 (16 + extra) packet" and "rear = drop (16 + extra) packet"
  note parts = h1_def h2_def x_def rear_def
  have l: "length h1 = 8" "length h2 = 8" "length x = extra" "length rear = length packet - (16 + extra)" "24 \<le> length rear" "16 + extra + length rear \<le> 1472"
    using assms(3) g(3) by (simp_all add: parts)
  have "packet = take 8 packet @ take 8 (drop 8 packet) @ take extra (drop 16 packet) @ drop (16 + extra) packet"
    by (simp add: take_chunk)
  then have packet: "packet = h1 @ h2 @ x @ rear" by (simp add: parts slice_def)
  let ?a = "xor_bytes (mask8 B k1 (slice (length rear - 24) (length rear - 12) rear))" and ?b = "xor_bytes (mask8 B k2 (drop (length rear - 12) rear))"
  let ?x = "if extra = 0 then [] else XORKeyStream B (k2, replicate 12 0) x"
  have pr: "protected = ?a h1 @ ?b h2 @ ?x @ rear"
    using protect_parts [OF assms(1) g(1,2) l(1,2,3) g(4) l(5,6)] assms(2) packet by simp
  have lx: "length ?x = extra" using assms(1) l(3) by simp
  have "ProtectHeader B protected k1 k2 extra = Inr (?a (?a h1) @ ?b (?b h2) @ (if extra = 0 then [] else XORKeyStream B (k2, replicate 12 0) ?x) @ rear)"
    unfolding pr by (rule protect_parts [OF assms(1) g(1,2) _ _ lx g(4) l(5,6)]) (use assms(1) l in simp_all)
  moreover have "?a (?a h1) = h1" "?b (?b h2) = h2" using assms(1) l(1,2) by (simp_all add: xor_bytes_involution)
  moreover have "(if extra = 0 then [] else XORKeyStream B (k2, replicate 12 0) ?x) = x"
    using XORKeyStream_involution [OF assms(1)] l(3) by (cases "extra = 0") simp_all
  ultimately show "ProtectHeader B protected k1 k2 extra = Inr packet" using packet by simp
  show "length protected = length packet" "drop (16 + extra) protected = drop (16 + extra) packet"
    using l lx assms(1) unfolding pr by (simp_all add: rear_def)
qed

section \<open>Data packets\<close>

lemma length_packet_nonce [simp]: "length (packet_nonce n) = 12"
  by (simp add: packet_nonce_def chacha_consts)

lemma NewDataCipher_Inr:
  "NewDataCipher dk k1 k2 = Inr c \<Longrightarrow> length k1 = 32 \<and> length k2 = 32 \<and>
   c = \<lparr>dc_aead = Some \<lparr>cc_key = dk, cc_aead = Some dk, cc_released = False\<rparr>, dc_headerKey1 = k1, dc_headerKey2 = k2, dc_released = False\<rparr>"
  by (auto simp: NewDataCipher_def NewChaCha20Poly1305_def chacha_consts bindR_eq_Inr split: if_splits)

lemma SealDataTo_eq:
  assumes "backend_ok B" "NewDataCipher dk k1 k2 = Inr c" "SealDataTo B (Some c) dst h plain = Inr packet"
  shows "shType h = SSU2Data" "shFragment h AND 0xfe = 0" "shFlags h = 0" "8 \<le> length plain" "length plain \<le> 1440" "32 + length plain \<le> length dst"
    "ProtectHeader B (short_header_bytes h @ aead_Seal B dk (packet_nonce (shPacketNumber h)) plain (short_header_bytes h)) k1 k2 0 = Inr packet"
proof -
  note c = NewDataCipher_Inr [OF assms(2)]
  show g: "shType h = SSU2Data" "shFragment h AND 0xfe = 0" "shFlags h = 0" "8 \<le> length plain" "length plain \<le> 1440" "32 + length plain \<le> length dst"
    using assms(3) c by (auto simp: SealDataTo_def Let_def ssu2_consts split: if_splits)
  let ?hb = "short_header_bytes h" and ?ct = "aead_Seal B dk (packet_nonce (shPacketNumber h)) plain (short_header_bytes h)"
  have ct: "length ?ct = length plain + 16" using assms(1) by (simp add: backend_ok_def)
  have hd: "ShortHeaderMarshalTo h (take 16 dst) = Inr ?hb" using ShortHeaderMarshalTo_eq [of "take 16 dst" h] g(6) by simp
  have p0: "put_at 0 ?hb dst = ?hb @ drop 16 dst" using put_at_0 [of ?hb dst] g(6) by simp
  have p1: "put_at 16 ?ct (?hb @ drop 16 dst) = ?hb @ ?ct @ drop (32 + length plain) dst"
    using put_at_prefix [of ?hb 16 ?ct "length plain + 16" "drop 16 dst"] ct g(6) by (simp add: add.commute)
  have "SealTo B (dc_aead c) (slice 16 (32 + length plain) (?hb @ drop 16 dst)) (packet_nonce (shPacketNumber h)) plain ?hb = Inr ?ct"
    using c g(6) by (simp add: SealTo_def chacha_consts slice_def)
  then show "ProtectHeader B (?hb @ ?ct) k1 k2 0 = Inr packet"
    using assms(3) c g hd p0 p1 ct by (simp add: SealDataTo_def Let_def ssu2_consts add.commute)
qed

section \<open>Properties\<close>

text \<open>
  C26. A data packet that one side seals opens on the other side: it is 40 to 1472 bytes long, and with the same keys
  \<open>OpenDataTo\<close> answers exactly the header and the plaintext, for any buffer that is large enough. Removing the header
  protection before the header is known is possible because it depends only on the last 24 bytes of the packet, which it
  leaves alone. A released cipher neither seals nor opens.
\<close>

theorem ssu2_data_roundtrip:
  assumes "backend_ok B" "NewDataCipher dataKey headerKey1 headerKey2 = Inr c" "SealDataTo B (Some c) dst header plaintext = Inr packet"
    "length plaintext \<le> length buf"
  shows "OpenDataTo B (Some c) buf packet = Inr (header, plaintext) \<and> 40 \<le> length packet \<and> length packet \<le> 1472 \<and>
    SealDataTo B (DataCipher_ReleaseSensitive (Some c)) dst header plaintext = Inl ErrSensitiveReleased \<and>
    OpenDataTo B (DataCipher_ReleaseSensitive (Some c)) buf packet = Inl ErrSensitiveReleased"
proof -
  note c = NewDataCipher_Inr [OF assms(2)] and s = SealDataTo_eq [OF assms(1-3)]
  let ?hb = "short_header_bytes header" and ?ct = "aead_Seal B dataKey (packet_nonce (shPacketNumber header)) plaintext (short_header_bytes header)"
  have ct: "length ?ct = length plaintext + 16" "aead_Open B dataKey (packet_nonce (shPacketNumber header)) ?ct ?hb = Some plaintext"
    using assms(1) by (simp_all add: backend_ok_def)
  have "16 + 0 + 24 \<le> length (?hb @ ?ct)" using ct s(4) by simp
  note inv = protect_involution [OF assms(1) s(7) this]
  have len: "length packet = length plaintext + 32" using inv(2) ct by simp
  have "ParseShortHeader ?hb = Inr header" using ParseShortHeader_bytes [OF s(1-3), of "[]"] by simp
  then have "OpenDataTo B (Some c) buf packet = Inr (header, plaintext)"
    using c inv(1) len s(4,5) ct assms(4) by (simp add: OpenDataTo_def OpenTo_def ssu2_consts)
  then show ?thesis using len s(4,5) by (simp add: SealDataTo_def OpenDataTo_def DataCipher_ReleaseSensitive_def)
qed

text \<open>Eight zero bytes under the null backend.\<close>

theorem ssu2_data_roundtrip_witness:
  "\<exists>c packet. NewDataCipher (replicate 32 1) (replicate 32 2) (replicate 32 3) = Inr c \<and>
     SealDataTo null_backend (Some c) (replicate 40 0) \<lparr>shDestinationID = 1, shPacketNumber = 2, shType = SSU2Data, shFragment = 0, shFlags = 0\<rparr> (replicate 8 0) = Inr packet \<and>
     OpenDataTo null_backend (Some c) (replicate 8 0) packet = Inr (\<lparr>shDestinationID = 1, shPacketNumber = 2, shType = SSU2Data, shFragment = 0, shFlags = 0\<rparr>, replicate 8 0)"
proof -
  let ?h = "\<lparr>shDestinationID = 1, shPacketNumber = 2, shType = SSU2Data, shFragment = 0, shFlags = 0\<rparr>"
  obtain c where c: "NewDataCipher (replicate 32 1) (replicate 32 2) (replicate 32 3) = Inr c"
    by (simp add: NewDataCipher_def NewChaCha20Poly1305_def chacha_consts)
  have "case NewDataCipher (replicate 32 1) (replicate 32 2) (replicate 32 3) of Inl _ \<Rightarrow> False | Inr c \<Rightarrow>
      (case SealDataTo null_backend (Some c) (replicate 40 0) ?h (replicate 8 0) of Inl _ \<Rightarrow> False | Inr _ \<Rightarrow> True)" by code_simp
  then obtain packet where p: "SealDataTo null_backend (Some c) (replicate 40 0) ?h (replicate 8 0) = Inr packet"
    unfolding c by (auto split: sum.splits)
  then show ?thesis using c ssu2_data_roundtrip [OF null_backend_ok c p, of "replicate 8 0"] by auto
qed

end
