(* ===== verification/SSU2_Blocks.thy ===== *)
theory SSU2_Blocks
  imports Block_Grammar SSU2_Packet Iterators
begin

text \<open>
  SSU2 payload blocks (\<open>dataplane/internal/transport/ssu2\<close>): the extension blocks (\<open>extensions.go\<close>), introduction blocks
  (\<open>introduction.go\<close>), peer test blocks (\<open>peertest.go\<close>), and the block iterator with its validation (\<open>block.go\<close>).

  Of \<open>net/netip\<close>: an address is the zero value, four bytes, or sixteen bytes with a zone. \<open>append\<close> is concatenation;
  a nil result next to an error is left out.
\<close>

section \<open>Addresses\<close>

datatype netip_Addr = NoAddr | Addr4 bytes | Addr6 bytes bytes

record AddrPort =
  apAddr :: netip_Addr
  apPort :: u16

fun Is4 :: "netip_Addr \<Rightarrow> bool" where "Is4 (Addr4 _) = True" | "Is4 _ = False"
fun Is6 :: "netip_Addr \<Rightarrow> bool" where "Is6 (Addr6 _ _) = True" | "Is6 _ = False"
fun Is4In6 :: "netip_Addr \<Rightarrow> bool" where "Is4In6 (Addr6 b _) = (take 12 b = replicate 10 0 @ [0xff, 0xff])" | "Is4In6 _ = False"

fun IsUnspecified :: "netip_Addr \<Rightarrow> bool" where
  "IsUnspecified (Addr4 b) = (b = replicate 4 0)" | "IsUnspecified (Addr6 b z) = (b = replicate 16 0 \<and> z = [])" | "IsUnspecified NoAddr = False"

fun addr_bytes :: "netip_Addr \<Rightarrow> bytes" where "addr_bytes (Addr4 b) = b" | "addr_bytes (Addr6 b _) = b" | "addr_bytes NoAddr = []"

definition AddrFromSlice :: "bytes \<Rightarrow> netip_Addr option" where
  "AddrFromSlice b = (if length b = 4 then Some (Addr4 b) else if length b = 16 then Some (Addr6 b []) else None)"

definition AddrPort_IsValid :: "AddrPort \<Rightarrow> bool" where "AddrPort_IsValid e \<longleftrightarrow> apAddr e \<noteq> NoAddr"

definition no_endpoint :: AddrPort where "no_endpoint = \<lparr>apAddr = NoAddr, apPort = 0\<rparr>"

definition validRelayEndpoint :: "AddrPort \<Rightarrow> bool" where
  "validRelayEndpoint endpoint \<longleftrightarrow>
     (let address = apAddr endpoint in AddrPort_IsValid endpoint \<and> apPort endpoint \<noteq> 0 \<and> \<not> IsUnspecified address \<and> \<not> Is4In6 address \<and> (Is4 address \<or> Is6 address))"

definition appendRelayEndpoint :: "bytes \<Rightarrow> AddrPort \<Rightarrow> bytes result" where
  "appendRelayEndpoint dst endpoint =
     (if \<not> validRelayEndpoint endpoint then Inl ErrIntroduction
      else let dst = dst @ PutUint16 (apPort endpoint); address = apAddr endpoint in Inr (dst @ addr_bytes address))"

definition parseRelayEndpoint :: "bytes \<Rightarrow> AddrPort result" where
  "parseRelayEndpoint data =
     (if length data \<noteq> 6 \<and> length data \<noteq> 18 then Inl ErrIntroduction
      else let port = Uint16 (take 2 data) in
        case AddrFromSlice (drop 2 data) of None \<Rightarrow> Inl ErrIntroduction
        | Some address \<Rightarrow> if port = 0 \<or> IsUnspecified address \<or> Is4In6 address then Inl ErrIntroduction else Inr \<lparr>apAddr = address, apPort = port\<rparr>)"

section \<open>Blocks\<close>

abbreviation BlockDateTime :: u8 where "BlockDateTime \<equiv> 0"
abbreviation BlockOptions :: u8 where "BlockOptions \<equiv> 1"
abbreviation BlockRouterInfo :: u8 where "BlockRouterInfo \<equiv> 2"
abbreviation BlockI2NP :: u8 where "BlockI2NP \<equiv> 3"
abbreviation BlockFirstFragment :: u8 where "BlockFirstFragment \<equiv> 4"
abbreviation BlockFollowOnFragment :: u8 where "BlockFollowOnFragment \<equiv> 5"
abbreviation BlockTermination :: u8 where "BlockTermination \<equiv> 6"
abbreviation BlockRelayRequest :: u8 where "BlockRelayRequest \<equiv> 7"
abbreviation BlockRelayResponse :: u8 where "BlockRelayResponse \<equiv> 8"
abbreviation BlockRelayIntro :: u8 where "BlockRelayIntro \<equiv> 9"
abbreviation BlockPeerTest :: u8 where "BlockPeerTest \<equiv> 10"
abbreviation BlockAddress :: u8 where "BlockAddress \<equiv> 13"
abbreviation BlockRelayTagRequest :: u8 where "BlockRelayTagRequest \<equiv> 15"
abbreviation BlockRelayTag :: u8 where "BlockRelayTag \<equiv> 16"
abbreviation BlockNewToken :: u8 where "BlockNewToken \<equiv> 17"
abbreviation BlockPathChallenge :: u8 where "BlockPathChallenge \<equiv> 18"
abbreviation BlockPathResponse :: u8 where "BlockPathResponse \<equiv> 19"
abbreviation BlockPadding :: u8 where "BlockPadding \<equiv> 254"

definition MarshalBlock :: "bytes \<Rightarrow> u8 \<Rightarrow> bytes \<Rightarrow> bytes result" where
  "MarshalBlock dst kind data =
     (if length data > 0xffff then Inl ErrPacketLength
      else let start = length dst;
               dst = dst @ replicate (3 + length data) 0;
               dst = dst[start := kind];
               dst = put_at (start + 1) (PutUint16 (of_nat (length data))) dst;
               dst = put_at (start + 3) data dst
           in Inr dst)"

record RelayTag =
  rtTag :: u32
  rtExpiration :: u32

record NewToken =
  ntToken :: u64
  ntExpiration :: u32

definition MarshalRelayTagRequestBlock :: "bytes \<Rightarrow> bytes result" where
  "MarshalRelayTagRequestBlock dst = MarshalBlock dst BlockRelayTagRequest []"

definition ParseRelayTagRequestBlock :: "bytes \<Rightarrow> unit result" where
  "ParseRelayTagRequestBlock data = (if length data \<noteq> 0 then Inl ErrExtensionBlock else Inr ())"

definition MarshalRelayTagBlock :: "bytes \<Rightarrow> RelayTag \<Rightarrow> bytes result" where
  "MarshalRelayTagBlock dst relay =
     (if rtTag relay = 0 \<or> rtExpiration relay = 0 then Inl ErrExtensionBlock
      else let data = put_at 0 (PutUint32 (rtTag relay)) (replicate 8 0); data = put_at 4 (PutUint32 (rtExpiration relay)) data
           in MarshalBlock dst BlockRelayTag data)"

definition ParseRelayTagBlock :: "bytes \<Rightarrow> RelayTag result" where
  "ParseRelayTagBlock data =
     (if length data \<noteq> 8 then Inl ErrExtensionBlock
      else let relay = \<lparr>rtTag = Uint32 (take 4 data), rtExpiration = Uint32 (drop 4 data)\<rparr> in
        if rtTag relay = 0 \<or> rtExpiration relay = 0 then Inl ErrExtensionBlock else Inr relay)"

definition MarshalNewTokenBlock :: "bytes \<Rightarrow> NewToken \<Rightarrow> bytes result" where
  "MarshalNewTokenBlock dst token =
     (if ntToken token = 0 \<or> ntExpiration token = 0 then Inl ErrExtensionBlock
      else let data = put_at 0 (PutUint64 (ntToken token)) (replicate 12 0); data = put_at 8 (PutUint32 (ntExpiration token)) data
           in MarshalBlock dst BlockNewToken data)"

definition ParseNewTokenBlock :: "bytes \<Rightarrow> NewToken result" where
  "ParseNewTokenBlock data =
     (if length data \<noteq> 12 then Inl ErrExtensionBlock
      else let token = \<lparr>ntToken = Uint64 (take 8 data), ntExpiration = Uint32 (drop 8 data)\<rparr> in
        if ntToken token = 0 \<or> ntExpiration token = 0 then Inl ErrExtensionBlock else Inr token)"

text \<open>A path challenge and a path response are their eight bytes.\<close>

definition MarshalPathChallengeBlock :: "bytes \<Rightarrow> bytes \<Rightarrow> bytes result" where
  "MarshalPathChallengeBlock dst challenge = MarshalBlock dst BlockPathChallenge challenge"

definition ParsePathChallengeBlock :: "bytes \<Rightarrow> bytes result" where
  "ParsePathChallengeBlock data = (if length data \<noteq> 8 then Inl ErrExtensionBlock else Inr data)"

definition MarshalPathResponseBlock :: "bytes \<Rightarrow> bytes \<Rightarrow> bytes result" where
  "MarshalPathResponseBlock dst response = MarshalBlock dst BlockPathResponse response"

definition ParsePathResponseBlock :: "bytes \<Rightarrow> bytes result" where
  "ParsePathResponseBlock data = (if length data \<noteq> 8 then Inl ErrExtensionBlock else Inr data)"

section \<open>Introductions\<close>

record RelayRequest =
  rqNonce :: u32
  rqRelayTag :: u32
  rqTimestamp :: u32
  rqEndpoint :: AddrPort
  rqSignature :: bytes

record RelayIntro =
  riAliceHash :: bytes
  riRequest :: RelayRequest

record RelayResponse =
  rsCode :: u8
  rsNonce :: u32
  rsTimestamp :: u32
  rsEndpoint :: AddrPort
  rsSignature :: bytes
  rsToken :: u64
  rsHasToken :: bool

definition relayRequestPrologue :: bytes where "relayRequestPrologue = map of_char ''RelayRequestData''"
definition relayResponsePrologue :: bytes where "relayResponsePrologue = map of_char ''RelayAgreementOK''"

definition RelayConnectionIDs :: "u32 \<Rightarrow> u64 \<times> u64" where
  "RelayConnectionIDs nonce =
     (let destinationID = push_bit 32 (ucast nonce) OR ucast nonce in (destinationID, NOT destinationID))"

definition appendRelayRequestUnsigned :: "bytes \<Rightarrow> RelayRequest \<Rightarrow> bytes result" where
  "appendRelayRequestUnsigned dst request =
     bindR (appendRelayEndpoint [] (rqEndpoint request)) (\<lambda>endpoint.
       let fixed = put_at 0 (PutUint32 (rqNonce request)) (replicate 14 0);
           fixed = put_at 4 (PutUint32 (rqRelayTag request)) fixed;
           fixed = put_at 8 (PutUint32 (rqTimestamp request)) fixed;
           fixed = fixed[12 := SSU2Version];
           fixed = fixed[13 := of_nat (length endpoint)]
       in Inr (dst @ fixed @ endpoint))"

definition appendRelayResponseUnsigned :: "bytes \<Rightarrow> RelayResponse \<Rightarrow> bytes result" where
  "appendRelayResponseUnsigned dst response =
     bindR (if rsCode response = 0 then appendRelayEndpoint [] (rsEndpoint response) else Inr []) (\<lambda>endpoint.
       let fixed = put_at 0 (PutUint32 (rsNonce response)) (replicate 10 0);
           fixed = put_at 4 (PutUint32 (rsTimestamp response)) fixed;
           fixed = fixed[8 := SSU2Version];
           fixed = fixed[9 := of_nat (length endpoint)]
       in Inr (dst @ fixed @ endpoint))"

definition validRelayResponseFields :: "RelayResponse \<Rightarrow> bool" where
  "validRelayResponseFields response \<longleftrightarrow>
     (if rsCode response = 0 then rsHasToken response \<and> validRelayEndpoint (rsEndpoint response)
      else \<not> rsHasToken response \<and> \<not> AddrPort_IsValid (rsEndpoint response))"

definition validRelayResponse :: "RelayResponse \<Rightarrow> bool" where
  "validRelayResponse response \<longleftrightarrow> length (rsSignature response) \<noteq> 0 \<and> validRelayResponseFields response"

definition parseRelayRequest :: "bytes \<Rightarrow> RelayRequest result" where
  "parseRelayRequest data =
     (if length data < 14 + 6 + 1 \<or> data ! 12 \<noteq> SSU2Version then Inl ErrIntroduction
      else let endpointSize = unat (data ! 13) in
        if (endpointSize \<noteq> 6 \<and> endpointSize \<noteq> 18) \<or> length data < 14 + endpointSize + 1 then Inl ErrIntroduction
        else bindR (parseRelayEndpoint (slice 14 (14 + endpointSize) data)) (\<lambda>endpoint.
          Inr \<lparr>rqNonce = Uint32 (take 4 data), rqRelayTag = Uint32 (slice 4 8 data), rqTimestamp = Uint32 (slice 8 12 data),
            rqEndpoint = endpoint, rqSignature = drop (14 + endpointSize) data\<rparr>))"

definition MarshalRelayRequestBlock :: "bytes \<Rightarrow> RelayRequest \<Rightarrow> bytes result" where
  "MarshalRelayRequestBlock dst request =
     (if length (rqSignature request) = 0 then Inl ErrIntroduction
      else bindR (appendRelayRequestUnsigned [0] request) (\<lambda>unsigned. MarshalBlock dst BlockRelayRequest (unsigned @ rqSignature request)))"

definition ParseRelayRequestBlock :: "bytes \<Rightarrow> RelayRequest result" where
  "ParseRelayRequestBlock data =
     (if length data < 1 \<or> data ! 0 \<noteq> 0 then Inl ErrIntroduction else parseRelayRequest (drop 1 data))"

definition RelayRequestSignatureInput :: "bytes \<Rightarrow> bytes \<Rightarrow> bytes \<Rightarrow> RelayRequest \<Rightarrow> bytes result" where
  "RelayRequestSignatureInput dst bobHash charlieHash request =
     (if length bobHash \<noteq> 32 \<or> length charlieHash \<noteq> 32 then Inl ErrIntroduction
      else appendRelayRequestUnsigned (dst @ relayRequestPrologue @ bobHash @ charlieHash) request)"

definition MarshalRelayIntroBlock :: "bytes \<Rightarrow> RelayIntro \<Rightarrow> bytes result" where
  "MarshalRelayIntroBlock dst intro =
     (if length (rqSignature (riRequest intro)) = 0 then Inl ErrIntroduction
      else let data = put_at 1 (riAliceHash intro) (replicate 33 0) in
        bindR (appendRelayRequestUnsigned data (riRequest intro)) (\<lambda>unsigned.
          MarshalBlock dst BlockRelayIntro (unsigned @ rqSignature (riRequest intro))))"

definition ParseRelayIntroBlock :: "bytes \<Rightarrow> RelayIntro result" where
  "ParseRelayIntroBlock data =
     (if length data < 33 \<or> data ! 0 \<noteq> 0 then Inl ErrIntroduction
      else bindR (parseRelayRequest (drop 33 data)) (\<lambda>request. Inr \<lparr>riAliceHash = slice 1 33 data, riRequest = request\<rparr>))"

definition MarshalRelayResponseBlock :: "bytes \<Rightarrow> RelayResponse \<Rightarrow> bytes result" where
  "MarshalRelayResponseBlock dst response =
     (if \<not> validRelayResponse response then Inl ErrIntroduction
      else let data = (replicate 2 0)[1 := rsCode response] in
        bindR (appendRelayResponseUnsigned data response) (\<lambda>unsigned.
          let data = unsigned @ rsSignature response;
              data = (if rsHasToken response then data @ PutUint64 (rsToken response) else data)
          in MarshalBlock dst BlockRelayResponse data))"

text \<open>The two forms of a response: accepted, with endpoint and token, or rejected.\<close>

definition response_body :: "bytes \<Rightarrow> RelayResponse \<Rightarrow> RelayResponse result" where
  "response_body data response =
     (let endpointSize = unat (data ! 11) in
      if rsCode response = 0 then
        if (endpointSize \<noteq> 6 \<and> endpointSize \<noteq> 18) \<or> length data < 12 + endpointSize + 1 + 8 then Inl ErrIntroduction
        else bindR (parseRelayEndpoint (slice 12 (12 + endpointSize) data)) (\<lambda>endpoint.
          let upto = length data - 8 in
          Inr (response\<lparr>rsEndpoint := endpoint, rsSignature := slice (12 + endpointSize) upto data, rsToken := Uint64 (drop upto data), rsHasToken := True\<rparr>))
      else if endpointSize \<noteq> 0 \<or> length data < 13 then Inl ErrIntroduction
      else Inr (response\<lparr>rsSignature := drop 12 data\<rparr>))"

definition ParseRelayResponseBlock :: "bytes \<Rightarrow> RelayResponse result" where
  "ParseRelayResponseBlock data =
     (if length data < 13 \<or> data ! 0 \<noteq> 0 then Inl ErrIntroduction
      else let response = \<lparr>rsCode = data ! 1, rsNonce = Uint32 (slice 2 6 data), rsTimestamp = Uint32 (slice 6 10 data),
                 rsEndpoint = no_endpoint, rsSignature = [], rsToken = 0, rsHasToken = False\<rparr> in
        if data ! 10 \<noteq> SSU2Version then Inl ErrIntroduction
        else bindR (response_body data response) (\<lambda>response.
          if \<not> validRelayResponse response then Inl ErrIntroduction else Inr response))"

definition RelayResponseSignatureInput :: "bytes \<Rightarrow> bytes \<Rightarrow> RelayResponse \<Rightarrow> bytes result" where
  "RelayResponseSignatureInput dst bobHash response =
     (if length bobHash \<noteq> 32 \<or> \<not> validRelayResponseFields response then Inl ErrIntroduction
      else appendRelayResponseUnsigned (dst @ relayResponsePrologue @ bobHash) response)"

section \<open>Peer tests\<close>

record PeerTestBlock =
  ptMessage :: u8
  ptCode :: u8
  ptNonce :: u32
  ptTimestamp :: u32
  ptAddress :: AddrPort
  ptHash :: bytes
  ptHasHash :: bool
  ptSignature :: bytes

definition PeerTestConnectionIDs :: "u32 \<Rightarrow> u64 \<times> u64" where
  "PeerTestConnectionIDs nonce =
     (let destinationID = push_bit 32 (ucast nonce) OR ucast nonce in (destinationID, NOT destinationID))"

definition peerTestPrologue :: bytes where "peerTestPrologue = map of_char ''PeerTestValidate''"

definition validPeerTestCode :: "u8 \<Rightarrow> u8 \<Rightarrow> bool" where
  "validPeerTestCode message code \<longleftrightarrow> code = 0 \<or> message = 3 \<or> message = 4"

definition PeerTestSignatureInput :: "bytes \<Rightarrow> bytes \<Rightarrow> bytes \<Rightarrow> PeerTestBlock \<Rightarrow> bytes result" where
  "PeerTestSignatureInput dst bobHash aliceHash test =
     (if ptMessage test < 1 \<or> ptMessage test > 4 \<or> \<not> validPeerTestCode (ptMessage test) (ptCode test) \<or> length bobHash \<noteq> 32 then Inl ErrPeerTest
      else if (ptMessage test = 3 \<or> ptMessage test = 4) \<and> length aliceHash \<noteq> 32 then Inl ErrPeerTest
      else case appendRelayEndpoint [] (ptAddress test) of
        Inl _ \<Rightarrow> Inl ErrPeerTest
      | Inr endpoint \<Rightarrow>
          let dst = dst @ peerTestPrologue;
              dst = dst @ bobHash;
              dst = (if ptMessage test = 3 \<or> ptMessage test = 4 then dst @ aliceHash else dst);
              fixed = (replicate 10 0)[0 := SSU2Version];
              fixed = put_at 1 (PutUint32 (ptNonce test)) fixed;
              fixed = put_at 5 (PutUint32 (ptTimestamp test)) fixed;
              fixed = fixed[9 := of_nat (length endpoint)]
          in Inr (dst @ fixed @ endpoint))"

definition MarshalPeerTestBlock :: "bytes \<Rightarrow> PeerTestBlock \<Rightarrow> bytes result" where
  "MarshalPeerTestBlock dst test =
     (if ptMessage test < 1 \<or> ptMessage test > 7 \<or> \<not> validPeerTestCode (ptMessage test) (ptCode test) \<or> \<not> validRelayEndpoint (ptAddress test) then Inl ErrPeerTest
      else if ptMessage test \<le> 4 \<and> length (ptSignature test) = 0 then Inl ErrPeerTest
      else let address = addr_bytes (apAddr (ptAddress test));
               dataLen = 3 + 1 + 4 + 4 + 1 + 2 + length address + length (ptSignature test);
               hashed = (ptMessage test = 2 \<or> ptMessage test = 4) in
        if hashed \<noteq> ptHasHash test then Inl ErrPeerTest
        else let data = replicate (if hashed then dataLen + length (ptHash test) else dataLen) 0;
                 data = data[0 := ptMessage test]; data = data[1 := ptCode test];
                 (data, offset) = (if ptHasHash test then (put_at 3 (ptHash test) data, 3 + length (ptHash test)) else (data, 3));
                 data = data[offset := SSU2Version];
                 data = put_at (offset + 1) (PutUint32 (ptNonce test)) data;
                 data = put_at (offset + 5) (PutUint32 (ptTimestamp test)) data;
                 data = data[offset + 9 := of_nat (2 + length address)];
                 data = put_at (offset + 10) (PutUint16 (apPort (ptAddress test))) data;
                 data = put_at (offset + 12) address data;
                 offset = offset + (12 + length address);
                 data = put_at offset (ptSignature test) data
             in MarshalBlock dst BlockPeerTest data)"

text \<open>The part behind the optional hash.\<close>

definition peer_test_rest :: "bytes \<Rightarrow> PeerTestBlock \<Rightarrow> nat \<Rightarrow> PeerTestBlock result" where
  "peer_test_rest data result offset =
     (if length data < offset + 12 \<or> data ! offset \<noteq> SSU2Version then Inl ErrPeerTest
      else let result = result\<lparr>ptNonce := Uint32 (slice (offset + 1) (offset + 5) data), ptTimestamp := Uint32 (slice (offset + 5) (offset + 9) data)\<rparr>;
               addressSize = unat (data ! (offset + 9)) in
        if (addressSize \<noteq> 6 \<and> addressSize \<noteq> 18) \<or> length data < offset + 10 + addressSize then Inl ErrPeerTest
        else let port = Uint16 (slice (offset + 10) (offset + 12) data) in
          case AddrFromSlice (slice (offset + 12) (offset + 10 + addressSize) data) of
            None \<Rightarrow> Inl ErrPeerTest
          | Some address \<Rightarrow>
              if port = 0 \<or> IsUnspecified address \<or> Is4In6 address then Inl ErrPeerTest
              else let result = result\<lparr>ptAddress := \<lparr>apAddr = address, apPort = port\<rparr>, ptSignature := drop (offset + (10 + addressSize)) data\<rparr> in
                if ptMessage result \<le> 4 \<and> length (ptSignature result) = 0 then Inl ErrPeerTest else Inr result)"

definition ParsePeerTestBlock :: "bytes \<Rightarrow> PeerTestBlock result" where
  "ParsePeerTestBlock data =
     (if length data < 15 \<or> data ! 0 < 1 \<or> data ! 0 > 7 \<or> data ! 2 \<noteq> 0 \<or> \<not> validPeerTestCode (data ! 0) (data ! 1) then Inl ErrPeerTest
      else let result = \<lparr>ptMessage = data ! 0, ptCode = data ! 1, ptNonce = 0, ptTimestamp = 0, ptAddress = no_endpoint,
                 ptHash = replicate 32 0, ptHasHash = False, ptSignature = []\<rparr>; offset = 3 in
        if ptMessage result = 2 \<or> ptMessage result = 4 then
          if length data < offset + 32 + 12 then Inl ErrPeerTest
          else peer_test_rest data (result\<lparr>ptHash := slice offset (offset + 32) data, ptHasHash := True\<rparr>) (offset + 32)
        else peer_test_rest data result offset)"

section \<open>The block iterator\<close>

record SSU2Block =
  sbType :: u8
  sbData :: bytes

record BlockIterator =
  biRest :: bytes
  biTerminated :: bool
  biPadded :: bool

definition NewBlockIterator :: "bytes \<Rightarrow> BlockIterator" where
  "NewBlockIterator payload = \<lparr>biRest = payload, biTerminated = False, biPadded = False\<rparr>"

definition require :: "bool \<Rightarrow> unit result" where "require b = (if b then Inr () else Inl ErrPacketLength)"

definition validateBlock :: "SSU2Block \<Rightarrow> unit result" where
  "validateBlock block =
     (let t = sbType block; d = sbData block in
      if t = BlockDateTime then require (length d = 4)
      else if t = BlockOptions then require (length d \<ge> 12)
      else if t = BlockRouterInfo then require (\<not> (length d < 2 \<or> d ! 0 AND 0xfc \<noteq> 0 \<or> d ! 1 \<noteq> 1))
      else if t = BlockI2NP then require (length d \<ge> 9)
      else if t = BlockFirstFragment then require (length d > 9)
      else if t = BlockFollowOnFragment then require (\<not> (length d \<le> 5 \<or> drop_bit 1 (d ! 0) = 0))
      else if t = BlockTermination then require (length d \<ge> 9)
      else if t = BlockAddress then require (length d = 6 \<or> length d = 18)
      else if t = BlockRelayRequest then bindR (ParseRelayRequestBlock d) (\<lambda>_. Inr ())
      else if t = BlockRelayResponse then bindR (ParseRelayResponseBlock d) (\<lambda>_. Inr ())
      else if t = BlockRelayIntro then bindR (ParseRelayIntroBlock d) (\<lambda>_. Inr ())
      else if t = BlockPeerTest then bindR (ParsePeerTestBlock d) (\<lambda>_. Inr ())
      else if t = BlockRelayTagRequest then bindR (ParseRelayTagRequestBlock d) (\<lambda>_. Inr ())
      else if t = BlockRelayTag then bindR (ParseRelayTagBlock d) (\<lambda>_. Inr ())
      else if t = BlockNewToken then bindR (ParseNewTokenBlock d) (\<lambda>_. Inr ())
      else if t = BlockPathChallenge then bindR (ParsePathChallengeBlock d) (\<lambda>_. Inr ())
      else if t = BlockPathResponse then bindR (ParsePathResponseBlock d) (\<lambda>_. Inr ())
      else Inr ())"

definition SSU2BlockNext :: "BlockIterator \<Rightarrow> (SSU2Block \<times> BlockIterator) option result" where
  "SSU2BlockNext it =
     (if length (biRest it) = 0 then Inr None
      else if biPadded it \<or> (biTerminated it \<and> biRest it ! 0 \<noteq> BlockPadding) then Inl ErrPacketLength
      else if length (biRest it) < 3 then Inl ErrShortBuffer
      else let n = unat (Uint16 (slice 1 3 (biRest it))) in
        if n > length (biRest it) - 3 then Inl ErrShortBuffer
        else let block = \<lparr>sbType = biRest it ! 0, sbData = slice 3 (3 + n) (biRest it)\<rparr>;
                 it = it\<lparr>biRest := drop (3 + n) (biRest it)\<rparr> in
          bindR (validateBlock block) (\<lambda>_.
            let it = (if sbType block = BlockPadding then it\<lparr>biPadded := True\<rparr> else it);
                it = (if sbType block = BlockTermination then it\<lparr>biTerminated := True\<rparr> else it) in
            if biPadded it \<and> length (biRest it) \<noteq> 0 then Inl ErrPacketLength
            else Inr (Some (block, it))))"

section \<open>The grammar of a payload\<close>

definition ssu2_block_bytes :: "SSU2Block \<Rightarrow> bytes" where
  "ssu2_block_bytes b = sbType b # PutUint16 (of_nat (length (sbData b))) @ sbData b"

definition ssu2_block_ok :: "SSU2Block \<Rightarrow> bool" where
  "ssu2_block_ok b \<longleftrightarrow> length (sbData b) < 65536 \<and> validateBlock b = Inr ()"

lemma length_ssu2_block_bytes [simp]: "length (ssu2_block_bytes b) = 3 + length (sbData b)"
  by (simp add: ssu2_block_bytes_def)

lemma MarshalBlock_eq:
  "MarshalBlock dst kind data =
     (if length data < 65536 then Inr (dst @ ssu2_block_bytes \<lparr>sbType = kind, sbData = data\<rparr>) else Inl ErrPacketLength)"
proof -
  let ?z = "replicate (3 + length data) 0" and ?n = "PutUint16 (of_nat (length data))"
  have u: "(dst @ ?z)[length dst := kind] = dst @ ?z[0 := kind]" by (simp add: list_update_append)
  have p: "put_at (length dst + k) xs (dst @ ys) = dst @ put_at k xs ys" for k xs and ys :: bytes
    by (simp add: put_at_def)
  have z: "?z[0 := kind] = put_at 0 [kind] ?z" by (intro list_update_put_at) simp
  have "put_at 3 data (put_at 1 ?n (?z[0 := kind])) = put_at 0 ([kind] @ ?n @ data) ?z"
    unfolding z by (simp add: put_at_put_at [where m = 0] del: replicate_add replicate_Suc)
  then have "put_at 3 data (put_at 1 ?n (?z[0 := kind])) = kind # ?n @ data" by (simp add: put_at_0_all)
  then show ?thesis
    unfolding MarshalBlock_def Let_def u p ssu2_block_bytes_def by simp
qed

lemma block_split:
  assumes "3 \<le> length rest" "n = unat (Uint16 (slice 1 3 rest))" "n \<le> length rest - 3"
  shows "rest = ssu2_block_bytes \<lparr>sbType = rest ! 0, sbData = slice 3 (3 + n) rest\<rparr> @ drop (3 + n) rest"
  using block_layout_split [OF assms] by (simp add: ssu2_block_bytes_def block_layout_def)

lemma SSU2BlockNext_eq:
  assumes "n = unat (Uint16 (slice 1 3 rest))" "blk = \<lparr>sbType = rest ! 0, sbData = slice 3 (3 + n) rest\<rparr>" "r = drop (3 + n) rest"
  shows "SSU2BlockNext \<lparr>biRest = rest, biTerminated = t, biPadded = p\<rparr> =
    (if rest = [] then Inr None else if p \<or> (t \<and> rest ! 0 \<noteq> BlockPadding) then Inl ErrPacketLength else if length rest < 3 then Inl ErrShortBuffer
     else if n > length rest - 3 then Inl ErrShortBuffer
     else bindR (validateBlock blk) (\<lambda>_. if sbType blk = BlockPadding \<and> r \<noteq> [] then Inl ErrPacketLength
       else Inr (Some (blk, \<lparr>biRest = r, biTerminated = (t \<or> sbType blk = BlockTermination), biPadded = (sbType blk = BlockPadding)\<rparr>))))"
  unfolding SSU2BlockNext_def Let_def BlockIterator.simps assms(1) [symmetric] assms(2) [symmetric] assms(3) [symmetric]
  by (cases "sbType blk = BlockPadding"; cases "sbType blk = BlockTermination"; cases p) simp_all

lemma SSU2BlockNext_bytes:
  assumes "ssu2_block_ok b" "t \<longrightarrow> sbType b = BlockPadding" "sbType b = BlockPadding \<longrightarrow> r = []"
  shows "SSU2BlockNext \<lparr>biRest = ssu2_block_bytes b @ r, biTerminated = t, biPadded = False\<rparr> =
    Inr (Some (b, \<lparr>biRest = r, biTerminated = (t \<or> sbType b = BlockTermination), biPadded = (sbType b = BlockPadding)\<rparr>))"
proof -
  let ?rest = "ssu2_block_bytes b @ r"
  have n: "length (sbData b) = unat (Uint16 (slice 1 3 ?rest))" using assms(1)
    by (simp add: ssu2_block_bytes_def slice_def codec_simps ssu2_block_ok_def)
  have d: "b = \<lparr>sbType = ?rest ! 0, sbData = slice 3 (3 + length (sbData b)) ?rest\<rparr>" "r = drop (3 + length (sbData b)) ?rest"
    using drop_append [of "3 + length (sbData b)" "ssu2_block_bytes b" r] by (simp_all add: ssu2_block_bytes_def slice_def)
  have h: "?rest ! 0 = sbType b" "?rest \<noteq> []" by (simp_all add: ssu2_block_bytes_def)
  show ?thesis unfolding SSU2BlockNext_eq [OF n d] h using assms h(2) by (auto simp: ssu2_block_ok_def)
qed

lemma SSU2BlockNext_Some:
  assumes "SSU2BlockNext it = Inr (Some (b, it'))"
  shows "biRest it = ssu2_block_bytes b @ biRest it' \<and> ssu2_block_ok b \<and> \<not> biPadded it \<and> (biTerminated it \<longrightarrow> sbType b = BlockPadding) \<and>
    (sbType b = BlockPadding \<longrightarrow> biRest it' = []) \<and> biTerminated it' = (biTerminated it \<or> sbType b = BlockTermination) \<and> biPadded it' = (sbType b = BlockPadding)"
proof -
  obtain rest t p where it: "it = \<lparr>biRest = rest, biTerminated = t, biPadded = p\<rparr>" by (cases it)
  define n where "n = unat (Uint16 (slice 1 3 rest))"
  define blk where "blk = \<lparr>sbType = rest ! 0, sbData = slice 3 (3 + n) rest\<rparr>"
  define r where "r = drop (3 + n) rest"
  have ty: "rest ! 0 = sbType blk" by (simp add: blk_def)
  have g: "\<not> p" "t \<longrightarrow> sbType blk = BlockPadding" "3 \<le> length rest" "n \<le> length rest - 3" "validateBlock blk = Inr ()" "sbType blk = BlockPadding \<longrightarrow> r = []"
    "b = blk" "it' = \<lparr>biRest = r, biTerminated = (t \<or> sbType blk = BlockTermination), biPadded = (sbType blk = BlockPadding)\<rparr>"
    using assms unfolding it SSU2BlockNext_eq [OF n_def blk_def r_def] ty by (auto simp: bindR_eq_Inr simp del: One_nat_def split: if_splits)
  have n: "n < 65536" by (simp add: n_def)
  have "rest = ssu2_block_bytes blk @ r" unfolding blk_def r_def using g(3,4) n_def by (intro block_split)
  moreover have "ssu2_block_ok blk" using g(5) n by (simp add: ssu2_block_ok_def blk_def min_def)
  ultimately show ?thesis using g it by simp
qed

lemma SSU2BlockNext_None: "SSU2BlockNext it = Inr None \<Longrightarrow> biRest it = []"
proof -
  obtain rest t p where it: "it = \<lparr>biRest = rest, biTerminated = t, biPadded = p\<rparr>" by (cases it)
  assume "SSU2BlockNext it = Inr None"
  then show ?thesis unfolding it SSU2BlockNext_eq [OF refl refl refl] by (auto simp: bindR_eq_Inr split: if_splits)
qed

lemma SSU2BlockNext_enc:
  assumes "biRest it = ssu2_block_bytes b @ r" "ssu2_block_ok b" "\<not> biPadded it" "biTerminated it \<longrightarrow> sbType b = BlockPadding" "sbType b = BlockPadding \<longrightarrow> r = []"
  shows "\<exists>it'. SSU2BlockNext it = Inr (Some (b, it')) \<and> biRest it' = r"
proof -
  obtain t where "it = \<lparr>biRest = ssu2_block_bytes b @ r, biTerminated = t, biPadded = False\<rparr>" using assms(1,3) by (cases it) auto
  then show ?thesis using SSU2BlockNext_bytes [of b t r] assms by auto
qed

interpretation ssu2_blocks: block_grammar SSU2BlockNext biRest biTerminated biPadded ssu2_block_bytes ssu2_block_ok sbType BlockPadding BlockTermination
proof (unfold_locales, goal_cases)
  case (1 b)
  show ?case by (simp add: ssu2_block_bytes_def)
next
  case (2 s)
  have "SSU2BlockNext s = Inr None" if "biRest s = []" using that unfolding SSU2BlockNext_def by simp
  then show ?case using SSU2BlockNext_None by blast
next
  case (3 s b s')
  then show ?case by (rule SSU2BlockNext_Some)
next
  case (4 s b r)
  show ?case by (rule SSU2BlockNext_enc [OF 4(1-5)])
qed

text \<open>Padding stands last, and only padding follows a termination.\<close>

definition may_precede :: "SSU2Block \<Rightarrow> SSU2Block \<Rightarrow> bool" where
  "may_precede a b \<longleftrightarrow> sbType a \<noteq> BlockPadding \<and> (sbType a = BlockTermination \<longrightarrow> sbType b = BlockPadding)"

lemma may_precede_block: "may_precede = block_precedes sbType BlockPadding BlockTermination"
  by (simp add: may_precede_def block_precedes_def fun_eq_iff)

lemma drain_payload_iff:
  assumes "length payload < fuel"
  shows "drain SSU2BlockNext fuel (NewBlockIterator payload) = Some (Inr bs) \<longleftrightarrow>
    payload = concat (map ssu2_block_bytes bs) \<and> list_all ssu2_block_ok bs \<and> sorted_wrt may_precede bs"
  using ssu2_blocks.drain_blocks_iff [of "NewBlockIterator payload" fuel bs] assms by (simp add: NewBlockIterator_def may_precede_block)

end
