(* ===== verification/SSU2_Codecs.thy ===== *)
theory SSU2_Codecs
  imports SSU2_Blocks
begin

text \<open>
  The introduction and peer test blocks are read and written exactly: a body parses to a value if and only if
  marshalling the value gives that body. The byte strings that are signed determine what they are about.
  A value is well formed when its Go arrays have their lengths and its address has no IPv6 zone, which the
  format does not carry.
\<close>

section \<open>Endpoints\<close>

definition endpoint_bytes :: "AddrPort \<Rightarrow> bytes" where "endpoint_bytes e = PutUint16 (apPort e) @ addr_bytes (apAddr e)"

definition endpoint_wf :: "AddrPort \<Rightarrow> bool" where
  "endpoint_wf e \<longleftrightarrow> validRelayEndpoint e \<and> (case apAddr e of NoAddr \<Rightarrow> False | Addr4 b \<Rightarrow> length b = 4 | Addr6 b z \<Rightarrow> length b = 16 \<and> z = [])"

lemma endpoint_size: "endpoint_wf e \<Longrightarrow> length (endpoint_bytes e) = 6 \<or> length (endpoint_bytes e) = 18"
  by (auto simp: endpoint_wf_def endpoint_bytes_def split: netip_Addr.splits)

lemma appendRelayEndpoint_wf: "endpoint_wf e \<Longrightarrow> appendRelayEndpoint dst e = Inr (dst @ endpoint_bytes e)"
  by (simp add: endpoint_wf_def appendRelayEndpoint_def endpoint_bytes_def)

lemma parseRelayEndpoint_bytes: "endpoint_wf e \<Longrightarrow> parseRelayEndpoint (endpoint_bytes e) = Inr e"
  by (cases e) (auto simp: endpoint_wf_def endpoint_bytes_def parseRelayEndpoint_def validRelayEndpoint_def AddrFromSlice_def codec_simps split: netip_Addr.splits)

lemma parseRelayEndpoint_Inr:
  assumes "parseRelayEndpoint data = Inr e"
  shows "endpoint_wf e \<and> data = endpoint_bytes e"
proof -
  have l: "length data = 6 \<or> length data = 18" using assms by (auto simp: parseRelayEndpoint_def split: if_splits)
  then have "PutUint16 (Uint16 (take 2 data)) = take 2 data" by (auto simp: codec_simps)
  then show ?thesis
    using assms l by (auto simp: parseRelayEndpoint_def AddrFromSlice_def endpoint_wf_def endpoint_bytes_def validRelayEndpoint_def AddrPort_IsValid_def Let_def split: if_splits)
qed

lemma parseRelayEndpoint_iff: "parseRelayEndpoint data = Inr e \<longleftrightarrow> endpoint_wf e \<and> data = endpoint_bytes e"
  using parseRelayEndpoint_Inr parseRelayEndpoint_bytes by blast

text \<open>The bytes of an endpoint behind their length byte.\<close>

definition sized_endpoint :: "AddrPort \<Rightarrow> bytes" where "sized_endpoint e = of_nat (length (endpoint_bytes e)) # endpoint_bytes e"

lemma sized_endpoint_inj:
  assumes "endpoint_wf e" "endpoint_wf e'" "sized_endpoint e @ r = sized_endpoint e' @ r'"
  shows "e = e' \<and> r = r'"
proof -
  have l: "length (endpoint_bytes e) < 256" "length (endpoint_bytes e') < 256" using endpoint_size assms(1,2) by fastforce+
  have "unat (of_nat (length (endpoint_bytes e)) :: u8) = unat (of_nat (length (endpoint_bytes e')) :: u8)" using assms(3) by (simp add: sized_endpoint_def)
  then have "length (endpoint_bytes e) = length (endpoint_bytes e')" using l by simp
  then have "endpoint_bytes e = endpoint_bytes e'" "r = r'" using assms(3) by (simp_all add: sized_endpoint_def)
  then show ?thesis using parseRelayEndpoint_bytes assms(1,2) by (metis sum.inject(2))
qed

section \<open>Relay requests\<close>

definition request_unsigned :: "RelayRequest \<Rightarrow> bytes" where
  "request_unsigned q = PutUint32 (rqNonce q) @ PutUint32 (rqRelayTag q) @ PutUint32 (rqTimestamp q) @ [2] @ sized_endpoint (rqEndpoint q)"

lemma appendRelayRequestUnsigned_wf: "endpoint_wf (rqEndpoint q) \<Longrightarrow> appendRelayRequestUnsigned dst q = Inr (dst @ request_unsigned q)"
  by (simp add: appendRelayRequestUnsigned_def appendRelayEndpoint_wf Let_def list_update_put_at put_at_put_at [where m = 0] put_at_0_all
      request_unsigned_def sized_endpoint_def SSU2Version_def)

lemma parseRelayRequest_bytes:
  assumes "endpoint_wf (rqEndpoint q)" "rqSignature q \<noteq> []"
  shows "parseRelayRequest (request_unsigned q @ rqSignature q) = Inr q"
proof -
  let ?e = "endpoint_bytes (rqEndpoint q)"
  have "1 \<le> length (rqSignature q)" using assms(2) by (cases "rqSignature q") simp_all
  then show ?thesis using endpoint_size [OF assms(1)] parseRelayEndpoint_bytes [OF assms(1)]
    by (auto simp: parseRelayRequest_def request_unsigned_def sized_endpoint_def SSU2Version_def Let_def slice_def codec_simps nth_append)
qed

lemma parseRelayRequest_Inr:
  assumes "parseRelayRequest d = Inr q"
  shows "endpoint_wf (rqEndpoint q) \<and> rqSignature q \<noteq> [] \<and> d = request_unsigned q @ rqSignature q"
proof -
  define n where "n = unat (d ! 13)"
  have g: "n = 6 \<or> n = 18" "14 + n + 1 \<le> length d" "d ! 12 = 2" "parseRelayEndpoint (slice 14 (14 + n) d) = Inr (rqEndpoint q)"
    "rqNonce q = Uint32 (take 4 d)" "rqRelayTag q = Uint32 (slice 4 8 d)" "rqTimestamp q = Uint32 (slice 8 12 d)" "rqSignature q = drop (14 + n) d"
    using assms by (auto simp: parseRelayRequest_def SSU2Version_def n_def Let_def bindR_eq_Inr split: if_splits)
  note e = parseRelayEndpoint_Inr [OF g(4)]
  have l: "length (endpoint_bytes (rqEndpoint q)) = n" "(of_nat n :: u8) = d ! 13" using conjunct2 [OF e, symmetric] g(2) by (simp_all add: n_def)
  have w: "PutUint32 (rqNonce q) = take 4 d" "PutUint32 (rqRelayTag q) = slice 4 8 d" "PutUint32 (rqTimestamp q) = slice 8 12 d" "rqSignature q = drop (14 + n) d"
    using g(2) by (simp_all add: g(5-8) codec_simps)
  have "d = take 4 d @ slice 4 8 d @ slice 8 12 d @ [d ! 12, d ! 13] @ slice 14 (14 + n) d @ drop (14 + n) d"
    using g(2) by (simp add: slice_def take_chunk nth_chunk)
  then show ?thesis using e g(2,3) w l by (auto simp: request_unsigned_def sized_endpoint_def)
qed

lemma parseRelayRequest_iff:
  "parseRelayRequest d = Inr q \<longleftrightarrow> endpoint_wf (rqEndpoint q) \<and> rqSignature q \<noteq> [] \<and> d = request_unsigned q @ rqSignature q"
  using parseRelayRequest_Inr parseRelayRequest_bytes by blast

definition request_wf :: "RelayRequest \<Rightarrow> bool" where "request_wf q \<longleftrightarrow> endpoint_wf (rqEndpoint q) \<and> rqSignature q \<noteq> []"

definition intro_wf :: "RelayIntro \<Rightarrow> bool" where "intro_wf i \<longleftrightarrow> length (riAliceHash i) = 32 \<and> request_wf (riRequest i)"

lemma request_block_iff:
  "ParseRelayRequestBlock d = Inr q \<longleftrightarrow> request_wf q \<and> d = 0 # request_unsigned q @ rqSignature q"
  by (cases d) (auto simp: ParseRelayRequestBlock_def parseRelayRequest_iff request_wf_def)

lemma request_block_marshal: "request_wf q \<Longrightarrow> MarshalRelayRequestBlock dst q = MarshalBlock dst BlockRelayRequest (0 # request_unsigned q @ rqSignature q)"
  by (simp add: MarshalRelayRequestBlock_def request_wf_def appendRelayRequestUnsigned_wf)

lemma intro_block_iff:
  "ParseRelayIntroBlock d = Inr i \<longleftrightarrow> intro_wf i \<and> d = 0 # riAliceHash i @ request_unsigned (riRequest i) @ rqSignature (riRequest i)"
proof
  assume p: "ParseRelayIntroBlock d = Inr i"
  then have g: "33 \<le> length d" "d ! 0 = 0" "parseRelayRequest (drop 33 d) = Inr (riRequest i)" "riAliceHash i = slice 1 33 d"
    by (auto simp: ParseRelayIntroBlock_def bindR_eq_Inr split: if_splits)
  obtain c cs where d: "d = c # cs" using g(1) by (cases d) auto
  have "drop 33 d = request_unsigned (riRequest i) @ rqSignature (riRequest i)" using parseRelayRequest_Inr [OF g(3)] by blast
  moreover have "d = 0 # riAliceHash i @ drop 33 d" using g(2) by (simp add: g(4) d slice_def)
  ultimately have "d = 0 # riAliceHash i @ request_unsigned (riRequest i) @ rqSignature (riRequest i)" by (rule subst)
  then show "intro_wf i \<and> d = 0 # riAliceHash i @ request_unsigned (riRequest i) @ rqSignature (riRequest i)"
    using parseRelayRequest_Inr [OF g(3)] g(1,4) by (simp add: intro_wf_def request_wf_def)
next
  assume "intro_wf i \<and> d = 0 # riAliceHash i @ request_unsigned (riRequest i) @ rqSignature (riRequest i)"
  then show "ParseRelayIntroBlock d = Inr i"
    using parseRelayRequest_bytes [of "riRequest i"] by (cases i) (simp add: ParseRelayIntroBlock_def intro_wf_def request_wf_def slice_def)
qed

lemma intro_block_marshal:
  "intro_wf i \<Longrightarrow> MarshalRelayIntroBlock dst i = MarshalBlock dst BlockRelayIntro (0 # riAliceHash i @ request_unsigned (riRequest i) @ rqSignature (riRequest i))"
  using put_at_prefix [of "[0]" 1 "riAliceHash i" 32 "replicate 32 0"]
  by (simp add: MarshalRelayIntroBlock_def intro_wf_def request_wf_def appendRelayRequestUnsigned_wf put_at_def Let_def eval_nat_numeral)

section \<open>Relay responses\<close>

definition response_wf :: "RelayResponse \<Rightarrow> bool" where
  "response_wf r \<longleftrightarrow> rsSignature r \<noteq> [] \<and>
     (if rsCode r = 0 then rsHasToken r \<and> endpoint_wf (rsEndpoint r) else \<not> rsHasToken r \<and> rsEndpoint r = no_endpoint \<and> rsToken r = 0)"

definition response_unsigned :: "RelayResponse \<Rightarrow> bytes" where
  "response_unsigned r = PutUint32 (rsNonce r) @ PutUint32 (rsTimestamp r) @ [2] @ (if rsCode r = 0 then sized_endpoint (rsEndpoint r) else [0])"

definition response_body_bytes :: "RelayResponse \<Rightarrow> bytes" where
  "response_body_bytes r = [0, rsCode r] @ response_unsigned r @ rsSignature r @ (if rsHasToken r then PutUint64 (rsToken r) else [])"

lemma appendRelayResponseUnsigned_wf:
  "(rsCode r = 0 \<longrightarrow> endpoint_wf (rsEndpoint r)) \<Longrightarrow> appendRelayResponseUnsigned dst r = Inr (dst @ response_unsigned r)"
  by (simp add: appendRelayResponseUnsigned_def appendRelayEndpoint_wf Let_def list_update_put_at put_at_put_at [where m = 0] put_at_0_all
      response_unsigned_def sized_endpoint_def SSU2Version_def)

lemma response_valid: "response_wf r \<Longrightarrow> validRelayResponse r"
  by (auto simp: response_wf_def validRelayResponse_def validRelayResponseFields_def endpoint_wf_def no_endpoint_def AddrPort_IsValid_def)

lemma response_block_marshal: "response_wf r \<Longrightarrow> MarshalRelayResponseBlock dst r = MarshalBlock dst BlockRelayResponse (response_body_bytes r)"
  using response_valid [of r] appendRelayResponseUnsigned_wf [of r]
  by (simp add: MarshalRelayResponseBlock_def response_wf_def response_body_bytes_def Let_def eval_nat_numeral split: if_splits)

lemma response_block_bytes:
  assumes "response_wf r"
  shows "ParseRelayResponseBlock (response_body_bytes r) = Inr r"
proof -
  have s: "1 \<le> length (rsSignature r)" using assms by (cases "rsSignature r") (simp_all add: response_wf_def)
  show ?thesis
  proof (cases "rsCode r = 0")
    case True
    then have e: "endpoint_wf (rsEndpoint r)" "rsHasToken r" using assms by (simp_all add: response_wf_def)
    define d pre n where "d = response_body_bytes r" and "pre = [0, 0] @ response_unsigned r" and "n = length (endpoint_bytes (rsEndpoint r))"
    have n: "n = 6 \<or> n = 18" "unat (of_nat n :: u8) = n" using endpoint_size [OF e(1)] by (auto simp: n_def)
    have d: "d = pre @ rsSignature r @ PutUint64 (rsToken r)" using True e by (simp add: d_def pre_def response_body_bytes_def)
    have l: "length pre = 12 + n" using True by (simp add: pre_def response_unsigned_def sized_endpoint_def n_def)
    have rear: "drop (length d - 8) d = PutUint64 (rsToken r)" "slice (12 + n) (length d - 8) d = rsSignature r" "length d = 12 + n + length (rsSignature r) + 8"
      unfolding d slice_def by (simp_all add: l)
    have front: "d ! 0 = 0" "d ! 1 = 0" "slice 2 6 d = PutUint32 (rsNonce r)" "slice 6 10 d = PutUint32 (rsTimestamp r)" "d ! 10 = 2" "d ! 11 = of_nat n"
      "slice 12 (12 + n) d = endpoint_bytes (rsEndpoint r)"
      using True by (simp_all add: d pre_def response_unsigned_def sized_endpoint_def slice_def nth_append n_def)
    have b: "response_body d \<lparr>rsCode = 0, rsNonce = rsNonce r, rsTimestamp = rsTimestamp r, rsEndpoint = no_endpoint, rsSignature = [], rsToken = 0, rsHasToken = False\<rparr> = Inr r"
      using True e n s unfolding response_body_def front Let_def n(2) rear(1,2)
      by (cases r) (auto simp: rear(3) parseRelayEndpoint_bytes codec_simps)
    show ?thesis
      unfolding d_def [symmetric] ParseRelayResponseBlock_def front Let_def using rear(3) s b response_valid [OF assms] by (auto simp: codec_simps SSU2Version_def)
  next
    case False
    then show ?thesis
      using assms s response_valid [OF assms]
      by (cases r) (auto simp: ParseRelayResponseBlock_def response_body_def response_body_bytes_def response_unsigned_def SSU2Version_def
          response_wf_def Let_def slice_def codec_simps nth_append)
  qed
qed

lemma response_block_Inr:
  assumes "ParseRelayResponseBlock d = Inr r"
  shows "response_wf r \<and> d = response_body_bytes r"
proof -
  define r0 where "r0 = \<lparr>rsCode = d ! 1, rsNonce = Uint32 (slice 2 6 d), rsTimestamp = Uint32 (slice 6 10 d),
                 rsEndpoint = no_endpoint, rsSignature = [], rsToken = 0, rsHasToken = False\<rparr>"
  have g: "13 \<le> length d" "d ! 0 = 0" "d ! 10 = 2" "response_body d r0 = Inr r" "validRelayResponse r"
    using assms by (auto simp: ParseRelayResponseBlock_def r0_def Let_def SSU2Version_def bindR_eq_Inr split: if_splits)
  have h: "take 12 d = [0, d ! 1] @ PutUint32 (Uint32 (slice 2 6 d)) @ PutUint32 (Uint32 (slice 6 10 d)) @ [2, d ! 11]"
  proof -
    have "d = [d ! 0] @ drop 1 d" using g(1) by (cases d) simp_all
    also have "drop 1 d = [d ! 1] @ slice 2 6 d @ slice 6 10 d @ [d ! 10, d ! 11] @ drop 12 d" using g(1) by (simp add: slice_def take_chunk nth_chunk)
    finally have "d = [d ! 0] @ [d ! 1] @ slice 2 6 d @ slice 6 10 d @ [d ! 10, d ! 11] @ drop 12 d" .
    from arg_cong [OF this, of "take 12"] show ?thesis using g(1) by (simp add: g(2,3) codec_simps)
  qed
  show ?thesis
  proof (cases "d ! 1 = 0")
    case True
    define n where "n = unat (d ! 11)"
    have b: "n = 6 \<or> n = 18" "12 + n + 1 + 8 \<le> length d" "parseRelayEndpoint (slice 12 (12 + n) d) = Inr (rsEndpoint r)"
      "r = r0\<lparr>rsEndpoint := rsEndpoint r, rsSignature := slice (12 + n) (length d - 8) d, rsToken := Uint64 (drop (length d - 8) d), rsHasToken := True\<rparr>"
      using g(4) True by (auto simp: response_body_def r0_def n_def Let_def bindR_eq_Inr split: if_splits)
    have f: "rsCode r = 0" "rsNonce r = Uint32 (slice 2 6 d)" "rsTimestamp r = Uint32 (slice 6 10 d)" "rsSignature r = slice (12 + n) (length d - 8) d"
      "rsToken r = Uint64 (drop (length d - 8) d)" "rsHasToken r"
      using True by (subst b(4), simp add: r0_def)+
    note e = parseRelayEndpoint_Inr [OF b(3)]
    have "length (endpoint_bytes (rsEndpoint r)) = n" using conjunct2 [OF e, symmetric] b(2) by simp
    then have z: "sized_endpoint (rsEndpoint r) = d ! 11 # slice 12 (12 + n) d" using e by (simp add: sized_endpoint_def n_def)
    have t: "PutUint64 (rsToken r) = drop (length d - 8) d" using b(2) by (simp add: f(5) codec_simps)
    have "slice (12 + n) (length d - 8) d @ drop (length d - 8) d = drop (12 + n) d" using b(2) unfolding slice_def by (intro take_chunk) simp
    moreover have "slice 12 (12 + n) d @ drop (12 + n) d = drop 12 d" by (simp add: slice_def take_chunk)
    ultimately have "response_body_bytes r = take 12 d @ drop 12 d"
      using True by (simp add: response_body_bytes_def response_unsigned_def f(1-4,6) z t h)
    moreover have "rsSignature r \<noteq> []" using g(5) by (simp add: validRelayResponse_def)
    ultimately show ?thesis using e f(1,6) by (simp add: response_wf_def)
  next
    case False
    then have b: "d ! 11 = 0" "r = r0\<lparr>rsSignature := drop 12 d\<rparr>"
      using g(4) by (auto simp: response_body_def r0_def Let_def unat_eq_0 split: if_splits)
    have "response_body_bytes r = take 12 d @ drop 12 d" using False by (simp add: response_body_bytes_def response_unsigned_def b r0_def h)
    then show ?thesis using False b g(1) by (simp add: response_wf_def r0_def)
  qed
qed

lemma response_block_iff: "ParseRelayResponseBlock d = Inr r \<longleftrightarrow> response_wf r \<and> d = response_body_bytes r"
  using response_block_Inr response_block_bytes by blast

section \<open>Peer tests\<close>

definition test_wf :: "PeerTestBlock \<Rightarrow> bool" where
  "test_wf t \<longleftrightarrow> ptMessage t \<noteq> 0 \<and> ptMessage t \<le> 7 \<and> validPeerTestCode (ptMessage t) (ptCode t) \<and> endpoint_wf (ptAddress t) \<and>
     (ptMessage t \<le> 4 \<longrightarrow> ptSignature t \<noteq> []) \<and> (ptHasHash t \<longleftrightarrow> ptMessage t = 2 \<or> ptMessage t = 4) \<and>
     length (ptHash t) = 32 \<and> (\<not> ptHasHash t \<longrightarrow> ptHash t = replicate 32 0)"

definition test_rest :: "PeerTestBlock \<Rightarrow> bytes" where
  "test_rest t = [2] @ PutUint32 (ptNonce t) @ PutUint32 (ptTimestamp t) @ sized_endpoint (ptAddress t) @ ptSignature t"

definition test_bytes :: "PeerTestBlock \<Rightarrow> bytes" where
  "test_bytes t = [ptMessage t, ptCode t, 0] @ (if ptHasHash t then ptHash t else []) @ test_rest t"

text \<open>What a parsed block holds behind its first three bytes and its hash.\<close>

definition test_with :: "PeerTestBlock \<Rightarrow> PeerTestBlock \<Rightarrow> PeerTestBlock" where
  "test_with r t = r\<lparr>ptNonce := ptNonce t, ptTimestamp := ptTimestamp t, ptAddress := ptAddress t, ptSignature := ptSignature t\<rparr>"

lemma slice_prefix: "slice (length xs + i) (length xs + j) (xs @ ys) = slice i j ys"
  by (simp add: slice_def)

lemma peer_test_rest_bytes:
  assumes "endpoint_wf (ptAddress t)" "ptMessage r \<le> 4 \<longrightarrow> ptSignature t \<noteq> []"
  shows "peer_test_rest (pre @ test_rest t) r (length pre) = Inr (test_with r t)"
proof -
  define n where "n = length (endpoint_bytes (ptAddress t))"
  have n: "n = 6 \<or> n = 18" "unat (of_nat n :: u8) = n" using endpoint_size [OF assms(1)] by (auto simp: n_def)
  have la: "2 + length (addr_bytes (apAddr (ptAddress t))) = n" by (simp add: n_def endpoint_bytes_def)
  have rest: "test_rest t = [2] @ PutUint32 (ptNonce t) @ PutUint32 (ptTimestamp t) @ [of_nat n] @ PutUint16 (apPort (ptAddress t)) @ addr_bytes (apAddr (ptAddress t)) @ ptSignature t"
    by (simp add: test_rest_def sized_endpoint_def n_def endpoint_bytes_def)
  have len: "length (test_rest t) = 10 + n + length (ptSignature t)" unfolding rest using la by simp
  have f: "test_rest t ! 0 = 2" "slice 1 5 (test_rest t) = PutUint32 (ptNonce t)" "slice 5 9 (test_rest t) = PutUint32 (ptTimestamp t)" "test_rest t ! 9 = of_nat n"
    "slice 10 12 (test_rest t) = PutUint16 (apPort (ptAddress t))" unfolding rest slice_def by (simp_all add: nth_append)
  obtain h where h: "test_rest t = h @ addr_bytes (apAddr (ptAddress t)) @ ptSignature t" "length h = 12"
    using rest that [of "[2] @ PutUint32 (ptNonce t) @ PutUint32 (ptTimestamp t) @ [of_nat n] @ PutUint16 (apPort (ptAddress t))"] by simp
  have g: "slice 12 (10 + n) (test_rest t) = addr_bytes (apAddr (ptAddress t))" "drop (10 + n) (test_rest t) = ptSignature t"
    unfolding slice_def la [symmetric] h(1) by (simp_all add: h(2))
  have v: "AddrFromSlice (addr_bytes (apAddr (ptAddress t))) = Some (apAddr (ptAddress t))" "apPort (ptAddress t) \<noteq> 0" "\<not> IsUnspecified (apAddr (ptAddress t))" "\<not> Is4In6 (apAddr (ptAddress t))"
    using assms(1) by (auto simp: endpoint_wf_def AddrFromSlice_def validRelayEndpoint_def Let_def split: netip_Addr.splits)
  have p: "(pre @ test_rest t) ! length pre = 2" "(pre @ test_rest t) ! (length pre + 9) = of_nat n" "drop (length pre + (10 + n)) (pre @ test_rest t) = ptSignature t"
    using f(1,4) g(2) by (simp_all add: nth_append)
  show ?thesis
    unfolding peer_test_rest_def Let_def p slice_prefix n(2) f add.assoc [of "length pre" 10 n] g using n v assms(2) len
    by (auto simp: SSU2Version_def codec_simps test_with_def)
qed

lemma peer_test_rest_Inr:
  assumes "peer_test_rest (pre @ d) r (length pre) = Inr t"
  shows "t = test_with r t \<and> endpoint_wf (ptAddress t) \<and> (ptMessage r \<le> 4 \<longrightarrow> ptSignature t \<noteq> []) \<and> d = test_rest t"
proof -
  define n where "n = unat (d ! 9)"
  have p: "(pre @ d) ! length pre = d ! 0" "(pre @ d) ! (length pre + 9) = d ! 9" "drop (length pre + (10 + n)) (pre @ d) = drop (10 + n) d"
    by (simp_all add: nth_append)
  obtain a where g: "12 \<le> length d" "d ! 0 = 2" "n = 6 \<or> n = 18" "10 + n \<le> length d" "AddrFromSlice (slice 12 (10 + n) d) = Some a"
    "Uint16 (slice 10 12 d) \<noteq> 0" "\<not> IsUnspecified a" "\<not> Is4In6 a" "ptMessage r \<le> 4 \<longrightarrow> drop (10 + n) d \<noteq> []"
    "t = r\<lparr>ptNonce := Uint32 (slice 1 5 d), ptTimestamp := Uint32 (slice 5 9 d), ptAddress := \<lparr>apAddr = a, apPort = Uint16 (slice 10 12 d)\<rparr>, ptSignature := drop (10 + n) d\<rparr>"
    using assms unfolding peer_test_rest_def Let_def p slice_prefix n_def [symmetric] add.assoc [of "length pre" 10 n]
    by (auto simp: SSU2Version_def split: if_splits option.splits)
  have "parseRelayEndpoint (slice 10 (10 + n) d) = Inr (ptAddress t)"
  proof -
    have "drop 2 (slice 10 (10 + n) d) = slice 12 (10 + n) d" "take 2 (slice 10 (10 + n) d) = slice 10 12 d"
      using g(3) by (auto simp: slice_def drop_take take_take)
    then show ?thesis using g by (auto simp: parseRelayEndpoint_def)
  qed
  note e = parseRelayEndpoint_Inr [OF this]
  have "length (endpoint_bytes (ptAddress t)) = n" using conjunct2 [OF e, symmetric] g(4) by simp
  then have z: "sized_endpoint (ptAddress t) = d ! 9 # slice 10 (10 + n) d" using e by (simp add: sized_endpoint_def n_def)
  have "d = [d ! 0] @ drop 1 d" using g(1) by (cases d) simp_all
  also have "drop 1 d = slice 1 5 d @ slice 5 9 d @ [d ! 9] @ slice 10 (10 + n) d @ drop (10 + n) d"
    using g(1) by (simp add: slice_def take_chunk nth_chunk)
  also have "[d ! 0] @ slice 1 5 d @ slice 5 9 d @ [d ! 9] @ slice 10 (10 + n) d @ drop (10 + n) d = test_rest t"
    using g(1) by (simp add: test_rest_def z g(2)) (simp add: g(10) codec_simps)
  finally show ?thesis using e g(9) unfolding g(10) by (simp add: test_with_def)
qed

lemma test_block_bytes:
  assumes "test_wf t"
  shows "ParsePeerTestBlock (test_bytes t) = Inr t"
proof -
  define r where "r = \<lparr>ptMessage = ptMessage t, ptCode = ptCode t, ptNonce = 0, ptTimestamp = 0, ptAddress = no_endpoint,
    ptHash = ptHash t, ptHasHash = ptHasHash t, ptSignature = []\<rparr>"
  define pre where "pre = [ptMessage t, ptCode t, 0] @ (if ptHasHash t then ptHash t else [])"
  have b: "test_bytes t = pre @ test_rest t" by (simp add: test_bytes_def pre_def)
  have "12 \<le> length (test_rest t)" using endpoint_size [of "ptAddress t"] assms by (auto simp: test_rest_def sized_endpoint_def test_wf_def)
  moreover have "length pre = (if ptHasHash t then 35 else 3)" using assms by (simp add: pre_def test_wf_def)
  moreover have "peer_test_rest (pre @ test_rest t) r (length pre) = Inr t"
    using peer_test_rest_bytes [of t r pre] assms by (cases t) (simp add: r_def test_with_def test_wf_def)
  moreover have "(pre @ test_rest t) ! 0 = ptMessage t" "(pre @ test_rest t) ! 1 = ptCode t" "(pre @ test_rest t) ! 2 = 0" by (simp_all add: pre_def)
  moreover have "ptHasHash t \<Longrightarrow> slice 3 35 (pre @ test_rest t) = ptHash t" using assms by (simp add: pre_def slice_def test_wf_def)
  ultimately show ?thesis unfolding b ParsePeerTestBlock_def Let_def using assms by (auto simp: test_wf_def r_def)
qed

lemma test_block_Inr:
  assumes "ParsePeerTestBlock d = Inr t"
  shows "test_wf t \<and> d = test_bytes t"
proof -
  define r where "r = \<lparr>ptMessage = d ! 0, ptCode = d ! 1, ptNonce = 0, ptTimestamp = 0, ptAddress = no_endpoint, ptHash = replicate 32 0, ptHasHash = False, ptSignature = []\<rparr>"
  have g: "15 \<le> length d" "d ! 0 \<noteq> 0" "d ! 0 \<le> 7" "d ! 2 = 0" "validPeerTestCode (d ! 0) (d ! 1)"
    using assms by (auto simp: ParsePeerTestBlock_def not_less split: if_splits)
  have "d = [d ! 0] @ drop 1 d" using g(1) by (cases d) simp_all
  also have "drop 1 d = [d ! 1, d ! 2] @ drop 3 d" using g(1) by (simp add: nth_chunk)
  finally have d3: "d = [d ! 0, d ! 1, 0] @ drop 3 d" using g(4) by simp
  show ?thesis
  proof (cases "d ! 0 = 2 \<or> d ! 0 = 4")
    case True
    let ?pre = "[d ! 0, d ! 1, 0] @ slice 3 35 d"
    have l: "47 \<le> length d" and p: "peer_test_rest d (r\<lparr>ptHash := slice 3 35 d, ptHasHash := True\<rparr>) 35 = Inr t"
      using assms g True by (auto simp: ParsePeerTestBlock_def r_def Let_def split: if_splits)
    have "drop 3 d = slice 3 35 d @ drop 35 d" by (simp add: slice_def take_chunk)
    then have d: "d = ?pre @ drop 35 d" using d3 by simp
    have "peer_test_rest (?pre @ drop 35 d) (r\<lparr>ptHash := slice 3 35 d, ptHasHash := True\<rparr>) (length ?pre) = Inr t"
      unfolding d [symmetric] using p l by simp
    from peer_test_rest_Inr [OF this] have t: "t = test_with (r\<lparr>ptHash := slice 3 35 d, ptHasHash := True\<rparr>) t" "endpoint_wf (ptAddress t)"
      "d ! 0 \<le> 4 \<longrightarrow> ptSignature t \<noteq> []" "drop 35 d = test_rest t" by (auto simp: r_def)
    have f: "ptMessage t = d ! 0" "ptCode t = d ! 1" "ptHash t = slice 3 35 d" "ptHasHash t"
      by (subst t(1), simp add: test_with_def r_def)+
    have "d = test_bytes t" using d t(4) by (simp add: test_bytes_def f)
    then show ?thesis using g l t(2,3) True by (simp add: test_wf_def f)
  next
    case False
    let ?pre = "[d ! 0, d ! 1, 0]"
    have "peer_test_rest d r 3 = Inr t"
      using assms g False by (auto simp: ParsePeerTestBlock_def r_def Let_def split: if_splits)
    then have "peer_test_rest (?pre @ drop 3 d) r (length ?pre) = Inr t" unfolding d3 [symmetric] by (simp add: eval_nat_numeral)
    from peer_test_rest_Inr [OF this] have t: "t = test_with r t" "endpoint_wf (ptAddress t)" "d ! 0 \<le> 4 \<longrightarrow> ptSignature t \<noteq> []" "drop 3 d = test_rest t" by (auto simp: r_def)
    have f: "ptMessage t = d ! 0" "ptCode t = d ! 1" "ptHash t = replicate 32 0" "\<not> ptHasHash t"
      by (subst t(1), simp add: test_with_def r_def)+
    have "d = test_bytes t" using d3 t(4) by (simp add: test_bytes_def f)
    then show ?thesis using g t(2,3) False by (simp add: test_wf_def f)
  qed
qed

lemma test_block_iff: "ParsePeerTestBlock d = Inr t \<longleftrightarrow> test_wf t \<and> d = test_bytes t"
  using test_block_Inr test_block_bytes by blast

lemma test_block_marshal:
  assumes "test_wf t"
  shows "MarshalPeerTestBlock dst t = MarshalBlock dst BlockPeerTest (test_bytes t)"
proof -
  let ?a = "addr_bytes (apAddr (ptAddress t))"
  define off where "off = (if ptHasHash t then 35 else 3 :: nat)"
  define z where "z = replicate (off + 12 + length ?a + length (ptSignature t)) (0 :: u8)"
  define h where "h = [ptMessage t, ptCode t, 0] @ (if ptHasHash t then ptHash t else [])"
  have w: "ptMessage t \<noteq> 0" "ptMessage t \<le> 7" "validPeerTestCode (ptMessage t) (ptCode t)" "validRelayEndpoint (ptAddress t)" "ptMessage t \<le> 4 \<longrightarrow> ptSignature t \<noteq> []"
    "ptHasHash t \<longleftrightarrow> ptMessage t = 2 \<or> ptMessage t = 4" "length (ptHash t) = 32"
    using assms by (auto simp: test_wf_def endpoint_wf_def)
  have l: "length h = off" "length (endpoint_bytes (ptAddress t)) = 2 + length ?a" using w(7) by (simp_all add: h_def off_def endpoint_bytes_def)
  define x where "x = (if ptHasHash t then put_at 3 (ptHash t) (z[0 := ptMessage t, 1 := ptCode t]) else z[0 := ptMessage t, 1 := ptCode t])"
  have x: "x = put_at 0 h z"
  proof -
    have z3: "z = [0, 0, 0] @ drop 3 z" by (simp add: z_def off_def eval_nat_numeral)
    then have "z[0 := ptMessage t, 1 := ptCode t] = [ptMessage t, ptCode t, 0] @ drop 3 z" by (metis (no_types, lifting) One_nat_def append_Cons append_Nil list_update_code(2,3))
    then show ?thesis using z3 w(7) by (simp add: x_def h_def put_at_def z_def off_def eval_nat_numeral)
  qed
  have y: "put_at (off + 12 + length ?a) (ptSignature t) (put_at (off + 12) ?a (put_at (off + 10) (PutUint16 (apPort (ptAddress t)))
      ((put_at (off + 5) (PutUint32 (ptTimestamp t)) (put_at (off + 1) (PutUint32 (ptNonce t)) (x[off := 2])))[off + 9 := of_nat (2 + length ?a)]))) = test_bytes t"
    unfolding x using l w(7) by (simp add: list_update_put_at put_at_put_at [where m = 0] put_at_0_all z_def test_bytes_def test_rest_def h_def sized_endpoint_def endpoint_bytes_def)
  show ?thesis
    using w y by (auto simp: MarshalPeerTestBlock_def Let_def SSU2Version_def off_def x_def z_def add.assoc)
qed

section \<open>Signed data\<close>

lemma prologues:
  "length relayRequestPrologue = 16" "length relayResponsePrologue = 16" "length peerTestPrologue = 16"
  "relayRequestPrologue \<noteq> relayResponsePrologue" "relayRequestPrologue \<noteq> peerTestPrologue" "relayResponsePrologue \<noteq> peerTestPrologue"
  by (simp_all add: relayRequestPrologue_def relayResponsePrologue_def peerTestPrologue_def)

lemma request_input:
  "endpoint_wf (rqEndpoint q) \<Longrightarrow> RelayRequestSignatureInput dst b c q = Inr s \<Longrightarrow>
   length b = 32 \<and> length c = 32 \<and> s = dst @ relayRequestPrologue @ b @ c @ request_unsigned q"
  by (auto simp: RelayRequestSignatureInput_def appendRelayRequestUnsigned_wf split: if_splits)

lemma response_input:
  "(rsCode r = 0 \<longrightarrow> endpoint_wf (rsEndpoint r)) \<Longrightarrow> RelayResponseSignatureInput dst b r = Inr s \<Longrightarrow>
   length b = 32 \<and> s = dst @ relayResponsePrologue @ b @ response_unsigned r"
  by (auto simp: RelayResponseSignatureInput_def appendRelayResponseUnsigned_wf split: if_splits)

definition test_alice :: "PeerTestBlock \<Rightarrow> bytes \<Rightarrow> bytes" where
  "test_alice t alice = (if ptMessage t = 3 \<or> ptMessage t = 4 then alice else [])"

lemma test_input:
  assumes "endpoint_wf (ptAddress t)" "PeerTestSignatureInput dst b a t = Inr s"
  shows "length b = 32 \<and> (length (test_alice t a) = (if ptMessage t = 3 \<or> ptMessage t = 4 then 32 else 0)) \<and>
    s = dst @ peerTestPrologue @ b @ test_alice t a @ test_rest (t\<lparr>ptSignature := []\<rparr>)"
proof -
  have p: "(put_at 5 (PutUint32 (ptTimestamp t)) (put_at 1 (PutUint32 (ptNonce t)) ((replicate 10 0)[0 := 2])))[9 := x] =
      [2] @ PutUint32 (ptNonce t) @ PutUint32 (ptTimestamp t) @ [x]" for x
    by (simp add: list_update_put_at put_at_put_at [where m = 0] put_at_0_all)
  show ?thesis using assms unfolding PeerTestSignatureInput_def Let_def SSU2Version_def p
    by (auto simp: appendRelayEndpoint_wf test_alice_def test_rest_def sized_endpoint_def split: if_splits)
qed

lemma put32_inj: "PutUint32 a @ x = PutUint32 b @ y \<longleftrightarrow> a = b \<and> x = y"
proof -
  have "PutUint32 a = PutUint32 b \<longleftrightarrow> a = b" by (metis Uint32_PutUint32 append_Nil2)
  then show ?thesis by simp
qed

lemma request_unsigned_inj:
  assumes "endpoint_wf (rqEndpoint q)" "endpoint_wf (rqEndpoint q')" "request_unsigned q = request_unsigned q'"
  shows "rqNonce q = rqNonce q' \<and> rqRelayTag q = rqRelayTag q' \<and> rqTimestamp q = rqTimestamp q' \<and> rqEndpoint q = rqEndpoint q'"
  using assms(3) sized_endpoint_inj [OF assms(1,2), of "[]" "[]"] by (simp add: request_unsigned_def put32_inj)

lemma response_unsigned_inj:
  assumes "rsCode r = 0 \<longrightarrow> endpoint_wf (rsEndpoint r)" "rsCode r' = 0 \<longrightarrow> endpoint_wf (rsEndpoint r')" "response_unsigned r = response_unsigned r'"
  shows "rsNonce r = rsNonce r' \<and> rsTimestamp r = rsTimestamp r' \<and> (rsCode r = 0 \<longleftrightarrow> rsCode r' = 0) \<and> (rsCode r = 0 \<longrightarrow> rsEndpoint r = rsEndpoint r')"
proof -
  have len: "endpoint_wf e \<Longrightarrow> length (sized_endpoint e) \<noteq> 1" for e using endpoint_size [of e] by (auto simp: sized_endpoint_def)
  let ?z = "\<lambda>r. if rsCode r = 0 then sized_endpoint (rsEndpoint r) else [0]"
  have eq: "rsNonce r = rsNonce r'" "rsTimestamp r = rsTimestamp r'" "?z r = ?z r'" using assms(3) by (simp_all add: response_unsigned_def put32_inj)
  from arg_cong [OF eq(3), of length] have c: "rsCode r = 0 \<longleftrightarrow> rsCode r' = 0" using assms(1,2) len by (auto split: if_splits)
  moreover have "rsEndpoint r = rsEndpoint r'" if "rsCode r = 0"
    using that c eq(3) assms(1,2) sized_endpoint_inj [of "rsEndpoint r" "rsEndpoint r'" "[]" "[]"] by simp
  ultimately show ?thesis using eq(1,2) by blast
qed

lemma test_rest_inj:
  assumes "endpoint_wf (ptAddress t)" "endpoint_wf (ptAddress t')" "ptSignature t = []" "ptSignature t' = []" "test_rest t = test_rest t'"
  shows "ptNonce t = ptNonce t' \<and> ptTimestamp t = ptTimestamp t' \<and> ptAddress t = ptAddress t'"
  using assms(3-5) sized_endpoint_inj [OF assms(1,2), of "[]" "[]"] by (simp add: test_rest_def put32_inj)

lemma request_binding:
  assumes "endpoint_wf (rqEndpoint q)" "endpoint_wf (rqEndpoint q')" "RelayRequestSignatureInput dst b c q = Inr s" "RelayRequestSignatureInput dst b' c' q' = Inr s"
  shows "b = b' \<and> c = c' \<and> rqNonce q = rqNonce q' \<and> rqRelayTag q = rqRelayTag q' \<and> rqTimestamp q = rqTimestamp q' \<and> rqEndpoint q = rqEndpoint q'"
proof -
  note i = request_input [OF assms(1,3)] request_input [OF assms(2,4)]
  then have "length b = length b'" "length c = length c'" "dst @ relayRequestPrologue @ b @ c @ request_unsigned q = dst @ relayRequestPrologue @ b' @ c' @ request_unsigned q'" by simp_all
  then show ?thesis using request_unsigned_inj [OF assms(1,2)] by simp
qed

lemma response_binding:
  assumes "rsCode r = 0 \<longrightarrow> endpoint_wf (rsEndpoint r)" "rsCode r' = 0 \<longrightarrow> endpoint_wf (rsEndpoint r')"
    "RelayResponseSignatureInput dst b r = Inr s" "RelayResponseSignatureInput dst b' r' = Inr s"
  shows "b = b' \<and> rsNonce r = rsNonce r' \<and> rsTimestamp r = rsTimestamp r' \<and> (rsCode r = 0 \<longleftrightarrow> rsCode r' = 0) \<and> (rsCode r = 0 \<longrightarrow> rsEndpoint r = rsEndpoint r')"
proof -
  note i = response_input [OF assms(1,3)] response_input [OF assms(2,4)]
  then have "length b = length b'" "dst @ relayResponsePrologue @ b @ response_unsigned r = dst @ relayResponsePrologue @ b' @ response_unsigned r'" by simp_all
  then show ?thesis using response_unsigned_inj [OF assms(1,2)] by simp
qed

lemma test_binding:
  assumes "endpoint_wf (ptAddress t)" "endpoint_wf (ptAddress t')" "PeerTestSignatureInput dst b a t = Inr s" "PeerTestSignatureInput dst b' a' t' = Inr s"
  shows "b = b' \<and> test_alice t a = test_alice t' a' \<and> ptNonce t = ptNonce t' \<and> ptTimestamp t = ptTimestamp t' \<and> ptAddress t = ptAddress t'"
proof -
  let ?u = "test_rest (t\<lparr>ptSignature := []\<rparr>)" and ?u' = "test_rest (t'\<lparr>ptSignature := []\<rparr>)"
  note i = test_input [OF assms(1,3)] test_input [OF assms(2,4)]
  then have "length b = length b'" "dst @ peerTestPrologue @ b @ test_alice t a @ ?u = dst @ peerTestPrologue @ b' @ test_alice t' a' @ ?u'" by simp_all
  then have eq: "b = b'" "test_alice t a @ ?u = test_alice t' a' @ ?u'" by simp_all
  have "length (test_alice t a) = 32 \<or> length (test_alice t a) = 0" "length (test_alice t' a') = 32 \<or> length (test_alice t' a') = 0"
    using i by (simp_all split: if_splits)
  moreover have "length ?u = 16 \<or> length ?u = 28" "length ?u' = 16 \<or> length ?u' = 28"
    using endpoint_size [OF assms(1)] endpoint_size [OF assms(2)] by (auto simp: test_rest_def sized_endpoint_def)
  moreover have "length (test_alice t a) + length ?u = length (test_alice t' a') + length ?u'" using arg_cong [OF eq(2), of length] by simp
  ultimately have "length (test_alice t a) = length (test_alice t' a')" by auto
  then have "test_alice t a = test_alice t' a'" "?u = ?u'" using eq(2) by simp_all
  then show ?thesis using eq(1) test_rest_inj [of "t\<lparr>ptSignature := []\<rparr>" "t'\<lparr>ptSignature := []\<rparr>"] assms(1,2) by simp
qed

lemma kinds_separate:
  assumes "endpoint_wf (rqEndpoint q)" "rsCode r = 0 \<longrightarrow> endpoint_wf (rsEndpoint r)" "endpoint_wf (ptAddress t)"
  shows "RelayRequestSignatureInput dst b c q = Inr s \<Longrightarrow> RelayResponseSignatureInput dst b' r \<noteq> Inr s"
    "RelayRequestSignatureInput dst b c q = Inr s \<Longrightarrow> PeerTestSignatureInput dst b' a t \<noteq> Inr s"
    "RelayResponseSignatureInput dst b r = Inr s \<Longrightarrow> PeerTestSignatureInput dst b' a t \<noteq> Inr s"
proof -
  have sep: "dst @ p @ x \<noteq> dst @ p' @ x'" if "p \<noteq> p'" "length p = length p'" for p p' x x' :: bytes using that by simp
  show "RelayRequestSignatureInput dst b c q = Inr s \<Longrightarrow> RelayResponseSignatureInput dst b' r \<noteq> Inr s"
    using request_input [OF assms(1)] response_input [OF assms(2)] sep [OF prologues(4)] prologues(1,2) by metis
  show "RelayRequestSignatureInput dst b c q = Inr s \<Longrightarrow> PeerTestSignatureInput dst b' a t \<noteq> Inr s"
    using request_input [OF assms(1)] test_input [OF assms(3)] sep [OF prologues(5)] prologues(1,3) by metis
  show "RelayResponseSignatureInput dst b r = Inr s \<Longrightarrow> PeerTestSignatureInput dst b' a t \<noteq> Inr s"
    using response_input [OF assms(2)] test_input [OF assms(3)] sep [OF prologues(6)] prologues(2,3) by metis
qed

section \<open>Properties\<close>

text \<open>
  C12. The blocks of a payload. Reading a payload with the block iterator always ends, and it yields exactly the decompositions
  the format allows: the payload is the concatenation of the blocks read, each within its length field and passing the
  checks of its type, where padding stands last and only padding follows a termination block.
\<close>

theorem ssu2_payload_grammar:
  assumes "length payload < fuel"
  shows "(\<exists>r. drain SSU2BlockNext fuel (NewBlockIterator payload) = Some r) \<and>
    (drain SSU2BlockNext fuel (NewBlockIterator payload) = Some (Inr bs) \<longleftrightarrow>
      payload = concat (map ssu2_block_bytes bs) \<and> list_all ssu2_block_ok bs \<and>
      (\<forall>i j. i < j \<and> j < length bs \<longrightarrow> sbType (bs ! i) \<noteq> BlockPadding \<and> (sbType (bs ! i) = BlockTermination \<longrightarrow> sbType (bs ! j) = BlockPadding)))"
  using ssu2_blocks.drain_total [of "NewBlockIterator payload" fuel] drain_payload_iff [OF assms] assms
  by (auto simp: NewBlockIterator_def sorted_wrt_iff_nth_less may_precede_def)

text \<open>A date block and a padding block of one byte.\<close>

theorem ssu2_payload_grammar_witness:
  "drain SSU2BlockNext 20 (NewBlockIterator [0, 0, 4, 1, 2, 3, 4, 254, 0, 1, 9]) = Some (Inr [\<lparr>sbType = 0, sbData = [1, 2, 3, 4]\<rparr>, \<lparr>sbType = 254, sbData = [9]\<rparr>]) \<and>
   [0, 0, 4, 1, 2, 3, 4, 254, 0, 1, 9] = concat (map ssu2_block_bytes [\<lparr>sbType = 0, sbData = [1, 2, 3, 4]\<rparr>, \<lparr>sbType = 254, sbData = [9]\<rparr>])"
proof -
  let ?p = "[0, 0, 4, 1, 2, 3, 4, 254, 0, 1, 9]" and ?bs = "[\<lparr>sbType = 0, sbData = [1, 2, 3, 4]\<rparr>, \<lparr>sbType = 254, sbData = [9]\<rparr>]"
  have "drain SSU2BlockNext 20 (NewBlockIterator ?p) = Some (Inr ?bs)" by code_simp
  moreover have "length ?p < 20" by simp
  ultimately show ?thesis using ssu2_payload_grammar [of ?p 20 ?bs] by blast
qed

text \<open>
  C14. Introduction and peer test blocks are exact: a body parses to a relay request, relay introduction, relay response or peer test
  if and only if the value is well formed and marshalling it appends a block with exactly this body. So no two bodies denote one
  value, every parsed value can be forwarded unchanged, and every well-formed value is understood by the peer.
\<close>

theorem ssu2_introduction_exact:
  assumes "length d < 65536"
  shows "(ParseRelayRequestBlock d = Inr q \<longleftrightarrow> request_wf q \<and> MarshalRelayRequestBlock dst q = Inr (dst @ ssu2_block_bytes \<lparr>sbType = BlockRelayRequest, sbData = d\<rparr>)) \<and>
    (ParseRelayIntroBlock d = Inr i \<longleftrightarrow> intro_wf i \<and> MarshalRelayIntroBlock dst i = Inr (dst @ ssu2_block_bytes \<lparr>sbType = BlockRelayIntro, sbData = d\<rparr>)) \<and>
    (ParseRelayResponseBlock d = Inr r \<longleftrightarrow> response_wf r \<and> MarshalRelayResponseBlock dst r = Inr (dst @ ssu2_block_bytes \<lparr>sbType = BlockRelayResponse, sbData = d\<rparr>)) \<and>
    (ParsePeerTestBlock d = Inr t \<longleftrightarrow> test_wf t \<and> MarshalPeerTestBlock dst t = Inr (dst @ ssu2_block_bytes \<lparr>sbType = BlockPeerTest, sbData = d\<rparr>))"
proof -
  have m: "MarshalBlock dst k x = Inr (dst @ ssu2_block_bytes \<lparr>sbType = k, sbData = d\<rparr>) \<longleftrightarrow> d = x" for k x
  proof -
    have "x = d" if "length x < 65536" "ssu2_block_bytes \<lparr>sbType = k, sbData = x\<rparr> = ssu2_block_bytes \<lparr>sbType = k, sbData = d\<rparr>"
      using that by (simp add: ssu2_block_bytes_def)
    then show ?thesis using assms by (auto simp: MarshalBlock_eq)
  qed
  show ?thesis
    unfolding request_block_iff intro_block_iff response_block_iff test_block_iff
    using m by (auto simp: request_block_marshal intro_block_marshal response_block_marshal test_block_marshal)
qed

text \<open>A relay request for an IPv4 endpoint, and its body.\<close>

theorem ssu2_introduction_exact_witness:
  "let q = \<lparr>rqNonce = 1, rqRelayTag = 2, rqTimestamp = 3, rqEndpoint = \<lparr>apAddr = Addr4 [10, 0, 0, 1], apPort = 80\<rparr>, rqSignature = [7]\<rparr>;
       d = [0, 0, 0, 0, 1, 0, 0, 0, 2, 0, 0, 0, 3, 2, 6, 0, 80, 10, 0, 0, 1, 7] in
   request_wf q \<and> ParseRelayRequestBlock d = Inr q \<and> MarshalRelayRequestBlock [] q = Inr ([7, 0, 22] @ d)"
proof -
  let ?q = "\<lparr>rqNonce = 1, rqRelayTag = 2, rqTimestamp = 3, rqEndpoint = \<lparr>apAddr = Addr4 [10, 0, 0, 1], apPort = 80\<rparr>, rqSignature = [7]\<rparr>"
  let ?d = "[0, 0, 0, 0, 1, 0, 0, 0, 2, 0, 0, 0, 3, 2, 6, 0, 80, 10, 0, 0, 1, 7]"
  have "ParseRelayRequestBlock ?d = Inr ?q" by code_simp
  moreover have "length ?d < 65536" by simp
  ultimately have "request_wf ?q" "MarshalRelayRequestBlock [] ?q = Inr ([] @ ssu2_block_bytes \<lparr>sbType = BlockRelayRequest, sbData = ?d\<rparr>)"
    using ssu2_introduction_exact [of ?d ?q "[]"] by blast+
  moreover have "ssu2_block_bytes \<lparr>sbType = BlockRelayRequest, sbData = ?d\<rparr> = [7, 0, 22] @ ?d" by code_simp
  ultimately show ?thesis using \<open>ParseRelayRequestBlock ?d = Inr ?q\<close> by (simp add: Let_def)
qed

text \<open>
  C22. What is signed determines what it is about. Two relay requests, two relay responses or two peer tests with the same byte string
  to sign agree on the hashes of the parties, the nonce, the time stamp, the endpoint and, for a request, the relay tag; for a
  response on whether it accepts; for a peer test on whether it names Alice. A string of one kind is never one of another kind.
\<close>

theorem ssu2_signature_binding:
  assumes "endpoint_wf (rqEndpoint q)" "endpoint_wf (rqEndpoint q')" "rsCode r = 0 \<longrightarrow> endpoint_wf (rsEndpoint r)" "rsCode r' = 0 \<longrightarrow> endpoint_wf (rsEndpoint r')"
    "endpoint_wf (ptAddress t)" "endpoint_wf (ptAddress t')"
  shows "(RelayRequestSignatureInput dst b c q = Inr s \<and> RelayRequestSignatureInput dst b' c' q' = Inr s \<longrightarrow>
      b = b' \<and> c = c' \<and> rqNonce q = rqNonce q' \<and> rqRelayTag q = rqRelayTag q' \<and> rqTimestamp q = rqTimestamp q' \<and> rqEndpoint q = rqEndpoint q') \<and>
    (RelayResponseSignatureInput dst b r = Inr s \<and> RelayResponseSignatureInput dst b' r' = Inr s \<longrightarrow>
      b = b' \<and> rsNonce r = rsNonce r' \<and> rsTimestamp r = rsTimestamp r' \<and> (rsCode r = 0 \<longleftrightarrow> rsCode r' = 0) \<and> (rsCode r = 0 \<longrightarrow> rsEndpoint r = rsEndpoint r')) \<and>
    (PeerTestSignatureInput dst b a t = Inr s \<and> PeerTestSignatureInput dst b' a' t' = Inr s \<longrightarrow>
      b = b' \<and> test_alice t a = test_alice t' a' \<and> ptNonce t = ptNonce t' \<and> ptTimestamp t = ptTimestamp t' \<and> ptAddress t = ptAddress t') \<and>
    (RelayRequestSignatureInput dst b c q = Inr s \<longrightarrow> RelayResponseSignatureInput dst b' r \<noteq> Inr s \<and> PeerTestSignatureInput dst b' a t \<noteq> Inr s) \<and>
    (RelayResponseSignatureInput dst b r = Inr s \<longrightarrow> PeerTestSignatureInput dst b' a t \<noteq> Inr s)"
  using request_binding [OF assms(1,2), of dst b c s b' c'] response_binding [OF assms(3,4), of dst b s b'] test_binding [OF assms(5,6), of dst b a s b' a']
    kinds_separate(1) [OF assms(1,3,5), of dst b c s b'] kinds_separate(2) [OF assms(1,3,5), of dst b c s b' a] kinds_separate(3) [OF assms(1,3,5), of dst b s b' a]
  by (intro conjI impI) simp_all

text \<open>A relay request for an IPv4 endpoint.\<close>

theorem ssu2_signature_binding_witness:
  "let q = \<lparr>rqNonce = 1, rqRelayTag = 2, rqTimestamp = 3, rqEndpoint = \<lparr>apAddr = Addr4 [10, 0, 0, 1], apPort = 80\<rparr>, rqSignature = []\<rparr>;
       r = \<lparr>rsCode = 0, rsNonce = 1, rsTimestamp = 3, rsEndpoint = \<lparr>apAddr = Addr4 [10, 0, 0, 1], apPort = 80\<rparr>, rsSignature = [], rsToken = 0, rsHasToken = True\<rparr>;
       s = relayRequestPrologue @ replicate 32 4 @ replicate 32 5 @ [0, 0, 0, 1, 0, 0, 0, 2, 0, 0, 0, 3, 2, 6, 0, 80, 10, 0, 0, 1] in
   RelayRequestSignatureInput [] (replicate 32 4) (replicate 32 5) q = Inr s \<and> RelayResponseSignatureInput [] (replicate 32 4) r \<noteq> Inr s"
proof -
  let ?e = "\<lparr>apAddr = Addr4 [10, 0, 0, 1], apPort = 80\<rparr>"
  let ?q = "\<lparr>rqNonce = 1, rqRelayTag = 2, rqTimestamp = 3, rqEndpoint = ?e, rqSignature = []\<rparr>"
  let ?r = "\<lparr>rsCode = 0, rsNonce = 1, rsTimestamp = 3, rsEndpoint = ?e, rsSignature = [], rsToken = 0, rsHasToken = True\<rparr>"
  let ?t = "\<lparr>ptMessage = 1, ptCode = 0, ptNonce = 1, ptTimestamp = 3, ptAddress = ?e, ptHash = replicate 32 0, ptHasHash = False, ptSignature = [7]\<rparr>"
  let ?s = "relayRequestPrologue @ replicate 32 4 @ replicate 32 5 @ [0, 0, 0, 1, 0, 0, 0, 2, 0, 0, 0, 3, 2, 6, 0, 80, 10, 0, 0, 1]"
  have e: "endpoint_wf ?e" by code_simp
  have s: "RelayRequestSignatureInput [] (replicate 32 4) (replicate 32 5) ?q = Inr ?s" by code_simp
  have "RelayResponseSignatureInput [] (replicate 32 4) ?r \<noteq> Inr ?s"
    using ssu2_signature_binding [of ?q ?q ?r ?r ?t ?t "[]" "replicate 32 4" "replicate 32 5" ?s "replicate 32 4"] e s by (simp only: RelayRequest.simps RelayResponse.simps PeerTestBlock.simps) blast
  then show ?thesis using s by (simp only: Let_def) blast
qed

end
