(* ===== verification/SSU2_Session.thy ===== *)
theory SSU2_Session
  imports SSU2_Codecs
begin

text \<open>
  The payload checks of the SSU2 handshake (\<open>ssu2/handshake.go\<close>), the authenticated packets outside a session
  (\<open>ssu2/token.go\<close>: token request, retry, peer test, hole punch) and the path validator (\<open>ssu2/path.go\<close>). The loops over the
  block iterator recurse on the rest of the payload, which every block shortens.
\<close>

section \<open>Payload checks\<close>

lemma SSU2BlockNext_shrinks: "SSU2BlockNext it = Inr (Some (b, it')) \<Longrightarrow> length (biRest it') < length (biRest it)"
  by (rule ssu2_blocks.shrinks)

function handshake_loop :: "BlockIterator \<Rightarrow> bool \<Rightarrow> bool" where
  "handshake_loop iterator dateTime =
     (case SSU2BlockNext iterator of
        Inl _ \<Rightarrow> False
      | Inr None \<Rightarrow> dateTime
      | Inr (Some (block, iterator)) \<Rightarrow>
          if sbType block = BlockDateTime then (if dateTime then False else handshake_loop iterator True)
          else handshake_loop iterator dateTime)"
  by pat_completeness auto
termination by (relation "measure (\<lambda>(it, _). length (biRest it))") (auto dest: SSU2BlockNext_shrinks)

definition validHandshakePayload :: "bytes \<Rightarrow> bool" where
  "validHandshakePayload payload = (if length payload < 8 then False else handshake_loop (NewBlockIterator payload) False)"

function confirmed_loop :: "BlockIterator \<Rightarrow> bool" where
  "confirmed_loop iterator =
     (case SSU2BlockNext iterator of
        Inl _ \<Rightarrow> False
      | Inr None \<Rightarrow> True
      | Inr (Some (block, iterator)) \<Rightarrow>
          if sbType block \<noteq> BlockOptions \<and> sbType block \<noteq> BlockI2NP \<and> sbType block \<noteq> BlockPadding then False else confirmed_loop iterator)"
  by pat_completeness auto
termination by (relation "measure (\<lambda>it. length (biRest it))") (auto dest: SSU2BlockNext_shrinks)

definition validConfirmedPayload :: "bytes \<Rightarrow> bool" where
  "validConfirmedPayload payload =
     (case SSU2BlockNext (NewBlockIterator payload) of
        Inl _ \<Rightarrow> False
      | Inr None \<Rightarrow> False
      | Inr (Some (block, iterator)) \<Rightarrow> if sbType block \<noteq> BlockRouterInfo then False else confirmed_loop iterator)"

function peer_test_loop :: "BlockIterator \<Rightarrow> bool \<Rightarrow> bool \<Rightarrow> bool" where
  "peer_test_loop iterator hasDateTime hasPeerTest =
     (case SSU2BlockNext iterator of
        Inl _ \<Rightarrow> False
      | Inr None \<Rightarrow> hasDateTime \<and> hasPeerTest
      | Inr (Some (block, iterator)) \<Rightarrow>
          if sbType block = BlockDateTime then (if hasDateTime then False else peer_test_loop iterator True hasPeerTest)
          else if sbType block = BlockPeerTest then
            (if hasPeerTest then False
             else case ParsePeerTestBlock (sbData block) of Inl _ \<Rightarrow> False | Inr _ \<Rightarrow> peer_test_loop iterator hasDateTime True)
          else if sbType block = BlockPadding then peer_test_loop iterator hasDateTime hasPeerTest
          else False)"
  by pat_completeness auto
termination by (relation "measure (\<lambda>(it, _). length (biRest it))") (auto dest: SSU2BlockNext_shrinks)

function hole_punch_loop :: "BlockIterator \<Rightarrow> bool \<Rightarrow> bool \<Rightarrow> bool \<Rightarrow> bool" where
  "hole_punch_loop iterator dateTime address response =
     (case SSU2BlockNext iterator of
        Inl _ \<Rightarrow> False
      | Inr None \<Rightarrow> dateTime \<and> address \<and> response
      | Inr (Some (block, iterator)) \<Rightarrow>
          if sbType block = BlockDateTime then (if dateTime then False else hole_punch_loop iterator True address response)
          else if sbType block = BlockAddress then (if address then False else hole_punch_loop iterator dateTime True response)
          else if sbType block = BlockRelayResponse then
            (if response then False
             else case ParseRelayResponseBlock (sbData block) of Inl _ \<Rightarrow> False | Inr _ \<Rightarrow> hole_punch_loop iterator dateTime address True)
          else if sbType block = BlockPadding then hole_punch_loop iterator dateTime address response
          else False)"
  by pat_completeness auto
termination by (relation "measure (\<lambda>(it, _). length (biRest it))") (auto dest: SSU2BlockNext_shrinks)

declare handshake_loop.simps [simp del] confirmed_loop.simps [simp del] peer_test_loop.simps [simp del] hole_punch_loop.simps [simp del]

definition validHolePunchPayload :: "bytes \<Rightarrow> bool" where
  "validHolePunchPayload payload = hole_punch_loop (NewBlockIterator payload) False False False"

definition validOutOfSessionPayload :: "PacketType \<Rightarrow> bytes \<Rightarrow> bool" where
  "validOutOfSessionPayload kind payload =
     (if kind = PeerTest then peer_test_loop (NewBlockIterator payload) False False
      else if kind = HolePunch then validHolePunchPayload payload
      else validHandshakePayload payload)"

section \<open>Packets outside a session\<close>

definition maskHeaderExtension :: "chacha_backend \<Rightarrow> bytes \<Rightarrow> bytes \<Rightarrow> bytes result" where
  "maskHeaderExtension B extension introKey =
     (if length extension \<noteq> 16 then Inl ErrHandshake
      else bindR (NewChaCha20Stream introKey (replicate ChaChaNonceSize 0)) (\<lambda>stream. Inr (XORKeyStream B stream extension)))"

definition out_of_session_type :: "PacketType \<Rightarrow> bool" where
  "out_of_session_type k \<longleftrightarrow> k = TokenRequest \<or> k = Retry \<or> k = PeerTest \<or> k = HolePunch"

definition buildOutOfSession :: "chacha_backend \<Rightarrow> bytes \<Rightarrow> bytes \<Rightarrow> LongHeader \<Rightarrow> bytes \<Rightarrow> bytes result" where
  "buildOutOfSession B dst introKey header payload =
     (if length introKey \<noteq> ChaChaKeySize \<or> lhDestinationID header = 0 \<or> lhSourceID header = 0
         \<or> SameConnectionID (lhDestinationID header) (lhSourceID header) \<or> \<not> validOutOfSessionPayload (lhType header) payload then Inl ErrHandshake
      else if \<not> out_of_session_type (lhType header) then Inl ErrPacketType
      else let total = LongHeaderLen + length payload + PacketTagLen in
        if total < MinPacketLen \<or> total > MaxIPv4PacketLen then Inl ErrPacketLength
        else if length dst < total then Inl ErrShortBuffer
        else bindR (LongHeaderMarshalTo header (take LongHeaderLen dst)) (\<lambda>h.
          let dst = put_at 0 h dst; nonce = packet_nonce (lhPacketNumber header) in
          bindR (NewChaCha20Poly1305 introKey) (\<lambda>aead.
            bindR (SealTo B (Some aead) (slice LongHeaderLen total dst) nonce payload (take LongHeaderLen dst)) (\<lambda>sealed.
              let dst = put_at LongHeaderLen sealed dst in
              bindR (maskHeaderExtension B (slice 16 LongHeaderLen dst) introKey) (\<lambda>ext.
                let dst = put_at 16 ext dst in
                ProtectHeader B (take total dst) introKey introKey 0)))))"

definition parseOutOfSession :: "chacha_backend \<Rightarrow> bytes \<Rightarrow> bytes \<Rightarrow> PacketType \<Rightarrow> u8 \<Rightarrow> (LongHeader \<times> bytes) result" where
  "parseOutOfSession B packet introKey expected networkID =
     (if length packet < LongHeaderLen + PacketTagLen + 8 \<or> length packet > MaxIPv4PacketLen \<or> length introKey \<noteq> ChaChaKeySize then Inl ErrHandshake
      else bindR (ProtectHeader B packet introKey introKey 0) (\<lambda>packet.
        bindR (maskHeaderExtension B (slice 16 LongHeaderLen packet) introKey) (\<lambda>ext.
          let packet = put_at 16 ext packet in
          case ParseLongHeader (take LongHeaderLen packet) networkID of
            Inl _ \<Rightarrow> Inl ErrHandshake
          | Inr header \<Rightarrow>
              if (expected \<noteq> 0 \<and> lhType header \<noteq> expected) \<or> lhDestinationID header = 0 \<or> lhSourceID header = 0 then Inl ErrHandshake
              else if \<not> out_of_session_type (lhType header) then Inl ErrHandshake
              else bindR (NewChaCha20Poly1305 introKey) (\<lambda>aead.
                let plaintext = slice LongHeaderLen (length packet - PacketTagLen) packet in
                case OpenTo B (Some aead) plaintext (packet_nonce (lhPacketNumber header)) (drop LongHeaderLen packet) (take LongHeaderLen packet) of
                  Inl _ \<Rightarrow> Inl ErrHandshake
                | Inr plain \<Rightarrow> if \<not> validOutOfSessionPayload (lhType header) plain then Inl ErrHandshake else Inr (header, plain)))))"

definition BuildTokenRequest :: "chacha_backend \<Rightarrow> bytes \<Rightarrow> bytes \<Rightarrow> u64 \<Rightarrow> u64 \<Rightarrow> u32 \<Rightarrow> bytes \<Rightarrow> u8 \<Rightarrow> bytes result" where
  "BuildTokenRequest B dst introKey destinationID sourceID packetNumber payload networkID =
     buildOutOfSession B dst introKey \<lparr>lhDestinationID = destinationID, lhPacketNumber = packetNumber, lhType = TokenRequest, lhVersion = SSU2Version,
       lhNetworkID = networkID, lhFlags = 0, lhSourceID = sourceID, lhToken = 0\<rparr> payload"

definition ParseTokenRequest :: "chacha_backend \<Rightarrow> bytes \<Rightarrow> bytes \<Rightarrow> u8 \<Rightarrow> (LongHeader \<times> bytes) result" where
  "ParseTokenRequest B packet introKey networkID = parseOutOfSession B packet introKey TokenRequest networkID"

definition ParseOutOfSession :: "chacha_backend \<Rightarrow> bytes \<Rightarrow> bytes \<Rightarrow> u8 \<Rightarrow> (LongHeader \<times> bytes) result" where
  "ParseOutOfSession B packet introKey networkID = parseOutOfSession B packet introKey 0 networkID"

definition BuildRetry :: "chacha_backend \<Rightarrow> bytes \<Rightarrow> bytes \<Rightarrow> u64 \<Rightarrow> u64 \<Rightarrow> u64 \<Rightarrow> u32 \<Rightarrow> bytes \<Rightarrow> u8 \<Rightarrow> bytes result" where
  "BuildRetry B dst introKey destinationID sourceID token packetNumber payload networkID =
     buildOutOfSession B dst introKey \<lparr>lhDestinationID = destinationID, lhPacketNumber = packetNumber, lhType = Retry, lhVersion = SSU2Version,
       lhNetworkID = networkID, lhFlags = 0, lhSourceID = sourceID, lhToken = token\<rparr> payload"

definition ParseRetry :: "chacha_backend \<Rightarrow> bytes \<Rightarrow> bytes \<Rightarrow> u8 \<Rightarrow> (LongHeader \<times> bytes) result" where
  "ParseRetry B packet introKey networkID = parseOutOfSession B packet introKey Retry networkID"

definition BuildPeerTest :: "chacha_backend \<Rightarrow> bytes \<Rightarrow> bytes \<Rightarrow> u64 \<Rightarrow> u64 \<Rightarrow> u32 \<Rightarrow> bytes \<Rightarrow> u8 \<Rightarrow> bytes result" where
  "BuildPeerTest B dst introKey destinationID sourceID packetNumber payload networkID =
     buildOutOfSession B dst introKey \<lparr>lhDestinationID = destinationID, lhPacketNumber = packetNumber, lhType = PeerTest, lhVersion = SSU2Version,
       lhNetworkID = networkID, lhFlags = 0, lhSourceID = sourceID, lhToken = 0\<rparr> payload"

definition ParsePeerTest :: "chacha_backend \<Rightarrow> bytes \<Rightarrow> bytes \<Rightarrow> u8 \<Rightarrow> (LongHeader \<times> bytes) result" where
  "ParsePeerTest B packet introKey networkID = parseOutOfSession B packet introKey PeerTest networkID"

definition BuildHolePunch :: "chacha_backend \<Rightarrow> bytes \<Rightarrow> bytes \<Rightarrow> u64 \<Rightarrow> u64 \<Rightarrow> u64 \<Rightarrow> u32 \<Rightarrow> bytes \<Rightarrow> u8 \<Rightarrow> bytes result" where
  "BuildHolePunch B dst introKey destinationID sourceID token packetNumber payload networkID =
     buildOutOfSession B dst introKey \<lparr>lhDestinationID = destinationID, lhPacketNumber = packetNumber, lhType = HolePunch, lhVersion = SSU2Version,
       lhNetworkID = networkID, lhFlags = 0, lhSourceID = sourceID, lhToken = token\<rparr> payload"

definition ParseHolePunch :: "chacha_backend \<Rightarrow> bytes \<Rightarrow> bytes \<Rightarrow> u8 \<Rightarrow> (LongHeader \<times> bytes) result" where
  "ParseHolePunch B packet introKey networkID = parseOutOfSession B packet introKey HolePunch networkID"

section \<open>The path validator\<close>

record PathValidator =
  pv_challenge :: bytes
  pv_length :: u8
  pv_deadline :: u64
  pv_active :: bool

definition new_path :: PathValidator where
  "new_path = \<lparr>pv_challenge = replicate 16 0, pv_length = 0, pv_deadline = 0, pv_active = False\<rparr>"

definition path_Begin :: "bytes \<Rightarrow> u64 \<Rightarrow> PathValidator \<Rightarrow> bool \<times> PathValidator" where
  "path_Begin challenge deadline p =
     (if length challenge < 8 \<or> length challenge > length (pv_challenge p) then (False, p)
      else (True, p\<lparr>pv_challenge := put_at 0 challenge (pv_challenge p), pv_length := of_nat (length challenge), pv_deadline := deadline, pv_active := True\<rparr>))"

definition path_Validate :: "bytes \<Rightarrow> u64 \<Rightarrow> PathValidator \<Rightarrow> bool \<times> PathValidator" where
  "path_Validate response now p =
     (if \<not> pv_active p \<or> now > pv_deadline p \<or> length response \<noteq> unat (pv_length p) then (False, p)
      else let valid = (take (unat (pv_length p)) (pv_challenge p) = response) in
        (valid, if valid then p\<lparr>pv_active := False\<rparr> else p))"

definition path_Expired :: "u64 \<Rightarrow> PathValidator \<Rightarrow> bool \<times> PathValidator" where
  "path_Expired now p = (if pv_active p \<and> now > pv_deadline p then (True, p\<lparr>pv_active := False\<rparr>) else (False, p))"

section \<open>A loop over the blocks is a scan of the list of blocks\<close>

fun scan :: "('f \<Rightarrow> SSU2Block \<Rightarrow> 'f option) \<Rightarrow> ('f \<Rightarrow> bool) \<Rightarrow> 'f \<Rightarrow> SSU2Block list \<Rightarrow> bool" where
  "scan step fin f [] = fin f"
| "scan step fin f (b # bs) = (case step f b of None \<Rightarrow> False | Some f' \<Rightarrow> scan step fin f' bs)"

locale block_loop =
  fixes loop :: "BlockIterator \<Rightarrow> 'f \<Rightarrow> bool" and step :: "'f \<Rightarrow> SSU2Block \<Rightarrow> 'f option" and fin :: "'f \<Rightarrow> bool"
  assumes loop_end: "SSU2BlockNext it = Inr None \<Longrightarrow> loop it f = fin f"
    and loop_error: "SSU2BlockNext it = Inl e \<Longrightarrow> \<not> loop it f"
    and loop_block: "SSU2BlockNext it = Inr (Some (b, it')) \<Longrightarrow> loop it f = (case step f b of None \<Rightarrow> False | Some f' \<Rightarrow> loop it' f')"
begin

lemma loop_drain:
  "length (biRest it) < fuel \<Longrightarrow> loop it f \<longleftrightarrow> (\<exists>bs. drain SSU2BlockNext fuel it = Some (Inr bs) \<and> scan step fin f bs)"
proof (induction fuel arbitrary: it f)
  case (Suc fuel)
  consider e where "SSU2BlockNext it = Inl e" | "SSU2BlockNext it = Inr None" | b it' where "SSU2BlockNext it = Inr (Some (b, it'))"
    by (metis option.exhaust surj_pair sum.exhaust)
  then show ?case
  proof cases
    case (3 b it')
    have len: "length (biRest it') < fuel" using SSU2BlockNext_shrinks [OF 3] Suc.prems by simp
    then obtain r where r: "drain SSU2BlockNext fuel it' = Some r" using ssu2_blocks.drain_total by blast
    show ?thesis using Suc.IH [OF len] r 3 by (cases r) (auto simp: loop_block split: option.splits)
  qed (simp_all add: loop_end loop_error)
qed simp

lemma loop_payload:
  "loop (NewBlockIterator payload) f \<longleftrightarrow>
   (\<exists>bs. payload = concat (map ssu2_block_bytes bs) \<and> list_all ssu2_block_ok bs \<and> sorted_wrt may_precede bs \<and> scan step fin f bs)"
  using loop_drain [of "NewBlockIterator payload" "Suc (length payload)" f] drain_payload_iff [of payload "Suc (length payload)"]
  by (auto simp: NewBlockIterator_def)

end

definition once :: "u8 \<Rightarrow> bool \<Rightarrow> SSU2Block list \<Rightarrow> bool" where
  "once k seen bs \<longleftrightarrow> length (filter (\<lambda>b. sbType b = k) bs) + (if seen then 1 else 0) = 1"

lemma once_simps [simp]:
  "once k seen [] = seen" "sbType b \<noteq> k \<Longrightarrow> once k seen (b # bs) = once k seen bs"
  "sbType b = k \<Longrightarrow> once k seen (b # bs) = (\<not> seen \<and> once k True bs)"
  by (auto simp: once_def)

definition handshake_step :: "bool \<Rightarrow> SSU2Block \<Rightarrow> bool option" where
  "handshake_step d b = (if sbType b = BlockDateTime then (if d then None else Some True) else Some d)"

interpretation handshake: block_loop handshake_loop handshake_step "\<lambda>d. d"
  by unfold_locales (subst handshake_loop.simps, simp add: handshake_step_def)+

lemma handshake_scan: "scan handshake_step (\<lambda>d. d) d bs = once BlockDateTime d bs"
  by (induction bs arbitrary: d) (auto simp: handshake_step_def)

definition confirmed_step :: "unit \<Rightarrow> SSU2Block \<Rightarrow> unit option" where
  "confirmed_step u b = (if sbType b \<noteq> BlockOptions \<and> sbType b \<noteq> BlockI2NP \<and> sbType b \<noteq> BlockPadding then None else Some ())"

interpretation confirmed: block_loop "\<lambda>it u. confirmed_loop it" confirmed_step "\<lambda>u. True"
  by unfold_locales (subst confirmed_loop.simps, simp add: confirmed_step_def)+

lemma confirmed_scan: "scan confirmed_step (\<lambda>u. True) u bs = list_all (\<lambda>b. sbType b \<in> {BlockOptions, BlockI2NP, BlockPadding}) bs"
  by (induction bs arbitrary: u) (auto simp: confirmed_step_def)

definition peer_test_step :: "bool \<times> bool \<Rightarrow> SSU2Block \<Rightarrow> (bool \<times> bool) option" where
  "peer_test_step f b = (case f of (d, t) \<Rightarrow>
     if sbType b = BlockDateTime then (if d then None else Some (True, t))
     else if sbType b = BlockPeerTest then (if t then None else case ParsePeerTestBlock (sbData b) of Inl _ \<Rightarrow> None | Inr _ \<Rightarrow> Some (d, True))
     else if sbType b = BlockPadding then Some (d, t) else None)"

interpretation peer_test: block_loop "\<lambda>it (d, t). peer_test_loop it d t" peer_test_step "\<lambda>(d, t). d \<and> t"
  by (unfold_locales, unfold split_beta) (subst peer_test_loop.simps, simp add: peer_test_step_def split_beta split: sum.split)+

lemma valid_peer_test: "ssu2_block_ok b \<Longrightarrow> sbType b = BlockPeerTest \<Longrightarrow> \<exists>t. ParsePeerTestBlock (sbData b) = Inr t"
  by (auto simp: ssu2_block_ok_def validateBlock_def bindR_eq_Inr)

lemma peer_test_scan:
  "list_all ssu2_block_ok bs \<Longrightarrow> scan peer_test_step (\<lambda>(d, t). d \<and> t) (d, t) bs \<longleftrightarrow>
   once BlockDateTime d bs \<and> once BlockPeerTest t bs \<and> list_all (\<lambda>b. sbType b \<in> {BlockDateTime, BlockPeerTest, BlockPadding}) bs"
proof (induction bs arbitrary: d t)
  case (Cons b bs)
  then show ?case using valid_peer_test [of b] by (auto simp: peer_test_step_def)
qed simp

definition hole_punch_step :: "bool \<times> bool \<times> bool \<Rightarrow> SSU2Block \<Rightarrow> (bool \<times> bool \<times> bool) option" where
  "hole_punch_step f b = (case f of (d, a, r) \<Rightarrow>
     if sbType b = BlockDateTime then (if d then None else Some (True, a, r))
     else if sbType b = BlockAddress then (if a then None else Some (d, True, r))
     else if sbType b = BlockRelayResponse then (if r then None else case ParseRelayResponseBlock (sbData b) of Inl _ \<Rightarrow> None | Inr _ \<Rightarrow> Some (d, a, True))
     else if sbType b = BlockPadding then Some (d, a, r) else None)"

interpretation hole_punch: block_loop "\<lambda>it (d, a, r). hole_punch_loop it d a r" hole_punch_step "\<lambda>(d, a, r). d \<and> a \<and> r"
  by (unfold_locales, unfold split_beta) (subst hole_punch_loop.simps, simp add: hole_punch_step_def split_beta split: sum.split)+

lemma valid_response: "ssu2_block_ok b \<Longrightarrow> sbType b = BlockRelayResponse \<Longrightarrow> \<exists>t. ParseRelayResponseBlock (sbData b) = Inr t"
  by (auto simp: ssu2_block_ok_def validateBlock_def bindR_eq_Inr)

lemma hole_punch_scan:
  "list_all ssu2_block_ok bs \<Longrightarrow> scan hole_punch_step (\<lambda>(d, a, r). d \<and> a \<and> r) (d, a, r) bs \<longleftrightarrow>
   once BlockDateTime d bs \<and> once BlockAddress a bs \<and> once BlockRelayResponse r bs \<and>
   list_all (\<lambda>b. sbType b \<in> {BlockDateTime, BlockAddress, BlockRelayResponse, BlockPadding}) bs"
proof (induction bs arbitrary: d a r)
  case (Cons b bs)
  then show ?case using valid_response [of b] by (auto simp: hole_punch_step_def)
qed simp

text \<open>The blocks of a payload, by the grammar of the iterator.\<close>

definition payload_of :: "bytes \<Rightarrow> SSU2Block list \<Rightarrow> bool" where
  "payload_of payload bs \<longleftrightarrow> payload = concat (map ssu2_block_bytes bs) \<and> list_all ssu2_block_ok bs \<and> sorted_wrt may_precede bs"

lemma drain_payload_of: "length payload < fuel \<Longrightarrow> drain SSU2BlockNext fuel (NewBlockIterator payload) = Some (Inr bs) \<longleftrightarrow> payload_of payload bs"
  by (simp add: drain_payload_iff payload_of_def)

lemma validConfirmedPayload_iff:
  "validConfirmedPayload payload \<longleftrightarrow>
   (\<exists>b bs. payload_of payload (b # bs) \<and> sbType b = BlockRouterInfo \<and> list_all (\<lambda>b. sbType b \<in> {BlockOptions, BlockI2NP, BlockPadding}) bs)"
proof -
  let ?it = "NewBlockIterator payload" and ?n = "Suc (length payload)"
  have dr: "drain SSU2BlockNext (Suc ?n) ?it = Some (Inr (b # bs)) \<longleftrightarrow> payload_of payload (b # bs)" for b bs
    by (intro drain_payload_of) simp
  consider e where "SSU2BlockNext ?it = Inl e" | "SSU2BlockNext ?it = Inr None" | b it' where "SSU2BlockNext ?it = Inr (Some (b, it'))"
    by (metis option.exhaust surj_pair sum.exhaust)
  then show ?thesis
  proof cases
    case (3 b it')
    have "length (biRest it') < ?n" using SSU2BlockNext_shrinks [OF 3] by (simp add: NewBlockIterator_def)
    from confirmed.loop_drain [OF this, of "()"] have l: "confirmed_loop it' \<longleftrightarrow>
        (\<exists>bs. drain SSU2BlockNext ?n it' = Some (Inr bs) \<and> list_all (\<lambda>b. sbType b \<in> {BlockOptions, BlockI2NP, BlockPadding}) bs)"
      by (simp only: confirmed_scan)
    have d: "payload_of payload (c # bs) \<longleftrightarrow> c = b \<and> drain SSU2BlockNext ?n it' = Some (Inr bs)" for c bs
      unfolding dr [symmetric] drain.simps(2) [of _ ?n] 3 by (auto simp del: drain.simps split: option.splits sum.splits)
    show ?thesis unfolding validConfirmedPayload_def 3 d using l by auto
  qed (use dr in \<open>simp_all add: validConfirmedPayload_def\<close>)
qed

section \<open>What is built is parsed\<close>

lemma build_layout:
  assumes "backend_ok B" "length key = 32" "out_of_session_type (lhType h)" "lhDestinationID h \<noteq> 0" "lhSourceID h \<noteq> 0"
    "\<not> SameConnectionID (lhDestinationID h) (lhSourceID h)" "validOutOfSessionPayload (lhType h) payload"
    "lhVersion h = 2" "lhFlags h = 0" "8 \<le> length payload" "length payload \<le> 1424" "length payload + 48 \<le> length dst"
  defines "hb \<equiv> long_header_bytes h" and "ct \<equiv> aead_Seal B key (packet_nonce (lhPacketNumber h)) payload (long_header_bytes h)"
  shows "buildOutOfSession B dst key h payload = ProtectHeader B (take 16 hb @ XORKeyStream B (key, replicate 12 0) (drop 16 hb) @ ct) key key 0"
proof -
  let ?total = "length payload + 48" and ?x = "XORKeyStream B (key, replicate 12 0) (drop 16 hb)"
  have l: "length hb = 32" "length ct = length payload + 16" "length ?x = 16" using assms(1) by (simp_all add: hb_def ct_def backend_ok_def length_XORKeyStream)
  define d1 where "d1 = hb @ drop 32 dst"
  define d2 where "d2 = hb @ ct @ drop ?total dst"
  have m: "LongHeaderMarshalTo h (take 32 dst) = Inr hb" using assms(8-12) by (simp add: LongHeaderMarshalTo_eq hb_def)
  have p1: "put_at 0 hb dst = d1" "take 32 d1 = hb" using l assms(12) by (simp_all add: put_at_0 d1_def)
  have s: "SealTo B (Some \<lparr>cc_key = key, cc_aead = Some key, cc_released = False\<rparr>) (slice 32 ?total d1) (packet_nonce (lhPacketNumber h)) payload hb = Inr ct"
    using l assms(12) by (simp add: SealTo_def chacha_consts d1_def ct_def hb_def)
  have p2: "put_at 32 ct d1 = d2" "slice 16 32 d2 = drop 16 hb"
    using put_at_prefix [of hb 32 ct "length ct" "drop 32 dst"] l assms(12) by (simp_all add: d1_def d2_def slice_def add.commute)
  have p3: "put_at 16 ?x d2 = take 16 hb @ ?x @ ct @ drop ?total dst"
  proof -
    have "d2 = take 16 hb @ drop 16 hb @ ct @ drop ?total dst" unfolding d2_def by (metis append_assoc append_take_drop_id)
    then show ?thesis using put_at_prefix [of "take 16 hb" 16 ?x 16 "drop 16 hb @ ct @ drop ?total dst"] l by simp
  qed
  have p4: "take ?total (take 16 hb @ ?x @ ct @ drop ?total dst) = take 16 hb @ ?x @ ct" using l by simp
  show ?thesis
    unfolding buildOutOfSession_def Let_def ssu2_consts using assms(2-7,10-12) l
    by (simp add: m p1 p2 p3 p4 s NewChaCha20Poly1305_def maskHeaderExtension_def NewChaCha20Stream_def chacha_consts add.commute)
qed

lemma block_in_payload: "b \<in> set bs \<Longrightarrow> 3 + length (sbData b) \<le> length (concat (map ssu2_block_bytes bs))"
  by (induction bs) auto

lemma once_member: "once k False bs \<Longrightarrow> \<exists>b \<in> set bs. sbType b = k"
  by (rule ccontr) (simp add: once_def)

lemma valid_payload_min:
  assumes "validOutOfSessionPayload k payload"
  shows "8 \<le> length payload"
proof (cases "k = PeerTest \<or> k = HolePunch")
  case True
  obtain b bs where b: "b \<in> set bs" "payload = concat (map ssu2_block_bytes bs)" "ssu2_block_ok b" "sbType b = BlockPeerTest \<or> sbType b = BlockRelayResponse"
  proof (cases "k = PeerTest")
    case True
    then have "peer_test_loop (NewBlockIterator payload) False False" using assms by (simp add: validOutOfSessionPayload_def)
    then obtain bs where bs: "payload = concat (map ssu2_block_bytes bs)" "list_all ssu2_block_ok bs" "once BlockPeerTest False bs"
      using peer_test.loop_payload [of payload "(False, False)"] peer_test_scan [of _ False False] by auto
    then show ?thesis using that once_member [OF bs(3)] by (auto simp: list_all_iff)
  next
    case False
    then have "hole_punch_loop (NewBlockIterator payload) False False False" using assms True by (simp add: validOutOfSessionPayload_def validHolePunchPayload_def)
    then obtain bs where bs: "payload = concat (map ssu2_block_bytes bs)" "list_all ssu2_block_ok bs" "once BlockRelayResponse False bs"
      using hole_punch.loop_payload [of payload "(False, False, False)"] hole_punch_scan [of _ False False False] by auto
    then show ?thesis using that once_member [OF bs(3)] by (auto simp: list_all_iff)
  qed
  have "13 \<le> length (sbData b)" using valid_peer_test [OF b(3)] valid_response [OF b(3)] b(4)
    by (auto simp: ParsePeerTestBlock_def ParseRelayResponseBlock_def split: if_splits)
  then show ?thesis using block_in_payload [OF b(1)] b(2) by simp
next
  case False
  then show ?thesis using assms by (auto simp: validOutOfSessionPayload_def validHandshakePayload_def split: if_splits)
qed

lemma out_of_session_roundtrip:
  assumes "backend_ok B" "buildOutOfSession B dst key h payload = Inr packet" "expected = 0 \<or> expected = lhType h"
  shows "parseOutOfSession B packet key expected (lhNetworkID h) = Inr (h, payload) \<and> length packet = length payload + 48"
proof -
  define hb ct x where "hb = long_header_bytes h" and "ct = aead_Seal B key (packet_nonce (lhPacketNumber h)) payload hb"
    and "x = XORKeyStream B (key, replicate 12 0) (drop 16 hb)"
  have g: "length key = 32" "out_of_session_type (lhType h)" "lhDestinationID h \<noteq> 0" "lhSourceID h \<noteq> 0" "\<not> SameConnectionID (lhDestinationID h) (lhSourceID h)"
    "validOutOfSessionPayload (lhType h) payload" "length payload \<le> 1424" "length payload + 48 \<le> length dst"
    using assms(2) by (auto simp: buildOutOfSession_def ssu2_consts Let_def split: if_splits)
  have v: "lhVersion h = 2" "lhFlags h = 0"
    using assms(2) g by (auto simp: buildOutOfSession_def LongHeaderMarshalTo_def ssu2_consts Let_def bindR_eq_Inr split: if_splits)
  have m: "8 \<le> length payload" by (rule valid_payload_min [OF g(6)])
  have l: "length hb = 32" "length ct = length payload + 16" "length x = 16" using assms(1) by (simp_all add: hb_def ct_def x_def backend_ok_def length_XORKeyStream)
  define p0 where "p0 = take 16 hb @ x @ ct"
  have p: "ProtectHeader B p0 key key 0 = Inr packet"
    using build_layout [OF assms(1) g(1-6) v m g(7,8)] assms(2) by (simp add: p0_def x_def ct_def hb_def)
  have lp: "length p0 = length payload + 48" using l by (simp add: p0_def)
  note i = protect_involution [OF assms(1) p]
  have undo: "ProtectHeader B packet key key 0 = Inr p0" "length packet = length payload + 48" using i lp m by simp_all
  have ext: "maskHeaderExtension B (slice 16 32 p0) key = Inr (drop 16 hb)"
    using l g(1) assms(1) by (simp add: maskHeaderExtension_def NewChaCha20Stream_def chacha_consts p0_def slice_def x_def XORKeyStream_involution)
  have q: "put_at 16 (drop 16 hb) p0 = hb @ ct"
    using put_at_prefix [of "take 16 hb" 16 "drop 16 hb" 16 "x @ ct"] l by (simp add: p0_def)
  have ph: "ParseLongHeader hb (lhNetworkID h) = Inr h"
    using ParseLongHeader_bytes [of h "[]"] v g(2) by (auto simp: hb_def out_of_session_type_def)
  have op: "OpenTo B (Some \<lparr>cc_key = key, cc_aead = Some key, cc_released = False\<rparr>) (slice 32 (length (hb @ ct) - 16) (hb @ ct)) (packet_nonce (lhPacketNumber h)) ct hb = Inr payload"
    using l assms(1) by (simp add: OpenTo_def chacha_consts ct_def backend_ok_def)
  show ?thesis
    unfolding parseOutOfSession_def undo(2) ssu2_consts using undo(1) g m assms(3) l op
    by (auto simp: ext q ph NewChaCha20Poly1305_def chacha_consts Let_def)
qed

lemma parse_other_type:
  assumes "parseOutOfSession B packet key 0 net = Inr (h, payload)" "k \<noteq> 0" "k \<noteq> lhType h"
  shows "parseOutOfSession B packet key k net = Inl ErrHandshake"
proof -
  obtain p where p: "ProtectHeader B packet key key 0 = Inr p" using assms(1) by (auto simp: parseOutOfSession_def bindR_eq_Inr split: if_splits)
  obtain x where x: "maskHeaderExtension B (slice 16 LongHeaderLen p) key = Inr x"
    using assms(1) p by (auto simp: parseOutOfSession_def bindR_eq_Inr split: if_splits)
  obtain h' where h': "ParseLongHeader (take LongHeaderLen (put_at 16 x p)) net = Inr h'"
    using assms(1) p x by (cases "ParseLongHeader (take LongHeaderLen (put_at 16 x p)) net") (auto simp: parseOutOfSession_def split: if_splits)
  obtain a where a: "NewChaCha20Poly1305 key = Inr a" using assms(1) by (auto simp: parseOutOfSession_def NewChaCha20Poly1305_def split: if_splits)
  have "h' = h" using assms(1) p x h' a by (auto simp: parseOutOfSession_def Let_def split: if_splits sum.splits)
  then show ?thesis using assms(2,3) p x h' by (simp add: parseOutOfSession_def)
qed

section \<open>Properties\<close>

text \<open>
  The payload checks are exact. A payload is accepted exactly when it decomposes into blocks by the grammar of the iterator and, for
  a session request, session created, token request or retry, it has at least 8 bytes and exactly one date; for a session confirmed it starts with a router
  info and continues with options, I2NP messages and padding only; for a peer test it is one date, one peer test and padding; for a
  hole punch one date, one address, one relay response and padding.
\<close>

theorem ssu2_payload_checks_exact:
  "(validHandshakePayload payload \<longleftrightarrow> 8 \<le> length payload \<and> (\<exists>bs. payload_of payload bs \<and> once BlockDateTime False bs)) \<and>
   (validConfirmedPayload payload \<longleftrightarrow>
     (\<exists>b bs. payload_of payload (b # bs) \<and> sbType b = BlockRouterInfo \<and> list_all (\<lambda>b. sbType b \<in> {BlockOptions, BlockI2NP, BlockPadding}) bs)) \<and>
   (validOutOfSessionPayload PeerTest payload \<longleftrightarrow> (\<exists>bs. payload_of payload bs \<and> once BlockDateTime False bs \<and> once BlockPeerTest False bs \<and>
     list_all (\<lambda>b. sbType b \<in> {BlockDateTime, BlockPeerTest, BlockPadding}) bs)) \<and>
   (validOutOfSessionPayload HolePunch payload \<longleftrightarrow> (\<exists>bs. payload_of payload bs \<and> once BlockDateTime False bs \<and> once BlockAddress False bs \<and>
     once BlockRelayResponse False bs \<and> list_all (\<lambda>b. sbType b \<in> {BlockDateTime, BlockAddress, BlockRelayResponse, BlockPadding}) bs)) \<and>
   (validOutOfSessionPayload TokenRequest payload \<longleftrightarrow> validHandshakePayload payload) \<and>
   (validOutOfSessionPayload Retry payload \<longleftrightarrow> validHandshakePayload payload)"
proof (intro conjI)
  show "validHandshakePayload payload \<longleftrightarrow> 8 \<le> length payload \<and> (\<exists>bs. payload_of payload bs \<and> once BlockDateTime False bs)"
    using handshake.loop_payload [of payload False] by (auto simp: validHandshakePayload_def payload_of_def handshake_scan)
  show "validOutOfSessionPayload PeerTest payload \<longleftrightarrow> (\<exists>bs. payload_of payload bs \<and> once BlockDateTime False bs \<and> once BlockPeerTest False bs \<and>
     list_all (\<lambda>b. sbType b \<in> {BlockDateTime, BlockPeerTest, BlockPadding}) bs)"
    using peer_test.loop_payload [of payload "(False, False)"] peer_test_scan [of _ False False]
    by (auto simp: validOutOfSessionPayload_def payload_of_def)
  show "validOutOfSessionPayload HolePunch payload \<longleftrightarrow> (\<exists>bs. payload_of payload bs \<and> once BlockDateTime False bs \<and> once BlockAddress False bs \<and>
     once BlockRelayResponse False bs \<and> list_all (\<lambda>b. sbType b \<in> {BlockDateTime, BlockAddress, BlockRelayResponse, BlockPadding}) bs)"
    using hole_punch.loop_payload [of payload "(False, False, False)"] hole_punch_scan [of _ False False False]
    by (auto simp: validOutOfSessionPayload_def validHolePunchPayload_def payload_of_def)
qed (simp_all add: validConfirmedPayload_iff validOutOfSessionPayload_def)

text \<open>
  C27. A packet outside a session is read back. Whatever token request, retry, peer test or hole punch the builder writes, the
  parser that expects its type, and the one that expects none, answer the same header and payload under the same introduction key and network;
  a parser for another type refuses it.
\<close>

theorem ssu2_out_of_session_roundtrip:
  assumes "backend_ok B" "buildOutOfSession B dst key h payload = Inr packet"
  shows "ParseOutOfSession B packet key (lhNetworkID h) = Inr (h, payload) \<and> parseOutOfSession B packet key (lhType h) (lhNetworkID h) = Inr (h, payload) \<and>
    length packet = length payload + 48 \<and>
    (\<forall>k. k \<noteq> 0 \<and> k \<noteq> lhType h \<longrightarrow> parseOutOfSession B packet key k (lhNetworkID h) = Inl ErrHandshake)"
proof -
  have r: "parseOutOfSession B packet key 0 (lhNetworkID h) = Inr (h, payload)" "parseOutOfSession B packet key (lhType h) (lhNetworkID h) = Inr (h, payload)"
    "length packet = length payload + 48"
    using out_of_session_roundtrip [OF assms] by blast+
  have "parseOutOfSession B packet key k (lhNetworkID h) = Inl ErrHandshake" if "k \<noteq> 0" "k \<noteq> lhType h" for k
    using parse_other_type [OF r(1)] that by blast
  then show ?thesis using r by (simp add: ParseOutOfSession_def)
qed

text \<open>A token request with a date and one byte of padding, under the null backend.\<close>

definition sample_header :: LongHeader where
  "sample_header = \<lparr>lhDestinationID = 11, lhPacketNumber = 33, lhType = TokenRequest, lhVersion = 2, lhNetworkID = 2, lhFlags = 0, lhSourceID = 22, lhToken = 0\<rparr>"

theorem ssu2_out_of_session_roundtrip_witness:
  "\<exists>packet. buildOutOfSession null_backend (replicate 60 0) (replicate 32 0) sample_header [0, 0, 4, 1, 2, 3, 4, 254, 0, 0] = Inr packet \<and>
     ParseOutOfSession null_backend packet (replicate 32 0) 2 = Inr (sample_header, [0, 0, 4, 1, 2, 3, 4, 254, 0, 0]) \<and>
     ParseRetry null_backend packet (replicate 32 0) 2 = Inl ErrHandshake"
proof -
  let ?b = "buildOutOfSession null_backend (replicate 60 0) (replicate 32 0) sample_header [0, 0, 4, 1, 2, 3, 4, 254, 0, 0]"
  have "case ?b of Inr p \<Rightarrow> True | Inl _ \<Rightarrow> False" by code_simp
  then obtain packet where p: "?b = Inr packet" by (cases ?b) simp_all
  have n: "lhNetworkID sample_header = 2" "lhType sample_header = TokenRequest" "Retry \<noteq> 0" "Retry \<noteq> TokenRequest" by (simp_all add: sample_header_def)
  show ?thesis using ssu2_out_of_session_roundtrip [OF null_backend_ok p] p n unfolding ParseRetry_def n by metis
qed

section \<open>The path validator refines one pending challenge\<close>

datatype path_op = PBegin bytes u64 | PValidate bytes u64 | PExpired u64

fun path_step :: "path_op \<Rightarrow> PathValidator \<Rightarrow> bool \<times> PathValidator" where
  "path_step (PBegin c d) p = path_Begin c d p"
| "path_step (PValidate r now) p = path_Validate r now p"
| "path_step (PExpired now) p = path_Expired now p"

fun path_run :: "path_op list \<Rightarrow> PathValidator \<Rightarrow> bool list \<times> PathValidator" where
  "path_run [] p = ([], p)"
| "path_run (op # ops) p = (let (b, p) = path_step op p; (bs, p) = path_run ops p in (b # bs, p))"

text \<open>The specification: at most one challenge is pending, with its deadline.\<close>

fun pending_step :: "path_op \<Rightarrow> (bytes \<times> u64) option \<Rightarrow> bool \<times> (bytes \<times> u64) option" where
  "pending_step (PBegin c d) s = (if 8 \<le> length c \<and> length c \<le> 16 then (True, Some (c, d)) else (False, s))"
| "pending_step (PValidate r now) (Some (c, d)) = (if now \<le> d \<and> r = c then (True, None) else (False, Some (c, d)))"
| "pending_step (PExpired now) (Some (c, d)) = (if now > d then (True, None) else (False, Some (c, d)))"
| "pending_step op None = (False, None)"

fun pending_run :: "path_op list \<Rightarrow> (bytes \<times> u64) option \<Rightarrow> bool list \<times> (bytes \<times> u64) option" where
  "pending_run [] s = ([], s)"
| "pending_run (op # ops) s = (let (b, s) = pending_step op s; (bs, s) = pending_run ops s in (b # bs, s))"

definition path_abs :: "PathValidator \<Rightarrow> (bytes \<times> u64) option" where
  "path_abs p = (if pv_active p then Some (take (unat (pv_length p)) (pv_challenge p), pv_deadline p) else None)"

definition path_ok :: "PathValidator \<Rightarrow> bool" where
  "path_ok p \<longleftrightarrow> length (pv_challenge p) = 16 \<and> unat (pv_length p) \<le> 16"

lemma path_step_refines:
  assumes "path_ok p" "path_step op p = (b, p')"
  shows "path_ok p' \<and> pending_step op (path_abs p) = (b, path_abs p')"
proof (cases op)
  case (PBegin c d)
  have "8 \<le> length c \<Longrightarrow> length c \<le> 16 \<Longrightarrow> unat (of_nat (length c) :: u8) = length c" by simp
  then show ?thesis using assms PBegin by (auto simp: path_Begin_def path_ok_def path_abs_def put_at_0 split: if_splits)
next
  case (PValidate r now)
  then show ?thesis using assms by (auto simp: path_Validate_def path_ok_def path_abs_def Let_def not_less split: if_splits)
next
  case (PExpired now)
  then show ?thesis using assms by (auto simp: path_Expired_def path_ok_def path_abs_def split: if_splits)
qed

lemma path_run_refines: "path_ok p \<Longrightarrow> path_run ops p = (bs, p') \<Longrightarrow> path_ok p' \<and> pending_run ops (path_abs p) = (bs, path_abs p')"
proof (induction ops arbitrary: p bs)
  case (Cons op ops)
  obtain b q where q: "path_step op p = (b, q)" by (cases "path_step op p")
  then obtain cs where c: "path_run ops q = (cs, p')" "bs = b # cs" using Cons.prems(2) by (auto split: prod.splits)
  note st = path_step_refines [OF Cons.prems(1) q]
  then show ?case using Cons.IH [OF conjunct1 [OF st] c(1)] c(2) by (simp del: pending_step.simps)
qed simp

text \<open>
  C32. The path validator keeps at most one pending challenge. Over every sequence of calls its answers are those of the specification in
  which a challenge of 8 to 16 bytes replaces the pending one, a response is accepted only if it equals the pending challenge and is in
  time, and an accepted response or an expiry clears it; bytes that an earlier, longer challenge left in the buffer never count.
\<close>

theorem path_validator_refines:
  "path_run ops new_path = (bs, p) \<Longrightarrow> pending_run ops None = (bs, path_abs p)"
  using path_run_refines [of new_path ops bs p] by (simp add: path_ok_def path_abs_def new_path_def)

text \<open>A long challenge, then a short one; only the short one validates, and only once.\<close>

theorem path_validator_refines_witness:
  "pending_run [PBegin (replicate 16 7) 10, PBegin (replicate 8 5) 10, PValidate (replicate 8 5 @ replicate 8 7) 9, PValidate (replicate 8 5) 10, PValidate (replicate 8 5) 10] None =
     ([True, True, False, True, False], None)"
proof -
  let ?ops = "[PBegin (replicate 16 7) 10, PBegin (replicate 8 5) 10, PValidate (replicate 8 5 @ replicate 8 7) 9, PValidate (replicate 8 5) 10, PValidate (replicate 8 5) 10]"
  have "fst (path_run ?ops new_path) = [True, True, False, True, False] \<and> \<not> pv_active (snd (path_run ?ops new_path))" by code_simp
  then obtain p where "path_run ?ops new_path = ([True, True, False, True, False], p)" "\<not> pv_active p" by (cases "path_run ?ops new_path") auto
  then show ?thesis using path_validator_refines by (metis path_abs_def)
qed

end
