(* ===== verification/NTCP2.thy ===== *)
theory NTCP2
  imports ChaCha Packet_Buffer Block_Grammar "HOL-Library.Sublist"
begin

text \<open>
  The data phase of NTCP2 (\<open>dataplane/internal/transport/ntcp2\<close>): the frame codec with masked lengths (\<open>frame.go\<close>), frames on a
  connection (\<open>io.go\<close>), the session around them (\<open>session.go\<close>) and the blocks inside a frame.

  A direction is passed through its operations; \<open>None\<close> is the nil pointer. A connection is the bytes that are still to
  be read; a writer is the answers of its successive calls. The packet buffers are those of \<open>Packet_Buffer\<close>, with the
  pooled lease they get as an argument.
\<close>

section \<open>Constants\<close>

definition FrameLengthLen :: nat where "FrameLengthLen = 2"
definition FrameTagLen :: nat where "FrameTagLen = ChaChaTagSize"
definition MinEncryptedFrame :: nat where "MinEncryptedFrame = FrameTagLen"
definition MaxEncryptedFrame :: nat where "MaxEncryptedFrame = 2 ^ 16 - 1"
definition MaxPlaintextFrame :: nat where "MaxPlaintextFrame = MaxEncryptedFrame - FrameTagLen"
definition NTCP2BlockHeaderLen :: nat where "NTCP2BlockHeaderLen = 3"
definition NTCP2BlockDateTime :: u8 where "NTCP2BlockDateTime = 0"
definition NTCP2BlockTermination :: u8 where "NTCP2BlockTermination = 4"
definition NTCP2BlockPadding :: u8 where "NTCP2BlockPadding = 254"

lemmas ntcp2_consts = FrameLengthLen_def FrameTagLen_def MinEncryptedFrame_def MaxEncryptedFrame_def MaxPlaintextFrame_def
  NTCP2BlockHeaderLen_def chacha_consts

section \<open>Length masks\<close>

record SipState =
  sip_k0 :: u64
  sip_k1 :: u64
  sip_iv :: u64

definition Uint64_LE :: "bytes \<Rightarrow> u64" where "Uint64_LE bs = Uint64 (rev (take 8 bs))"

definition NewSipState :: "bytes \<Rightarrow> bytes \<Rightarrow> SipState result" where
  "NewSipState key iv =
     (if length key \<noteq> 16 \<or> length iv \<noteq> 8 then Inl ErrFrameLength
      else Inr \<lparr>sip_k0 = Uint64_LE (take 8 key), sip_k1 = Uint64_LE (drop 8 key), sip_iv = Uint64_LE iv\<rparr>)"

definition rotate64 :: "nat \<Rightarrow> u64 \<Rightarrow> u64" where "rotate64 n v = push_bit n v OR drop_bit (64 - n) v"

fun sipRound :: "u64 \<times> u64 \<times> u64 \<times> u64 \<Rightarrow> u64 \<times> u64 \<times> u64 \<times> u64" where
  "sipRound (v0, v1, v2, v3) =
     (let v0 = v0 + v1; v1 = rotate64 13 v1; v1 = v1 XOR v0; v0 = rotate64 32 v0;
          v2 = v2 + v3; v3 = rotate64 16 v3; v3 = v3 XOR v2;
          v0 = v0 + v3; v3 = rotate64 21 v3; v3 = v3 XOR v0;
          v2 = v2 + v1; v1 = rotate64 17 v1; v1 = v1 XOR v2; v2 = rotate64 32 v2
      in (v0, v1, v2, v3))"

definition sipHash24 :: "u64 \<Rightarrow> u64 \<Rightarrow> u64 \<Rightarrow> u64" where
  "sipHash24 k0 k1 message =
     (let v0 = 0x736f6d6570736575 XOR k0; v1 = 0x646f72616e646f6d XOR k1; v2 = 0x6c7967656e657261 XOR k0; v3 = 0x7465646279746573 XOR k1;
          v3 = v3 XOR message;
          (v0, v1, v2, v3) = sipRound (sipRound (v0, v1, v2, v3));
          v0 = v0 XOR message;
          tail = push_bit 56 8;
          v3 = v3 XOR tail;
          (v0, v1, v2, v3) = sipRound (sipRound (v0, v1, v2, v3));
          v0 = v0 XOR tail;
          v2 = v2 XOR 0xff;
          (v0, v1, v2, v3) = (sipRound ^^ 4) (v0, v1, v2, v3)
      in v0 XOR v1 XOR v2 XOR v3)"

definition nextMask :: "SipState \<Rightarrow> u16 \<times> SipState" where
  "nextMask s = (let iv = sipHash24 (sip_k0 s) (sip_k1 s) (sip_iv s) in (ucast iv, s\<lparr>sip_iv := iv\<rparr>))"

section \<open>Directions\<close>

record NTCP2Direction =
  dir_cipher :: "ChaCha20Poly1305 option"
  dir_sip :: SipState
  dir_nonce :: u64
  dir_nonceBuf :: bytes
  dir_released :: bool

definition NewDirection :: "bytes \<Rightarrow> bytes \<Rightarrow> bytes \<Rightarrow> NTCP2Direction result" where
  "NewDirection chachaKey sipKey sipIV =
     bindR (NewChaCha20Poly1305 chachaKey) (\<lambda>cipher.
     bindR (NewSipState sipKey sipIV) (\<lambda>sip.
       Inr \<lparr>dir_cipher = Some cipher, dir_sip = sip, dir_nonce = 0, dir_nonceBuf = replicate ChaChaNonceSize 0, dir_released = False\<rparr>))"

definition Direction_ReleaseSensitive :: "NTCP2Direction option \<Rightarrow> NTCP2Direction option" where
  "Direction_ReleaseSensitive d =
     (case d of None \<Rightarrow> None
      | Some d \<Rightarrow> Some (if dir_released d then d
          else d\<lparr>dir_cipher := None, dir_sip := \<lparr>sip_k0 = 0, sip_k1 = 0, sip_iv = 0\<rparr>, dir_nonce := 0,
                 dir_nonceBuf := replicate ChaChaNonceSize 0, dir_released := True\<rparr>))"

definition nonce_exhausted :: "NTCP2Direction \<Rightarrow> bool" where
  "nonce_exhausted d \<longleftrightarrow> 0xffffffffffffffff - 1 \<le> dir_nonce d"

definition Direction_SealTo :: "chacha_backend \<Rightarrow> NTCP2Direction option \<Rightarrow> bytes \<Rightarrow> bytes \<Rightarrow> bytes result \<times> NTCP2Direction option" where
  "Direction_SealTo B d dst plaintext =
     (case d of None \<Rightarrow> (Inl ErrSensitiveReleased, None)
      | Some d \<Rightarrow>
        if dir_released d then (Inl ErrSensitiveReleased, Some d)
        else if length plaintext > MaxPlaintextFrame then (Inl ErrFrameTooLarge, Some d)
        else if nonce_exhausted d then (Inl ErrNonceExhausted, Some d)
        else let frameLen = length plaintext + FrameTagLen in
          if length dst < FrameLengthLen + frameLen then (Inl ErrShortBuffer, Some d)
          else let d = d\<lparr>dir_nonceBuf := put_at 4 (PutUint64_LE (dir_nonce d)) (dir_nonceBuf d)\<rparr> in
            case SealTo B (dir_cipher d) (slice FrameLengthLen (FrameLengthLen + frameLen) dst) (dir_nonceBuf d) plaintext [] of
              Inl err \<Rightarrow> (Inl err, Some d)
            | Inr sealed \<Rightarrow>
                let (m, sip) = nextMask (dir_sip d);
                    dst = put_at 0 (PutUint16 (of_nat frameLen XOR m)) (put_at FrameLengthLen sealed dst)
                in (Inr (take (FrameLengthLen + frameLen) dst), Some (d\<lparr>dir_sip := sip, dir_nonce := dir_nonce d + 1\<rparr>)))"

definition Direction_OpenTo :: "chacha_backend \<Rightarrow> NTCP2Direction option \<Rightarrow> bytes \<Rightarrow> bytes \<Rightarrow> bytes result \<times> NTCP2Direction option" where
  "Direction_OpenTo B d dst input =
     (case d of None \<Rightarrow> (Inl ErrSensitiveReleased, None)
      | Some d \<Rightarrow>
        if dir_released d then (Inl ErrSensitiveReleased, Some d)
        else if length input < FrameLengthLen then (Inl ErrShortBuffer, Some d)
        else let (m, sip) = nextMask (dir_sip d);
                 d = d\<lparr>dir_sip := sip\<rparr>;
                 frameLen = unat (Uint16 (take FrameLengthLen input) XOR m) in
          if frameLen < MinEncryptedFrame \<or> frameLen > MaxEncryptedFrame then (Inl ErrFrameLength, Some d)
          else if length input - FrameLengthLen \<noteq> frameLen then (Inl ErrShortBuffer, Some d)
          else if nonce_exhausted d then (Inl ErrNonceExhausted, Some d)
          else let d = d\<lparr>dir_nonceBuf := put_at 4 (PutUint64_LE (dir_nonce d)) (dir_nonceBuf d)\<rparr> in
            case OpenTo B (dir_cipher d) dst (dir_nonceBuf d) (drop FrameLengthLen input) [] of
              Inl err \<Rightarrow> (Inl err, Some d)
            | Inr plain \<Rightarrow> (Inr plain, Some (d\<lparr>dir_nonce := dir_nonce d + 1\<rparr>)))"

section \<open>Frames on a connection\<close>

text \<open>
  \<open>write i bs\<close> is the answer of the \<open>i\<close>-th call of the writer to the bytes \<open>bs\<close>: how many it took, and an error. The loop of
  \<open>WriteFrame\<close> answers what the writer has taken and its error; a count beyond the slice is a panic.
\<close>

type_synonym writer = "nat \<Rightarrow> bytes \<Rightarrow> int \<times> error option"

function write_all :: "writer \<Rightarrow> nat \<Rightarrow> bytes \<Rightarrow> bytes \<times> error option" where
  "write_all write i encoded =
     (if encoded = [] then ([], None)
      else case write i encoded of
          (n, Some err) \<Rightarrow> (take (nat n) encoded, Some err)
        | (n, None) \<Rightarrow>
            if n \<le> 0 then ([], Some ErrShortWrite)
            else if n > int (length encoded) then (encoded, Some Panic)
            else let (out, err) = write_all write (i + 1) (drop (nat n) encoded) in (take (nat n) encoded @ out, err))"
  by pat_completeness auto
termination by (relation "measure (\<lambda>(write, i, encoded). length encoded)") auto

definition WriteFrame :: "chacha_backend \<Rightarrow> writer \<Rightarrow> nat option \<Rightarrow> slab_state \<Rightarrow> NTCP2Direction option \<Rightarrow> bytes \<Rightarrow> bytes \<times> error option \<times> NTCP2Direction option \<times> slab_state" where
  "WriteFrame B write pick st d plaintext =
     (if length plaintext > MaxPlaintextFrame then ([], Some ErrFrameTooLarge, d, st)
      else let frameLen = length plaintext + FrameTagLen in
        case BufferAcquire (int FrameLengthLen) (int frameLen) pick st of
          (None, st) \<Rightarrow> ([], Some ErrFrameTooLarge, d, st)
        | (Some frame, st) \<Rightarrow>
            (case BufferAppend (int frameLen) frame of
               (None, frame) \<Rightarrow> ([], Some ErrFrameLength, d, snd (BufferRelease frame st))
             | (Some _, frame) \<Rightarrow>
                 (case BufferPush (int FrameLengthLen) frame of
                    (None, frame) \<Rightarrow> ([], Some ErrFrameLength, d, snd (BufferRelease frame st))
                  | (Some (off, _), frame) \<Rightarrow>
                      (case BufferBytes frame of
                         None \<Rightarrow> ([], Some ErrFrameLength, d, snd (BufferRelease frame st))
                       | Some encoded \<Rightarrow>
                           (case Direction_SealTo B d encoded plaintext of
                              (Inl err, d) \<Rightarrow> ([], Some err, d, snd (BufferRelease frame st))
                            | (Inr sealed, d) \<Rightarrow>
                                let frame = BufferWrite off sealed frame;
                                    (out, err) = (case BufferBytes frame of None \<Rightarrow> ([], None) | Some encoded \<Rightarrow> write_all write 0 encoded)
                                in (out, err, d, snd (BufferRelease frame st)))))))"

text \<open>\<open>io.ReadFull\<close> of \<open>n\<close> bytes.\<close>

definition ReadFull :: "nat \<Rightarrow> bytes \<Rightarrow> bytes result \<times> bytes" where
  "ReadFull n stream =
     (if n \<le> length stream then (Inr (take n stream), drop n stream)
      else if stream = [] then (Inl EOF_err, []) else (Inl ErrUnexpectedEOF, []))"

definition ReadFrame :: "chacha_backend \<Rightarrow> nat option \<Rightarrow> slab_state \<Rightarrow> NTCP2Direction \<Rightarrow> bytes \<Rightarrow> bytes \<Rightarrow> bytes result \<times> bytes \<times> NTCP2Direction \<times> slab_state" where
  "ReadFrame B pick st d stream dst =
     (case ReadFull FrameLengthLen stream of
        (Inl err, stream) \<Rightarrow> (Inl err, stream, d, st)
      | (Inr header, stream) \<Rightarrow>
          let (m, sip) = nextMask (dir_sip d);
              d = d\<lparr>dir_sip := sip\<rparr>;
              frameLen = unat ((push_bit 8 (ucast (header ! 0)) OR ucast (header ! 1)) XOR m) in
          if frameLen < MinEncryptedFrame \<or> frameLen > MaxEncryptedFrame then (Inl ErrFrameLength, stream, d, st)
          else if length dst < frameLen - FrameTagLen then (Inl ErrShortBuffer, stream, d, st)
          else if nonce_exhausted d then (Inl ErrNonceExhausted, stream, d, st)
          else case BufferAcquire 0 (int frameLen) pick st of
              (None, st) \<Rightarrow> (Inl ErrFrameLength, stream, d, st)
            | (Some frame, st) \<Rightarrow>
                (case BufferAppend (int frameLen) frame of
                   (None, frame) \<Rightarrow> (Inl ErrFrameLength, stream, d, snd (BufferRelease frame st))
                 | (Some (off, n), frame) \<Rightarrow>
                     (case ReadFull n stream of
                        (Inl err, stream) \<Rightarrow> (Inl err, stream, d, snd (BufferRelease frame st))
                      | (Inr encrypted, stream) \<Rightarrow>
                          let frame = BufferWrite off encrypted frame;
                              d = d\<lparr>dir_nonceBuf := put_at 4 (map (\<lambda>i. ucast (drop_bit (8 * i) (dir_nonce d))) [0..<8]) (replicate (length (dir_nonceBuf d)) 0)\<rparr> in
                          case BufferBytes frame of
                            None \<Rightarrow> (Inl ErrFrameLength, stream, d, snd (BufferRelease frame st))
                          | Some encrypted \<Rightarrow>
                              (case OpenTo B (dir_cipher d) dst (dir_nonceBuf d) encrypted [] of
                                 Inl err \<Rightarrow> (Inl err, stream, d, snd (BufferRelease frame st))
                               | Inr plaintext \<Rightarrow> (Inr plaintext, stream, d\<lparr>dir_nonce := dir_nonce d + 1\<rparr>, snd (BufferRelease frame st))))))"

section \<open>The session\<close>

record NTCP2Session =
  ns_send :: "NTCP2Direction option"
  ns_receive :: "NTCP2Direction option"
  ns_closed :: bool

definition NewSession :: "NTCP2Direction option \<Rightarrow> NTCP2Direction option \<Rightarrow> NTCP2Session" where
  "NewSession send receive = \<lparr>ns_send = send, ns_receive = receive, ns_closed = False\<rparr>"

definition Session_Write :: "chacha_backend \<Rightarrow> writer \<Rightarrow> nat option \<Rightarrow> slab_state \<Rightarrow> NTCP2Session \<Rightarrow> bytes \<Rightarrow> bytes \<times> error option \<times> NTCP2Session \<times> slab_state" where
  "Session_Write B write pick st s plaintext =
     (if ns_send s = None then ([], Some ErrClosed, s, st)
      else let (out, err, send, st) = WriteFrame B write pick st (ns_send s) plaintext in (out, err, s\<lparr>ns_send := send\<rparr>, st))"

definition Session_Read :: "chacha_backend \<Rightarrow> nat option \<Rightarrow> slab_state \<Rightarrow> NTCP2Session \<Rightarrow> bytes \<Rightarrow> bytes \<Rightarrow> bytes result \<times> bytes \<times> NTCP2Session \<times> slab_state" where
  "Session_Read B pick st s stream dst =
     (case ns_receive s of None \<Rightarrow> (Inl ErrClosed, stream, s, st)
      | Some receive \<Rightarrow> let (r, stream, receive, st) = ReadFrame B pick st receive stream dst in (r, stream, s\<lparr>ns_receive := Some receive\<rparr>, st))"

text \<open>\<open>Close\<close> with the answer of closing the connection.\<close>

definition Session_Close :: "error option \<Rightarrow> NTCP2Session \<Rightarrow> error option \<times> NTCP2Session" where
  "Session_Close err s = (if ns_closed s then (None, s) else (err, \<lparr>ns_send = None, ns_receive = None, ns_closed = True\<rparr>))"

section \<open>Blocks\<close>

record NTCP2Block =
  nbType :: u8
  nbData :: bytes

record NTCP2Iterator =
  niRest :: bytes
  niTerminated :: bool
  niPadded :: bool

definition NewNTCP2Iterator :: "bytes \<Rightarrow> NTCP2Iterator" where
  "NewNTCP2Iterator plaintext = \<lparr>niRest = plaintext, niTerminated = False, niPadded = False\<rparr>"

definition NTCP2BlockNext :: "NTCP2Iterator \<Rightarrow> (NTCP2Block \<times> NTCP2Iterator) option result" where
  "NTCP2BlockNext it =
     (if length (niRest it) = 0 then Inr None
      else if niPadded it \<or> (niTerminated it \<and> niRest it ! 0 \<noteq> NTCP2BlockPadding) then Inl ErrBlockOrder
      else if length (niRest it) < NTCP2BlockHeaderLen then Inl ErrShortBuffer
      else let kind = niRest it ! 0; n = unat (Uint16 (slice 1 3 (niRest it))) in
        if n > length (niRest it) - NTCP2BlockHeaderLen then Inl ErrBlockLength
        else let block = \<lparr>nbType = kind, nbData = slice NTCP2BlockHeaderLen (NTCP2BlockHeaderLen + n) (niRest it)\<rparr>;
                 it = it\<lparr>niRest := drop (NTCP2BlockHeaderLen + n) (niRest it)\<rparr>;
                 it = (if kind = NTCP2BlockPadding then it\<lparr>niPadded := True\<rparr> else it);
                 it = (if kind = NTCP2BlockTermination then it\<lparr>niTerminated := True\<rparr> else it) in
          if niPadded it \<and> length (niRest it) \<noteq> 0 then Inl ErrBlockOrder
          else if niTerminated it \<and> length (niRest it) \<noteq> 0 \<and> niRest it ! 0 \<noteq> NTCP2BlockPadding then Inl ErrBlockOrder
          else Inr (Some (block, it)))"

section \<open>The grammar of a frame\<close>

definition ntcp2_block_bytes :: "NTCP2Block \<Rightarrow> bytes" where
  "ntcp2_block_bytes b = block_layout (nbType b) (nbData b)"

definition ntcp2_block_ok :: "NTCP2Block \<Rightarrow> bool" where
  "ntcp2_block_ok b \<longleftrightarrow> length (nbData b) < 65536"

lemma NTCP2BlockNext_eq:
  assumes "n = unat (Uint16 (slice 1 3 rest))" "blk = \<lparr>nbType = rest ! 0, nbData = slice 3 (3 + n) rest\<rparr>" "r = drop (3 + n) rest"
  shows "NTCP2BlockNext \<lparr>niRest = rest, niTerminated = t, niPadded = p\<rparr> =
    (if rest = [] then Inr None else if p \<or> (t \<and> rest ! 0 \<noteq> NTCP2BlockPadding) then Inl ErrBlockOrder else if length rest < 3 then Inl ErrShortBuffer
     else if n > length rest - 3 then Inl ErrBlockLength
     else if nbType blk = NTCP2BlockPadding \<and> r \<noteq> [] then Inl ErrBlockOrder
     else if (t \<or> nbType blk = NTCP2BlockTermination) \<and> r \<noteq> [] \<and> r ! 0 \<noteq> NTCP2BlockPadding then Inl ErrBlockOrder
     else Inr (Some (blk, \<lparr>niRest = r, niTerminated = (t \<or> nbType blk = NTCP2BlockTermination), niPadded = (nbType blk = NTCP2BlockPadding)\<rparr>)))"
proof -
  have ty: "rest ! 0 = nbType blk" by (simp add: assms(2))
  show ?thesis
    unfolding NTCP2BlockNext_def Let_def NTCP2Iterator.simps NTCP2BlockHeaderLen_def assms(1) [symmetric] assms(2) [symmetric] assms(3) [symmetric]
    unfolding ty
    by (cases "nbType blk = NTCP2BlockPadding"; cases "nbType blk = NTCP2BlockTermination"; cases p) simp_all
qed

lemma NTCP2BlockNext_Some:
  assumes "NTCP2BlockNext it = Inr (Some (b, it'))"
  shows "niRest it = ntcp2_block_bytes b @ niRest it' \<and> ntcp2_block_ok b \<and> \<not> niPadded it \<and> (niTerminated it \<longrightarrow> nbType b = NTCP2BlockPadding) \<and>
    (nbType b = NTCP2BlockPadding \<longrightarrow> niRest it' = []) \<and> niTerminated it' = (niTerminated it \<or> nbType b = NTCP2BlockTermination) \<and>
    niPadded it' = (nbType b = NTCP2BlockPadding)"
proof -
  obtain rest t p where it: "it = \<lparr>niRest = rest, niTerminated = t, niPadded = p\<rparr>" by (cases it)
  define n where "n = unat (Uint16 (slice 1 3 rest))"
  define blk where "blk = \<lparr>nbType = rest ! 0, nbData = slice 3 (3 + n) rest\<rparr>"
  define r where "r = drop (3 + n) rest"
  have ty: "rest ! 0 = nbType blk" by (simp add: blk_def)
  have g: "\<not> p" "t \<longrightarrow> nbType blk = NTCP2BlockPadding" "3 \<le> length rest" "n \<le> length rest - 3" "nbType blk = NTCP2BlockPadding \<longrightarrow> r = []"
    "b = blk" "it' = \<lparr>niRest = r, niTerminated = (t \<or> nbType blk = NTCP2BlockTermination), niPadded = (nbType blk = NTCP2BlockPadding)\<rparr>"
    using assms unfolding it NTCP2BlockNext_eq [OF n_def blk_def r_def] ty by (auto simp del: One_nat_def split: if_splits)
  have n: "n < 65536" by (simp add: n_def)
  have "rest = ntcp2_block_bytes blk @ r" using block_layout_split [OF g(3) n_def g(4)] by (simp add: ntcp2_block_bytes_def blk_def r_def)
  moreover have "ntcp2_block_ok blk" using n by (simp add: ntcp2_block_ok_def blk_def min_def slice_def)
  ultimately show ?thesis using g it by simp
qed

lemma NTCP2BlockNext_enc:
  assumes "niRest it = ntcp2_block_bytes b @ r" "ntcp2_block_ok b" "\<not> niPadded it" "niTerminated it \<longrightarrow> nbType b = NTCP2BlockPadding"
    "nbType b = NTCP2BlockPadding \<longrightarrow> r = []" "nbType b = NTCP2BlockTermination \<longrightarrow> r = [] \<or> hd r = NTCP2BlockPadding"
  shows "\<exists>it'. NTCP2BlockNext it = Inr (Some (b, it')) \<and> niRest it' = r"
proof -
  obtain t where it: "it = \<lparr>niRest = ntcp2_block_bytes b @ r, niTerminated = t, niPadded = False\<rparr>" using assms(1,3) by (cases it) auto
  have d: "length (nbData b) < 65536" using assms(2) by (simp add: ntcp2_block_ok_def)
  note e = block_layout_read [OF d, of "nbType b" r, folded ntcp2_block_bytes_def]
  have b: "b = \<lparr>nbType = (ntcp2_block_bytes b @ r) ! 0, nbData = slice 3 (3 + length (nbData b)) (ntcp2_block_bytes b @ r)\<rparr>" using e by simp
  have l: "length (ntcp2_block_bytes b) = 3 + length (nbData b)" by (simp add: ntcp2_block_bytes_def)
  then have ne: "ntcp2_block_bytes b @ r \<noteq> []" by auto
  show ?thesis
    unfolding it NTCP2BlockNext_eq [OF e(1) [symmetric] b e(4) [symmetric]] using ne l assms(4-6) it e(2) by (auto simp: hd_conv_nth)
qed

interpretation ntcp2_blocks: block_grammar NTCP2BlockNext niRest niTerminated niPadded ntcp2_block_bytes ntcp2_block_ok nbType NTCP2BlockPadding NTCP2BlockTermination
proof (unfold_locales, goal_cases)
  case (1 b)
  show ?case by (simp add: ntcp2_block_bytes_def block_layout_def)
next
  case (2 s)
  obtain rest t p where it: "s = \<lparr>niRest = rest, niTerminated = t, niPadded = p\<rparr>" by (cases s)
  show ?case unfolding it NTCP2BlockNext_eq [OF refl refl refl] by (simp split: if_splits)
next
  case (3 s b s')
  then show ?case by (rule NTCP2BlockNext_Some)
next
  case (4 s b r)
  show ?case by (rule NTCP2BlockNext_enc [OF 4])
qed

function validate_loop :: "NTCP2Iterator \<Rightarrow> error option" where
  "validate_loop iterator =
     (case NTCP2BlockNext iterator of
        Inl err \<Rightarrow> Some err
      | Inr None \<Rightarrow> None
      | Inr (Some (block, iterator)) \<Rightarrow>
          if nbType block = NTCP2BlockDateTime \<and> length (nbData block) \<noteq> 4 then Some ErrBlockLength else validate_loop iterator)"
  by pat_completeness auto
termination by (relation "measure (\<lambda>it. length (niRest it))") (auto dest: ntcp2_blocks.next_shrinks)

declare validate_loop.simps [simp del]

definition ValidateBlocks :: "bytes \<Rightarrow> error option" where
  "ValidateBlocks plaintext = validate_loop (NewNTCP2Iterator plaintext)"

text \<open>The loop accepts when the iterator runs to its end and every block that it answers passes.\<close>

definition datetime_ok :: "NTCP2Block \<Rightarrow> bool" where
  "datetime_ok b \<longleftrightarrow> (nbType b = NTCP2BlockDateTime \<longrightarrow> length (nbData b) = 4)"

lemma validate_loop_drain:
  "length (niRest it) < fuel \<Longrightarrow> validate_loop it = None \<longleftrightarrow> (\<exists>bs. drain NTCP2BlockNext fuel it = Some (Inr bs) \<and> list_all datetime_ok bs)"
proof (induction fuel arbitrary: it)
  case (Suc fuel)
  show ?case
  proof (cases "NTCP2BlockNext it")
    case (Inl err)
    then show ?thesis by (subst validate_loop.simps) simp
  next
    case (Inr r)
    show ?thesis
    proof (cases r)
      case None
      then show ?thesis using Inr by (subst validate_loop.simps) simp
    next
      case (Some q)
      then obtain b it' where n: "NTCP2BlockNext it = Inr (Some (b, it'))" using Inr by (cases q) auto
      have "length (niRest it') < fuel" using ntcp2_blocks.next_shrinks [OF n] Suc.prems by simp
      note IH = Suc.IH [OF this]
      have "validate_loop it = (if datetime_ok b then validate_loop it' else Some ErrBlockLength)"
        using n by (subst validate_loop.simps) (auto simp: datetime_ok_def)
      moreover have "(\<exists>bs. drain NTCP2BlockNext (Suc fuel) it = Some (Inr bs) \<and> list_all datetime_ok bs) \<longleftrightarrow>
          datetime_ok b \<and> (\<exists>bs. drain NTCP2BlockNext fuel it' = Some (Inr bs) \<and> list_all datetime_ok bs)"
        using n by (auto split: option.splits sum.splits)
      ultimately show ?thesis using IH by simp
    qed
  qed
qed simp

section \<open>Frames\<close>

declare write_all.simps [simp del]

lemma rev_be_bytes: "rev (be_bytes n v) = map (\<lambda>i. of_nat (v div 256 ^ i)) [0..<n]"
proof (induction n arbitrary: v)
  case (Suc n)
  have "map (\<lambda>i. of_nat (v div 256 ^ i) :: u8) [0..<Suc n] = of_nat v # map (\<lambda>i. of_nat (v div 256 ^ Suc i)) [0..<n]"
    by (simp add: upt_conv_Cons map_Suc_upt [symmetric] del: upt_Suc)
  then show ?case using Suc by (simp add: div_mult2_eq)
qed simp

lemma nonce_bytes: "map (\<lambda>i. ucast (drop_bit (8 * i) v)) [0..<8] = PutUint64_LE v"
proof -
  have "(ucast (drop_bit (8 * i) v) :: u8) = of_nat (unat v div 256 ^ i)" for i
  proof -
    have "unat (drop_bit (8 * i) v) = unat v div 256 ^ i" by (simp only: unat_drop_bit_eq) (simp add: drop_bit_eq_div power_mult)
    then show ?thesis by (metis of_nat_unat)
  qed
  then show ?thesis by (simp add: PutUint64_LE_def PutUint64_def rev_be_bytes)
qed

lemma header_length: "length h = 2 \<Longrightarrow> push_bit 8 (ucast (h ! 0)) OR ucast (h ! 1) = Uint16 h"
proof -
  assume "length h = 2"
  then obtain a b where h: "h = [a, b]" by (auto simp: length_Suc_conv eval_nat_numeral)
  have "push_bit 8 (ucast a) + ucast b = push_bit 8 (ucast a) OR (ucast b :: u16)"
    by (rule disjunctive_add) (auto simp: bit_simps dest: bit_imp_le_length)
  moreover have "push_bit 8 (ucast a) + ucast b = (of_nat (unat a * 256 + unat b) :: u16)"
    by (simp add: push_bit_eq_mult of_nat_unat)
  ultimately show ?thesis by (simp add: h Uint16_def be_val_def)
qed

text \<open>A direction under a key, the nonce of a number, and the frame that a direction makes of a plaintext.\<close>

definition dir_ok :: "bytes \<Rightarrow> NTCP2Direction \<Rightarrow> bool" where
  "dir_ok key d \<longleftrightarrow> dir_cipher d = Some \<lparr>cc_key = key, cc_aead = Some key, cc_released = False\<rparr> \<and> \<not> dir_released d \<and>
     (\<exists>n. dir_nonceBuf d = replicate 4 0 @ n \<and> length n = 8)"

definition nonce_of :: "u64 \<Rightarrow> bytes" where "nonce_of n = replicate 4 0 @ PutUint64_LE n"

definition frame_mask :: "NTCP2Direction \<Rightarrow> u16" where "frame_mask d = fst (nextMask (dir_sip d))"

definition frame_bytes :: "chacha_backend \<Rightarrow> bytes \<Rightarrow> NTCP2Direction \<Rightarrow> bytes \<Rightarrow> bytes" where
  "frame_bytes B key d plaintext =
     PutUint16 (of_nat (length plaintext + 16) XOR frame_mask d) @ aead_Seal B key (nonce_of (dir_nonce d)) plaintext []"

definition advance :: "NTCP2Direction \<Rightarrow> NTCP2Direction" where
  "advance d = d\<lparr>dir_sip := snd (nextMask (dir_sip d)), dir_nonce := dir_nonce d + 1, dir_nonceBuf := nonce_of (dir_nonce d)\<rparr>"

lemma NewDirection_ok: "NewDirection ck sk iv = Inr d \<Longrightarrow> dir_ok ck d \<and> dir_nonce d = 0"
  by (auto simp: NewDirection_def NewChaCha20Poly1305_def dir_ok_def ChaChaNonceSize_def bindR_def eval_nat_numeral split: if_splits sum.splits)

lemma length_nonce_of [simp]: "length (nonce_of n) = 12"
  by (simp add: nonce_of_def)

lemma advance_ok [simp]: "dir_ok key d \<Longrightarrow> dir_ok key (advance d)"
  by (auto simp: dir_ok_def advance_def nonce_of_def)

lemma put_nonce: "dir_ok key d \<Longrightarrow> put_at 4 (PutUint64_LE v) (dir_nonceBuf d) = nonce_of v"
  by (auto simp: dir_ok_def nonce_of_def put_at_def)

lemma length_frame: "backend_ok B \<Longrightarrow> length (frame_bytes B key d p) = 18 + length p"
  by (simp add: frame_bytes_def backend_ok_def)

lemma Direction_SealTo_eq:
  assumes "backend_ok B" "dir_ok key d" "length p \<le> MaxPlaintextFrame" "\<not> nonce_exhausted d" "18 + length p \<le> length dst"
  shows "Direction_SealTo B (Some d) dst p = (Inr (frame_bytes B key d p), Some (advance d))"
proof -
  let ?c = "aead_Seal B key (nonce_of (dir_nonce d)) p []" and ?l = "PutUint16 (of_nat (length p + 16) XOR frame_mask d)"
  have c: "length ?c = length p + 16" using assms(1) by (simp add: backend_ok_def)
  have "SealTo B (dir_cipher d) (slice 2 (18 + length p) dst) (nonce_of (dir_nonce d)) p [] = Inr ?c"
    using assms(2,5) by (auto simp: SealTo_def dir_ok_def chacha_consts slice_def)
  moreover have "take (18 + length p) (put_at 0 ?l (put_at 2 ?c dst)) = ?l @ ?c"
    using c assms(5) by (simp add: put_at_def)
  moreover obtain m sip where "nextMask (dir_sip d) = (m, sip)" by fastforce
  ultimately show ?thesis
    using assms put_nonce [OF assms(2)] by (simp add: Direction_SealTo_def Let_def ntcp2_consts frame_bytes_def advance_def frame_mask_def dir_ok_def)
qed

text \<open>\<open>OpenTo\<close> opens a whole frame as the other end sealed it, and leaves the direction as sealing did.\<close>

lemma Direction_OpenTo_eq:
  assumes "backend_ok B" "dir_ok key d" "length p \<le> MaxPlaintextFrame" "length p \<le> length dst" "\<not> nonce_exhausted d"
  shows "Direction_OpenTo B (Some d) dst (frame_bytes B key d p) = (Inr p, Some (advance d))"
proof -
  let ?c = "aead_Seal B key (nonce_of (dir_nonce d)) p []" and ?v = "of_nat (length p + 16) XOR frame_mask d"
  have c: "length ?c = length p + 16" "aead_Open B key (nonce_of (dir_nonce d)) ?c [] = Some p" using assms(1) by (simp_all add: backend_ok_def)
  then have o: "OpenTo B (dir_cipher d) dst (nonce_of (dir_nonce d)) ?c [] = Inr p"
    using assms(2,4) by (auto simp: OpenTo_def dir_ok_def chacha_consts)
  have n: "unat (Uint16 (take 2 (frame_bytes B key d p)) XOR frame_mask d) = length p + 16"
    using assms(3) unat_of_nat_u16 [of "length p + 16"] by (simp add: frame_bytes_def codec_simps ntcp2_consts xor.assoc)
  have l: "length (frame_bytes B key d p) = 18 + length p" "drop 2 (frame_bytes B key d p) = ?c" using length_frame [OF assms(1)] by (simp_all add: frame_bytes_def)
  obtain m sip where m: "nextMask (dir_sip d) = (m, sip)" by fastforce
  have e: "nonce_exhausted (d\<lparr>dir_sip := sip\<rparr>) = nonce_exhausted d" by (simp add: nonce_exhausted_def)
  show ?thesis
    using assms(2,3,5) n l o m e put_nonce [OF assms(2)]
    by (simp add: Direction_OpenTo_def Let_def ntcp2_consts advance_def frame_mask_def dir_ok_def)
qed

text \<open>A writer that takes at least one byte of what it is given, and no more than that, gets everything.\<close>

definition writer_ok :: "writer \<Rightarrow> bool" where
  "writer_ok write \<longleftrightarrow> (\<forall>i bs. bs \<noteq> [] \<longrightarrow> (\<exists>n. write i bs = (int n, None) \<and> 0 < n \<and> n \<le> length bs))"

lemma write_all_complete: "writer_ok write \<Longrightarrow> write_all write i bs = (bs, None)"
proof (induction "length bs" arbitrary: i bs rule: less_induct)
  case less
  show ?case
  proof (cases "bs = []")
    case False
    then obtain n where n: "write i bs = (int n, None)" "0 < n" "n \<le> length bs" using less.prems by (auto simp: writer_ok_def)
    then have "write_all write (i + 1) (drop n bs) = (drop n bs, None)" using False less by simp
    then show ?thesis using n False by (subst write_all.simps) simp
  qed (subst write_all.simps, simp)
qed

lemma WriteFrame_eq:
  assumes "backend_ok B" "dir_ok key d" "length p \<le> MaxPlaintextFrame" "\<not> nonce_exhausted d" "slab_ok st" "writer_ok write"
  obtains st' where "WriteFrame B write pick st (Some d) p = (frame_bytes B key d p, None, Some (advance d), st')" "slab_ok st'" "lease_live st' = lease_live st"
proof -
  let ?n = "length p + 16"
  have "int 2 + int ?n \<le> maxInt" using assms(3) by (simp add: maxInt_def ntcp2_consts)
  then obtain l bs st1 where a: "BufferAcquire (int 2) (int ?n) pick st =
      (Some \<lparr>buf = bs, blease = Some l, reserved = int 2, bstart = int 2, bend = int 2, blimit = int 2 + int ?n, breleased = False\<rparr>, st1)"
    "length bs = nat (int 2 + int ?n)" "slab_ok (LeaseRelease (Some l) st1)" "lease_live (LeaseRelease (Some l) st1) = lease_live st"
    using BufferAcquire_fresh [OF assms(5) of_nat_0_le_iff of_nat_0_le_iff \<open>int 2 + int ?n \<le> maxInt\<close>] by blast
  let ?f = "\<lparr>buf = bs, blease = Some l, reserved = int 2, bstart = 0, bend = int 2 + int ?n, blimit = int 2 + int ?n, breleased = False\<rparr>"
  have bs: "length bs = 18 + length p" using a(2) by simp
  have s: "Direction_SealTo B (Some d) bs p = (Inr (frame_bytes B key d p), Some (advance d))"
    using assms bs by (intro Direction_SealTo_eq) simp_all
  have w: "BufferBytes (BufferWrite 0 (frame_bytes B key d p) ?f) = Some (frame_bytes B key d p)"
    using bs length_frame [OF assms(1), of key d p] by (simp add: BufferBytes_def BufferWrite_def buffer_live_def slice_def put_at_def nat_add_distrib)
  have "WriteFrame B write pick st (Some d) p = (frame_bytes B key d p, None, Some (advance d), LeaseRelease (Some l) st1)"
    using a(1) s w bs assms(3) write_all_complete [OF assms(6)] length_frame [OF assms(1), of key d p]
    by (simp add: WriteFrame_def Let_def ntcp2_consts BufferAppend_def BufferPush_def buffer_live_def availableHeader_def BufferRelease_def
        BufferBytes_def BufferWrite_def slice_def nat_add_distrib)
  then show ?thesis using that a(3,4) by blast
qed

text \<open>What \<open>ReadFrame\<close> does with a header that announces \<open>n\<close> bytes.\<close>

lemma ReadFrame_header:
  assumes "unat (Uint16 h XOR frame_mask d) = n" "length h = 2"
  shows "ReadFrame B pick st d (h @ body) dst =
    (let d1 = d\<lparr>dir_sip := snd (nextMask (dir_sip d))\<rparr> in
     if n < 16 then (Inl ErrFrameLength, body, d1, st)
     else if length dst < n - 16 then (Inl ErrShortBuffer, body, d1, st)
     else if nonce_exhausted d then (Inl ErrNonceExhausted, body, d1, st)
     else ReadFrame B pick st d (h @ body) dst)"
proof -
  obtain m sip where m: "nextMask (dir_sip d) = (m, sip)" by fastforce
  have "ReadFull 2 (h @ body) = (Inr h, body)" using assms(2) by (simp add: ReadFull_def)
  moreover have "n \<le> 65535" using unat_u16_less [of "Uint16 h XOR frame_mask d"] unfolding assms(1) by linarith
  ultimately show ?thesis
    using assms header_length [OF assms(2)] m by (simp add: ReadFrame_def ntcp2_consts Let_def frame_mask_def nonce_exhausted_def)
qed

lemma ReadFrame_body:
  assumes "dir_ok key d" "unat (Uint16 h XOR frame_mask d) = n" "length h = 2" "16 \<le> n" "n - 16 \<le> length dst" "\<not> nonce_exhausted d" "slab_ok st"
  obtains st' where "slab_ok st'" "lease_live st' = lease_live st" "ReadFrame B pick st d (h @ body) dst =
    (if length body < n then (Inl (if body = [] then EOF_err else ErrUnexpectedEOF), [], d\<lparr>dir_sip := snd (nextMask (dir_sip d))\<rparr>, st')
     else case aead_Open B key (nonce_of (dir_nonce d)) (take n body) [] of
         None \<Rightarrow> (Inl errOpen, drop n body, d\<lparr>dir_sip := snd (nextMask (dir_sip d)), dir_nonceBuf := nonce_of (dir_nonce d)\<rparr>, st')
       | Some p \<Rightarrow> (Inr p, drop n body, advance d, st'))"
proof -
  obtain m sip where m: "nextMask (dir_sip d) = (m, sip)" by fastforce
  have n: "n \<le> 65535" using unat_u16_less [of "Uint16 h XOR frame_mask d"] unfolding assms(2) by linarith
  then have "0 + int n \<le> maxInt" by (simp add: maxInt_def)
  then obtain l bs st1 where a: "BufferAcquire 0 (int n) pick st =
      (Some \<lparr>buf = bs, blease = Some l, reserved = 0, bstart = 0, bend = 0, blimit = 0 + int n, breleased = False\<rparr>, st1)"
    "length bs = nat (0 + int n)" "slab_ok (LeaseRelease (Some l) st1)" "lease_live (LeaseRelease (Some l) st1) = lease_live st"
    using BufferAcquire_fresh [OF assms(7) order_refl of_nat_0_le_iff \<open>0 + int n \<le> maxInt\<close>] by blast
  have nb: "put_at 4 (map (\<lambda>i. ucast (drop_bit (8 * i) (dir_nonce d))) [0..<8]) (replicate (length (dir_nonceBuf d)) 0) = nonce_of (dir_nonce d)"
    using assms(1) unfolding nonce_bytes by (auto simp: dir_ok_def nonce_of_def put_at_def)
  have o: "OpenTo B (dir_cipher d) dst (nonce_of (dir_nonce d)) ct [] =
      (case aead_Open B key (nonce_of (dir_nonce d)) ct [] of None \<Rightarrow> Inl errOpen | Some plain \<Rightarrow> Inr plain)" if "length ct = n" for ct
    using assms(1,4,5) that by (auto simp: OpenTo_def dir_ok_def chacha_consts)
  have h: "ReadFull 2 (h @ body) = (Inr h, body)" using assms(3) by (simp add: ReadFull_def)
  note step = ReadFrame_def ntcp2_consts Let_def BufferAppend_def buffer_live_def BufferRelease_def
  show ?thesis
  proof (cases "length body < n")
    case True
    then have "ReadFull n body = (Inl (if body = [] then EOF_err else ErrUnexpectedEOF), [])" by (simp add: ReadFull_def)
    then show ?thesis using that [OF a(3,4)] True h a(1) assms(2-6) header_length [OF assms(3)] m n
      by (simp add: step frame_mask_def nonce_exhausted_def)
  next
    case False
    then have r: "ReadFull n body = (Inr (take n body), drop n body)" by (simp add: ReadFull_def)
    have w: "put_at 0 (take n body) bs = take n body" using False a(2) by (simp add: put_at_def)
    show ?thesis using that [OF a(3,4)] False h r w a(1) assms(2-6) header_length [OF assms(3)] m n nb o [of "take n body"]
      by (simp add: step frame_mask_def nonce_exhausted_def BufferWrite_def BufferBytes_def slice_def advance_def split: option.splits)
  qed
qed

lemma ReadFrame_cases:
  assumes "dir_ok key d" "slab_ok st"
  obtains (refused) err rest d' st' where "ReadFrame B pick st d stream dst = (Inl err, rest, d', st')" "slab_ok st'" "dir_ok key d'" "dir_nonce d' = dir_nonce d"
      "lease_live st' = lease_live st"
  | (accepted) h ct rest p st' where "ReadFrame B pick st d stream dst = (Inr p, rest, advance d, st')" "slab_ok st'" "\<not> nonce_exhausted d"
      "stream = h @ ct @ rest" "length h = 2" "aead_Open B key (nonce_of (dir_nonce d)) ct [] = Some p" "lease_live st' = lease_live st"
proof (cases "length stream < 2")
  case True
  then have "ReadFrame B pick st d stream dst = (Inl (if stream = [] then EOF_err else ErrUnexpectedEOF), [], d, st)"
    by (simp add: ReadFrame_def ReadFull_def ntcp2_consts)
  then show ?thesis using refused assms by blast
next
  case False
  define h body n where "h = take 2 stream" and "body = drop 2 stream" and "n = unat (Uint16 h XOR frame_mask d)"
  have h: "stream = h @ body" "length h = 2" using False by (simp_all add: h_def body_def)
  note n = n_def [symmetric]
  have ok: "dir_ok key (d\<lparr>dir_sip := x\<rparr>)" "dir_ok key (d\<lparr>dir_sip := x, dir_nonceBuf := nonce_of v\<rparr>)" for x v
    using assms(1) by (auto simp: dir_ok_def nonce_of_def)
  show ?thesis
  proof (cases "n < 16 \<or> length dst < n - 16 \<or> nonce_exhausted d")
    case True
    then obtain err where "ReadFrame B pick st d stream dst = (Inl err, body, d\<lparr>dir_sip := snd (nextMask (dir_sip d))\<rparr>, st)"
      using ReadFrame_header [OF n h(2), of B pick st body dst] unfolding h(1) Let_def by (auto split: if_splits)
    then show ?thesis using refused ok(1) assms(2) by simp
  next
    case False
    then have g: "16 \<le> n" "n - 16 \<le> length dst" "\<not> nonce_exhausted d" by auto
    obtain st' where st': "slab_ok st'" "lease_live st' = lease_live st" "ReadFrame B pick st d (h @ body) dst =
        (if length body < n then (Inl (if body = [] then EOF_err else ErrUnexpectedEOF), [], d\<lparr>dir_sip := snd (nextMask (dir_sip d))\<rparr>, st')
         else case aead_Open B key (nonce_of (dir_nonce d)) (take n body) [] of
             None \<Rightarrow> (Inl errOpen, drop n body, d\<lparr>dir_sip := snd (nextMask (dir_sip d)), dir_nonceBuf := nonce_of (dir_nonce d)\<rparr>, st')
           | Some p \<Rightarrow> (Inr p, drop n body, advance d, st'))"
      using ReadFrame_body [OF assms(1) n h(2) g assms(2), of B pick body] by blast
    consider "length body < n" | "\<not> length body < n" "aead_Open B key (nonce_of (dir_nonce d)) (take n body) [] = None"
      | p where "\<not> length body < n" "aead_Open B key (nonce_of (dir_nonce d)) (take n body) [] = Some p" by fastforce
    then show ?thesis
    proof cases
      case 3
      then show ?thesis using accepted [of p "drop n body" st' h "take n body"] st' h g(3) by simp
    qed (use refused st' ok h(1) in \<open>simp_all split: if_splits\<close>)
  qed
qed

lemma ReadFrame_eq:
  assumes "backend_ok B" "dir_ok key d" "length p \<le> MaxPlaintextFrame" "length p \<le> length dst" "\<not> nonce_exhausted d" "slab_ok st"
  obtains st' where "ReadFrame B pick st d (frame_bytes B key d p @ rest) dst = (Inr p, rest, advance d, st')" "slab_ok st'" "lease_live st' = lease_live st"
proof -
  let ?h = "PutUint16 (of_nat (length p + 16) XOR frame_mask d)" and ?c = "aead_Seal B key (nonce_of (dir_nonce d)) p []"
  have "(of_nat (length p + 16) XOR frame_mask d) XOR frame_mask d = of_nat (length p + 16)" by (simp add: xor.assoc)
  then have n: "unat (Uint16 ?h XOR frame_mask d) = length p + 16" using assms(3) unat_of_nat_u16 [of "length p + 16"] by (simp add: codec_simps ntcp2_consts)
  have c: "length ?c = length p + 16" "aead_Open B key (nonce_of (dir_nonce d)) ?c [] = Some p" using assms(1) by (simp_all add: backend_ok_def)
  show ?thesis
    using ReadFrame_body [OF assms(2) n _ _ _ assms(5,6), of dst B pick "?c @ rest"] that assms(4) c by (auto simp: frame_bytes_def)
qed

section \<open>Sessions\<close>

text \<open>
  Plaintexts written one after the other, with the writer and the pooled lease that each call gets: the bytes on the connection. And frames
  read one after the other from a connection, with the lease and the destination of each call. \<open>None\<close> is that a call failed.
\<close>

fun session_send :: "chacha_backend \<Rightarrow> slab_state \<Rightarrow> NTCP2Session \<Rightarrow> (writer \<times> nat option \<times> bytes) list \<Rightarrow> (bytes \<times> NTCP2Session \<times> slab_state) option" where
  "session_send B st s [] = Some ([], s, st)"
| "session_send B st s ((write', pick, p) # jobs) =
     (case Session_Write B write' pick st s p of
        (_, Some _, _, _) \<Rightarrow> None
      | (out, None, s, st) \<Rightarrow> (case session_send B st s jobs of None \<Rightarrow> None | Some (wire, s, st) \<Rightarrow> Some (out @ wire, s, st)))"

fun session_recv :: "chacha_backend \<Rightarrow> slab_state \<Rightarrow> NTCP2Session \<Rightarrow> bytes \<Rightarrow> (nat option \<times> bytes) list \<Rightarrow> (bytes list \<times> bytes \<times> NTCP2Session \<times> slab_state) option" where
  "session_recv B st s stream [] = Some ([], stream, s, st)"
| "session_recv B st s stream ((pick, dst) # reads) =
     (case Session_Read B pick st s stream dst of
        (Inl _, _, _, _) \<Rightarrow> None
      | (Inr p, stream, s, st) \<Rightarrow>
          (case session_recv B st s stream reads of None \<Rightarrow> None | Some (ps, stream, s, st) \<Rightarrow> Some (p # ps, stream, s, st)))"

text \<open>Reads of which each finds bytes of its own, whatever they are: the plaintexts that were accepted.\<close>

fun session_reads :: "chacha_backend \<Rightarrow> slab_state \<Rightarrow> NTCP2Session \<Rightarrow> (nat option \<times> bytes \<times> bytes) list \<Rightarrow> bytes list \<times> NTCP2Session \<times> slab_state" where
  "session_reads B st s [] = ([], s, st)"
| "session_reads B st s ((pick, stream, dst) # reads) =
     (case Session_Read B pick st s stream dst of
        (Inl _, _, s, st) \<Rightarrow> session_reads B st s reads
      | (Inr p, _, s, st) \<Rightarrow> (case session_reads B st s reads of (ps, s, st) \<Rightarrow> (p # ps, s, st)))"

definition max_frames :: nat where "max_frames = 18446744073709551614"

lemma exhausted_iff: "k \<le> max_frames \<Longrightarrow> dir_nonce d = of_nat k \<Longrightarrow> nonce_exhausted d \<longleftrightarrow> k = max_frames"
proof -
  assume k: "k \<le> max_frames" "dir_nonce d = of_nat k"
  then have "unat (dir_nonce d) = k" by (simp add: max_frames_def unat_of_nat)
  then show ?thesis using k(1) by (simp add: nonce_exhausted_def word_le_nat_alt max_frames_def)
qed

lemma advance_nonce: "dir_nonce d = of_nat k \<Longrightarrow> dir_nonce (advance d) = of_nat (Suc k)"
  by (simp add: advance_def)

primrec wire_of :: "chacha_backend \<Rightarrow> bytes \<Rightarrow> NTCP2Direction \<Rightarrow> bytes list \<Rightarrow> bytes" where
  "wire_of B key d [] = []"
| "wire_of B key d (p # ps) = frame_bytes B key d p @ wire_of B key (advance d) ps"

lemma length_wire: "backend_ok B \<Longrightarrow> length (wire_of B key d ps) = sum_list (map (\<lambda>p. 18 + length p) ps)"
  by (induction ps arbitrary: d) (simp_all add: length_frame)

lemma session_send_wire:
  assumes "backend_ok B"
  shows "dir_ok key d \<Longrightarrow> dir_nonce d = of_nat k \<Longrightarrow> k + length jobs \<le> max_frames \<Longrightarrow> slab_ok st \<Longrightarrow>
    list_all (\<lambda>(write', pick, p). writer_ok write' \<and> length p \<le> MaxPlaintextFrame) jobs \<Longrightarrow>
    \<exists>s' st'. session_send B st (NewSession (Some d) r) jobs = Some (wire_of B key d (map (\<lambda>j. snd (snd j)) jobs), s', st') \<and> slab_ok st' \<and> lease_live st' = lease_live st"
proof (induction jobs arbitrary: d k st)
  case (Cons j jobs)
  obtain w pick p where j: "j = (w, pick, p)" by (cases j)
  have "\<not> nonce_exhausted d" using exhausted_iff [of k d] Cons.prems by simp
  then obtain st1 where w: "WriteFrame B w pick st (Some d) p = (frame_bytes B key d p, None, Some (advance d), st1)" "slab_ok st1" "lease_live st1 = lease_live st"
    using WriteFrame_eq [OF assms Cons.prems(1), of p st w pick] Cons.prems(4,5) j by auto
  then have "Session_Write B w pick st (NewSession (Some d) r) p = (frame_bytes B key d p, None, NewSession (Some (advance d)) r, st1)"
    by (simp add: Session_Write_def NewSession_def)
  moreover obtain s' st' where "session_send B st1 (NewSession (Some (advance d)) r) jobs = Some (wire_of B key (advance d) (map (\<lambda>j. snd (snd j)) jobs), s', st')" "slab_ok st'" "lease_live st' = lease_live st1"
    using Cons.IH [of "advance d" "Suc k" st1] Cons.prems w(2) advance_nonce by auto
  ultimately show ?case using j w(3) by simp
qed simp

lemma session_recv_wire:
  assumes "backend_ok B"
  shows "list_all2 (\<lambda>p (pick, dst). length p \<le> length dst) ps reads \<Longrightarrow> dir_ok key d \<Longrightarrow> dir_nonce d = of_nat k \<Longrightarrow> k + length ps \<le> max_frames \<Longrightarrow>
    slab_ok st \<Longrightarrow> list_all (\<lambda>p. length p \<le> MaxPlaintextFrame) ps \<Longrightarrow>
    \<exists>s' st'. session_recv B st (NewSession s (Some d)) (wire_of B key d ps @ following) reads = Some (ps, following, s', st') \<and> slab_ok st' \<and> lease_live st' = lease_live st"
proof (induction arbitrary: d k st rule: list_all2_induct)
  case (Cons p ps q reads)
  obtain pick dst where q: "q = (pick, dst)" by (cases q)
  have "\<not> nonce_exhausted d" using exhausted_iff [of k d] Cons.prems by simp
  then obtain st1 where w: "ReadFrame B pick st d (frame_bytes B key d p @ wire_of B key (advance d) ps @ following) dst =
      (Inr p, wire_of B key (advance d) ps @ following, advance d, st1)" "slab_ok st1" "lease_live st1 = lease_live st"
    using ReadFrame_eq [OF assms Cons.prems(1), of p dst st pick] Cons.prems(4,5) Cons.hyps(1) q by auto
  then have "Session_Read B pick st (NewSession s (Some d)) (wire_of B key d (p # ps) @ following) dst =
      (Inr p, wire_of B key (advance d) ps @ following, NewSession s (Some (advance d)), st1)"
    by (simp add: Session_Read_def NewSession_def)
  moreover obtain s' st' where "session_recv B st1 (NewSession s (Some (advance d))) (wire_of B key (advance d) ps @ following) reads = Some (ps, following, s', st')" "slab_ok st'" "lease_live st' = lease_live st1"
    using Cons.IH [of "advance d" "Suc k" st1] Cons.prems w(2) advance_nonce by auto
  ultimately show ?case using q w(3) by simp
qed simp

definition opened_at :: "chacha_backend \<Rightarrow> bytes \<Rightarrow> nat \<Rightarrow> nat option \<times> bytes \<times> bytes \<Rightarrow> bytes \<Rightarrow> bool" where
  "opened_at B key i = (\<lambda>(pick, stream, dst) p. \<exists>h ct rest. stream = h @ ct @ rest \<and> length h = 2 \<and> aead_Open B key (nonce_of (of_nat i)) ct [] = Some p)"

lemma session_reads_opened:
  "dir_ok key d \<Longrightarrow> dir_nonce d = of_nat k \<Longrightarrow> k \<le> max_frames \<Longrightarrow> slab_ok st \<Longrightarrow> session_reads B st (NewSession s (Some d)) reads = (ps, s', st') \<Longrightarrow>
   slab_ok st' \<and> lease_live st' = lease_live st \<and> k + length ps \<le> max_frames \<and>
   (\<exists>accepted. subseq accepted reads \<and> length accepted = length ps \<and> (\<forall>i < length ps. opened_at B key (k + i) (accepted ! i) (ps ! i)))"
proof (induction reads arbitrary: d k st ps)
  case (Cons q reads)
  obtain pick stream dst where q: "q = (pick, stream, dst)" by (cases q)
  show ?case
  proof (cases rule: ReadFrame_cases [OF Cons.prems(1,4), of B pick stream dst, case_names refused accepted])
    case (refused err rest d' st1)
    then have "session_reads B st1 (NewSession s (Some d')) reads = (ps, s', st')"
      using Cons.prems(5) q by (simp add: Session_Read_def NewSession_def)
    moreover have "dir_nonce d' = of_nat k" using refused(4) Cons.prems(2) by simp
    ultimately obtain acc where "slab_ok st'" "lease_live st' = lease_live st1" "k + length ps \<le> max_frames" "subseq acc reads" "length acc = length ps"
      "\<forall>i < length ps. opened_at B key (k + i) (acc ! i) (ps ! i)"
      using Cons.IH [OF refused(3) _ Cons.prems(3) refused(2)] by blast
    moreover have "subseq acc (q # reads)" using \<open>subseq acc reads\<close> by (rule list_emb_Cons)
    ultimately show ?thesis unfolding refused(5) [symmetric] by blast
  next
    case (accepted h ct rest p st1)
    then obtain ps1 where r: "session_reads B st1 (NewSession s (Some (advance d))) reads = (ps1, s', st')" "ps = p # ps1"
      using Cons.prems(5) q by (auto simp: Session_Read_def NewSession_def split: prod.splits)
    have k: "Suc k \<le> max_frames" using exhausted_iff [OF Cons.prems(3,2)] accepted(3) Cons.prems(3) by simp
    obtain acc where a: "slab_ok st'" "Suc k + length ps1 \<le> max_frames" "subseq acc reads" "length acc = length ps1"
      "\<forall>i < length ps1. opened_at B key (Suc k + i) (acc ! i) (ps1 ! i)" "lease_live st' = lease_live st1"
      using Cons.IH [OF advance_ok [OF Cons.prems(1)] advance_nonce [OF Cons.prems(2)] k accepted(2) r(1)] by auto
    have "opened_at B key k q p" using accepted Cons.prems(2) q by (auto simp: opened_at_def)
    then have "\<forall>i < length ps. opened_at B key (k + i) ((q # acc) ! i) (ps ! i)" using a(5) r(2) by (auto simp: nth_Cons split: nat.splits)
    moreover have "subseq (q # acc) (q # reads)" "length (q # acc) = length ps" using a r(2) by simp_all
    moreover have "k + length ps \<le> max_frames" using a(2) r(2) by simp
    ultimately show ?thesis using a(1,6) unfolding accepted(7) [symmetric] by blast
  qed
qed simp

lemma funpow_four: "(f ^^ 4) x = f (f (f (f x)))"
  by (simp add: eval_nat_numeral)

lemma Let_pair: "Let (a, b) f = f (a, b)"
  by simp

text \<open>A test vector of SipHash-2-4: the key is the bytes 0 to 15, the message the bytes 0 to 7.\<close>

lemma sipHash24_vector: "sipHash24 0x0706050403020100 0x0f0e0d0c0b0a0908 0x0706050403020100 = 0x93f5f5799a932462"
  by (simp add: sipHash24_def rotate64_def funpow_four Let_pair cong: let_weak_cong)

lemma nonce_of_inj: "inj_on (\<lambda>i. nonce_of (of_nat i)) {.. max_frames}"
  by (rule inj_onI) (auto simp: nonce_of_def max_frames_def intro: le_length_inj)

section \<open>Properties\<close>

text \<open>
  C6. Frames survive the byte stream. Two ends that start from the same keys, up to 2^64 - 2 plaintexts of at most 65519 bytes, and writers
  that take any positive part of what they are given: every \<open>Write\<close> succeeds, 18 bytes more than each plaintext go over the connection, and the
  other end reads back exactly the plaintexts, in order, without touching what follows them. Both ends return every pooled
  lease that they take: the leases held afterwards are those held before.
\<close>

theorem ntcp2_stream_roundtrip:
  assumes "backend_ok B" "NewDirection ck sk iv = Inr d" "slab_ok st" "slab_ok st'" "length jobs \<le> max_frames"
    "list_all (\<lambda>(write', pick, p). writer_ok write' \<and> length p \<le> MaxPlaintextFrame) jobs"
    "list_all2 (\<lambda>p (pick, dst). length p \<le> length dst) (map (\<lambda>j. snd (snd j)) jobs) reads"
  shows "\<exists>wire s1 st1 s2 st2. session_send B st (NewSession (Some d) r) jobs = Some (wire, s1, st1) \<and> slab_ok st1 \<and> lease_live st1 = lease_live st \<and>
    length wire = sum_list (map (\<lambda>j. 18 + length (snd (snd j))) jobs) \<and>
    session_recv B st' (NewSession s (Some d)) (wire @ following) reads = Some (map (\<lambda>j. snd (snd j)) jobs, following, s2, st2) \<and>
    slab_ok st2 \<and> lease_live st2 = lease_live st'"
proof -
  have d: "dir_ok ck d" "dir_nonce d = of_nat 0" using NewDirection_ok [OF assms(2)] by simp_all
  let ?ps = "map (\<lambda>j. snd (snd j)) jobs"
  have b: "0 + length jobs \<le> max_frames" "0 + length ?ps \<le> max_frames" using assms(5) by simp_all
  obtain s1 st1 where w: "session_send B st (NewSession (Some d) r) jobs = Some (wire_of B ck d ?ps, s1, st1)" "slab_ok st1" "lease_live st1 = lease_live st"
    using session_send_wire [OF assms(1) d b(1) assms(3,6)] by blast
  have "list_all (\<lambda>p. length p \<le> MaxPlaintextFrame) ?ps" using assms(6) by (auto simp: list_all_iff)
  then obtain s2 st2 where "session_recv B st' (NewSession s (Some d)) (wire_of B ck d ?ps @ following) reads = Some (?ps, following, s2, st2)" "slab_ok st2" "lease_live st2 = lease_live st'"
    using session_recv_wire [OF assms(1,7) d b(2) assms(4)] by blast
  moreover have "length (wire_of B ck d ?ps) = sum_list (map (\<lambda>j. 18 + length (snd (snd j))) jobs)"
    using length_wire [OF assms(1)] by (simp add: comp_def)
  ultimately show ?thesis using w by blast
qed

text \<open>Two frames, written one byte at a time.\<close>

theorem ntcp2_stream_roundtrip_witness:
  "\<exists>d wire s1 st1 s2 st2. NewDirection (replicate 32 1) (replicate 16 2) (replicate 8 3) = Inr d \<and>
     session_send null_backend slab_init (NewSession (Some d) None) [(\<lambda>i bs. (1, None), None, [5, 6]), (\<lambda>i bs. (1, None), None, [7])] = Some (wire, s1, st1) \<and>
     length wire = 39 \<and>
     session_recv null_backend slab_init (NewSession None (Some d)) (wire @ [9]) [(None, [0, 0]), (None, [0, 0])] = Some ([[5, 6], [7]], [9], s2, st2)"
proof -
  let ?jobs = "[(\<lambda>i bs. (1, None), None, [5, 6]), (\<lambda>i bs. (1, None), None, [7])] :: (writer \<times> nat option \<times> bytes) list"
  have w: "writer_ok (\<lambda>i bs. (1, None))" unfolding writer_ok_def by (auto intro!: exI [of _ 1] simp: Suc_le_eq)
  obtain d where d: "NewDirection (replicate 32 1) (replicate 16 2) (replicate 8 3) = Inr d"
    by (simp add: NewDirection_def NewChaCha20Poly1305_def NewSipState_def chacha_consts bindR_def)
  have "length ?jobs \<le> max_frames" by (simp add: max_frames_def)
  moreover have "list_all (\<lambda>(write', pick, p). writer_ok write' \<and> length p \<le> MaxPlaintextFrame) ?jobs" using w by (simp add: ntcp2_consts)
  moreover have "list_all2 (\<lambda>p (pick, dst). length p \<le> length dst) (map (\<lambda>j. snd (snd j)) ?jobs) [(None, [0, 0]), (None :: nat option, [0, 0] :: bytes)]" by simp
  ultimately show ?thesis using ntcp2_stream_roundtrip [OF null_backend_ok d slab_ok_init slab_ok_init, of ?jobs "[(None, [0, 0]), (None, [0, 0])]" None None "[9]"] d
    by (auto simp del: session_send.simps session_recv.simps)
qed

text \<open>
  C15. What a session accepts was sealed for its place in the sequence. Whatever bytes the reads of a new session find, the accepted plaintext
  number \<open>i\<close> is the opening of bytes of that read under the nonce \<open>i\<close>, accepted reads in the order in which they happened: a frame is neither
  replayed nor moved, at most 2^64 - 2 are accepted, no nonce opens two of them, and every read, accepted or failed, returns its
  pooled lease: the leases held afterwards are those held before.
\<close>

theorem ntcp2_reads_in_order:
  assumes "NewDirection ck sk iv = Inr d" "slab_ok st" "session_reads B st (NewSession s (Some d)) reads = (ps, s', st')"
  shows "slab_ok st' \<and> lease_live st' = lease_live st \<and> length ps \<le> max_frames \<and> inj_on (\<lambda>i. nonce_of (of_nat i)) {..< length ps} \<and>
    (\<exists>accepted. subseq accepted reads \<and> length accepted = length ps \<and> (\<forall>i < length ps. opened_at B ck i (accepted ! i) (ps ! i)))"
proof -
  have d: "dir_ok ck d" "dir_nonce d = of_nat 0" using NewDirection_ok [OF assms(1)] by simp_all
  note r = session_reads_opened [OF d _ assms(2,3)]
  then have "{..< length ps} \<subseteq> {.. max_frames}" by auto
  then have "inj_on (\<lambda>i. nonce_of (of_nat i)) {..< length ps}" using nonce_of_inj inj_on_subset by blast
  then show ?thesis using r by simp
qed

text \<open>A read that finds one byte, and a read that finds a frame.\<close>

theorem ntcp2_reads_in_order_witness:
  "\<exists>d stream s' st'. NewDirection (replicate 32 1) (replicate 16 2) (replicate 8 3) = Inr d \<and>
     session_reads null_backend slab_init (NewSession None (Some d)) [(None, [0], [0]), (None, stream, [0])] = ([[5]], s', st') \<and>
     opened_at null_backend (replicate 32 1) 0 (None, stream, [0]) [5]"
proof -
  obtain d where d: "NewDirection (replicate 32 1) (replicate 16 2) (replicate 8 3) = Inr d"
    by (simp add: NewDirection_def NewChaCha20Poly1305_def NewSipState_def chacha_consts bindR_def)
  let ?f = "frame_bytes null_backend (replicate 32 1) d [5]"
  have "\<not> nonce_exhausted d" using NewDirection_ok [OF d] by (simp add: nonce_exhausted_def)
  then obtain st' where "ReadFrame null_backend None slab_init d (?f @ []) [0] = (Inr [5], [], advance d, st')"
    using ReadFrame_eq [OF null_backend_ok, of "replicate 32 1" d "[5]" "[0]" slab_init None "[]"] NewDirection_ok [OF d] slab_ok_init by (auto simp: ntcp2_consts)
  moreover have "ReadFrame null_backend None slab_init d [0] [0] = (Inl ErrUnexpectedEOF, [], d, slab_init)"
    by (simp add: ReadFrame_def ReadFull_def ntcp2_consts)
  ultimately have r: "session_reads null_backend slab_init (NewSession None (Some d)) [(None, [0], [0]), (None, ?f, [0])] = ([[5]], NewSession None (Some (advance d)), st')"
    by (simp add: Session_Read_def NewSession_def)
  obtain accepted where "subseq accepted [(None, [0], [0]), (None, ?f, [0])]" "length accepted = 1" "opened_at null_backend (replicate 32 1) 0 (accepted ! 0) [5]"
    using ntcp2_reads_in_order [OF d slab_ok_init r] by auto
  moreover have "\<not> opened_at null_backend (replicate 32 1) 0 (None, [0], [0]) [5]" by (auto simp: opened_at_def dest!: arg_cong [where f = length])
  ultimately have "opened_at null_backend (replicate 32 1) 0 (None, ?f, [0]) [5]" by (auto simp: length_Suc_conv elim!: list_emb.cases)
  then show ?thesis using d r by blast
qed

text \<open>
  C31. The grammar of a frame. \<open>ValidateBlocks\<close> ends on every byte string and accepts exactly the concatenations of blocks in which padding stands
  last, only padding follows a termination and every time has four bytes.
\<close>

theorem ntcp2_blocks_exact:
  "ValidateBlocks plaintext = None \<longleftrightarrow>
     (\<exists>bs. plaintext = concat (map ntcp2_block_bytes bs) \<and> list_all ntcp2_block_ok bs \<and> list_all datetime_ok bs \<and>
        sorted_wrt (block_precedes nbType NTCP2BlockPadding NTCP2BlockTermination) bs)"
  using validate_loop_drain [of "NewNTCP2Iterator plaintext" "Suc (length plaintext)"]
    ntcp2_blocks.drain_blocks_iff [of "NewNTCP2Iterator plaintext" "Suc (length plaintext)"]
  by (auto simp: ValidateBlocks_def NewNTCP2Iterator_def)

end
