(* ===== verification/Field25519.thy ===== *)
theory Field25519
  imports ChaCha
begin

text \<open>
  Arithmetic modulo \<open>2 ^ 255 - 19\<close> on four 64-bit limbs (\<open>cryptography/field25519.go\<close>).

  Of \<open>math/bits\<close>: \<open>Mul64\<close> is the 128-bit product, \<open>Sub64\<close> a subtraction with borrow, and \<open>Add64\<close> an addition with carry. The
  documentation of \<open>Add64\<close> leaves its result open for a carry above one. That case is the parameter \<open>U\<close>, which the
  functions carry along and about which nothing is assumed. \<open>flag_carry\<close> is the case of the add-with-carry instructions of amd64
  and arm64, which take the carry as a flag.
\<close>

section \<open>Limbs\<close>

type_synonym field25519 = "u64 \<times> u64 \<times> u64 \<times> u64"
type_synonym carry_rule = "u64 \<Rightarrow> u64 \<Rightarrow> u64 \<Rightarrow> u64 \<times> u64"

definition Add64 :: "carry_rule \<Rightarrow> u64 \<Rightarrow> u64 \<Rightarrow> u64 \<Rightarrow> u64 \<times> u64" where
  "Add64 U x y carry =
     (if carry \<le> 1 then (x + y + carry, if 2 ^ 64 \<le> uint x + uint y + uint carry then 1 else 0) else U x y carry)"

definition flag_carry :: carry_rule where
  "flag_carry x y carry = (x + y + 1, if 2 ^ 64 \<le> uint x + uint y + 1 then 1 else 0)"

definition Sub64 :: "u64 \<Rightarrow> u64 \<Rightarrow> u64 \<Rightarrow> u64 \<times> u64" where
  "Sub64 x y borrow = (x - y - borrow, if uint x < uint y + uint borrow then 1 else 0)"

definition Mul64 :: "u64 \<Rightarrow> u64 \<Rightarrow> u64 \<times> u64" where
  "Mul64 x y = (word_of_int (uint x * uint y div 2 ^ 64), x * y)"

definition fieldTopMask :: u64 where "fieldTopMask = 0x7fffffffffffffff"
definition fieldP :: field25519 where "fieldP = (0xffffffffffffffed, 0xffffffffffffffff, 0xffffffffffffffff, fieldTopMask)"
definition fieldA :: field25519 where "fieldA = (486662, 0, 0, 0)"
definition fieldNegA :: field25519 where "fieldNegA = (0xfffffffffff892e7, 0xffffffffffffffff, 0xffffffffffffffff, fieldTopMask)"
definition fieldHalf :: field25519 where "fieldHalf = (0xfffffffffffffff6, 0xffffffffffffffff, 0xffffffffffffffff, 0x3fffffffffffffff)"
definition fieldOne :: field25519 where "fieldOne = (1, 0, 0, 0)"
definition fieldTwo :: field25519 where "fieldTwo = (2, 0, 0, 0)"
definition fieldSqrtM1 :: field25519 where
  "fieldSqrtM1 = (0xc4ee1b274a0ea0b0, 0x2f431806ad2fe478, 0x2b4d00993dfbd7a7, 0x2b8324804fc1df0b)"

text \<open>Eight bytes as a little-endian word, and back.\<close>

definition load_word :: "bytes \<Rightarrow> nat \<Rightarrow> u64" where
  "load_word b i = ucast (b ! i) OR push_bit 8 (ucast (b ! (i + 1))) OR push_bit 16 (ucast (b ! (i + 2))) OR push_bit 24 (ucast (b ! (i + 3)))
     OR push_bit 32 (ucast (b ! (i + 4))) OR push_bit 40 (ucast (b ! (i + 5))) OR push_bit 48 (ucast (b ! (i + 6))) OR push_bit 56 (ucast (b ! (i + 7)))"

definition store_word :: "u64 \<Rightarrow> bytes" where
  "store_word w = [ucast w, ucast (drop_bit 8 w), ucast (drop_bit 16 w), ucast (drop_bit 24 w),
     ucast (drop_bit 32 w), ucast (drop_bit 40 w), ucast (drop_bit 48 w), ucast (drop_bit 56 w)]"

text \<open>\<open>fieldLoad\<close> and \<open>store\<close> on 32 bytes; the code only calls them on arrays of that length.\<close>

definition fieldLoad :: "bytes \<Rightarrow> field25519" where
  "fieldLoad b = (load_word b 0, load_word b 8, load_word b 16, load_word b 24)"

fun field_store :: "field25519 \<Rightarrow> bytes" where
  "field_store (z0, z1, z2, z3) = store_word z0 @ store_word z1 @ store_word z2 @ store_word z3"

definition fieldNonzeroMask :: "u64 \<Rightarrow> u64" where "fieldNonzeroMask x = 0 - drop_bit 63 (x OR (0 - x))"
definition fieldZeroMask :: "u64 \<Rightarrow> u64" where "fieldZeroMask x = NOT (fieldNonzeroMask x)"

fun equalMask :: "field25519 \<Rightarrow> field25519 \<Rightarrow> u64" where
  "equalMask (z0, z1, z2, z3) (x0, x1, x2, x3) = fieldZeroMask ((z0 XOR x0) OR (z1 XOR x1) OR (z2 XOR x2) OR (z3 XOR x3))"

fun zeroMask :: "field25519 \<Rightarrow> u64" where "zeroMask (z0, z1, z2, z3) = fieldZeroMask (z0 OR z1 OR z2 OR z3)"

fun lessMask :: "field25519 \<Rightarrow> field25519 \<Rightarrow> u64" where
  "lessMask (z0, z1, z2, z3) (x0, x1, x2, x3) =
     (let (_, borrow) = Sub64 z0 x0 0; (_, borrow) = Sub64 z1 x1 borrow; (_, borrow) = Sub64 z2 x2 borrow; (_, borrow) = Sub64 z3 x3 borrow
      in 0 - borrow)"

definition lessOrEqualMask :: "field25519 \<Rightarrow> field25519 \<Rightarrow> u64" where
  "lessOrEqualMask z x = lessMask z x OR equalMask z x"

fun fieldSelect :: "field25519 \<Rightarrow> field25519 \<Rightarrow> u64 \<Rightarrow> field25519" where
  "fieldSelect (a0, a1, a2, a3) (b0, b1, b2, b3) m =
     ((a0 AND m) OR (b0 AND NOT m), (a1 AND m) OR (b1 AND NOT m), (a2 AND m) OR (b2 AND NOT m), (a3 AND m) OR (b3 AND NOT m))"

fun field_canonical :: "field25519 \<Rightarrow> field25519" where
  "field_canonical (z0, z1, z2, z3) =
     (let (p0, p1, p2, p3) = fieldP;
          (d0, borrow) = Sub64 z0 p0 0; (d1, borrow) = Sub64 z1 p1 borrow; (d2, borrow) = Sub64 z2 p2 borrow; (d3, borrow) = Sub64 z3 p3 borrow
      in fieldSelect (d0, d1, d2, d3) (z0, z1, z2, z3) (NOT (0 - borrow)))"

section \<open>Arithmetic\<close>

fun fieldFold :: "carry_rule \<Rightarrow> field25519 \<Rightarrow> u64 \<Rightarrow> field25519" where
  "fieldFold U (z0, z1, z2, z3) carry =
     (let high = drop_bit 63 z3 + push_bit 1 carry;
          z3 = z3 AND fieldTopMask;
          (z0, c) = Add64 U z0 (19 * high) 0; (z1, c) = Add64 U z1 0 c; (z2, c) = Add64 U z2 0 c; (z3, _) = Add64 U z3 0 c
      in field_canonical (z0, z1, z2, z3))"

fun field_add :: "carry_rule \<Rightarrow> field25519 \<Rightarrow> field25519 \<Rightarrow> field25519" where
  "field_add U (z0, z1, z2, z3) (x0, x1, x2, x3) =
     (let (z0, carry) = Add64 U z0 x0 0; (z1, carry) = Add64 U z1 x1 carry; (z2, carry) = Add64 U z2 x2 carry; (z3, carry) = Add64 U z3 x3 carry
      in fieldFold U (z0, z1, z2, z3) carry)"

fun field_sub :: "carry_rule \<Rightarrow> field25519 \<Rightarrow> field25519 \<Rightarrow> field25519" where
  "field_sub U (z0, z1, z2, z3) (x0, x1, x2, x3) =
     (let (z0, borrow) = Sub64 z0 x0 0; (z1, borrow) = Sub64 z1 x1 borrow; (z2, borrow) = Sub64 z2 x2 borrow; (z3, borrow) = Sub64 z3 x3 borrow;
          m = 0 - borrow;
          (p0, p1, p2, p3) = fieldP;
          (z0, carry) = Add64 U z0 (p0 AND m) 0; (z1, carry) = Add64 U z1 (p1 AND m) carry; (z2, carry) = Add64 U z2 (p2 AND m) carry;
          (z3, _) = Add64 U z3 (p3 AND m) carry
      in (z0, z1, z2, z3))"

definition field_neg :: "carry_rule \<Rightarrow> field25519 \<Rightarrow> field25519" where
  "field_neg U z = (let minus = field_sub U fieldP z in fieldSelect (0, 0, 0, 0) minus (zeroMask z))"

type_synonym wide = "u64 \<times> u64 \<times> u64 \<times> u64 \<times> u64 \<times> u64 \<times> u64 \<times> u64"

fun fieldReduce512 :: "carry_rule \<Rightarrow> wide \<Rightarrow> field25519" where
  "fieldReduce512 U (t0, t1, t2, t3, t4, t5, t6, t7) =
     (let (hi0, lo0) = Mul64 t4 38; (r0, c) = Add64 U t0 lo0 0;
          (hi1, lo1) = Mul64 t5 38; (lo1, c1) = Add64 U lo1 hi0 0; (r1, c) = Add64 U t1 lo1 c; c = c + c1;
          (hi2, lo2) = Mul64 t6 38; (lo2, c2) = Add64 U lo2 hi1 0; (r2, c) = Add64 U t2 lo2 c; c = c + c2;
          (hi3, lo3) = Mul64 t7 38; (lo3, c3) = Add64 U lo3 hi2 0; (r3, c) = Add64 U t3 lo3 c;
          carry = hi3 + c3 + c
      in fieldFold U (r0, r1, r2, r3) carry)"

text \<open>One row of the product, and a row added to the partial result, as \<open>mul\<close> has them four and three times.\<close>

fun mul_row :: "carry_rule \<Rightarrow> u64 \<Rightarrow> field25519 \<Rightarrow> u64 \<times> u64 \<times> u64 \<times> u64 \<times> u64" where
  "mul_row U z (x0, x1, x2, x3) =
     (let (hi0, lo0) = Mul64 z x0;
          (hi1, lo1) = Mul64 z x1; (p1, c) = Add64 U lo1 hi0 0;
          (hi2, lo2) = Mul64 z x2; (p2, c) = Add64 U lo2 hi1 c;
          (hi3, lo3) = Mul64 z x3; (p3, c) = Add64 U lo3 hi2 c;
          p4 = hi3 + c
      in (lo0, p1, p2, p3, p4))"

fun add_row :: "carry_rule \<Rightarrow> field25519 \<Rightarrow> u64 \<times> u64 \<times> u64 \<times> u64 \<times> u64 \<Rightarrow> u64 \<times> u64 \<times> u64 \<times> u64 \<times> u64" where
  "add_row U (t0, t1, t2, t3) (p0, p1, p2, p3, p4) =
     (let (t0, c) = Add64 U t0 p0 0; (t1, c) = Add64 U t1 p1 c; (t2, c) = Add64 U t2 p2 c; (t3, c) = Add64 U t3 p3 c; t4 = p4 + c
      in (t0, t1, t2, t3, t4))"

text \<open>\<open>mul\<close> and \<open>square\<close> hand the eight limbs of the product to \<open>fieldReduce512\<close>.\<close>

fun mul_wide :: "carry_rule \<Rightarrow> field25519 \<Rightarrow> field25519 \<Rightarrow> wide" where
  "mul_wide U (z0, z1, z2, z3) x =
     (let (t0, t1, t2, t3, t4) = mul_row U z0 x;
          (t1, t2, t3, t4, t5) = add_row U (t1, t2, t3, t4) (mul_row U z1 x);
          (t2, t3, t4, t5, t6) = add_row U (t2, t3, t4, t5) (mul_row U z2 x);
          (t3, t4, t5, t6, t7) = add_row U (t3, t4, t5, t6) (mul_row U z3 x)
      in (t0, t1, t2, t3, t4, t5, t6, t7))"

definition field_mul :: "carry_rule \<Rightarrow> field25519 \<Rightarrow> field25519 \<Rightarrow> field25519" where
  "field_mul U z x = fieldReduce512 U (mul_wide U z x)"

text \<open>The square: the products of different limbs, their double, and the squares of the limbs.\<close>

fun cross_terms :: "carry_rule \<Rightarrow> field25519 \<Rightarrow> u64 \<times> u64 \<times> u64 \<times> u64 \<times> u64 \<times> u64" where
  "cross_terms U (z0, z1, z2, z3) =
     (let (hi1, t1) = Mul64 z0 z1;
          (hi2, lo2) = Mul64 z0 z2; (t2, c) = Add64 U lo2 hi1 0;
          (hi3, lo3) = Mul64 z0 z3; (t3, c) = Add64 U lo3 hi2 c;
          t4 = hi3 + c;
          (hi3, lo3) = Mul64 z1 z2;
          (hi4, lo4) = Mul64 z1 z3; (p4, c) = Add64 U lo4 hi3 0;
          p5 = hi4 + c;
          (t3, c) = Add64 U t3 lo3 0; (t4, c) = Add64 U t4 p4 c;
          t5 = p5 + c;
          (hi5, lo5) = Mul64 z2 z3; (t5, c) = Add64 U t5 lo5 0;
          t6 = hi5 + c
      in (t1, t2, t3, t4, t5, t6))"

fun double_terms :: "u64 \<times> u64 \<times> u64 \<times> u64 \<times> u64 \<times> u64 \<Rightarrow> u64 \<times> u64 \<times> u64 \<times> u64 \<times> u64 \<times> u64 \<times> u64" where
  "double_terms (t1, t2, t3, t4, t5, t6) =
     (let t7 = drop_bit 63 t6;
          t6 = push_bit 1 t6 OR drop_bit 63 t5; t5 = push_bit 1 t5 OR drop_bit 63 t4; t4 = push_bit 1 t4 OR drop_bit 63 t3;
          t3 = push_bit 1 t3 OR drop_bit 63 t2; t2 = push_bit 1 t2 OR drop_bit 63 t1; t1 = push_bit 1 t1
      in (t1, t2, t3, t4, t5, t6, t7))"

fun square_wide :: "carry_rule \<Rightarrow> field25519 \<Rightarrow> wide" where
  "square_wide U (z0, z1, z2, z3) =
     (let (t1, t2, t3, t4, t5, t6, t7) = double_terms (cross_terms U (z0, z1, z2, z3));
          (d1, t0) = Mul64 z0 z0; (d3, d2) = Mul64 z1 z1; (d5, d4) = Mul64 z2 z2; (d7, d6) = Mul64 z3 z3;
          (t1, c) = Add64 U t1 d1 0; (t2, c) = Add64 U t2 d2 c; (t3, c) = Add64 U t3 d3 c; (t4, c) = Add64 U t4 d4 c;
          (t5, c) = Add64 U t5 d5 c; (t6, c) = Add64 U t6 d6 c; (t7, _) = Add64 U t7 d7 c
      in (t0, t1, t2, t3, t4, t5, t6, t7))"

definition field_square :: "carry_rule \<Rightarrow> field25519 \<Rightarrow> field25519" where
  "field_square U z = fieldReduce512 U (square_wide U z)"

fun field_mulA24 :: "carry_rule \<Rightarrow> field25519 \<Rightarrow> field25519" where
  "field_mulA24 U (z0, z1, z2, z3) =
     (let a24 = 121665;
          (hi0, r0) = Mul64 z0 a24;
          (hi1, lo1) = Mul64 z1 a24; (r1, c) = Add64 U lo1 hi0 0;
          (hi2, lo2) = Mul64 z2 a24; (r2, c) = Add64 U lo2 hi1 c;
          (hi3, lo3) = Mul64 z3 a24; (r3, c) = Add64 U lo3 hi2 c
      in fieldFold U (r0, r1, r2, r3) (hi3 + c))"

fun field_squareN :: "carry_rule \<Rightarrow> nat \<Rightarrow> field25519 \<Rightarrow> field25519" where
  "field_squareN U 0 z = z"
| "field_squareN U (Suc n) z = field_squareN U n (field_square U z)"

text \<open>\<open>pow250\<close> answers its result and the value it stores through its pointer.\<close>

definition field_pow250 :: "carry_rule \<Rightarrow> field25519 \<Rightarrow> field25519 \<times> field25519" where
  "field_pow250 U z =
     (let z2 = field_square U z;
          z9 = field_mul U (field_squareN U 2 z2) z;
          z11 = field_mul U z9 z2;
          z2_5_0 = field_mul U (field_square U z11) z9;
          z2_10_0 = field_mul U (field_squareN U 5 z2_5_0) z2_5_0;
          z2_20_0 = field_mul U (field_squareN U 10 z2_10_0) z2_10_0;
          z2_40_0 = field_mul U (field_squareN U 20 z2_20_0) z2_20_0;
          z2_50_0 = field_mul U (field_squareN U 10 z2_40_0) z2_10_0;
          z2_100_0 = field_mul U (field_squareN U 50 z2_50_0) z2_50_0;
          z2_200_0 = field_mul U (field_squareN U 100 z2_100_0) z2_100_0
      in (field_mul U (field_squareN U 50 z2_200_0) z2_50_0, z11))"

definition field_invert :: "carry_rule \<Rightarrow> field25519 \<Rightarrow> field25519" where
  "field_invert U z = (let (r, z11) = field_pow250 U z in field_mul U (field_squareN U 5 r) z11)"

definition field_pow22523 :: "carry_rule \<Rightarrow> field25519 \<Rightarrow> field25519" where
  "field_pow22523 U z = (let (r, z11) = field_pow250 U z in field_mul U (field_squareN U 2 r) z)"

definition fieldSqrtRatio :: "carry_rule \<Rightarrow> field25519 \<Rightarrow> field25519 \<Rightarrow> field25519 \<times> u64" where
  "fieldSqrtRatio U u v =
     (let v2 = field_square U v;
          uv3 = field_mul U (field_mul U u v2) v;
          uv7 = field_mul U (field_mul U uv3 v2) v2;
          r = field_mul U uv3 (field_pow22523 U uv7);
          check = field_mul U v (field_square U r);
          isU = equalMask check u;
          isNegU = equalMask check (field_neg U u);
          r = fieldSelect (field_mul U r fieldSqrtM1) r isNegU;
          r = fieldSelect (field_neg U r) r (lessOrEqualMask r fieldHalf XOR 0xffffffffffffffff)
      in (r, isU OR isNegU))"

definition fieldIsSquareNonzero :: "carry_rule \<Rightarrow> field25519 \<Rightarrow> u64" where
  "fieldIsSquareNonzero U z = (let (_, square) = fieldSqrtRatio U z fieldOne in square AND NOT (zeroMask z))"

end
