(* ===== verification/Field25519_Correct.thy ===== *)
theory Field25519_Correct
  imports Field25519
begin

text \<open>
  The field operations compute modulo \<open>2 ^ 255 - 19\<close>: every addition with carry satisfies a linear equation between the values of the
  words, and the equations of an operation add up to its result.
\<close>

abbreviation w64 :: int where "w64 \<equiv> 18446744073709551616"
abbreviation w256 :: int where "w256 \<equiv> 115792089237316195423570985008687907853269984665640564039457584007913129639936"

definition p25519 :: int where "p25519 = 2 ^ 255 - 19"

lemma p25519_val: "p25519 = 57896044618658097711785492504343953926634992332820282019728792003956564819949"
  by (simp add: p25519_def)

fun fval :: "field25519 \<Rightarrow> int" where
  "fval (a, b, c, d) = uint a + w64 * uint b + w64 ^ 2 * uint c + w64 ^ 3 * uint d"

section \<open>Words with carry\<close>

lemma uint64_bounds [simp]: "0 \<le> uint (w :: u64)" "uint (w :: u64) < w64"
  using uint_bounded [of w] by simp_all

lemma uint64_le: "uint (w :: u64) \<le> 18446744073709551615"
  using uint64_bounds(2) [of w] by linarith

lemma wrap_once: "0 \<le> s \<Longrightarrow> s < 2 * m \<Longrightarrow> s mod m + m * (if m \<le> s then 1 else 0) = (s :: int)"
proof -
  assume s: "0 \<le> s" "s < 2 * m"
  have "s mod m = s - m" if "m \<le> s"
    using that s minus_mod_self2 [of s m] mod_pos_pos_trivial [of "s - m" m] by simp
  then show ?thesis using s by auto
qed

lemma uint_sum3: "uint (x + y + c :: u64) = (uint x + uint y + uint c) mod w64"
  by (simp add: uint_word_ariths mod_simps)

lemma word_le_1: "(c :: u64) \<le> 1 \<longleftrightarrow> uint c \<le> 1"
  by (simp add: word_le_def)

lemma uint_high:
  assumes "0 \<le> v" "v < w64 * w64"
  shows "uint (word_of_int (v div w64) :: u64) = v div w64"
proof -
  have "w64 * (v div w64) + v mod w64 = v" "0 \<le> v mod w64" by simp_all
  then have "v div w64 < w64" using assms(2) by linarith
  moreover have "0 \<le> v div w64" using assms(1) by simp
  ultimately show ?thesis by (simp add: uint_word_of_int_eq take_bit_int_eq_self)
qed

lemma Add64_eq:
  assumes "Add64 U x y c = (s, k)" "c \<le> 1"
  shows "uint s + w64 * uint k = uint x + uint y + uint c"
proof -
  have "uint x + uint y + uint c < 2 * w64" using assms(2) uint64_le [of x] uint64_le [of y] by (simp add: word_le_1)
  then show ?thesis using assms wrap_once [of "uint x + uint y + uint c" w64] by (auto simp: Add64_def uint_sum3 split: if_splits)
qed

lemma Add64_carry: "Add64 U x y c = (s, k) \<Longrightarrow> c \<le> 1 \<Longrightarrow> k \<le> 1"
  by (auto simp: Add64_def split: if_splits)

lemma Sub64_eq:
  assumes "Sub64 x y b = (d, k)" "b \<le> 1"
  shows "uint d - w64 * uint k = uint x - uint y - uint b \<and> k \<le> 1"
proof -
  let ?s = "uint x - uint y - uint b"
  have "uint (x - y - b) = (?s + w64) mod w64" by (simp add: uint_word_ariths mod_simps)
  moreover have "0 \<le> ?s + w64" "?s + w64 < 2 * w64" using uint64_le [of y] uint64_le [of x] uint64_bounds(1) [of x] uint64_bounds(1) [of y] uint64_bounds(1) [of b] assms(2)
    unfolding word_le_1 by linarith+
  ultimately show ?thesis using assms(1) wrap_once [of "?s + w64" w64] by (auto simp: Sub64_def split: if_splits)
qed

lemma Mul64_eq:
  assumes "Mul64 x y = (hi, lo)"
  shows "w64 * uint hi + uint lo = uint x * uint y"
proof -
  have "uint x * uint y < w64 * w64" by (intro mult_strict_mono) simp_all
  then have "uint (word_of_int (uint x * uint y div w64) :: u64) = uint x * uint y div w64" by (intro uint_high) simp_all
  then show ?thesis using assms by (auto simp: Mul64_def uint_word_ariths)
qed

section \<open>Chains of four words\<close>

lemma fval_bounds [simp]: "0 \<le> fval z" "fval z < w256"
proof -
  obtain a b c d where z: "z = (a, b, c, d)" by (cases z)
  show "0 \<le> fval z" unfolding z by simp
  show "fval z < w256" unfolding z using uint64_le [of a] uint64_le [of b] uint64_le [of c] uint64_le [of d] by simp
qed

lemma add_chain:
  assumes "Add64 U z0 x0 c = (s0, c0)" "Add64 U z1 x1 c0 = (s1, c1)" "Add64 U z2 x2 c1 = (s2, c2)" "Add64 U z3 x3 c2 = (s3, c3)" "c \<le> 1"
  shows "fval (s0, s1, s2, s3) + w256 * uint c3 = fval (z0, z1, z2, z3) + fval (x0, x1, x2, x3) + uint c" "c3 \<le> 1"
proof -
  have k: "c0 \<le> 1" "c1 \<le> 1" "c2 \<le> 1" "c3 \<le> 1" using assms Add64_carry by blast+
  then show "c3 \<le> 1" by blast
  show "fval (s0, s1, s2, s3) + w256 * uint c3 = fval (z0, z1, z2, z3) + fval (x0, x1, x2, x3) + uint c"
    using Add64_eq [OF assms(1)] Add64_eq [OF assms(2)] Add64_eq [OF assms(3)] Add64_eq [OF assms(4)] assms(5) k by simp
qed

lemma sub_chain:
  assumes "Sub64 z0 x0 0 = (d0, b0)" "Sub64 z1 x1 b0 = (d1, b1)" "Sub64 z2 x2 b1 = (d2, b2)" "Sub64 z3 x3 b2 = (d3, b3)"
  shows "fval (d0, d1, d2, d3) - w256 * uint b3 = fval (z0, z1, z2, z3) - fval (x0, x1, x2, x3)"
    "b3 = (if fval (z0, z1, z2, z3) < fval (x0, x1, x2, x3) then 1 else 0)"
proof -
  note e = Sub64_eq [OF assms(1)]
  note f = Sub64_eq [OF assms(2)]
  note g = Sub64_eq [OF assms(3)]
  note h = Sub64_eq [OF assms(4)]
  have k: "b0 \<le> 1" "b1 \<le> 1" "b2 \<le> 1" "b3 \<le> 1" using e f g h by simp_all
  show eq: "fval (d0, d1, d2, d3) - w256 * uint b3 = fval (z0, z1, z2, z3) - fval (x0, x1, x2, x3)"
    using e f g h k by simp
  have "uint b3 = 0 \<or> uint b3 = 1" using k(4) unfolding word_le_1 using uint64_bounds(1) [of b3] by linarith
  then consider "b3 = 0" | "b3 = 1" by (metis word_uint_eqI uint_0_eq uint_1_eq)
  then show "b3 = (if fval (z0, z1, z2, z3) < fval (x0, x1, x2, x3) then 1 else 0)"
  proof cases
    case 1
    then show ?thesis using eq fval_bounds(1) [of "(d0, d1, d2, d3)"] by simp
  next
    case 2
    then show ?thesis using eq fval_bounds(2) [of "(d0, d1, d2, d3)"] by simp
  qed
qed

section \<open>Masks\<close>

lemma fieldSelect_masks [simp]: "fieldSelect a b (- 1) = a" "fieldSelect a b 0 = b"
  by (cases a; cases b; simp)+

lemma lessMask_eq: "lessMask z x = (if fval z < fval x then - 1 else 0)"
proof -
  obtain z0 z1 z2 z3 x0 x1 x2 x3 where zx: "z = (z0, z1, z2, z3)" "x = (x0, x1, x2, x3)" by (cases z; cases x)
  obtain d0 b0 d1 b1 d2 b2 d3 b3 where s: "Sub64 z0 x0 0 = (d0, b0)" "Sub64 z1 x1 b0 = (d1, b1)" "Sub64 z2 x2 b1 = (d2, b2)" "Sub64 z3 x3 b2 = (d3, b3)"
    by (metis surj_pair)
  show ?thesis unfolding zx using sub_chain(2) [OF s] by (simp add: s)
qed

lemma top_bit: "drop_bit 63 (w :: u64) = (if 9223372036854775808 \<le> uint w then 1 else 0)"
proof -
  let ?q = "uint w div 9223372036854775808"
  have q: "uint (drop_bit 63 w) = ?q" by (simp add: drop_bit_eq_div uint_div)
  have "9223372036854775808 * ?q + uint w mod 9223372036854775808 = uint w" "0 \<le> uint w mod 9223372036854775808" "uint w mod 9223372036854775808 < 9223372036854775808" by simp_all
  then have "?q = (if 9223372036854775808 \<le> uint w then 1 else 0)" using uint64_le [of w] uint64_bounds(1) [of w] by (split if_split) linarith
  then show ?thesis using q by (simp add: word_uint_eq_iff)
qed

lemma zero_mask_word: "fieldZeroMask x = (if x = 0 then - 1 else 0)"
proof (cases "x = 0")
  case False
  have "uint (- x) = w64 - uint x"
    using False uint64_bounds [of x] by (simp add: uint_word_ariths zmod_zminus1_eq_if uint_0_iff)
  then have "9223372036854775808 \<le> uint x \<or> 9223372036854775808 \<le> uint (- x)" by linarith
  then have "drop_bit 63 (x OR - x) = 1" unfolding drop_bit_or top_bit by auto
  then show ?thesis using False by (simp add: fieldZeroMask_def fieldNonzeroMask_def)
qed (simp add: fieldZeroMask_def fieldNonzeroMask_def)

lemma digit_eq: "uint (a :: u64) + w64 * r = uint (b :: u64) + w64 * q \<longleftrightarrow> a = b \<and> r = q"
proof
  assume e: "uint a + w64 * r = uint b + w64 * q"
  have "r = q" using e uint64_bounds [of a] uint64_bounds [of b] by linarith
  then show "a = b \<and> r = q" using e by (simp add: word_uint_eq_iff)
qed simp

lemma fval_inj: "fval z = fval x \<longleftrightarrow> z = x"
proof -
  obtain z0 z1 z2 z3 x0 x1 x2 x3 where zx: "z = (z0, z1, z2, z3)" "x = (x0, x1, x2, x3)" by (cases z; cases x)
  have "fval (a, b, c, d) = uint a + w64 * (uint b + w64 * (uint c + w64 * uint d))" for a b c d by simp
  then show ?thesis unfolding zx by (simp only: digit_eq prod.inject word_uint_eq_iff [of z3 x3])
qed

lemma equalMask_eq: "equalMask z x = (if z = x then - 1 else 0)"
proof -
  obtain z0 z1 z2 z3 x0 x1 x2 x3 where zx: "z = (z0, z1, z2, z3)" "x = (x0, x1, x2, x3)" by (cases z; cases x)
  have "a = b" if "a XOR b = 0" for a b :: u64
  proof -
    have "a XOR (a XOR b) = b" by (simp add: xor.assoc [symmetric])
    then show ?thesis using that by simp
  qed
  then show ?thesis unfolding zx by (auto simp: zero_mask_word or_eq_0_iff)
qed

lemma zeroMask_eq: "zeroMask z = (if fval z = 0 then - 1 else 0)"
proof -
  obtain z0 z1 z2 z3 where z: "z = (z0, z1, z2, z3)" by (cases z)
  have "fval z = 0 \<longleftrightarrow> z = (0, 0, 0, 0)" using fval_inj [of z "(0, 0, 0, 0)"] by simp
  then show ?thesis unfolding z by (simp add: zero_mask_word or_eq_0_iff)
qed

lemma lessOrEqualMask_eq: "lessOrEqualMask z x = (if fval z \<le> fval x then - 1 else 0)"
  by (auto simp: lessOrEqualMask_def lessMask_eq equalMask_eq fval_inj [symmetric])

section \<open>Reduction, addition and subtraction\<close>

lemma fval_P: "fval fieldP = p25519"
  by (simp add: fieldP_def fieldTopMask_def p25519_val)

lemma canonical_eq: "fval (field_canonical z) = (if fval z < p25519 then fval z else fval z - p25519)"
proof -
  obtain z0 z1 z2 z3 p0 p1 p2 p3 where zp: "z = (z0, z1, z2, z3)" "fieldP = (p0, p1, p2, p3)" by (cases z; cases fieldP)
  obtain d0 b0 d1 b1 d2 b2 d3 b3 where s: "Sub64 z0 p0 0 = (d0, b0)" "Sub64 z1 p1 b0 = (d1, b1)" "Sub64 z2 p2 b1 = (d2, b2)" "Sub64 z3 p3 b2 = (d3, b3)"
    by (metis surj_pair)
  have c: "field_canonical z = fieldSelect (d0, d1, d2, d3) z (NOT (0 - b3))" by (simp add: zp s del: fieldSelect.simps)
  have b: "b3 = (if fval z < p25519 then 1 else 0)" using sub_chain(2) [OF s] zp fval_P by simp
  show ?thesis
  proof (cases "fval z < p25519")
    case True
    then show ?thesis using c b by simp
  next
    case False
    then have "b3 = 0" using b by simp
    then show ?thesis using c sub_chain(1) [OF s] False zp fval_P by (simp del: fval.simps)
  qed
qed

lemma p25519_pos [simp]: "0 < p25519"
  by (simp add: p25519_val)

lemma canonical_mod: "fval z < 2 * p25519 \<Longrightarrow> fval (field_canonical z) = fval z mod p25519"
  using wrap_once [of "fval z" p25519] by (auto simp: canonical_eq)

lemma low_bits: "uint (z AND fieldTopMask) + 9223372036854775808 * uint (drop_bit 63 z) = uint z"
proof -
  have m: "fieldTopMask = mask 63" by (simp add: fieldTopMask_def mask_eq_exp_minus_1)
  have "z AND fieldTopMask = take_bit 63 z" unfolding m by (rule take_bit_eq_mask [symmetric])
  then have "uint (z AND fieldTopMask) = uint z mod 9223372036854775808" by (simp add: take_bit_eq_mod uint_mod)
  moreover have "uint (drop_bit 63 z) = uint z div 9223372036854775808" by (simp add: drop_bit_eq_div uint_div)
  ultimately show ?thesis by simp
qed

lemma fold_eq:
  assumes "uint carry < 4294967296"
  shows "fval (fieldFold U z carry) = (fval z + w256 * uint carry) mod p25519"
proof -
  obtain z0 z1 z2 z3 where z: "z = (z0, z1, z2, z3)" by (cases z)
  define high m3 where "high = drop_bit 63 z3 + push_bit 1 carry" and "m3 = z3 AND fieldTopMask"
  obtain s0 c0 s1 c1 s2 c2 s3 c3 where s: "Add64 U z0 (19 * high) 0 = (s0, c0)" "Add64 U z1 0 c0 = (s1, c1)" "Add64 U z2 0 c1 = (s2, c2)" "Add64 U m3 0 c2 = (s3, c3)"
    by (metis surj_pair)
  have t: "uint (drop_bit 63 z3) \<le> 1" by (simp add: top_bit)
  have "uint (push_bit 1 carry) = 2 * uint carry" using assms by (simp add: push_bit_eq_mult uint_word_ariths)
  then have h: "uint high = uint (drop_bit 63 z3) + 2 * uint carry" using t assms by (simp add: high_def uint_word_ariths)
  then have n: "uint (19 * high) = 19 * uint high" using t assms by (simp add: uint_word_ariths)
  have low: "uint m3 + 9223372036854775808 * uint (drop_bit 63 z3) = uint z3" unfolding m3_def by (rule low_bits)
  have l: "uint z3 < 2 * 9223372036854775808" "0 \<le> uint m3" by simp_all
  have m: "uint m3 < 9223372036854775808"
  proof (cases "9223372036854775808 \<le> uint z3")
    case True
    then have "uint (drop_bit 63 z3) = 1" by (simp add: top_bit)
    then show ?thesis using low l by linarith
  next
    case False
    then have "uint (drop_bit 63 z3) = 0" by (simp add: top_bit)
    then show ?thesis using low False by linarith
  qed
  have sum: "fval (s0, s1, s2, s3) + w256 * uint c3 = uint z0 + w64 * uint z1 + w64 ^ 2 * uint z2 + w64 ^ 3 * uint m3 + 19 * uint high"
    using add_chain(1) [OF s] n by simp
  have bound: "uint z0 + w64 * uint z1 + w64 ^ 2 * uint z2 + w64 ^ 3 * uint m3 + 19 * uint high < 2 * p25519"
    using uint64_le [of z0] uint64_le [of z1] uint64_le [of z2] m h t assms unfolding p25519_val by simp
  have "uint c3 = 0"
  proof (rule ccontr)
    assume "uint c3 \<noteq> 0"
    then have "1 \<le> uint c3" using uint64_bounds(1) [of c3] by linarith
    moreover have "w256 * uint c3 < 2 * p25519" using sum bound fval_bounds(1) [of "(s0, s1, s2, s3)"] by linarith
    ultimately show False unfolding p25519_val by simp
  qed
  then have fs: "fval (s0, s1, s2, s3) = uint z0 + w64 * uint z1 + w64 ^ 2 * uint z2 + w64 ^ 3 * uint m3 + 19 * uint high" using sum by simp
  have "fieldFold U z carry = field_canonical (s0, s1, s2, s3)"
    by (simp only: z fieldFold.simps Let_def high_def [symmetric] m3_def [symmetric] s prod.case)
  then have "fval (fieldFold U z carry) = fval (s0, s1, s2, s3) mod p25519"
    using canonical_mod [of "(s0, s1, s2, s3)"] fs bound by (simp only:)
  moreover have "fval z + w256 * uint carry = fval (s0, s1, s2, s3) + p25519 * uint high"
    unfolding fs z using low h by (simp add: p25519_val)
  ultimately show ?thesis by (simp only: mod_mult_self2)
qed

lemma add_eq: "fval (field_add U z x) = (fval z + fval x) mod p25519"
proof -
  obtain z0 z1 z2 z3 x0 x1 x2 x3 where zx: "z = (z0, z1, z2, z3)" "x = (x0, x1, x2, x3)" by (cases z; cases x)
  obtain s0 c0 s1 c1 s2 c2 s3 c3 where s: "Add64 U z0 x0 0 = (s0, c0)" "Add64 U z1 x1 c0 = (s1, c1)" "Add64 U z2 x2 c1 = (s2, c2)" "Add64 U z3 x3 c2 = (s3, c3)"
    by (metis surj_pair)
  have "uint c3 < 4294967296" using add_chain(2) [OF s] by (simp add: word_le_1)
  then have "fval (field_add U z x) = (fval (s0, s1, s2, s3) + w256 * uint c3) mod p25519"
    using fold_eq [of c3 U "(s0, s1, s2, s3)"] by (simp add: zx s del: fieldFold.simps fval.simps)
  then show ?thesis using add_chain(1) [OF s] zx by (simp del: fval.simps)
qed

lemma sub_eq:
  assumes "fval x \<le> fval z + p25519"
  shows "fval (field_sub U z x) = (if fval z < fval x then fval z - fval x + p25519 else fval z - fval x)"
proof -
  obtain z0 z1 z2 z3 x0 x1 x2 x3 p0 p1 p2 p3 where zx: "z = (z0, z1, z2, z3)" "x = (x0, x1, x2, x3)" "fieldP = (p0, p1, p2, p3)" by (cases z; cases x; cases fieldP)
  obtain d0 b0 d1 b1 d2 b2 d3 b3 where d: "Sub64 z0 x0 0 = (d0, b0)" "Sub64 z1 x1 b0 = (d1, b1)" "Sub64 z2 x2 b1 = (d2, b2)" "Sub64 z3 x3 b2 = (d3, b3)"
    by (metis surj_pair)
  obtain s0 c0 s1 c1 s2 c2 s3 c3 where s: "Add64 U d0 (p0 AND (0 - b3)) 0 = (s0, c0)" "Add64 U d1 (p1 AND (0 - b3)) c0 = (s1, c1)"
      "Add64 U d2 (p2 AND (0 - b3)) c1 = (s2, c2)" "Add64 U d3 (p3 AND (0 - b3)) c2 = (s3, c3)"
    by (metis surj_pair)
  have r: "field_sub U z x = (s0, s1, s2, s3)" using s by (simp add: zx d)
  have b: "b3 = (if fval z < fval x then 1 else 0)" using sub_chain(2) [OF d] zx by simp
  have m: "fval (p0 AND (0 - b3), p1 AND (0 - b3), p2 AND (0 - b3), p3 AND (0 - b3)) = (if fval z < fval x then p25519 else 0)"
    using fval_P unfolding b zx(3) by simp
  define k where "k = uint c3 - uint b3"
  have e: "fval (s0, s1, s2, s3) + w256 * k = fval z - fval x + (if fval z < fval x then p25519 else 0)"
    using add_chain(1) [OF s] sub_chain(1) [OF d] m zx by (simp add: k_def algebra_simps del: fval.simps)
  note bounds = assms fval_bounds [of z] fval_bounds(1) [of x] p25519_val
  have "0 \<le> fval z - fval x + (if fval z < fval x then p25519 else 0)" using bounds by (split if_split) linarith
  moreover have "fval z - fval x + (if fval z < fval x then p25519 else 0) < w256" using bounds by (split if_split) linarith
  ultimately have "- 1 < k" "k < 1" using e fval_bounds [of "(s0, s1, s2, s3)"] by linarith+
  then have "k = 0" by simp
  then show ?thesis using e r by simp
qed

lemma neg_eq: "fval z \<le> p25519 \<Longrightarrow> fval (field_neg U z) = (if fval z = 0 then 0 else p25519 - fval z)"
  using sub_eq [of z fieldP U] p25519_pos by (simp add: field_neg_def zeroMask_eq fval_P del: p25519_pos)

section \<open>Products\<close>

fun row_val :: "u64 \<times> u64 \<times> u64 \<times> u64 \<times> u64 \<Rightarrow> int" where
  "row_val (p0, p1, p2, p3, p4) = fval (p0, p1, p2, p3) + w256 * uint p4"

lemma uint_plus_fit: "uint a + uint b < w64 \<Longrightarrow> uint (a + b :: u64) = uint a + uint b"
  by (simp add: uint_word_ariths)

lemma top_fit:
  assumes "0 \<le> low" "low + k * (uint a + uint b) < w64 * k" "0 < k"
  shows "uint (a + b :: u64) = uint a + uint b"
proof -
  have "k * (uint a + uint b) < k * w64" using assms(1,2) by linarith
  then show ?thesis using assms(3) by (intro uint_plus_fit) simp
qed

lemma mul_bound: "0 \<le> y \<Longrightarrow> y \<le> n \<Longrightarrow> uint (a :: u64) * y \<le> 18446744073709551615 * n"
  using uint64_le [of a] by (intro mult_mono) simp_all

lemma mul_row_eq: "row_val (mul_row U z x) = uint z * fval x"
proof -
  obtain x0 x1 x2 x3 where x: "x = (x0, x1, x2, x3)" by (cases x)
  obtain h0 l0 h1 l1 h2 l2 h3 l3 where m: "Mul64 z x0 = (h0, l0)" "Mul64 z x1 = (h1, l1)" "Mul64 z x2 = (h2, l2)" "Mul64 z x3 = (h3, l3)" by (metis surj_pair)
  obtain p1 c1 p2 c2 p3 c3 where a: "Add64 U l1 h0 0 = (p1, c1)" "Add64 U l2 h1 c1 = (p2, c2)" "Add64 U l3 h2 c2 = (p3, c3)" by (metis surj_pair)
  have r: "mul_row U z x = (l0, p1, p2, p3, h3 + c3)" by (simp add: x m a)
  have k: "c1 \<le> 1" "c2 \<le> 1" using Add64_carry a by force+
  have e: "fval (l0, p1, p2, p3) + w256 * (uint h3 + uint c3) = uint z * fval x"
    using Mul64_eq [OF m(1)] Mul64_eq [OF m(2)] Mul64_eq [OF m(3)] Mul64_eq [OF m(4)] Add64_eq [OF a(1)] Add64_eq [OF a(2)] Add64_eq [OF a(3)] k
    by (simp add: x algebra_simps)
  have "uint z * fval x \<le> 18446744073709551615 * (w256 - 1)" using fval_bounds [of x] by (intro mul_bound) linarith+
  then have "fval (l0, p1, p2, p3) + w256 * (uint h3 + uint c3) < w64 * w256" unfolding e by (rule order.strict_trans1) simp
  from top_fit [OF fval_bounds(1) this] have "uint (h3 + c3) = uint h3 + uint c3" by simp
  then show ?thesis using e r by (simp del: fval.simps)
qed

lemma add_row_eq:
  assumes "fval t + row_val p < w64 * w256"
  shows "row_val (add_row U t p) = fval t + row_val p"
proof -
  obtain t0 t1 t2 t3 p0 p1 p2 p3 p4 where tp: "t = (t0, t1, t2, t3)" "p = (p0, p1, p2, p3, p4)" by (cases t; cases p)
  obtain s0 c0 s1 c1 s2 c2 s3 c3 where s: "Add64 U t0 p0 0 = (s0, c0)" "Add64 U t1 p1 c0 = (s1, c1)" "Add64 U t2 p2 c1 = (s2, c2)" "Add64 U t3 p3 c2 = (s3, c3)"
    by (metis surj_pair)
  have r: "add_row U t p = (s0, s1, s2, s3, p4 + c3)" by (simp add: tp s)
  have e: "fval (s0, s1, s2, s3) + w256 * (uint p4 + uint c3) = fval t + row_val p"
    using add_chain(1) [OF s] by (simp add: tp algebra_simps del: fval.simps)
  from top_fit [OF fval_bounds(1) assms [folded this]] have "uint (p4 + c3) = uint p4 + uint c3" by simp
  then show ?thesis using e r by (simp del: fval.simps)
qed

fun wide_val :: "wide \<Rightarrow> int" where
  "wide_val (t0, t1, t2, t3, t4, t5, t6, t7) = fval (t0, t1, t2, t3) + w256 * fval (t4, t5, t6, t7)"

lemma shift_row: "row_val (t0, t1, t2, t3, t4) = uint t0 + w64 * fval (t1, t2, t3, t4)"
  by simp

lemma row_step:
  "row_val (add_row U t (mul_row U z x)) = fval t + uint z * fval x"
proof -
  have "uint z * fval x \<le> 18446744073709551615 * (w256 - 1)" using fval_bounds [of x] by (intro mul_bound) linarith+
  then have "fval t + uint z * fval x \<le> w256 - 1 + 18446744073709551615 * (w256 - 1)" using fval_bounds(2) [of t] by (intro add_mono) linarith+
  then have "fval t + row_val (mul_row U z x) < w64 * w256" unfolding mul_row_eq by (rule order.strict_trans1) simp
  then show ?thesis using add_row_eq mul_row_eq by simp
qed

lemma mul_wide_eq: "wide_val (mul_wide U z x) = fval z * fval x"
proof -
  obtain z0 z1 z2 z3 where z: "z = (z0, z1, z2, z3)" by (cases z)
  obtain a0 a1 a2 a3 a4 where a: "mul_row U z0 x = (a0, a1, a2, a3, a4)" by (metis surj_pair)
  obtain b1 b2 b3 b4 b5 where b: "add_row U (a1, a2, a3, a4) (mul_row U z1 x) = (b1, b2, b3, b4, b5)" by (metis surj_pair)
  obtain c2 c3 c4 c5 c6 where c: "add_row U (b2, b3, b4, b5) (mul_row U z2 x) = (c2, c3, c4, c5, c6)" by (metis surj_pair)
  obtain d3 d4 d5 d6 d7 where d: "add_row U (c3, c4, c5, c6) (mul_row U z3 x) = (d3, d4, d5, d6, d7)" by (metis surj_pair)
  have r: "mul_wide U z x = (a0, b1, c2, d3, d4, d5, d6, d7)" by (simp add: z a b c d del: add_row.simps mul_row.simps)
  have v: "row_val (a0, a1, a2, a3, a4) = uint z0 * fval x" "row_val (b1, b2, b3, b4, b5) = fval (a1, a2, a3, a4) + uint z1 * fval x"
    "row_val (c2, c3, c4, c5, c6) = fval (b2, b3, b4, b5) + uint z2 * fval x" "row_val (d3, d4, d5, d6, d7) = fval (c3, c4, c5, c6) + uint z3 * fval x"
    using mul_row_eq [of U z0 x] row_step [of U "(a1, a2, a3, a4)" z1 x] row_step [of U "(b2, b3, b4, b5)" z2 x] row_step [of U "(c3, c4, c5, c6)" z3 x]
    unfolding a b c d by simp_all
  define X where "X = fval x"
  have "wide_val (mul_wide U z x) = uint a0 + w64 * (uint b1 + w64 * (uint c2 + w64 * row_val (d3, d4, d5, d6, d7)))" by (simp add: r)
  also have "\<dots> = uint a0 + w64 * (uint b1 + w64 * (row_val (c2, c3, c4, c5, c6) + w64 * (uint z3 * X)))" unfolding v(4) unfolding shift_row X_def by (simp add: algebra_simps del: fval.simps row_val.simps)
  also have "\<dots> = uint a0 + w64 * (row_val (b1, b2, b3, b4, b5) + w64 * (uint z2 * X + w64 * (uint z3 * X)))" unfolding v(3) unfolding shift_row X_def by (simp add: algebra_simps del: fval.simps row_val.simps)
  also have "\<dots> = row_val (a0, a1, a2, a3, a4) + w64 * (uint z1 * X + w64 * (uint z2 * X + w64 * (uint z3 * X)))" unfolding v(2) unfolding shift_row X_def by (simp add: algebra_simps del: fval.simps row_val.simps)
  also have "\<dots> = fval z * X" unfolding v(1) z by (simp add: X_def [symmetric] algebra_simps)
  finally show ?thesis unfolding X_def .
qed

lemma wide_cases: obtains t0 t1 t2 t3 t4 t5 t6 t7 where "(t :: wide) = (t0, t1, t2, t3, t4, t5, t6, t7)"
  by (metis surj_pair)

lemma wide_val_inj: "wide_val t = wide_val s \<longleftrightarrow> t = s"
proof -
  obtain t0 t1 t2 t3 t4 t5 t6 t7 s0 s1 s2 s3 s4 s5 s6 s7 where ts: "t = (t0, t1, t2, t3, t4, t5, t6, t7)" "s = (s0, s1, s2, s3, s4, s5, s6, s7)"
    by (metis wide_cases)
  have "wide_val (a, b, c, d, e, f, g, h) = uint a + w64 * (uint b + w64 * (uint c + w64 * (uint d + w64 * (uint e + w64 * (uint f + w64 * (uint g + w64 * uint h))))))"
    for a b c d e f g h by simp
  then show ?thesis unfolding ts by (simp only: digit_eq prod.inject word_uint_eq_iff [of t7 s7])
qed

subsection \<open>Reduction of the double-width product\<close>

text \<open>The two carries that \<open>fieldReduce512\<close> adds up and passes on to \<open>Add64\<close>. The result of a reduction is determined by the documentation
  of \<open>Add64\<close> as long as neither of them is above one; then the rule \<open>U\<close> is never asked.\<close>

fun reduce_carries :: "carry_rule \<Rightarrow> wide \<Rightarrow> u64 \<times> u64" where
  "reduce_carries U (t0, t1, t2, t3, t4, t5, t6, t7) =
     (let (hi0, lo0) = Mul64 t4 38; (r0, c) = Add64 U t0 lo0 0;
          (hi1, lo1) = Mul64 t5 38; (lo1, c1) = Add64 U lo1 hi0 0; (r1, c) = Add64 U t1 lo1 c; k1 = c + c1;
          (hi2, lo2) = Mul64 t6 38; (lo2, c2) = Add64 U lo2 hi1 0; (r2, c) = Add64 U t2 lo2 k1
      in (k1, c + c2))"

definition carries_ok :: "carry_rule \<Rightarrow> wide \<Rightarrow> bool" where
  "carries_ok U t \<longleftrightarrow> fst (reduce_carries U t) \<le> 1 \<and> snd (reduce_carries U t) \<le> 1"

lemma reduce_eq:
  assumes "carries_ok U t"
  shows "fval (fieldReduce512 U t) = wide_val t mod p25519"
proof -
  obtain t0 t1 t2 t3 t4 t5 t6 t7 where t: "t = (t0, t1, t2, t3, t4, t5, t6, t7)" by (rule wide_cases)
  obtain h0 l0 h1 l1 h2 l2 h3 l3 where m: "Mul64 t4 38 = (h0, l0)" "Mul64 t5 38 = (h1, l1)" "Mul64 t6 38 = (h2, l2)" "Mul64 t7 38 = (h3, l3)" by (metis surj_pair)
  obtain m1 c1 m2 c2 m3 c3 where n: "Add64 U l1 h0 0 = (m1, c1)" "Add64 U l2 h1 0 = (m2, c2)" "Add64 U l3 h2 0 = (m3, c3)" by (metis surj_pair)
  obtain r0 d0 r1 d1 r2 d2 r3 d3 where r: "Add64 U t0 l0 0 = (r0, d0)" "Add64 U t1 m1 d0 = (r1, d1)" "Add64 U t2 m2 (d1 + c1) = (r2, d2)" "Add64 U t3 m3 (d2 + c2) = (r3, d3)"
    by (metis surj_pair)
  have k: "d0 \<le> 1" "d1 \<le> 1" "c1 \<le> 1" "c2 \<le> 1" "c3 \<le> 1" using Add64_carry r(1,2) n by force+
  have "reduce_carries U t = (d1 + c1, d2 + c2)" by (simp add: t m n r)
  then have ok: "d1 + c1 \<le> 1" "d2 + c2 \<le> 1" using assms by (auto simp: carries_ok_def)
  have s1: "uint (d1 + c1) = uint d1 + uint c1" using k by (intro uint_plus_fit) (simp add: word_le_1)
  have b2: "d2 \<le> 1" and b3: "d3 \<le> 1" using Add64_carry r(3,4) ok by blast+
  have s2: "uint (d2 + c2) = uint d2 + uint c2" using b2 k(4) by (intro uint_plus_fit) (simp add: word_le_1)
  have "w64 * uint h3 + uint l3 = uint t7 * 38" using Mul64_eq [OF m(4)] by simp
  then have h3: "uint h3 < 38" using uint64_bounds [of t7] uint64_bounds(1) [of l3] by linarith
  have s3: "uint (h3 + c3 + d3) = uint h3 + uint c3 + uint d3" using h3 b3 k(5) by (simp add: uint_plus_fit word_le_1 del: One_nat_def)
  have e: "fval (r0, r1, r2, r3) + w256 * uint (h3 + c3 + d3) = fval (t0, t1, t2, t3) + 38 * fval (t4, t5, t6, t7)"
    using Mul64_eq [OF m(1)] Mul64_eq [OF m(2)] Mul64_eq [OF m(3)] Mul64_eq [OF m(4)] Add64_eq [OF n(1)] Add64_eq [OF n(2)] Add64_eq [OF n(3)]
      Add64_eq [OF r(1)] Add64_eq [OF r(2)] Add64_eq [OF r(3) ok(1)] Add64_eq [OF r(4) ok(2)] k(1) s1 s2 s3 by simp
  have "fieldReduce512 U t = fieldFold U (r0, r1, r2, r3) (h3 + c3 + d3)" by (simp add: t m n r del: fieldFold.simps)
  moreover have "uint (h3 + c3 + d3) < 4294967296" using s3 h3 b3 k(5) by (simp add: word_le_1)
  ultimately have "fval (fieldReduce512 U t) = (fval (t0, t1, t2, t3) + 38 * fval (t4, t5, t6, t7)) mod p25519"
    using fold_eq [of "h3 + c3 + d3" U "(r0, r1, r2, r3)"] by (simp only: e)
  moreover have "wide_val t = fval (t0, t1, t2, t3) + 38 * fval (t4, t5, t6, t7) + p25519 * (2 * fval (t4, t5, t6, t7))"
    unfolding t wide_val.simps p25519_val by (simp del: fval.simps)
  ultimately show ?thesis by (simp only: mod_mult_self2)
qed

end
