(* ===== verification/Field25519_Power.thy ===== *)
theory Field25519_Power
  imports Field25519_Correct
begin

text \<open>
  Products, squares and powers: \<open>square\<close> computes the limbs of \<open>mul\<close>, and the addition chains of \<open>invert\<close> and \<open>pow22523\<close> are powers
  modulo \<open>2 ^ 255 - 19\<close>.
\<close>

declare fieldFold.simps [simp del] fieldReduce512.simps [simp del] mul_wide.simps [simp del] square_wide.simps [simp del]

section \<open>The square\<close>

fun wide6 :: "u64 \<times> u64 \<times> u64 \<times> u64 \<times> u64 \<times> u64 \<Rightarrow> int" where
  "wide6 (t1, t2, t3, t4, t5, t6) = fval (t1, t2, t3, t4) + w256 * (uint t5 + w64 * uint t6)"

lemma pair_bound: "uint (a :: u64) + w64 * uint (b :: u64) \<le> 340282366920938463463374607431768211455"
  using uint64_le [of a] uint64_le [of b] by linarith

lemma triple_bound: "uint (a :: u64) + w64 * uint (b :: u64) + w64 ^ 2 * uint (c :: u64) \<le> 6277101735386680763835789423207666416102355444464034512895"
  using uint64_le [of a] uint64_le [of b] uint64_le [of c] by simp

lemma cross_terms_eq:
  "wide6 (cross_terms U (z0, z1, z2, z3)) =
     uint z0 * (uint z1 + w64 * uint z2 + w64 ^ 2 * uint z3) + w64 ^ 2 * (uint z1 * (uint z2 + w64 * uint z3)) + w64 ^ 4 * (uint z2 * uint z3)"
proof -
  obtain h1 t1 h2 l2 h3 l3 k3 m3 h4 l4 h5 l5 where m: "Mul64 z0 z1 = (h1, t1)" "Mul64 z0 z2 = (h2, l2)" "Mul64 z0 z3 = (h3, l3)"
      "Mul64 z1 z2 = (k3, m3)" "Mul64 z1 z3 = (h4, l4)" "Mul64 z2 z3 = (h5, l5)" by (metis surj_pair)
  obtain t2 c2 t3 c3 p4 c4 s3 d3 where a: "Add64 U l2 h1 0 = (t2, c2)" "Add64 U l3 h2 c2 = (t3, c3)" "Add64 U l4 k3 0 = (p4, c4)" "Add64 U t3 m3 0 = (s3, d3)" by (metis surj_pair)
  obtain s4 d4 where a4: "Add64 U (h3 + c3) p4 d3 = (s4, d4)" by (metis surj_pair)
  obtain s5 d5 where a5: "Add64 U (h4 + c4 + d4) l5 0 = (s5, d5)" by (metis surj_pair)
  have r: "cross_terms U (z0, z1, z2, z3) = (t1, t2, s3, s4, s5, h5 + d5)" by (simp add: m a a4 a5)
  have k: "c2 \<le> 1" "d3 \<le> 1" using Add64_carry a(1,4) by force+
  note me = Mul64_eq [OF m(1)] Mul64_eq [OF m(2)] Mul64_eq [OF m(3)] Mul64_eq [OF m(4)] Mul64_eq [OF m(5)] Mul64_eq [OF m(6)]
  have ae: "uint t2 + w64 * uint c2 = uint l2 + uint h1" "uint t3 + w64 * uint c3 = uint l3 + uint h2 + uint c2" "uint p4 + w64 * uint c4 = uint l4 + uint k3"
    "uint s3 + w64 * uint d3 = uint t3 + uint m3" "uint s4 + w64 * uint d4 = uint (h3 + c3) + uint p4 + uint d3" "uint s5 + w64 * uint d5 = uint (h4 + c4 + d4) + uint l5"
    using Add64_eq [OF a(1)] Add64_eq [OF a(2)] Add64_eq [OF a(3)] Add64_eq [OF a(4)] Add64_eq [OF a4] Add64_eq [OF a5] k by simp_all
  have A: "uint t1 + w64 * uint t2 + w64 ^ 2 * uint t3 + w64 ^ 3 * (uint h3 + uint c3) = uint z0 * (uint z1 + w64 * uint z2 + w64 ^ 2 * uint z3)"
    using me(1,2,3) ae(1,2) by (simp add: algebra_simps)
  have "uint z0 * (uint z1 + w64 * uint z2 + w64 ^ 2 * uint z3) \<le> 18446744073709551615 * 6277101735386680763835789423207666416102355444464034512895"
    using triple_bound [of z1 z2 z3] by (intro mul_bound) simp_all
  then have "uint t1 + w64 * uint t2 + w64 ^ 2 * uint t3 + w64 ^ 3 * (uint h3 + uint c3) < w64 * w64 ^ 3" unfolding A by (rule order.strict_trans1) simp
  from top_fit [OF _ this] have f1: "uint (h3 + c3) = uint h3 + uint c3" by simp
  have B: "uint m3 + w64 * uint p4 + w64 ^ 2 * (uint h4 + uint c4) = uint z1 * (uint z2 + w64 * uint z3)"
    using me(4,5) ae(3) by (simp add: algebra_simps)
  have b: "uint z1 * (uint z2 + w64 * uint z3) \<le> 18446744073709551615 * 340282366920938463463374607431768211455"
    using pair_bound [of z2 z3] by (intro mul_bound) simp_all
  then have "uint m3 + w64 * uint p4 + w64 ^ 2 * (uint h4 + uint c4) < w64 * w64 ^ 2" unfolding B by (rule order.strict_trans1) simp
  from top_fit [OF _ this] have f2: "uint (h4 + c4) = uint h4 + uint c4" by simp
  have C: "uint s3 + w64 * uint s4 + w64 ^ 2 * (uint (h4 + c4) + uint d4) = uint t3 + w64 * uint (h3 + c3) + uint z1 * (uint z2 + w64 * uint z3)"
    using B ae(4,5) f2 by (simp add: algebra_simps)
  have "uint t3 + w64 * uint (h3 + c3) + uint z1 * (uint z2 + w64 * uint z3) \<le> 340282366920938463463374607431768211455 + 18446744073709551615 * 340282366920938463463374607431768211455"
    using pair_bound [of t3 "h3 + c3"] b by (rule add_mono)
  then have "uint s3 + w64 * uint s4 + w64 ^ 2 * (uint (h4 + c4) + uint d4) < w64 * w64 ^ 2" unfolding C by (rule order.strict_trans1) simp
  from top_fit [OF _ this] have f3: "uint (h4 + c4 + d4) = uint (h4 + c4) + uint d4" by simp
  have D: "uint s5 + w64 * (uint h5 + uint d5) = uint (h4 + c4 + d4) + uint z2 * uint z3" using me(6) ae(6) by (simp add: algebra_simps)
  have "uint (h4 + c4 + d4) + uint z2 * uint z3 \<le> 18446744073709551615 + 18446744073709551615 * 18446744073709551615"
    by (intro add_mono mul_bound uint64_le) simp
  then have "uint s5 + w64 * (uint h5 + uint d5) < w64 * w64" unfolding D by (rule order.strict_trans1) simp
  from top_fit [OF _ this] have f4: "uint (h5 + d5) = uint h5 + uint d5" by simp
  show ?thesis using A C D f1 f2 f3 f4 unfolding r by (simp add: algebra_simps)
qed

lemma double_word:
  "uint (push_bit 1 t OR drop_bit 63 s) + w64 * uint (drop_bit 63 t) = 2 * uint t + uint (drop_bit 63 (s :: u64))"
proof -
  have p: "uint (push_bit 1 t) + w64 * uint (drop_bit 63 t) = 2 * uint t"
    using wrap_once [of "2 * uint t" w64] uint64_bounds [of t] by (auto simp: top_bit push_bit_eq_mult uint_word_ariths mult.commute)
  then have "uint (push_bit 1 t) = 2 * (uint t - 9223372036854775808 * uint (drop_bit 63 t))" by simp
  then have "even (uint (push_bit 1 t))" by (metis dvd_triv_left)
  then have "uint (push_bit 1 t) \<noteq> 18446744073709551615" by auto
  then have "uint (push_bit 1 t) + 1 < w64" using uint64_bounds(2) [of "push_bit 1 t"] by linarith
  then have "uint (push_bit 1 t + 1) = uint (push_bit 1 t) + 1" using uint_plus_fit [of "push_bit 1 t" 1] by simp
  moreover have "push_bit 1 t OR 1 = push_bit 1 t + 1" by (simp add: or_one_eq push_bit_eq_mult)
  ultimately have "uint (push_bit 1 t OR drop_bit 63 s) = uint (push_bit 1 t) + uint (drop_bit 63 s)" unfolding top_bit [of s] by (simp del: push_bit_Suc)
  then show ?thesis using p by simp
qed

fun wide7 :: "u64 \<times> u64 \<times> u64 \<times> u64 \<times> u64 \<times> u64 \<times> u64 \<Rightarrow> int" where
  "wide7 (t1, t2, t3, t4, t5, t6, t7) = fval (t1, t2, t3, t4) + w256 * (uint t5 + w64 * uint t6 + w64 ^ 2 * uint t7)"

lemma double_sum:
  fixes a1 :: int
  assumes "a1 + w64 * b1 = 2 * u1" "a2 + w64 * b2 = 2 * u2 + b1" "a3 + w64 * b3 = 2 * u3 + b2" "a4 + w64 * b4 = 2 * u4 + b3"
    "a5 + w64 * b5 = 2 * u5 + b4" "a6 + w64 * b6 = 2 * u6 + b5"
  shows "a1 + w64 * a2 + w64 ^ 2 * a3 + w64 ^ 3 * a4 + w256 * (a5 + w64 * a6 + w64 ^ 2 * b6) =
    2 * (u1 + w64 * u2 + w64 ^ 2 * u3 + w64 ^ 3 * u4 + w256 * (u5 + w64 * u6))"
  using assms by simp

lemma double_terms_eq: "wide7 (double_terms t) = 2 * wide6 t"
proof -
  obtain t1 t2 t3 t4 t5 t6 where t: "t = (t1, t2, t3, t4, t5, t6)" by (cases t)
  have "uint (push_bit 1 t1) + w64 * uint (drop_bit 63 t1) = 2 * uint t1" using double_word [of t1 0] by simp
  from double_sum [OF this double_word double_word double_word double_word double_word] show ?thesis
    unfolding t double_terms.simps Let_def wide7.simps wide6.simps fval.simps .
qed

lemma square_wide_eq: "wide_val (square_wide U z) = fval z * fval z"
proof -
  obtain z0 z1 z2 z3 where z: "z = (z0, z1, z2, z3)" by (cases z)
  obtain t1 t2 t3 t4 t5 t6 t7 where t: "double_terms (cross_terms U (z0, z1, z2, z3)) = (t1, t2, t3, t4, t5, t6, t7)" by (metis surj_pair)
  obtain d1 s0 d3 d2 d5 d4 d7 d6 where m: "Mul64 z0 z0 = (d1, s0)" "Mul64 z1 z1 = (d3, d2)" "Mul64 z2 z2 = (d5, d4)" "Mul64 z3 z3 = (d7, d6)" by (metis surj_pair)
  obtain s1 c1 s2 c2 s3 c3 s4 c4 where a: "Add64 U t1 d1 0 = (s1, c1)" "Add64 U t2 d2 c1 = (s2, c2)" "Add64 U t3 d3 c2 = (s3, c3)" "Add64 U t4 d4 c3 = (s4, c4)" by (metis surj_pair)
  obtain s5 c5 s6 c6 s7 c7 where b: "Add64 U t5 d5 c4 = (s5, c5)" "Add64 U t6 d6 c5 = (s6, c6)" "Add64 U t7 d7 c6 = (s7, c7)" by (metis surj_pair)
  have r: "square_wide U z = (s0, s1, s2, s3, s4, s5, s6, s7)" by (simp add: square_wide.simps z t m a b del: double_terms.simps cross_terms.simps)
  have k4: "c4 \<le> 1" using add_chain(2) [OF a] by simp
  note k = k4 Add64_carry [OF b(1) k4] Add64_carry [OF b(2) Add64_carry [OF b(1) k4]]
  have T: "wide7 (t1, t2, t3, t4, t5, t6, t7) = 2 * wide6 (cross_terms U (z0, z1, z2, z3))" unfolding t [symmetric] by (rule double_terms_eq)
  have e: "wide_val (square_wide U z) + w256 * w256 * uint c7 = fval z * fval z"
    using Mul64_eq [OF m(1)] Mul64_eq [OF m(2)] Mul64_eq [OF m(3)] Mul64_eq [OF m(4)] add_chain(1) [OF a] Add64_eq [OF b(1)] Add64_eq [OF b(2)] Add64_eq [OF b(3)] k T
    unfolding r unfolding cross_terms_eq z by (simp add: algebra_simps)
  have "fval z * fval z < w256 * w256" by (intro mult_strict_mono) simp_all
  moreover have "0 \<le> wide_val (square_wide U z)" unfolding r wide_val.simps by (simp del: fval.simps)
  ultimately have "w256 * w256 * uint c7 < w256 * w256" using e by linarith
  then have "uint c7 < 1" by simp
  then have "uint c7 = 0" using uint64_bounds(1) [of c7] by linarith
  then show ?thesis using e by simp
qed

lemma square_wide_mul: "square_wide U z = mul_wide U z z"
  by (rule wide_val_inj [THEN iffD1]) (simp add: square_wide_eq mul_wide_eq)

lemma square_mul: "field_square U z = field_mul U z z"
  by (simp add: field_square_def field_mul_def square_wide_mul)

lemma mul_eq: "carries_ok U (mul_wide U z x) \<Longrightarrow> fval (field_mul U z x) = fval z * fval x mod p25519"
  using reduce_eq by (simp add: field_mul_def mul_wide_eq)

lemma mulA24_eq: "fval (field_mulA24 U z) = 121665 * fval z mod p25519"
proof -
  obtain z0 z1 z2 z3 where z: "z = (z0, z1, z2, z3)" by (cases z)
  obtain h0 r0 h1 l1 h2 l2 h3 l3 where m: "Mul64 z0 121665 = (h0, r0)" "Mul64 z1 121665 = (h1, l1)" "Mul64 z2 121665 = (h2, l2)" "Mul64 z3 121665 = (h3, l3)" by (metis surj_pair)
  obtain r1 c1 r2 c2 r3 c3 where a: "Add64 U l1 h0 0 = (r1, c1)" "Add64 U l2 h1 c1 = (r2, c2)" "Add64 U l3 h2 c2 = (r3, c3)" by (metis surj_pair)
  have k1: "c1 \<le> 1" using Add64_carry [OF a(1)] by simp
  note k2 = Add64_carry [OF a(2) k1]
  note k3 = Add64_carry [OF a(3) k2]
  have "w64 * uint h3 + uint l3 = uint z3 * 121665" using Mul64_eq [OF m(4)] by simp
  then have h3: "uint h3 < 121665" using uint64_bounds [of z3] uint64_bounds(1) [of l3] by linarith
  then have s: "uint (h3 + c3) = uint h3 + uint c3" using k3 by (intro uint_plus_fit) (simp add: word_le_1)
  have e: "fval (r0, r1, r2, r3) + w256 * uint (h3 + c3) = 121665 * fval z"
    using Mul64_eq [OF m(1)] Mul64_eq [OF m(2)] Mul64_eq [OF m(3)] Mul64_eq [OF m(4)] Add64_eq [OF a(1)] Add64_eq [OF a(2)] Add64_eq [OF a(3)] k1 k2 s
    unfolding z by simp
  have "field_mulA24 U z = fieldFold U (r0, r1, r2, r3) (h3 + c3)" by (simp add: z m a)
  moreover have "uint (h3 + c3) < 4294967296" using s h3 k3 by (simp add: word_le_1)
  ultimately show ?thesis using fold_eq [of "h3 + c3" U "(r0, r1, r2, r3)"] by (simp only: e)
qed

section \<open>Small operands\<close>

abbreviation mul_ok :: "carry_rule \<Rightarrow> field25519 \<Rightarrow> field25519 \<Rightarrow> bool" where "mul_ok U z x \<equiv> carries_ok U (mul_wide U z x)"
abbreviation square_ok :: "carry_rule \<Rightarrow> field25519 \<Rightarrow> bool" where "square_ok U z \<equiv> carries_ok U (square_wide U z)"

lemma square_eq: "square_ok U z \<Longrightarrow> fval (field_square U z) = fval z ^ 2 mod p25519"
  by (simp add: square_wide_mul square_mul mul_eq power2_eq_square)

text \<open>A product below \<open>2 ^ 256\<close> leaves nothing to fold back, so its reduction has no carries to add up.\<close>

lemma small_ok:
  assumes "fval z * fval x < w256"
  shows "mul_ok U z x"
proof -
  obtain t0 t1 t2 t3 t4 t5 t6 t7 where t: "mul_wide U z x = (t0, t1, t2, t3, t4, t5, t6, t7)" by (rule wide_cases)
  have "fval (t0, t1, t2, t3) + w256 * fval (t4, t5, t6, t7) < w256" using mul_wide_eq [of U z x] assms by (simp only: t wide_val.simps)
  then have "w256 * fval (t4, t5, t6, t7) < w256 * 1" using fval_bounds(1) [of "(t0, t1, t2, t3)"] by linarith
  then have "fval (t4, t5, t6, t7) = 0" using fval_bounds(1) [of "(t4, t5, t6, t7)"] by linarith
  then have "(t4, t5, t6, t7) = (0, 0, 0, 0)" using fval_inj [of "(t4, t5, t6, t7)" "(0, 0, 0, 0)"] by simp
  moreover have "Mul64 0 38 = (0, 0)" "Add64 U 0 0 0 = (0, 0)" "Add64 U w 0 0 = (w, 0)" for w
    by (simp_all add: Mul64_def Add64_def not_le)
  ultimately show ?thesis unfolding t by (simp add: carries_ok_def)
qed

abbreviation fieldZero :: field25519 where "fieldZero \<equiv> (0, 0, 0, 0)"

lemma fval_zero [simp]: "fval fieldZero = 0"
  by simp

lemma fval_one [simp]: "fval fieldOne = 1"
  by (simp add: fieldOne_def)

lemma small_square_ok: "fval z * fval z < w256 \<Longrightarrow> square_ok U z"
  unfolding square_wide_mul by (rule small_ok)

lemma small_mul: "fval z * fval x < p25519 \<Longrightarrow> fval y = fval z * fval x \<Longrightarrow> field_mul U z x = y"
proof -
  assume p: "fval z * fval x < p25519" "fval y = fval z * fval x"
  then have "fval z * fval x < w256" unfolding p25519_val by simp
  from mul_eq [OF small_ok [OF this], of U] have "fval (field_mul U z x) = fval y" using p by simp
  then show ?thesis by (simp only: fval_inj)
qed

lemma zero_product_ok [simp]: "mul_ok U fieldZero x" "mul_ok U x fieldZero" "square_ok U fieldZero"
  by (simp_all only: square_wide_mul) (rule small_ok, simp)+

lemma zero_product [simp]: "field_mul U fieldZero x = fieldZero" "field_mul U x fieldZero = fieldZero" "field_square U fieldZero = fieldZero"
  unfolding square_mul by (rule small_mul, simp_all)+

lemma one_product_ok [simp]: "mul_ok U fieldOne x" "square_ok U fieldOne"
  unfolding square_wide_mul by (rule small_ok, simp)+

lemma one_less_p [simp]: "1 < p25519"
  by (simp add: p25519_val)

lemma one_product [simp]: "fval x < p25519 \<Longrightarrow> field_mul U fieldOne x = x" "field_square U fieldOne = fieldOne"
  unfolding square_mul by (rule small_mul, simp_all)+

section \<open>Powers\<close>

text \<open>
  The operations that multiply more than once have a predicate beside them that follows their run and says that no reduction in it passes a carry above one
  to \<open>Add64\<close>.
\<close>

abbreviation rep :: "field25519 \<Rightarrow> int \<Rightarrow> bool" where "rep z a \<equiv> fval z mod p25519 = a mod p25519"

lemma rep_mul: "mul_ok U z x \<Longrightarrow> rep z a \<Longrightarrow> rep x b \<Longrightarrow> rep (field_mul U z x) (a * b)"
  using mod_mult_cong [of "fval z" p25519 a "fval x" b] by (simp add: mul_eq)

lemma rep_square: "square_ok U z \<Longrightarrow> rep z a \<Longrightarrow> rep (field_square U z) (a ^ 2)"
  unfolding square_mul square_wide_mul power2_eq_square by (rule rep_mul)

fun squareN_ok :: "carry_rule \<Rightarrow> nat \<Rightarrow> field25519 \<Rightarrow> bool" where
  "squareN_ok U 0 z = True"
| "squareN_ok U (Suc n) z = (square_ok U z \<and> squareN_ok U n (field_square U z))"

text \<open>A link of the addition chains: \<open>n\<close> squarings and a product.\<close>

definition chain_ok :: "carry_rule \<Rightarrow> nat \<Rightarrow> field25519 \<Rightarrow> field25519 \<Rightarrow> bool" where
  "chain_ok U n z x \<longleftrightarrow> squareN_ok U n z \<and> mul_ok U (field_squareN U n z) x"

definition pow250_ok :: "carry_rule \<Rightarrow> field25519 \<Rightarrow> bool" where
  "pow250_ok U z \<longleftrightarrow>
     (let z2 = field_square U z;
          z9 = field_mul U (field_squareN U 2 z2) z;
          z11 = field_mul U z9 z2;
          z2_5_0 = field_mul U (field_square U z11) z9;
          z2_10_0 = field_mul U (field_squareN U 5 z2_5_0) z2_5_0;
          z2_20_0 = field_mul U (field_squareN U 10 z2_10_0) z2_10_0;
          z2_40_0 = field_mul U (field_squareN U 20 z2_20_0) z2_20_0;
          z2_50_0 = field_mul U (field_squareN U 10 z2_40_0) z2_10_0;
          z2_100_0 = field_mul U (field_squareN U 50 z2_50_0) z2_50_0;
          z2_200_0 = field_mul U (field_squareN U 100 z2_100_0) z2_100_0
      in square_ok U z \<and> chain_ok U 2 z2 z \<and> mul_ok U z9 z2 \<and> chain_ok U 1 z11 z9 \<and> chain_ok U 5 z2_5_0 z2_5_0 \<and> chain_ok U 10 z2_10_0 z2_10_0 \<and>
         chain_ok U 20 z2_20_0 z2_20_0 \<and> chain_ok U 10 z2_40_0 z2_10_0 \<and> chain_ok U 50 z2_50_0 z2_50_0 \<and> chain_ok U 100 z2_100_0 z2_100_0 \<and>
         chain_ok U 50 z2_200_0 z2_50_0)"

definition invert_ok :: "carry_rule \<Rightarrow> field25519 \<Rightarrow> bool" where
  "invert_ok U z \<longleftrightarrow> pow250_ok U z \<and> (let (r, z11) = field_pow250 U z in chain_ok U 5 r z11)"

definition pow22523_ok :: "carry_rule \<Rightarrow> field25519 \<Rightarrow> bool" where
  "pow22523_ok U z \<longleftrightarrow> pow250_ok U z \<and> (let (r, z11) = field_pow250 U z in chain_ok U 2 r z)"

lemma rep_squareN: "squareN_ok U n z \<Longrightarrow> rep z a \<Longrightarrow> rep (field_squareN U n z) (a ^ (2 ^ n))"
proof (induction n arbitrary: z a)
  case (Suc n)
  then have "square_ok U z" "squareN_ok U n (field_square U z)" by simp_all
  from Suc.IH [OF this(2) rep_square [OF this(1) Suc.prems(2)]] show ?case by (simp add: power_mult [symmetric])
qed simp

lemma rep_step:
  assumes "chain_ok U n z x" "rep z (a ^ k)" "rep x (a ^ j)" "k * 2 ^ n + j = i"
  shows "rep (field_mul U (field_squareN U n z) x) (a ^ i)"
proof -
  have "squareN_ok U n z" "mul_ok U (field_squareN U n z) x" using assms(1) by (simp_all add: chain_ok_def)
  from rep_mul [OF this(2) rep_squareN [OF this(1) assms(2)] assms(3)] show ?thesis by (simp add: assms(4) [symmetric] power_add power_mult)
qed

lemma square_is_squareN: "field_square U z = field_squareN U 1 z"
  by simp

lemma pow250_eq:
  assumes "field_pow250 U z = (r, z11)" "pow250_ok U z"
  shows "rep r (fval z ^ (2 ^ 250 - 1))" "rep z11 (fval z ^ 11)"
proof -
  let ?a = "fval z" and ?M = "field_mul U" and ?S = "field_squareN U"
  define z2 where "z2 = field_square U z"
  define z9 where "z9 = ?M (?S 2 z2) z"
  define y11 where "y11 = ?M z9 z2"
  define y5 where "y5 = ?M (field_square U y11) z9"
  define y10 where "y10 = ?M (?S 5 y5) y5"
  define y20 where "y20 = ?M (?S 10 y10) y10"
  define y40 where "y40 = ?M (?S 20 y20) y20"
  define y50 where "y50 = ?M (?S 10 y40) y10"
  define y100 where "y100 = ?M (?S 50 y50) y50"
  define y200 where "y200 = ?M (?S 100 y100) y100"
  note folds = z2_def [symmetric] z9_def [symmetric] y11_def [symmetric] y5_def [symmetric] y10_def [symmetric]
  have r: "r = ?M (?S 50 y200) y50" "z11 = y11"
    using assms(1) unfolding field_pow250_def Let_def
    unfolding folds unfolding y20_def [symmetric] unfolding y40_def [symmetric] unfolding y50_def [symmetric] unfolding y100_def [symmetric] unfolding y200_def [symmetric]
    by simp_all
  have ok: "square_ok U z" "chain_ok U 2 z2 z" "mul_ok U z9 z2" "chain_ok U 1 y11 z9" "chain_ok U 5 y5 y5" "chain_ok U 10 y10 y10" "chain_ok U 20 y20 y20"
    "chain_ok U 10 y40 y10" "chain_ok U 50 y50 y50" "chain_ok U 100 y100 y100" "chain_ok U 50 y200 y50"
    using assms(2) unfolding pow250_ok_def Let_def
    unfolding folds unfolding y20_def [symmetric] unfolding y40_def [symmetric] unfolding y50_def [symmetric] unfolding y100_def [symmetric] unfolding y200_def [symmetric]
    by simp_all
  have e1: "rep z (?a ^ 1)" by simp
  have e2: "rep z2 (?a ^ 2)" unfolding z2_def by (rule rep_square [OF ok(1)]) simp
  have e9: "rep z9 (?a ^ 9)" unfolding z9_def by (rule rep_step [OF ok(2) e2 e1]) simp
  have e11: "rep y11 (?a ^ 11)" unfolding y11_def using rep_mul [OF ok(3) e9 e2] by (simp add: power_add [symmetric])
  have e5: "rep y5 (?a ^ (2 ^ 5 - 1))" unfolding y5_def square_is_squareN by (rule rep_step [OF ok(4) e11 e9]) simp
  have e10: "rep y10 (?a ^ (2 ^ 10 - 1))" unfolding y10_def by (rule rep_step [OF ok(5) e5 e5]) simp
  have e20: "rep y20 (?a ^ (2 ^ 20 - 1))" unfolding y20_def by (rule rep_step [OF ok(6) e10 e10]) simp
  have e40: "rep y40 (?a ^ (2 ^ 40 - 1))" unfolding y40_def by (rule rep_step [OF ok(7) e20 e20]) simp
  have e50: "rep y50 (?a ^ (2 ^ 50 - 1))" unfolding y50_def by (rule rep_step [OF ok(8) e40 e10]) simp
  have e100: "rep y100 (?a ^ (2 ^ 100 - 1))" unfolding y100_def by (rule rep_step [OF ok(9) e50 e50]) simp
  have e200: "rep y200 (?a ^ (2 ^ 200 - 1))" unfolding y200_def by (rule rep_step [OF ok(10) e100 e100]) simp
  show "rep r (?a ^ (2 ^ 250 - 1))" unfolding r by (rule rep_step [OF ok(11) e200 e50]) simp
  show "rep z11 (?a ^ 11)" unfolding r by (rule e11)
qed

lemma mul_canonical: "mul_ok U z x \<Longrightarrow> fval (field_mul U z x) < p25519"
  by (simp add: mul_eq)

lemma mul_exact: "mul_ok U z x \<Longrightarrow> rep (field_mul U z x) v \<Longrightarrow> fval (field_mul U z x) = v mod p25519"
  using mul_canonical [of U z x] fval_bounds(1) [of "field_mul U z x"] by simp

lemma invert_eq:
  assumes "invert_ok U z"
  shows "fval (field_invert U z) = fval z ^ nat (p25519 - 2) mod p25519"
proof -
  obtain r z11 where p: "field_pow250 U z = (r, z11)" by (cases "field_pow250 U z")
  have ok: "pow250_ok U z" "chain_ok U 5 r z11" using assms by (simp_all add: invert_ok_def p)
  have n: "(2 ^ 250 - 1) * 2 ^ 5 + 11 = nat (p25519 - 2)" by (simp add: p25519_val)
  have "mul_ok U (field_squareN U 5 r) z11" using ok(2) by (simp add: chain_ok_def)
  from mul_exact [OF this rep_step [OF ok(2) pow250_eq [OF p ok(1)] n]] show ?thesis by (simp add: field_invert_def p)
qed

lemma pow22523_eq:
  assumes "pow22523_ok U z"
  shows "fval (field_pow22523 U z) = fval z ^ nat ((p25519 - 5) div 8) mod p25519"
proof -
  obtain r z11 where p: "field_pow250 U z = (r, z11)" by (cases "field_pow250 U z")
  have ok: "pow250_ok U z" "chain_ok U 2 r z" using assms by (simp_all add: pow22523_ok_def p)
  have n: "(2 ^ 250 - 1) * 2 ^ 2 + 1 = nat ((p25519 - 5) div 8)" by (simp add: p25519_val)
  have z: "rep z (fval z ^ 1)" by simp
  have "mul_ok U (field_squareN U 2 r) z" using ok(2) by (simp add: chain_ok_def)
  from mul_exact [OF this rep_step [OF ok(2) pow250_eq(1) [OF p ok(1)] z n]] show ?thesis by (simp add: field_pow22523_def p)
qed

text \<open>The chains of zero and of one stay there and have no carries.\<close>

lemma squareN_fixed: "square_ok U z \<Longrightarrow> field_square U z = z \<Longrightarrow> squareN_ok U n z \<and> field_squareN U n z = z"
  by (induction n) simp_all

lemma chain_fixed:
  assumes "square_ok U z" "field_square U z = z" "mul_ok U z z" "field_mul U z z = z"
  shows "pow250_ok U z" "field_pow250 U z = (z, z)" "chain_ok U n z z" "field_mul U (field_squareN U n z) z = z"
  using assms squareN_fixed [OF assms(1,2)] by (simp_all add: pow250_ok_def field_pow250_def chain_ok_def del: squareN_ok.simps field_squareN.simps)

lemma zero_chains [simp]: "invert_ok U fieldZero" "field_invert U fieldZero = fieldZero" "pow22523_ok U fieldZero" "field_pow22523 U fieldZero = fieldZero"
  using chain_fixed [of U fieldZero] by (simp_all add: invert_ok_def field_invert_def pow22523_ok_def field_pow22523_def)

lemma one_chains [simp]: "pow22523_ok U fieldOne" "field_pow22523 U fieldOne = fieldOne"
  using chain_fixed [of U fieldOne] by (simp_all add: pow22523_ok_def field_pow22523_def p25519_val)

section \<open>Properties\<close>

text \<open>C5. The field operations compute modulo \<open>2 ^ 255 - 19\<close>, whatever \<open>Add64\<close> does with a carry above one. Sums and multiples by 121665 are reduced for
  all limbs. A difference is exact when its second operand exceeds the first by at most \<open>p\<close>, a negative when its operand is at most \<open>p\<close>. A
  square has the limbs of the product with itself. Products and squares are reduced exactly as long as their reduction passes no carry above one to
  \<open>Add64\<close>; it may pass two, so this is a condition, which every product below \<open>2 ^ 256\<close> meets.\<close>

theorem field_ops_exact:
  "fval (field_add U z x) = (fval z + fval x) mod p25519 \<and>
   fval (field_mulA24 U z) = 121665 * fval z mod p25519 \<and>
   (fval x \<le> fval z + p25519 \<longrightarrow> fval (field_sub U z x) = (if fval z < fval x then fval z - fval x + p25519 else fval z - fval x)) \<and>
   (fval x \<le> p25519 \<longrightarrow> fval (field_neg U x) = (if fval x = 0 then 0 else p25519 - fval x)) \<and>
   square_wide U z = mul_wide U z z \<and>
   (carries_ok U (mul_wide U z x) \<longrightarrow> fval (field_mul U z x) = fval z * fval x mod p25519) \<and>
   (carries_ok U (square_wide U z) \<longrightarrow> fval (field_square U z) = fval z ^ 2 mod p25519) \<and>
   (fval z * fval x < 2 ^ 256 \<longrightarrow> carries_ok U (mul_wide U z x))"
proof -
  have "fval z * fval x < 2 ^ 256 \<longrightarrow> carries_ok U (mul_wide U z x)" using small_ok by simp
  then show ?thesis using add_eq mulA24_eq sub_eq neg_eq square_wide_mul mul_eq square_eq by blast
qed

text \<open>All hypotheses at two elements, under the rule of the add-with-carry instruction.\<close>

theorem field_ops_exact_witness:
  "fval (field_mul flag_carry fieldTwo fieldSqrtM1) = fval fieldTwo * fval fieldSqrtM1 mod p25519 \<and>
   fval (field_square flag_carry fieldSqrtM1) = fval fieldSqrtM1 ^ 2 mod p25519 \<and>
   fval (field_sub flag_carry fieldTwo fieldSqrtM1) = fval fieldTwo - fval fieldSqrtM1 + p25519 \<and>
   fval (field_neg flag_carry fieldSqrtM1) = p25519 - fval fieldSqrtM1"
proof -
  have "fst (reduce_carries flag_carry (square_wide flag_carry fieldSqrtM1)) \<le> 1" "snd (reduce_carries flag_carry (square_wide flag_carry fieldSqrtM1)) \<le> 1"
    by code_simp+
  then have s: "carries_ok flag_carry (square_wide flag_carry fieldSqrtM1)" by (simp add: carries_ok_def)
  have v: "fval fieldSqrtM1 \<le> p25519" "fval fieldSqrtM1 \<le> fval fieldTwo + p25519" "fval fieldTwo < fval fieldSqrtM1" "fval fieldSqrtM1 \<noteq> 0" "fval fieldTwo * fval fieldSqrtM1 < 2 ^ 256"
    by (simp_all add: fieldSqrtM1_def fieldTwo_def p25519_val)
  show ?thesis
    using field_ops_exact [of flag_carry fieldTwo fieldSqrtM1] field_ops_exact [of flag_carry fieldSqrtM1 fieldTwo] s v by simp
qed

text \<open>As long as no carry above one is passed on, \<open>invert\<close> is the power \<open>p - 2\<close> and \<open>pow22523\<close> the power \<open>(p - 5) / 8\<close> modulo \<open>p = 2 ^ 255 - 19\<close>,
  and \<open>squareN\<close> squares \<open>n\<close> times: the addition chains reach the exponents they are meant to reach.\<close>

theorem field_powers_exact:
  "(invert_ok U z \<longrightarrow> fval (field_invert U z) = fval z ^ nat (p25519 - 2) mod p25519) \<and>
   (pow22523_ok U z \<longrightarrow> fval (field_pow22523 U z) = fval z ^ nat ((p25519 - 5) div 8) mod p25519) \<and>
   (squareN_ok U n z \<longrightarrow> fval (field_squareN U n z) mod p25519 = fval z ^ (2 ^ n) mod p25519)"
  using invert_eq pow22523_eq rep_squareN by blast

definition double_carry_element :: field25519 where
  "double_carry_element = (7, 0x1249249249249249, 0xb030f7f67c5748a8, 0)"

lemma double_carry_evaluated:
  "fst (reduce_carries flag_carry (square_wide flag_carry double_carry_element)) = 2"
  "field_square flag_carry double_carry_element = (0x2f9a6600336c9eed, 0x21, 0x2010d365e6e55213, 0x181bce0d2ad76371)"
  by code_simp+

text \<open>The condition on carries is needed: for the canonical element above the sum of two carries is two; an add-with-carry instruction takes it as a
  flag, and the square it then gives differs from the square modulo \<open>2 ^ 255 - 19\<close> by \<open>2 ^ 128\<close>.\<close>

lemma square_double_carry:
  "fval double_carry_element < p25519 \<and>
   fst (reduce_carries flag_carry (square_wide flag_carry double_carry_element)) = 2 \<and>
   fval (field_square flag_carry double_carry_element) + 2 ^ 128 = fval double_carry_element * fval double_carry_element mod p25519"
  unfolding double_carry_evaluated by (simp add: double_carry_element_def p25519_val)

end
