(* ===== verification/X25519.thy ===== *)
theory X25519
  imports Field25519_Power
begin

text \<open>
  X25519 (\<open>x25519ScalarMult\<close> of \<open>cryptography/field25519.go\<close> and \<open>cryptography/x25519.go\<close>): the ladder with its lazy conditional swaps, the
  private key with its release, and their agreement with the ladder of RFC 7748 over the integers modulo \<open>2 ^ 255 - 19\<close>.
\<close>

section \<open>The ladder of the code\<close>

definition fieldBasepoint :: bytes where "fieldBasepoint = 9 # replicate 31 0"

text \<open>The registers \<open>x2\<close>, \<open>z2\<close>, \<open>x3\<close>, \<open>z3\<close> and \<open>swap\<close> of the loop.\<close>

record ladder_state =
  lx2 :: field25519
  lz2 :: field25519
  lx3 :: field25519
  lz3 :: field25519
  lswap :: u64

definition scalar_bit :: "bytes \<Rightarrow> nat \<Rightarrow> u64" where
  "scalar_bit e t = ucast (drop_bit (t mod 8) (e ! (t div 8)) AND 1)"

definition ladder_step :: "carry_rule \<Rightarrow> field25519 \<Rightarrow> u64 \<Rightarrow> ladder_state \<Rightarrow> ladder_state" where
  "ladder_step U x1 kt s =
     (let swap = lswap s XOR kt; m = 0 - swap;
          x2 = fieldSelect (lx3 s) (lx2 s) m; x3 = fieldSelect (lx2 s) (lx3 s) m;
          z2 = fieldSelect (lz3 s) (lz2 s) m; z3 = fieldSelect (lz2 s) (lz3 s) m;
          a = field_add U x2 z2; aa = field_square U a;
          b = field_sub U x2 z2; bb = field_square U b;
          eField = field_sub U aa bb;
          c = field_add U x3 z3; d = field_sub U x3 z3;
          da = field_mul U d a; cb = field_mul U c b
      in \<lparr>lx2 = field_mul U aa bb, lz2 = field_mul U eField (field_add U aa (field_mulA24 U eField)),
          lx3 = field_square U (field_add U da cb), lz3 = field_mul U x1 (field_square U (field_sub U da cb)), lswap = kt\<rparr>)"

text \<open>The loop for \<open>t = n - 1, \<dots>, 0\<close>.\<close>

fun ladder :: "carry_rule \<Rightarrow> field25519 \<Rightarrow> bytes \<Rightarrow> nat \<Rightarrow> ladder_state \<Rightarrow> ladder_state" where
  "ladder U x1 e 0 s = s"
| "ladder U x1 e (Suc t) s = ladder U x1 e t (ladder_step U x1 (scalar_bit e t) s)"

definition clamp_scalar :: "bytes \<Rightarrow> bytes" where
  "clamp_scalar scalar = (let e = scalar[0 := scalar ! 0 AND 248]; e = e[31 := e ! 31 AND 127] in e[31 := e ! 31 OR 64])"

definition x25519ScalarMult :: "carry_rule \<Rightarrow> bytes \<Rightarrow> bytes \<Rightarrow> bytes" where
  "x25519ScalarMult U scalar point =
     (let e = clamp_scalar scalar;
          x1 = fieldLoad (point[31 := point ! 31 AND 0x7f]);
          s = ladder U x1 e 255 \<lparr>lx2 = fieldOne, lz2 = (0, 0, 0, 0), lx3 = x1, lz3 = fieldOne, lswap = 0\<rparr>;
          m = 0 - lswap s;
          x2 = fieldSelect (lx3 s) (lx2 s) m; z2 = fieldSelect (lz3 s) (lz2 s) m
      in field_store (field_mul U x2 (field_invert U z2)))"

section \<open>Private keys\<close>

record X25519PrivateKey =
  xk_scalar :: bytes
  xk_public :: bytes
  xk_released :: bool

definition NewX25519PrivateKey :: "carry_rule \<Rightarrow> bytes \<Rightarrow> X25519PrivateKey result" where
  "NewX25519PrivateKey U encoded =
     (if length encoded \<noteq> 32 then Inl ErrKeyLength
      else Inr \<lparr>xk_scalar = encoded, xk_public = x25519ScalarMult U encoded fieldBasepoint, xk_released = False\<rparr>)"

text \<open>A random source answers a request for \<open>n\<close> bytes; the first one is the source of the system.\<close>

definition GenerateX25519PrivateKey :: "carry_rule \<Rightarrow> (nat \<Rightarrow> bytes result) \<Rightarrow> (nat \<Rightarrow> bytes result) option \<Rightarrow> X25519PrivateKey result" where
  "GenerateX25519PrivateKey U system random =
     (let random = (case random of None \<Rightarrow> system | Some r \<Rightarrow> r)
      in case random 32 of Inl err \<Rightarrow> Inl err
         | Inr scalar \<Rightarrow> Inr \<lparr>xk_scalar = scalar, xk_public = x25519ScalarMult U scalar fieldBasepoint, xk_released = False\<rparr>)"

text \<open>\<open>PublicKey\<close> and \<open>ECDH\<close> answer what they leave in \<open>dst\<close> and their error.\<close>

definition xk_PublicKey :: "X25519PrivateKey option \<Rightarrow> bytes \<times> error option" where
  "xk_PublicKey k =
     (case k of None \<Rightarrow> (replicate 32 0, Some ErrSensitiveReleased)
      | Some k \<Rightarrow> if xk_released k then (replicate 32 0, Some ErrSensitiveReleased) else (xk_public k, None))"

definition xk_ECDH :: "carry_rule \<Rightarrow> X25519PrivateKey option \<Rightarrow> bytes \<Rightarrow> bytes \<times> error option" where
  "xk_ECDH U k peer =
     (case k of None \<Rightarrow> (replicate 32 0, Some ErrSensitiveReleased)
      | Some k \<Rightarrow>
        if xk_released k then (replicate 32 0, Some ErrSensitiveReleased)
        else if length peer \<noteq> 32 then (replicate 32 0, Some ErrKeyLength)
        else let dst = x25519ScalarMult U (xk_scalar k) peer
             in if dst = replicate 32 0 then (replicate 32 0, Some ErrLowOrderPoint) else (dst, None))"

definition xk_ReleaseSensitive :: "X25519PrivateKey option \<Rightarrow> X25519PrivateKey option" where
  "xk_ReleaseSensitive k =
     (case k of None \<Rightarrow> None
      | Some k \<Rightarrow> if xk_released k then Some k
                  else Some (k\<lparr>xk_scalar := replicate 32 0, xk_public := replicate 32 0, xk_released := True\<rparr>))"

end
