(* ===== verification/X25519_Correct.thy ===== *)
theory X25519_Correct
  imports X25519
begin

text \<open>
  The X25519 function of the code against RFC 7748: little-endian numbers, the clamped scalar, and a ladder over the integers modulo
  \<open>2 ^ 255 - 19\<close> that has no lazy swap.
\<close>

section \<open>Little-endian numbers\<close>

primrec le_val :: "bytes \<Rightarrow> int" where
  "le_val [] = 0"
| "le_val (b # bs) = uint b + 256 * le_val bs"

primrec le_bytes :: "nat \<Rightarrow> int \<Rightarrow> bytes" where
  "le_bytes 0 v = []"
| "le_bytes (Suc n) v = word_of_int v # le_bytes n (v div 256)"

lemma length_le_bytes [simp]: "length (le_bytes n v) = n"
  by (induction n arbitrary: v) simp_all

lemma le_val_bounds: "0 \<le> le_val bs \<and> le_val bs < 256 ^ length bs"
proof (induction bs)
  case (Cons b bs)
  have "uint b < 256" "0 \<le> uint b" using uint_bounded [of b] by simp_all
  then show ?case using Cons by auto
qed simp

lemma le_val_append: "le_val (a @ b) = le_val a + 256 ^ length a * le_val b"
  by (induction a) (simp_all add: algebra_simps)

lemma le_bytes_le_val: "le_bytes (length bs) (le_val bs) = bs"
proof (induction bs)
  case (Cons b bs)
  have b: "uint b < 256" "0 \<le> uint b" using uint_bounded [of b] by simp_all
  then have "(uint b + 256 * le_val bs) div 256 = le_val bs" by simp
  moreover have "(uint b + 256 * le_val bs) mod 256 = uint b" using b by simp
  then have "uint (word_of_int (uint b + 256 * le_val bs) :: u8) = uint b" by (subst uint_word_of_int) simp
  then have "word_of_int (uint b + 256 * le_val bs) = b" by (rule word_uint_eqI)
  ultimately show ?case using Cons by simp
qed simp

lemma le_val_le_bytes: "le_val (le_bytes n v) = v mod 256 ^ n"
proof (induction n arbitrary: v)
  case (Suc n)
  have "uint (word_of_int v :: u8) = v mod 256" by (simp add: uint_word_of_int)
  then show ?case using Suc by (simp add: mod_mult2_eq [symmetric] zmod_zmult2_eq)
qed simp

lemma le_val_inj: "length a = length b \<Longrightarrow> le_val a = le_val b \<Longrightarrow> a = b"
  by (metis le_bytes_le_val)

lemma bit_le_val: "bit (le_val bs) t \<longleftrightarrow> t < 8 * length bs \<and> bit (bs ! (t div 8)) (t mod 8)"
proof (induction bs arbitrary: t)
  case (Cons b bs)
  have d: "le_val (b # bs) = uint b OR push_bit 8 (le_val bs)"
  proof -
    have "uint b + push_bit 8 (le_val bs) = uint b OR push_bit 8 (le_val bs)"
      by (rule disjunctive_add) (auto simp: bit_push_bit_iff bit_uint_iff dest: bit_imp_le_length)
    then show ?thesis by (simp add: push_bit_eq_mult mult.commute)
  qed
  show ?case
  proof (cases "t < 8")
    case True
    then show ?thesis unfolding d by (simp add: bit_or_iff bit_push_bit_iff bit_uint_iff)
  next
    case False
    then have "t div 8 = Suc ((t - 8) div 8)" "t mod 8 = (t - 8) mod 8" by (simp_all add: le_div_geq le_mod_geq)
    moreover have "\<not> bit b t" using False bit_imp_le_length [of b t] by auto
    ultimately show ?thesis unfolding d using Cons [of "t - 8"] False by (auto simp: bit_or_iff bit_push_bit_iff bit_uint_iff)
  qed
qed simp

lemma or_shifted_byte:
  assumes "uint (x :: u64) < 2 ^ n" "n \<le> 56"
  shows "uint (x OR push_bit n (ucast (b :: u8))) = uint x + 2 ^ n * uint b"
proof -
  have low: "m < n" if "bit x m" for m
  proof (rule ccontr)
    assume "\<not> m < n"
    then have "uint x < 2 ^ m" using assms(1) by (meson linorder_not_less order_less_le_trans one_le_numeral power_increasing)
    then have "\<not> bit (uint x) m" by (simp add: bit_iff_odd)
    then show False using that bit_imp_le_length [OF that] by (simp add: bit_uint_iff)
  qed
  have "x + push_bit n (ucast b) = x OR push_bit n (ucast b)"
    by (rule disjunctive_add) (use low in \<open>force simp: bit_push_bit_iff\<close>)
  note or = this
  have b: "uint b \<le> 255" using uint_bounded [of b] by simp
  have "(2 :: int) ^ n \<le> 2 ^ 56" using assms(2) by (intro power_increasing) simp_all
  then have p: "2 ^ n * uint b \<le> 2 ^ 56 * 255" using b by (intro mult_mono) simp_all
  then have "push_bit n (uint b) < 2 ^ 64" "0 \<le> push_bit n (uint b)" by (simp_all add: push_bit_eq_mult mult.commute)
  moreover have "uint (ucast b :: u64) = uint b" by (simp add: uint_up_ucast is_up)
  ultimately have "uint (push_bit n (ucast b) :: u64) = push_bit n (uint b)" unfolding unsigned_push_bit_eq by (simp add: take_bit_int_eq_self)
  then have "uint (push_bit n (ucast b) :: u64) = 2 ^ n * uint b" by (simp only: push_bit_eq_mult mult.commute)
  moreover have "uint x < 2 ^ 56" using assms \<open>(2 :: int) ^ n \<le> 2 ^ 56\<close> by linarith
  ultimately show ?thesis using p uint_plus_fit [of x "push_bit n (ucast b)"] unfolding or by simp
qed

lemma uint8_bounds: "0 \<le> uint (b :: u8)" "uint (b :: u8) \<le> 255"
  using uint_bounded [of b] by simp_all

lemma or_byte_step: "uint (x :: u64) < 2 ^ n \<Longrightarrow> uint x + 2 ^ n * uint (b :: u8) < 2 ^ (n + 8)"
proof -
  assume x: "uint x < 2 ^ n"
  have "2 ^ n * uint b \<le> 2 ^ n * 255" using uint8_bounds [of b] by (intro mult_left_mono) simp_all
  moreover have "(2 :: int) ^ (n + 8) = 2 ^ n * 256" by (simp add: power_add)
  ultimately show ?thesis using x by linarith
qed

primrec or_bytes :: "u64 \<Rightarrow> nat \<Rightarrow> bytes \<Rightarrow> u64" where
  "or_bytes x n [] = x"
| "or_bytes x n (b # bs) = or_bytes (x OR push_bit n (ucast b)) (n + 8) bs"

lemma or_bytes_eq: "uint x < 2 ^ n \<Longrightarrow> n + 8 * length bs \<le> 64 \<Longrightarrow> uint (or_bytes x n bs) = uint x + 2 ^ n * le_val bs"
proof (induction bs arbitrary: x n)
  case (Cons b bs)
  have n: "n \<le> 56" using Cons.prems(2) by simp
  have "uint (x OR push_bit n (ucast b)) < 2 ^ (n + 8)" using or_byte_step [OF Cons.prems(1)] or_shifted_byte [OF Cons.prems(1) n] by simp
  then show ?case using Cons.IH [of "x OR push_bit n (ucast b)" "n + 8"] Cons.prems(2) or_shifted_byte [OF Cons.prems(1) n] by (simp add: power_add algebra_simps)
qed simp

lemma eight_bytes: "i + 8 \<le> length bs \<Longrightarrow> take 8 (drop i bs) = [bs ! i, bs ! (i + 1), bs ! (i + 2), bs ! (i + 3), bs ! (i + 4), bs ! (i + 5), bs ! (i + 6), bs ! (i + 7)]"
  by (simp add: Cons_nth_drop_Suc [symmetric] numeral_eq_Suc)

lemma load_word_eq:
  assumes "i + 8 \<le> length bs"
  shows "uint (load_word bs i) = le_val (take 8 (drop i bs))"
proof -
  have "load_word bs i = or_bytes 0 0 (take 8 (drop i bs))"
    unfolding eight_bytes [OF assms] load_word_def by (simp add: or.assoc)
  then show ?thesis using or_bytes_eq [of 0 0 "take 8 (drop i bs)"] by simp
qed

lemma le_val_split: "i + 8 \<le> length bs \<Longrightarrow> le_val (drop i bs) = le_val (take 8 (drop i bs)) + w64 * le_val (drop (i + 8) bs)"
proof -
  assume i: "i + 8 \<le> length bs"
  have "take 8 (drop i bs) @ drop (i + 8) bs = drop i bs" by (metis append_take_drop_id drop_drop add.commute)
  then have "le_val (drop i bs) = le_val (take 8 (drop i bs) @ drop (i + 8) bs)" by (rule arg_cong [symmetric])
  then show ?thesis using i by (simp add: le_val_append)
qed

lemma fieldLoad_eq:
  assumes "length bs = 32"
  shows "fval (fieldLoad bs) = le_val bs"
proof -
  have "le_val (take 8 (drop 24 bs)) = le_val (drop 24 bs)" using assms by simp
  then have "le_val bs = le_val (take 8 (drop 0 bs)) + w64 * (le_val (take 8 (drop 8 bs)) + w64 * (le_val (take 8 (drop 16 bs)) + w64 * le_val (take 8 (drop 24 bs))))"
    using le_val_split [of 0 bs] le_val_split [of 8 bs] le_val_split [of 16 bs] assms by simp
  moreover have "uint (load_word bs 0) = le_val (take 8 (drop 0 bs))" "uint (load_word bs 8) = le_val (take 8 (drop 8 bs))"
    "uint (load_word bs 16) = le_val (take 8 (drop 16 bs))" "uint (load_word bs 24) = le_val (take 8 (drop 24 bs))"
    using assms by (intro load_word_eq; simp)+
  ultimately show ?thesis unfolding fieldLoad_def fval.simps by simp
qed

lemma uint_drop_bytes:
  fixes w :: u64
  shows "uint (drop_bit 8 w) = uint w div 256" "uint (drop_bit 16 w) = uint w div 256 div 256" "uint (drop_bit 24 w) = uint w div 256 div 256 div 256"
    "uint (drop_bit 32 w) = uint w div 256 div 256 div 256 div 256" "uint (drop_bit 40 w) = uint w div 256 div 256 div 256 div 256 div 256"
    "uint (drop_bit 48 w) = uint w div 256 div 256 div 256 div 256 div 256 div 256"
    "uint (drop_bit 56 w) = uint w div 256 div 256 div 256 div 256 div 256 div 256 div 256"
  by (simp_all add: drop_bit_eq_div uint_div zdiv_zmult2_eq [symmetric])

lemma store_word_eq: "store_word w = le_bytes 8 (uint w)"
  unfolding store_word_def ucast_eq uint_drop_bytes by (simp add: numeral_eq_Suc)

lemma le_val_store_word: "le_val (store_word w) = uint w" "length (store_word w) = 8"
  by (simp_all add: store_word_eq le_val_le_bytes)

lemma field_store_eq: "field_store z = le_bytes 32 (fval z)"
proof -
  obtain a b c d where z: "z = (a, b, c, d)" by (cases z)
  have "le_val (field_store z) = fval z" by (simp add: z le_val_append le_val_store_word)
  moreover have "length (field_store z) = 32" by (simp add: z le_val_store_word)
  ultimately show ?thesis using le_bytes_le_val [of "field_store z"] by simp
qed

section \<open>The clamped scalar\<close>

text \<open>The scalar that RFC 7748 decodes: a multiple of eight between \<open>2 ^ 254\<close> and \<open>2 ^ 255\<close>.\<close>

definition decode_scalar :: "bytes \<Rightarrow> int" where
  "decode_scalar s = 2 ^ 254 + 8 * (le_val s div 8 mod 2 ^ 251)"

lemma clamp_low: "uint (b AND 248 :: u8) = 8 * (uint b div 8)"
proof -
  have "b AND 248 = push_bit 3 (drop_bit 3 b)" by (simp add: byte_eq_iff bit_simps)
  then have "uint (b AND 248) = (8 * (uint b div 8)) mod 256" by (simp add: push_bit_eq_mult drop_bit_eq_div uint_word_ariths uint_div mult.commute)
  then show ?thesis using uint8_bounds [of b] by simp
qed

lemma clamp_high: "uint ((b AND 127) OR 64 :: u8) = 64 + uint b mod 64"
proof -
  define h :: u8 where "h = push_bit 6 1"
  have "bit h n \<longleftrightarrow> n = 6" for n unfolding h_def by (auto simp only: bit_push_bit_iff bit_1_iff) auto
  then have "take_bit 6 b + h = take_bit 6 b OR h" by (intro disjunctive_add) (auto simp: bit_take_bit_iff)
  moreover have h: "h = 64" by (simp add: h_def)
  moreover have "(b AND 127) OR 64 = take_bit 6 b OR 64" by (simp add: byte_eq_iff bit_simps)
  ultimately have "(b AND 127) OR 64 = 64 + take_bit 6 b" by (simp add: add.commute)
  then show ?thesis by (simp add: take_bit_eq_mod uint_word_ariths uint_mod)
qed

lemma top_clear: "uint (b AND 127 :: u8) = uint b mod 128"
proof -
  have "b AND 127 = take_bit 7 b" by (simp add: byte_eq_iff bit_simps)
  then show ?thesis by (simp add: take_bit_eq_mod uint_mod)
qed

lemma ends_split:
  assumes "length s = 32"
  obtains a m z where "s = a # m @ [z]" "length m = 30"
proof
  show "s = hd s # butlast (tl s) @ [last s]" using assms by (cases s; cases "tl s" rule: rev_cases) auto
  show "length (butlast (tl s)) = 30" using assms by simp
qed

lemma le_val_ends: "length m = 30 \<Longrightarrow> le_val (a # m @ [z]) = uint a + 256 * le_val m + 2 ^ 248 * uint z"
  by (simp add: le_val_append)

lemma clamp_scalar_eq:
  assumes "length s = 32"
  shows "le_val (clamp_scalar s) = decode_scalar s"
proof -
  obtain a m z where s: "s = a # m @ [z]" "length m = 30" using ends_split [OF assms] .
  have c: "clamp_scalar s = (a AND 248) # m @ [(z AND 127) OR 64]" by (simp add: clamp_scalar_def s nth_append list_update_append)
  define A M Z where "A = uint a div 8" and "M = le_val m" and "Z = uint z mod 64"
  define Q where "Q = uint z div 64"
  have zq: "uint z = 64 * Q + Z" unfolding Z_def Q_def by simp
  have M: "0 \<le> M" "M < 2 ^ 240" using le_val_bounds [of m] s(2) by (simp_all add: M_def)
  have A: "0 \<le> A" "A \<le> 31" using zdiv_mono1 [OF uint8_bounds(1) [of a], of 8] zdiv_mono1 [OF uint8_bounds(2) [of a], of 8] by (simp_all add: A_def)
  have Z: "0 \<le> Z" "Z \<le> 63" by (simp_all add: Z_def)
  have "uint a + 256 * M + 2 ^ 248 * uint z = uint a + (32 * M + 2 ^ 245 * uint z) * 8" by simp
  then have "(uint a + 256 * M + 2 ^ 248 * uint z) div 8 = A + (32 * M + 2 ^ 245 * uint z)" unfolding A_def by (simp only: div_mult_self1)
  also have "\<dots> = A + 32 * M + 2 ^ 245 * Z + Q * 2 ^ 251" by (simp add: zq)
  finally have "(uint a + 256 * M + 2 ^ 248 * uint z) div 8 mod 2 ^ 251 = (A + 32 * M + 2 ^ 245 * Z) mod 2 ^ 251" by (simp only: mod_mult_self1)
  also have "\<dots> = A + 32 * M + 2 ^ 245 * Z" using A M Z by (intro mod_pos_pos_trivial) simp_all
  finally have "decode_scalar s = 2 ^ 254 + 8 * (A + 32 * M + 2 ^ 245 * Z)" unfolding decode_scalar_def s(1) le_val_ends [OF s(2)] M_def by simp
  moreover have "le_val (clamp_scalar s) = 8 * A + 256 * M + 2 ^ 248 * (64 + Z)" unfolding c le_val_ends [OF s(2)] clamp_low clamp_high A_def M_def Z_def ..
  ultimately show ?thesis by simp
qed

lemma clear_top_eq:
  assumes "length s = 32"
  shows "le_val (s[31 := s ! 31 AND 0x7f]) = le_val s mod 2 ^ 255"
proof -
  obtain a m z where s: "s = a # m @ [z]" "length m = 30" using ends_split [OF assms] .
  have c: "s[31 := s ! 31 AND 0x7f] = a # m @ [z AND 127]" by (simp add: s nth_append list_update_append)
  define Q Z where "Q = uint z div 128" and "Z = uint z mod 128"
  have zq: "uint z = 128 * Q + Z" unfolding Z_def Q_def by simp
  have Z: "0 \<le> Z" "Z \<le> 127" by (simp_all add: Z_def)
  have "le_val s = uint a + 256 * le_val m + 2 ^ 248 * Z + Q * 2 ^ 255" unfolding s(1) le_val_ends [OF s(2)] by (simp add: zq)
  then have "le_val s mod 2 ^ 255 = (uint a + 256 * le_val m + 2 ^ 248 * Z) mod 2 ^ 255" by (simp only: mod_mult_self1)
  also have "\<dots> = uint a + 256 * le_val m + 2 ^ 248 * Z"
    using uint8_bounds [of a] le_val_bounds [of m] s(2) Z by (intro mod_pos_pos_trivial) simp_all
  finally show ?thesis unfolding c le_val_ends [OF s(2)] top_clear Z_def by simp
qed

lemma scalar_bit_eq: "t < 8 * length e \<Longrightarrow> scalar_bit e t = of_bool (bit (le_val e) t)"
  unfolding bit_le_val scalar_bit_def by (auto simp: and_one_eq bit_iff_odd_drop_bit odd_iff_mod_2_eq_one)

section \<open>The ladder of RFC 7748\<close>

text \<open>Doubling and differential addition of points \<open>(X : Z)\<close>, and the ladder, which keeps \<open>m P\<close> and \<open>(m + 1) P\<close>.\<close>

fun xdbl :: "int \<times> int \<Rightarrow> int \<times> int" where
  "xdbl (x, z) = (let aa = (x + z) ^ 2; bb = (x - z) ^ 2; e = aa - bb in (aa * bb mod p25519, e * (aa + 121665 * e) mod p25519))"

fun xadd :: "int \<Rightarrow> int \<times> int \<Rightarrow> int \<times> int \<Rightarrow> int \<times> int" where
  "xadd u (x2, z2) (x3, z3) =
     (let da = (x3 - z3) * (x2 + z2); cb = (x3 + z3) * (x2 - z2) in ((da + cb) ^ 2 mod p25519, u * (da - cb) ^ 2 mod p25519))"

fun ref_ladder :: "int \<Rightarrow> int \<Rightarrow> nat \<Rightarrow> (int \<times> int) \<times> (int \<times> int) \<Rightarrow> (int \<times> int) \<times> (int \<times> int)" where
  "ref_ladder u k 0 (P, Q) = (P, Q)"
| "ref_ladder u k (Suc t) (P, Q) = ref_ladder u k t (if bit k t then (xadd u P Q, xdbl Q) else (xdbl P, xadd u P Q))"

definition X25519_reference :: "bytes \<Rightarrow> bytes \<Rightarrow> bytes" where
  "X25519_reference scalar point =
     (let u = le_val point mod 2 ^ 255; (x, z) = fst (ref_ladder u (decode_scalar scalar) 255 ((1, 0), (u, 1)))
      in le_bytes 32 (x * z ^ nat (p25519 - 2) mod p25519))"

lemma xadd_commute: "xadd u P Q = xadd u Q P"
proof -
  obtain a b c d where PQ: "P = (a, b)" "Q = (c, d)" by (cases P; cases Q)
  have "(c - d) * (a + b) - (c + d) * (a - b) = - ((a - b) * (c + d) - (a + b) * (c - d))" by (simp add: algebra_simps)
  then have "((c - d) * (a + b) - (c + d) * (a - b)) ^ 2 = ((a - b) * (c + d) - (a + b) * (c - d)) ^ 2" by (metis power2_minus)
  moreover have "(c - d) * (a + b) + (c + d) * (a - b) = (a - b) * (c + d) + (a + b) * (c - d)" by (simp only: mult.commute add.commute)
  ultimately show ?thesis unfolding PQ xadd.simps Let_def by (simp only:)
qed

section \<open>The code implements the ladder\<close>

text \<open>
  The runs in which no reduction passes a carry above one to \<open>Add64\<close>: the products and squares of a step, of the loop, and of the inversion and the
  product behind it. The functions follow the code; only such runs are determined by the documentation of \<open>Add64\<close>.
\<close>

definition step_ok :: "carry_rule \<Rightarrow> field25519 \<Rightarrow> u64 \<Rightarrow> ladder_state \<Rightarrow> bool" where
  "step_ok U x1 kt s \<longleftrightarrow>
     (let swap = lswap s XOR kt; m = 0 - swap;
          x2 = fieldSelect (lx3 s) (lx2 s) m; x3 = fieldSelect (lx2 s) (lx3 s) m;
          z2 = fieldSelect (lz3 s) (lz2 s) m; z3 = fieldSelect (lz2 s) (lz3 s) m;
          a = field_add U x2 z2; aa = field_square U a;
          b = field_sub U x2 z2; bb = field_square U b;
          eField = field_sub U aa bb;
          c = field_add U x3 z3; d = field_sub U x3 z3;
          da = field_mul U d a; cb = field_mul U c b
      in square_ok U a \<and> square_ok U b \<and> mul_ok U d a \<and> mul_ok U c b \<and> mul_ok U aa bb \<and> mul_ok U eField (field_add U aa (field_mulA24 U eField)) \<and>
         square_ok U (field_add U da cb) \<and> square_ok U (field_sub U da cb) \<and> mul_ok U x1 (field_square U (field_sub U da cb)))"

fun ladder_ok :: "carry_rule \<Rightarrow> field25519 \<Rightarrow> bytes \<Rightarrow> nat \<Rightarrow> ladder_state \<Rightarrow> bool" where
  "ladder_ok U x1 e 0 s = True"
| "ladder_ok U x1 e (Suc t) s = (step_ok U x1 (scalar_bit e t) s \<and> ladder_ok U x1 e t (ladder_step U x1 (scalar_bit e t) s))"

definition x25519_ok :: "carry_rule \<Rightarrow> bytes \<Rightarrow> bytes \<Rightarrow> bool" where
  "x25519_ok U scalar point \<longleftrightarrow>
     (let e = clamp_scalar scalar;
          x1 = fieldLoad (point[31 := point ! 31 AND 0x7f]);
          i = \<lparr>lx2 = fieldOne, lz2 = (0, 0, 0, 0), lx3 = x1, lz3 = fieldOne, lswap = 0\<rparr>;
          s = ladder U x1 e 255 i;
          m = 0 - lswap s;
          x2 = fieldSelect (lx3 s) (lx2 s) m; z2 = fieldSelect (lz3 s) (lz2 s) m
      in ladder_ok U x1 e 255 i \<and> invert_ok U z2 \<and> mul_ok U x2 (field_invert U z2))"

lemma rep_add: "rep z a \<Longrightarrow> rep x b \<Longrightarrow> rep (field_add U z x) (a + b)"
  unfolding add_eq mod_mod_trivial by (rule mod_add_cong)

lemma rep_sub: "rep z a \<Longrightarrow> rep x b \<Longrightarrow> fval x < p25519 \<Longrightarrow> rep (field_sub U z x) (a - b)"
proof -
  assume r: "rep z a" "rep x b" "fval x < p25519"
  have le: "fval x \<le> fval z + p25519" using r(3) fval_bounds(1) [of z] by linarith
  have "rep (field_sub U z x) (fval z - fval x)" by (simp add: sub_eq [OF le])
  then show ?thesis using mod_diff_cong [OF r(1) r(2)] by simp
qed

lemma rep_mulA24: "rep z a \<Longrightarrow> rep (field_mulA24 U z) (121665 * a)"
  unfolding mulA24_eq mod_mod_trivial by (rule mod_mult_cong [OF refl])

lemma square_canonical: "square_ok U z \<Longrightarrow> fval (field_square U z) < p25519"
  by (simp add: square_eq)

fun holds :: "field25519 \<Rightarrow> field25519 \<Rightarrow> int \<times> int \<Rightarrow> bool" where
  "holds x z (a, b) \<longleftrightarrow> rep x a \<and> rep z b \<and> fval z < p25519"

lemma ladder_core:
  assumes "holds x2 z2 A" "holds x3 z3 B" "rep x1 u" "a = field_add U x2 z2" "aa = field_square U a" "b = field_sub U x2 z2" "bb = field_square U b"
    "e = field_sub U aa bb" "da = field_mul U (field_sub U x3 z3) a" "cb = field_mul U (field_add U x3 z3) b"
    and ok: "square_ok U a" "square_ok U b" "mul_ok U (field_sub U x3 z3) a" "mul_ok U (field_add U x3 z3) b" "mul_ok U aa bb" "mul_ok U e (field_add U aa (field_mulA24 U e))"
      "square_ok U (field_add U da cb)" "square_ok U (field_sub U da cb)" "mul_ok U x1 (field_square U (field_sub U da cb))"
  shows "holds (field_mul U aa bb) (field_mul U e (field_add U aa (field_mulA24 U e))) (xdbl A)"
    "holds (field_square U (field_add U da cb)) (field_mul U x1 (field_square U (field_sub U da cb))) (xadd u A B)"
proof -
  obtain p q r s where AB: "A = (p, q)" "B = (r, s)" by (cases A; cases B)
  have h: "rep x2 p" "rep z2 q" "fval z2 < p25519" "rep x3 r" "rep z3 s" "fval z3 < p25519" using assms(1,2) unfolding AB by simp_all
  have a: "rep a (p + q)" unfolding assms(4) by (rule rep_add [OF h(1,2)])
  have b: "rep b (p - q)" unfolding assms(6) by (rule rep_sub [OF h(1,2,3)])
  have aa: "rep aa ((p + q) ^ 2)" unfolding assms(5) by (rule rep_square [OF ok(1) a])
  have bb: "rep bb ((p - q) ^ 2)" unfolding assms(7) by (rule rep_square [OF ok(2) b])
  have e: "rep e ((p + q) ^ 2 - (p - q) ^ 2)" unfolding assms(8) by (rule rep_sub [OF aa bb]) (simp only: assms(7) square_canonical [OF ok(2)])
  have da: "rep da ((r - s) * (p + q))" unfolding assms(9) by (rule rep_mul [OF ok(3) rep_sub [OF h(4,5,6)] a])
  have cb: "rep cb ((r + s) * (p - q))" unfolding assms(10) by (rule rep_mul [OF ok(4) rep_add [OF h(4,5)] b])
  have d: "rep (field_sub U da cb) ((r - s) * (p + q) - (r + s) * (p - q))" by (rule rep_sub [OF da cb]) (simp only: assms(10) mul_canonical [OF ok(4)])
  show "holds (field_mul U aa bb) (field_mul U e (field_add U aa (field_mulA24 U e))) (xdbl A)"
    unfolding AB xdbl.simps Let_def holds.simps mod_mod_trivial
    by (intro conjI rep_mul [OF ok(5) aa bb] rep_mul [OF ok(6) e rep_add [OF aa rep_mulA24 [OF e]]] mul_canonical [OF ok(6)])
  show "holds (field_square U (field_add U da cb)) (field_mul U x1 (field_square U (field_sub U da cb))) (xadd u A B)"
    unfolding AB xadd.simps Let_def holds.simps mod_mod_trivial
    by (intro conjI rep_square [OF ok(7) rep_add [OF da cb]] rep_mul [OF ok(9) assms(3) rep_square [OF ok(8) d]] mul_canonical [OF ok(9)])
qed

text \<open>
  The registers hold the two points of the reference ladder, exchanged when \<open>swap\<close> is one.
\<close>

definition ladder_rel :: "ladder_state \<Rightarrow> (int \<times> int) \<times> (int \<times> int) \<Rightarrow> bool \<Rightarrow> bool" where
  "ladder_rel s PQ sw \<longleftrightarrow> lswap s = of_bool sw \<and>
     holds (lx2 s) (lz2 s) (if sw then snd PQ else fst PQ) \<and> holds (lx3 s) (lz3 s) (if sw then fst PQ else snd PQ)"

lemma ladder_step_rel:
  assumes "ladder_rel s (P, Q) sw" "rep x1 u" "step_ok U x1 (of_bool k) s"
  shows "ladder_rel (ladder_step U x1 (of_bool k) s) (if k then (xadd u P Q, xdbl Q) else (xdbl P, xadd u P Q)) k"
proof -
  define x2 x3 where "x2 = (if sw \<noteq> k then lx3 s else lx2 s)" and "x3 = (if sw \<noteq> k then lx2 s else lx3 s)"
  define z2 z3 where "z2 = (if sw \<noteq> k then lz3 s else lz2 s)" and "z3 = (if sw \<noteq> k then lz2 s else lz3 s)"
  define A B where "A = (if k then Q else P)" and "B = (if k then P else Q)"
  have sel: "fieldSelect v w (0 - (lswap s XOR of_bool k)) = (if sw \<noteq> k then v else w)" for v w
    using assms(1) by (cases sw; cases k) (simp_all add: ladder_rel_def)
  have AB: "holds x2 z2 A" "holds x3 z3 B" using assms(1) by (auto simp: ladder_rel_def x2_def x3_def z2_def z3_def A_def B_def)
  note ok = assms(3) [unfolded step_ok_def Let_def sel, folded x2_def x3_def z2_def z3_def]
  note c = ladder_core [OF AB assms(2) refl refl refl refl refl refl refl, of U]
  have "xadd u A B = xadd u P Q" unfolding A_def B_def by (cases k) (simp_all add: xadd_commute)
  then show ?thesis using c ok
    unfolding ladder_step_def Let_def sel x2_def [symmetric] x3_def [symmetric] z2_def [symmetric] z3_def [symmetric]
    by (cases k) (simp_all add: ladder_rel_def A_def)
qed

lemma ladder_refines:
  assumes "ladder_rel s PQ sw" "rep x1 u" "n \<le> 8 * length e" "ladder_ok U x1 e n s"
  shows "\<exists>sw. ladder_rel (ladder U x1 e n s) (ref_ladder u (le_val e) n PQ) sw"
  using assms
proof (induction n arbitrary: s PQ sw)
  case 0
  then show ?case by (cases PQ) auto
next
  case (Suc n)
  obtain P Q where PQ: "PQ = (P, Q)" by (cases PQ)
  have n: "n < 8 * length e" using Suc.prems(3) by simp
  have ok: "step_ok U x1 (of_bool (bit (le_val e) n)) s" "ladder_ok U x1 e n (ladder_step U x1 (of_bool (bit (le_val e) n)) s)"
    using Suc.prems(4) by (simp_all add: scalar_bit_eq [OF n])
  from Suc.IH [OF ladder_step_rel [OF Suc.prems(1) [unfolded PQ] Suc.prems(2) ok(1)] Suc.prems(2) _ ok(2)] n show ?case
    unfolding PQ ladder.simps ref_ladder.simps scalar_bit_eq [OF n] by simp
qed

lemma x25519_refines:
  assumes "length scalar = 32" "length point = 32" "x25519_ok U scalar point"
  shows "x25519ScalarMult U scalar point = X25519_reference scalar point"
proof -
  define x1 u where "x1 = fieldLoad (point[31 := point ! 31 AND 0x7f])" and "u = le_val point mod 2 ^ 255"
  define i where "i = \<lparr>lx2 = fieldOne, lz2 = (0, 0, 0, 0), lx3 = x1, lz3 = fieldOne, lswap = 0\<rparr>"
  define s where "s = ladder U x1 (clamp_scalar scalar) 255 i"
  define x2 z2 where "x2 = fieldSelect (lx3 s) (lx2 s) (0 - lswap s)" and "z2 = fieldSelect (lz3 s) (lz2 s) (0 - lswap s)"
  have ok: "ladder_ok U x1 (clamp_scalar scalar) 255 i" "invert_ok U z2" "mul_ok U x2 (field_invert U z2)"
    using assms(3) unfolding x25519_ok_def Let_def x1_def [symmetric] i_def [symmetric] s_def [symmetric] x2_def [symmetric] z2_def [symmetric] by blast+
  have "fval x1 = u" unfolding x1_def u_def using fieldLoad_eq [of "point[31 := point ! 31 AND 0x7f]"] clear_top_eq [OF assms(2)] assms(2) by simp
  then have x1: "rep x1 u" by simp
  define R where "R = ref_ladder u (decode_scalar scalar) 255 ((1, 0), (u, 1))"
  have start: "ladder_rel i ((1, 0), (u, 1)) False" unfolding ladder_rel_def i_def using x1 by (simp add: fieldOne_def p25519_val)
  have len: "255 \<le> 8 * length (clamp_scalar scalar)" using assms(1) by (simp add: clamp_scalar_def Let_def)
  obtain sw where r: "ladder_rel s R sw" using ladder_refines [OF start x1 len ok(1)] unfolding s_def R_def clamp_scalar_eq [OF assms(1)] by blast
  obtain x z where xz: "fst R = (x, z)" by (metis surj_pair)
  have h: "rep x2 x" "rep z2 z" using r xz unfolding ladder_rel_def x2_def z2_def by (cases sw; simp)+
  have "rep (field_invert U z2) (z ^ nat (p25519 - 2))" unfolding invert_eq [OF ok(2)] mod_mod_trivial using h(2) by (metis power_mod)
  from mul_exact [OF ok(3) rep_mul [OF ok(3) h(1) this]] have "fval (field_mul U x2 (field_invert U z2)) = x * z ^ nat (p25519 - 2) mod p25519" .
  moreover have "x25519ScalarMult U scalar point = field_store (field_mul U x2 (field_invert U z2))"
    unfolding x25519ScalarMult_def Let_def x1_def [symmetric] i_def [symmetric] s_def [symmetric] x2_def z2_def ..
  ultimately show ?thesis unfolding X25519_reference_def Let_def u_def [symmetric] R_def [symmetric] xz by (simp add: field_store_eq)
qed

lemma length_reference: "length (X25519_reference scalar point) = 32"
  by (simp add: X25519_reference_def Let_def split: prod.split)

section \<open>Points of low order\<close>

abbreviation flat :: "int \<times> int \<Rightarrow> bool" where "flat P \<equiv> fst P * snd P mod p25519 = 0"

lemma xdbl_flat: "flat P \<Longrightarrow> snd (xdbl P) = 0"
proof -
  obtain x z where P: "P = (x, z)" by (cases P)
  assume "flat P"
  then have d: "p25519 dvd x * z" by (simp add: P mod_eq_0_iff_dvd)
  have "(x + z) ^ 2 - (x - z) ^ 2 = 4 * (x * z)" by (simp add: power2_eq_square algebra_simps)
  then have "p25519 dvd (x + z) ^ 2 - (x - z) ^ 2" using d by simp
  then show ?thesis by (simp add: P Let_def)
qed

lemma xadd_zero: "u mod p25519 = 0 \<Longrightarrow> snd (xadd u P Q) = 0"
  by (cases P; cases Q) (simp add: Let_def mod_eq_0_iff_dvd)

lemma ladder_zero:
  "u mod p25519 = 0 \<Longrightarrow> flat P \<Longrightarrow> flat Q \<Longrightarrow> 0 < n \<or> snd P = 0 \<Longrightarrow> snd (fst (ref_ladder u k n (P, Q))) = 0"
proof (induction n arbitrary: P Q)
  case (Suc n)
  have z: "snd (xdbl P) = 0" "snd (xdbl Q) = 0" "snd (xadd u P Q) = 0"
    using xdbl_flat [OF Suc.prems(2)] xdbl_flat [OF Suc.prems(3)] xadd_zero [OF Suc.prems(1)] by simp_all
  then have "flat (xdbl P)" "flat (xdbl Q)" "flat (xadd u P Q)" by simp_all
  then show ?case using Suc.IH [of "xadd u P Q" "xdbl Q"] Suc.IH [of "xdbl P" "xadd u P Q"] Suc.prems(1) z by simp
qed simp

lemma reference_zero:
  assumes "le_val point mod 2 ^ 255 mod p25519 = 0"
  shows "X25519_reference scalar point = replicate 32 0"
proof -
  define u R where "u = le_val point mod 2 ^ 255" and "R = fst (ref_ladder u (decode_scalar scalar) 255 ((1, 0), (u, 1)))"
  have "snd R = 0" unfolding R_def using assms ladder_zero [of u "(1, 0)" "(u, 1)" 255] by (simp add: u_def)
  then obtain x where R: "R = (x, 0)" by (metis prod.collapse)
  have "nat (p25519 - 2) \<noteq> 0" by (simp add: p25519_val)
  then have "X25519_reference scalar point = le_bytes 32 0" unfolding X25519_reference_def Let_def u_def [symmetric] R_def [symmetric] R by (simp add: power_0_left)
  also have "\<dots> = replicate 32 0" by (simp add: numeral_eq_Suc)
  finally show ?thesis .
qed

text \<open>
  The run at a zero coordinate passes no carry above one, whatever the scalar: after the first step the registers are zero but for one that may be one.
\<close>

declare field_add.simps [simp del] field_sub.simps [simp del] field_mulA24.simps [simp del] fieldSelect.simps [simp del]

definition fieldMinusOne :: field25519 where
  "fieldMinusOne = (0xffffffffffffffec, 0xffffffffffffffff, 0xffffffffffffffff, 0x7fffffffffffffff)"

lemma fval_minus_one: "fval fieldMinusOne = p25519 - 1"
  by (simp add: fieldMinusOne_def p25519_val)

lemma minus_one_square_ok: "square_ok U fieldMinusOne"
proof -
  have "mul_wide U fieldMinusOne fieldMinusOne = (0x190, 0x0, 0x0, 0x0, 0xffffffffffffffec, 0xffffffffffffffff, 0xffffffffffffffff, 0x3fffffffffffffff)"
    by (rule wide_val_inj [THEN iffD1]) (simp add: mul_wide_eq fieldMinusOne_def)
  then show ?thesis by (simp add: square_wide_mul carries_ok_def Add64_def Mul64_def)
qed

lemma four_p_ok: "mul_ok U fieldP (4, 0, 0, 0)"
proof -
  have "mul_wide U fieldP (4, 0, 0, 0) = (0xffffffffffffffb4, 0xffffffffffffffff, 0xffffffffffffffff, 0xffffffffffffffff, 0x1, 0x0, 0x0, 0x0)"
    by (rule wide_val_inj [THEN iffD1]) (simp add: mul_wide_eq fieldP_def fieldTopMask_def)
  then show ?thesis by (simp add: carries_ok_def Add64_def Mul64_def)
qed

lemma field_value: "fval z = fval x \<Longrightarrow> z = x"
  by (simp only: fval_inj)

lemma sub_value:
  assumes "fval x \<le> fval z + p25519" "fval y = (if fval z < fval x then fval z - fval x + p25519 else fval z - fval x)"
  shows "field_sub U z x = y"
  by (rule field_value) (simp only: sub_eq [OF assms(1)] assms(2))

lemma add_value: "fval y = (fval z + fval x) mod p25519 \<Longrightarrow> field_add U z x = y"
  by (rule field_value) (simp only: add_eq)

abbreviation zero_or_one :: "field25519 \<Rightarrow> bool" where "zero_or_one z \<equiv> z = fieldZero \<or> z = fieldOne"

lemma small_sums [simp]: "field_add U fieldZero fieldZero = fieldZero" "field_add U fieldOne fieldZero = fieldOne" "field_sub U z z = fieldZero" "field_sub U z fieldZero = z"
proof -
  have z: "fval z \<le> fval z + p25519" "fval fieldZero \<le> fval z + p25519" "\<not> fval z < fval fieldZero" using p25519_pos fval_bounds(1) [of z] unfolding fval_zero by linarith+
  show "field_sub U z z = fieldZero" by (rule sub_value [OF z(1)]) simp
  show "field_sub U z fieldZero = z" by (rule sub_value [OF z(2)]) (use z(3) in simp)
qed (rule add_value, simp)+

lemma mulA24_zero [simp]: "field_mulA24 U fieldZero = fieldZero"
  by (rule field_value) (simp add: mulA24_eq)

text \<open>The first step: the top bit of the clamped scalar is one, so the registers are exchanged.\<close>

lemma top_scalar_bit: "length scalar = 32 \<Longrightarrow> scalar_bit (clamp_scalar scalar) 254 = 1"
proof -
  assume "length scalar = 32"
  then have "clamp_scalar scalar ! 31 = (scalar ! 31 AND 127) OR 64" by (simp add: clamp_scalar_def Let_def)
  moreover have "drop_bit 6 ((b AND 127) OR 64) AND 1 = (1 :: u8)" for b :: u8 by (simp add: byte_eq_iff bit_simps)
  ultimately show ?thesis by (simp add: scalar_bit_def)
qed

lemma zero_first_step:
  assumes "fval x1 = 0 \<or> fval x1 = p25519"
  defines "i \<equiv> \<lparr>lx2 = fieldOne, lz2 = fieldZero, lx3 = x1, lz3 = fieldOne, lswap = 0\<rparr>"
  shows "step_ok U x1 1 i" "ladder_step U x1 1 i = \<lparr>lx2 = fieldOne, lz2 = fieldZero, lx3 = fieldZero, lz3 = fieldZero, lswap = 1\<rparr>"
proof -
  have a: "field_add U x1 fieldOne = fieldOne" by (rule add_value) (use assms(1) in auto)
  have le: "fval fieldOne \<le> fval x1 + p25519" unfolding fval_one using fval_bounds(1) [of x1] one_less_p by linarith
  have "\<not> p25519 < 1" using one_less_p by linarith
  then have b: "field_sub U x1 fieldOne = fieldMinusOne" by (intro sub_value [OF le]) (use assms(1) in \<open>auto simp: fval_minus_one\<close>)
  have "(p25519 - 1) ^ 2 mod p25519 = 1" by (simp add: p25519_val)
  then have "fval (field_square U fieldMinusOne) = fval fieldOne" by (simp only: square_eq [OF minus_one_square_ok] fval_minus_one fval_one)
  then have bb: "field_square U fieldMinusOne = fieldOne" by (rule field_value)
  have cb: "field_mul U fieldOne fieldMinusOne = fieldMinusOne" by (simp add: fval_minus_one)
  have s: "field_add U fieldOne fieldMinusOne = fieldZero" by (rule add_value) (simp add: fval_minus_one)
  have d: "field_sub U fieldOne fieldMinusOne = fieldTwo"
    by (rule sub_value) (simp_all add: fval_minus_one fieldTwo_def p25519_val)
  have q: "square_ok U fieldTwo" "field_square U fieldTwo = (4, 0, 0, 0)"
    by (rule small_square_ok, simp add: fieldTwo_def) (simp add: square_mul, rule small_mul, simp_all add: fieldTwo_def p25519_val)
  have x: "mul_ok U x1 (4, 0, 0, 0)" "field_mul U x1 (4, 0, 0, 0) = fieldZero"
  proof -
    show ok: "mul_ok U x1 (4, 0, 0, 0)"
      using assms(1) four_p_ok fval_inj [of x1 fieldP] by (auto simp: fval_P intro: small_ok)
    show "field_mul U x1 (4, 0, 0, 0) = fieldZero" by (rule field_value) (use assms(1) mul_eq [OF ok] in auto)
  qed
  have sel: "0 - (0 XOR 1 :: u64) = - 1" by simp
  have o: "field_mul U fieldOne fieldOne = fieldOne" by simp
  note v = a b bb cb s d q(2) x(2) o small_sums mulA24_zero zero_product one_product(2)
  show "step_ok U x1 1 i"
    unfolding step_ok_def i_def ladder_state.simps Let_def sel fieldSelect_masks unfolding v
    by (intro conjI one_product_ok zero_product_ok minus_one_square_ok q(1) x(1))
  show "ladder_step U x1 1 i = \<lparr>lx2 = fieldOne, lz2 = fieldZero, lx3 = fieldZero, lz3 = fieldZero, lswap = 1\<rparr>"
    unfolding ladder_step_def i_def ladder_state.simps Let_def sel fieldSelect_masks unfolding v ..
qed

definition zero_state :: "ladder_state \<Rightarrow> bool" where
  "zero_state s \<longleftrightarrow> zero_or_one (lx2 s) \<and> lz2 s = fieldZero \<and> lx3 s = fieldZero \<and> lz3 s = fieldZero \<and> (lswap s = 0 \<or> lswap s = 1)"

lemma zero_step:
  assumes "zero_state s" "kt = 0 \<or> kt = 1"
  shows "step_ok U x1 kt s \<and> zero_state (ladder_step U x1 kt s)"
proof -
  have regs: "lz2 s = fieldZero" "lx3 s = fieldZero" "lz3 s = fieldZero" "zero_or_one (lx2 s)" using assms(1) by (auto simp: zero_state_def)
  have m: "0 - (lswap s XOR kt) = 0 \<or> 0 - (lswap s XOR kt) = - 1" using assms by (auto simp: zero_state_def)
  have o: "field_mul U fieldOne fieldOne = fieldOne" by simp
  note v = o small_sums mulA24_zero zero_product one_product(2)
  have "step_ok U x1 kt s \<and> zero_or_one (lx2 (ladder_step U x1 kt s)) \<and> lz2 (ladder_step U x1 kt s) = fieldZero \<and>
      lx3 (ladder_step U x1 kt s) = fieldZero \<and> lz3 (ladder_step U x1 kt s) = fieldZero"
    using m regs(4)
    by (elim disjE; simp only: step_ok_def ladder_step_def Let_def regs(1-3) fieldSelect_masks v one_product_ok zero_product_ok ladder_state.simps simp_thms)
  then show ?thesis using assms(2) by (simp add: zero_state_def ladder_step_def Let_def)
qed

lemma zero_ladder: "zero_state s \<Longrightarrow> ladder_ok U x1 e n s \<and> zero_state (ladder U x1 e n s)"
proof (induction n arbitrary: s)
  case (Suc n)
  have "w AND 1 = 0 \<or> w AND 1 = 1" for w :: u8 by (cases "even w") (simp_all add: and_one_eq even_iff_mod_2_eq_zero odd_iff_mod_2_eq_one)
  from this [of "drop_bit (n mod 8) (e ! (n div 8))"] have "scalar_bit e n = 0 \<or> scalar_bit e n = 1"
    unfolding scalar_bit_def by (elim disjE) (simp_all only: unsigned_0 unsigned_1 simp_thms)
  then show ?case using Suc.IH zero_step [OF Suc.prems] by simp
qed simp

lemma zero_point_ok:
  assumes "length scalar = 32" "length point = 32" "le_val point mod 2 ^ 255 mod p25519 = 0"
  shows "x25519_ok U scalar point"
proof -
  define x1 where "x1 = fieldLoad (point[31 := point ! 31 AND 0x7f])"
  define i where "i = \<lparr>lx2 = fieldOne, lz2 = fieldZero, lx3 = x1, lz3 = fieldOne, lswap = 0\<rparr>"
  have v: "fval x1 = le_val point mod 2 ^ 255" unfolding x1_def using fieldLoad_eq [of "point[31 := point ! 31 AND 0x7f]"] clear_top_eq [OF assms(2)] assms(2) by simp
  have "0 \<le> fval x1" "fval x1 < 2 * p25519" unfolding v p25519_val by (simp, rule order.strict_trans2 [OF pos_mod_bound]) simp_all
  moreover have "fval x1 mod p25519 = 0" using assms(3) unfolding v .
  ultimately have x1: "fval x1 = 0 \<or> fval x1 = p25519" using wrap_once [of "fval x1" p25519] by (auto split: if_splits)
  note first = zero_first_step [OF x1, of U, folded i_def]
  define s where "s = ladder U x1 (clamp_scalar scalar) 255 i"
  have n: "255 = Suc (254 :: nat)" by simp
  have "zero_state (ladder_step U x1 1 i)" unfolding first(2) by (simp add: zero_state_def)
  note rest = zero_ladder [OF this, of U x1 "clamp_scalar scalar" 254]
  have ok: "ladder_ok U x1 (clamp_scalar scalar) 255 i" "zero_state s"
    unfolding s_def n ladder.simps ladder_ok.simps top_scalar_bit [OF assms(1)] using rest first(1) by simp_all
  have "fieldSelect (lz3 s) (lz2 s) (0 - lswap s) = fieldZero" using ok(2) by (auto simp: zero_state_def)
  then show ?thesis
    unfolding x25519_ok_def Let_def x1_def [symmetric] i_def [symmetric] s_def [symmetric] using ok(1) by simp
qed

section \<open>Properties\<close>

text \<open>C2. The X25519 function of the code, on four limbs with masked swaps that it delays to the next bit, is the function of RFC 7748: it decodes the
  same scalar and coordinate, runs the ladder over the integers modulo \<open>2 ^ 255 - 19\<close>, and stores the canonical little-endian result. This holds
  whatever \<open>Add64\<close> does with carries above one, for every scalar and coordinate at which no reduction of the run passes such a carry; for other inputs
  the documentation of \<open>Add64\<close> does not determine the result. At coordinates that are zero modulo \<open>2 ^ 255 - 19\<close> no scalar leads to such a carry.\<close>

theorem x25519_implements_rfc7748:
  assumes "length scalar = 32" "length point = 32"
  shows "(x25519_ok U scalar point \<longrightarrow> x25519ScalarMult U scalar point = X25519_reference scalar point) \<and>
    (le_val point mod 2 ^ 255 mod p25519 = 0 \<longrightarrow> x25519_ok U scalar point)"
  by (intro conjI impI) (rule x25519_refines [OF assms] zero_point_ok [OF assms], assumption)+

text \<open>The condition at a coordinate that is zero, in its non-canonical encoding.\<close>

theorem x25519_implements_rfc7748_witness:
  "x25519_ok flag_carry (replicate 32 1) (field_store fieldP) \<and>
   x25519ScalarMult flag_carry (replicate 32 1) (field_store fieldP) = X25519_reference (replicate 32 1) (field_store fieldP)"
proof -
  have l: "length (replicate 32 (1 :: u8)) = 32" "length (field_store fieldP) = 32" by (simp_all add: field_store_eq)
  have "le_val (field_store fieldP) = p25519" by (simp add: field_store_eq le_val_le_bytes fval_P p25519_val)
  then have "le_val (field_store fieldP) mod 2 ^ 255 mod p25519 = 0" by (simp add: p25519_val)
  from x25519_implements_rfc7748 [OF l, of flag_carry, THEN conjunct2, THEN mp, OF this]
  show ?thesis using x25519_implements_rfc7748 [OF l, of flag_carry, THEN conjunct1, THEN mp] by (intro conjI)
qed

text \<open>C28. For every rule of \<open>Add64\<close> for carries above one: a private key made from 32 bytes answers a peer whose run passes no such carry with the shared secret of
  RFC 7748, and with an error when that is zero; it refuses the coordinates that are zero modulo \<open>2 ^ 255 - 19\<close> in every encoding; it returns no
  all-zero secret, and no secret for an encoding that is not 32 bytes long. After \<open>ReleaseSensitive\<close> both arrays are zero, every operation fails and its output
  is cleared.\<close>

theorem x25519_key_exchange:
  assumes "NewX25519PrivateKey U encoded = Inr k"
  shows "(length peer = 32 \<and> x25519_ok U encoded peer \<longrightarrow> xk_ECDH U (Some k) peer =
      (if X25519_reference encoded peer = replicate 32 0 then (replicate 32 0, Some ErrLowOrderPoint) else (X25519_reference encoded peer, None))) \<and>
    (length peer = 32 \<and> le_val peer mod 2 ^ 255 mod p25519 = 0 \<longrightarrow> xk_ECDH U (Some k) peer = (replicate 32 0, Some ErrLowOrderPoint)) \<and>
    (xk_ECDH U (Some k) peer = (secret, None) \<longrightarrow> length peer = 32 \<and> secret \<noteq> replicate 32 0) \<and>
    xk_ReleaseSensitive (Some k) = Some \<lparr>xk_scalar = replicate 32 0, xk_public = replicate 32 0, xk_released = True\<rparr> \<and>
    xk_PublicKey (xk_ReleaseSensitive (Some k)) = (replicate 32 0, Some ErrSensitiveReleased) \<and>
    xk_ECDH U (xk_ReleaseSensitive (Some k)) peer = (replicate 32 0, Some ErrSensitiveReleased)"
proof -
  have l: "length encoded = 32" and k: "xk_scalar k = encoded" "\<not> xk_released k" using assms by (auto simp: NewX25519PrivateKey_def split: if_splits)
  have A: "xk_ECDH U (Some k) peer =
      (if X25519_reference encoded peer = replicate 32 0 then (replicate 32 0, Some ErrLowOrderPoint) else (X25519_reference encoded peer, None))"
    if "length peer = 32" "x25519_ok U encoded peer"
    using x25519_refines [OF l that] that(1) k by (simp add: xk_ECDH_def Let_def)
  have B: "xk_ECDH U (Some k) peer = (replicate 32 0, Some ErrLowOrderPoint)" if z: "length peer = 32" "le_val peer mod 2 ^ 255 mod p25519 = 0"
    using A [OF z(1) zero_point_ok [OF l z]] reference_zero [OF z(2)] by simp
  have C: "length peer = 32" "secret \<noteq> replicate 32 0" if "xk_ECDH U (Some k) peer = (secret, None)"
    using that k by (auto simp: xk_ECDH_def Let_def split: if_splits)
  have D: "xk_ReleaseSensitive (Some k) = Some \<lparr>xk_scalar = replicate 32 0, xk_public = replicate 32 0, xk_released = True\<rparr>"
    using k by (simp add: xk_ReleaseSensitive_def)
  have E: "xk_PublicKey (xk_ReleaseSensitive (Some k)) = (replicate 32 0, Some ErrSensitiveReleased)"
    "xk_ECDH U (xk_ReleaseSensitive (Some k)) peer = (replicate 32 0, Some ErrSensitiveReleased)"
    unfolding D by (simp_all add: xk_PublicKey_def xk_ECDH_def)
  show ?thesis by (intro conjI impI; (elim conjE)?) (rule A B C D E; assumption?)+
qed

theorem x25519_key_exchange_witness:
  "\<exists>k. NewX25519PrivateKey flag_carry (replicate 32 1) = Inr k \<and> x25519_ok flag_carry (replicate 32 1) (replicate 32 0) \<and>
     xk_ECDH flag_carry (Some k) (replicate 32 0) = (replicate 32 0, Some ErrLowOrderPoint)"
proof -
  obtain k where k: "NewX25519PrivateKey flag_carry (replicate 32 1) = Inr k" by (simp add: NewX25519PrivateKey_def)
  have "le_val (replicate n 0) = 0" for n by (induction n) simp_all
  then have z: "length (replicate 32 (0 :: u8)) = 32 \<and> le_val (replicate 32 0) mod 2 ^ 255 mod p25519 = 0" by simp
  have "x25519_ok flag_carry (replicate 32 1) (replicate 32 0)" using z by (intro zero_point_ok) simp_all
  moreover have "xk_ECDH flag_carry (Some k) (replicate 32 0) = (replicate 32 0, Some ErrLowOrderPoint)"
    by (rule x25519_key_exchange [OF k, THEN conjunct2, THEN conjunct1, THEN mp, OF z])
  ultimately show ?thesis using k by blast
qed

end
