(* ===== verification/Field25519_Sqrt.thy ===== *)
theory Field25519_Sqrt
  imports Field25519_Power
begin

text \<open>
  Square roots (\<open>fieldSqrtRatio\<close> and \<open>fieldIsSquareNonzero\<close> of \<open>cryptography/field25519.go\<close>): for which ratios the mask is set, and that an answer
  with the mask set is a root, the one in the lower half of the field. As everywhere, the rule \<open>U\<close> for carries above one is arbitrary, and the run must
  pass none.
\<close>

section \<open>The run without such a carry\<close>

definition sqrt_ok :: "carry_rule \<Rightarrow> field25519 \<Rightarrow> field25519 \<Rightarrow> bool" where
  "sqrt_ok U u v \<longleftrightarrow>
     (let v2 = field_square U v;
          uv3 = field_mul U (field_mul U u v2) v;
          uv7 = field_mul U (field_mul U uv3 v2) v2;
          r = field_mul U uv3 (field_pow22523 U uv7)
      in square_ok U v \<and> mul_ok U u v2 \<and> mul_ok U (field_mul U u v2) v \<and> mul_ok U uv3 v2 \<and> mul_ok U (field_mul U uv3 v2) v2 \<and>
         pow22523_ok U uv7 \<and> mul_ok U uv3 (field_pow22523 U uv7) \<and> square_ok U r \<and> mul_ok U v (field_square U r) \<and> mul_ok U r fieldSqrtM1)"

section \<open>Square roots\<close>

lemma fval_half: "fval fieldHalf = (p25519 - 1) div 2"
  by (simp add: fieldHalf_def p25519_val)

lemma sqrtM1_square: "fval fieldSqrtM1 ^ 2 mod p25519 = - 1 mod p25519"
  by (simp add: fieldSqrtM1_def p25519_val)

lemma select_choice: "fieldSelect a b (if c then - 1 else 0) = (if c then a else b)"
  by simp

lemma root_choice:
  assumes "fval r < p25519"
    and s_def: "s = fieldSelect (field_neg U r) r (lessOrEqualMask r fieldHalf XOR 0xffffffffffffffff)"
  shows "fval s \<le> fval fieldHalf" "fval s ^ 2 mod p25519 = fval r ^ 2 mod p25519"
proof -
  have m: "lessOrEqualMask r fieldHalf XOR 0xffffffffffffffff = (if fval r \<le> fval fieldHalf then 0 else - 1)" by (simp add: lessOrEqualMask_eq)
  have p: "p25519 = 2 * fval fieldHalf + 1" unfolding fval_half by (simp add: p25519_val)
  have s: "fval s = (if fval r \<le> fval fieldHalf then fval r else p25519 - fval r)"
    unfolding s_def m using neg_eq [of r U] assms(1) fval_bounds(1) [of fieldHalf] by auto
  then show "fval s \<le> fval fieldHalf" using p by (cases "fval r \<le> fval fieldHalf") simp_all
  have "rep s (fval r) \<or> rep s (- fval r)" using s by (auto simp: mod_diff_left_eq [symmetric] mod_simps)
  then show "fval s ^ 2 mod p25519 = fval r ^ 2 mod p25519" by (metis power_mod power2_minus)
qed

text \<open>The number that decides the mask: for a prime modulus it is \<open>u\<close> or \<open>- u\<close> exactly when \<open>u / v\<close> is zero or a square.\<close>

definition ratio_test :: "int \<Rightarrow> int \<Rightarrow> int" where
  "ratio_test u v = u * (u * v ^ 7) ^ nat ((p25519 - 1) div 4) mod p25519"

lemma ratio_test_power: "v * (u * v ^ 3 * (u * v ^ 7) ^ nat ((p25519 - 5) div 8)) ^ 2 mod p25519 = ratio_test u v"
proof -
  define e where "e = nat ((p25519 - 5) div 8)"
  have n: "nat ((p25519 - 1) div 4) = 1 + 2 * e" by (simp add: e_def p25519_val)
  have "v * (u * v ^ 3 * (u * v ^ 7) ^ e) ^ 2 = u * (u * v ^ 7) ^ (1 + 2 * e)"
    by (simp add: power_mult_distrib power_add power_mult [symmetric] mult.commute [of e] power2_eq_square power3_eq_cube eval_nat_numeral algebra_simps)
  then show ?thesis unfolding ratio_test_def n e_def by simp
qed

lemma sqrt_ratio_cases:
  assumes "fieldSqrtRatio U u v = (r, m)" "sqrt_ok U u v"
  obtains r0 check where "fval r0 < p25519" "fval check = fval v * fval r0 ^ 2 mod p25519" "fval check = ratio_test (fval u) (fval v)"
    "m = (if check = u \<or> check = field_neg U u then - 1 else 0)" "mul_ok U r0 fieldSqrtM1"
    "r = (let r1 = (if check = field_neg U u then field_mul U r0 fieldSqrtM1 else r0) in fieldSelect (field_neg U r1) r1 (lessOrEqualMask r1 fieldHalf XOR 0xffffffffffffffff))"
proof -
  define v2 where "v2 = field_square U v"
  define uv3 where "uv3 = field_mul U (field_mul U u v2) v"
  define uv7 where "uv7 = field_mul U (field_mul U uv3 v2) v2"
  define r0 where "r0 = field_mul U uv3 (field_pow22523 U uv7)"
  define check where "check = field_mul U v (field_square U r0)"
  have ok: "square_ok U v" "mul_ok U u v2" "mul_ok U (field_mul U u v2) v" "mul_ok U uv3 v2" "mul_ok U (field_mul U uv3 v2) v2"
    "pow22523_ok U uv7" "mul_ok U uv3 (field_pow22523 U uv7)" "square_ok U r0" "mul_ok U v (field_square U r0)" "mul_ok U r0 fieldSqrtM1"
    using assms(2) unfolding sqrt_ok_def Let_def v2_def [symmetric] unfolding uv3_def [symmetric] unfolding uv7_def [symmetric] unfolding r0_def [symmetric] by blast+
  have a: "rep v2 (fval v ^ 2)" unfolding v2_def by (rule rep_square [OF ok(1) refl])
  have b: "rep uv3 (fval u * fval v ^ 2 * fval v)" unfolding uv3_def by (rule rep_mul [OF ok(3) rep_mul [OF ok(2) refl a] refl])
  have c: "rep uv7 (fval u * fval v ^ 2 * fval v * fval v ^ 2 * fval v ^ 2)" unfolding uv7_def by (rule rep_mul [OF ok(5) rep_mul [OF ok(4) b a] a])
  have "rep (field_pow22523 U uv7) ((fval u * fval v ^ 2 * fval v * fval v ^ 2 * fval v ^ 2) ^ nat ((p25519 - 5) div 8))"
    unfolding pow22523_eq [OF ok(6)] mod_mod_trivial using c by (metis power_mod)
  from rep_mul [OF ok(7) b this] have r0: "rep r0 (fval u * fval v ^ 3 * (fval u * fval v ^ 7) ^ nat ((p25519 - 5) div 8))"
    unfolding r0_def by (simp add: power_add [symmetric] eval_nat_numeral mult.assoc)
  have e: "fval check = fval v * fval r0 ^ 2 mod p25519"
    unfolding check_def using mul_exact [OF ok(9) rep_mul [OF ok(9) refl rep_square [OF ok(8) refl]]] .
  have t: "fval check = ratio_test (fval u) (fval v)" unfolding e ratio_test_power [symmetric] using r0 by (metis power_mod mod_mult_right_eq)
  have p: "fval r0 < p25519" unfolding r0_def by (rule mul_canonical [OF ok(7)])
  show ?thesis
  proof (rule that [OF p e t _ ok(10)])
    show "m = (if check = u \<or> check = field_neg U u then - 1 else 0)"
      "r = (let r1 = (if check = field_neg U u then field_mul U r0 fieldSqrtM1 else r0) in fieldSelect (field_neg U r1) r1 (lessOrEqualMask r1 fieldHalf XOR 0xffffffffffffffff))"
      using assms(1) unfolding fieldSqrtRatio_def Let_def v2_def [symmetric] unfolding uv3_def [symmetric] unfolding uv7_def [symmetric] unfolding r0_def [symmetric]
      unfolding check_def [symmetric] unfolding equalMask_eq select_choice by auto
  qed
qed

lemma negated_root:
  assumes "fval v * fval r0 ^ 2 mod p25519 = (if fval u = 0 then 0 else p25519 - fval u)" "fval u < p25519" "rep r1 (fval r0 * fval fieldSqrtM1)"
  shows "fval v * fval r1 ^ 2 mod p25519 = fval u"
proof -
  have w: "fval v * fval r0 ^ 2 mod p25519 = (if fval u = 0 then 0 else p25519 - fval u) mod p25519" unfolding assms(1) [symmetric] by simp
  have "fval v * fval r1 ^ 2 mod p25519 = fval v * (fval r0 * fval fieldSqrtM1) ^ 2 mod p25519" using assms(3) by (metis power_mod mod_mult_right_eq)
  also have "\<dots> = (fval v * fval r0 ^ 2) * fval fieldSqrtM1 ^ 2 mod p25519" by (simp only: power_mult_distrib mult.assoc)
  also have "\<dots> = (if fval u = 0 then 0 else p25519 - fval u) * - 1 mod p25519" by (rule mod_mult_cong [OF w sqrtM1_square])
  also have "\<dots> = fval u" using assms(2) by (simp add: minus_mod_self2)
  finally show ?thesis .
qed

lemma sqrt_ratio_exact:
  assumes "fieldSqrtRatio U u v = (r, m)" "sqrt_ok U u v" "fval u < p25519"
  shows "fval r \<le> fval fieldHalf" "m = - 1 \<or> m = 0" "m = - 1 \<longleftrightarrow> ratio_test (fval u) (fval v) \<in> {fval u, - fval u mod p25519}"
    "m = - 1 \<Longrightarrow> fval v * fval r ^ 2 mod p25519 = fval u"
proof -
  obtain r0 check where c: "fval r0 < p25519" "fval check = fval v * fval r0 ^ 2 mod p25519" "fval check = ratio_test (fval u) (fval v)"
    "m = (if check = u \<or> check = field_neg U u then - 1 else 0)" "mul_ok U r0 fieldSqrtM1"
    and r: "r = (let r1 = (if check = field_neg U u then field_mul U r0 fieldSqrtM1 else r0) in fieldSelect (field_neg U r1) r1 (lessOrEqualMask r1 fieldHalf XOR 0xffffffffffffffff))"
    using sqrt_ratio_cases [OF assms(1,2)] by metis
  define r1 where "r1 = (if check = field_neg U u then field_mul U r0 fieldSqrtM1 else r0)"
  have r1: "fval r1 < p25519" unfolding r1_def using c(1) mul_canonical [OF c(5)] by simp
  note choice = root_choice [OF r1 r [unfolded Let_def, folded r1_def]]
  show "fval r \<le> fval fieldHalf" by (rule choice(1))
  show "m = - 1 \<or> m = 0" unfolding c(4) by simp
  have neg: "fval (field_neg U u) = (if fval u = 0 then 0 else p25519 - fval u)" using neg_eq [of u U] assms(3) by simp
  moreover have "- fval u mod p25519 = (if fval u = 0 then 0 else p25519 - fval u)" using assms(3) fval_bounds(1) [of u] by (simp add: zmod_zminus1_eq_if)
  ultimately have "check = u \<or> check = field_neg U u \<longleftrightarrow> fval check \<in> {fval u, - fval u mod p25519}" by (simp add: fval_inj [symmetric])
  then show "m = - 1 \<longleftrightarrow> ratio_test (fval u) (fval v) \<in> {fval u, - fval u mod p25519}" unfolding c(4) c(3) [symmetric] by simp
  assume "m = - 1"
  then have eq: "check = u \<or> check = field_neg U u" unfolding c(4) by (auto split: if_splits)
  have "fval v * fval r1 ^ 2 mod p25519 = fval u"
  proof (cases "check = field_neg U u")
    case True
    have "rep r1 (fval r0 * fval fieldSqrtM1)" unfolding r1_def using True rep_mul [OF c(5) refl refl] by simp
    then show ?thesis using True neg c(2) assms(3) by (intro negated_root) simp_all
  next
    case False
    then show ?thesis using eq c(2) by (simp add: r1_def)
  qed
  then show "fval v * fval r ^ 2 mod p25519 = fval u" using choice(2) by (metis mod_mult_right_eq)
qed

lemma square_nonzero_exact:
  assumes "sqrt_ok U z fieldOne" "fval z < p25519"
  shows "fieldIsSquareNonzero U z = - 1 \<longleftrightarrow> fval z \<noteq> 0 \<and> ratio_test (fval z) 1 \<in> {fval z, - fval z mod p25519}"
    "fieldIsSquareNonzero U z = - 1 \<Longrightarrow> \<exists>s. s ^ 2 mod p25519 = fval z"
proof -
  obtain r m where rm: "fieldSqrtRatio U z fieldOne = (r, m)" by (metis surj_pair)
  note e = sqrt_ratio_exact [OF rm assms, unfolded fval_one]
  have i: "fieldIsSquareNonzero U z = m AND NOT (zeroMask z)" by (simp add: fieldIsSquareNonzero_def rm)
  have m: "fieldIsSquareNonzero U z = - 1 \<longleftrightarrow> fval z \<noteq> 0 \<and> m = - 1" unfolding i zeroMask_eq using e(2) by auto
  then show "fieldIsSquareNonzero U z = - 1 \<longleftrightarrow> fval z \<noteq> 0 \<and> ratio_test (fval z) 1 \<in> {fval z, - fval z mod p25519}" using e(3) by blast
  assume "fieldIsSquareNonzero U z = - 1"
  then have "fval r ^ 2 mod p25519 = fval z" using m e(4) by simp
  then show "\<exists>s. s ^ 2 mod p25519 = fval z" by blast
qed

section \<open>Properties\<close>

text \<open>C33. For a canonical \<open>u\<close> and a run that passes no carry above one to \<open>Add64\<close>, \<open>fieldSqrtRatio\<close> sets its mask exactly when
  \<open>u (u v ^ 7) ^ ((p - 1) / 4)\<close> is \<open>u\<close> or \<open>- u\<close> modulo \<open>p = 2 ^ 255 - 19\<close>, which the exponent of \<open>pow22523\<close> decides. The answer \<open>r\<close> is in the lower half
  of the field, and with the mask set it satisfies \<open>v r ^ 2 = u\<close>, also when it had to be multiplied by the root of minus one. \<open>fieldIsSquareNonzero\<close>
  accepts exactly the nonzero \<open>u\<close> that pass this test with \<open>v = 1\<close>, and they are squares.\<close>

theorem sqrt_ratio_root:
  assumes "fieldSqrtRatio U u v = (r, m)" "sqrt_ok U u v" "fval u < p25519"
  shows "fval r \<le> (p25519 - 1) div 2 \<and> (m = - 1 \<or> m = 0) \<and>
    (m = - 1 \<longleftrightarrow> ratio_test (fval u) (fval v) \<in> {fval u, - fval u mod p25519}) \<and>
    (m = - 1 \<longrightarrow> fval v * fval r ^ 2 mod p25519 = fval u) \<and>
    (sqrt_ok U u fieldOne \<longrightarrow>
      (fieldIsSquareNonzero U u = - 1 \<longleftrightarrow> fval u \<noteq> 0 \<and> ratio_test (fval u) 1 \<in> {fval u, - fval u mod p25519}) \<and>
      (fieldIsSquareNonzero U u = - 1 \<longrightarrow> (\<exists>s. s ^ 2 mod p25519 = fval u)))"
  using sqrt_ratio_exact [OF assms] square_nonzero_exact [OF _ assms(3)] unfolding fval_half by blast

text \<open>The ratio of one and one, under the rule of the add-with-carry instruction: the mask is set.\<close>

theorem sqrt_ratio_root_witness:
  "\<exists>r. fieldSqrtRatio flag_carry fieldOne fieldOne = (r, - 1) \<and> fval fieldOne * fval r ^ 2 mod p25519 = fval fieldOne \<and> fieldIsSquareNonzero flag_carry fieldOne = - 1"
proof -
  have ok: "sqrt_ok flag_carry fieldOne fieldOne" by (simp add: sqrt_ok_def)
  obtain r m where rm: "fieldSqrtRatio flag_carry fieldOne fieldOne = (r, m)" by (metis surj_pair)
  have "ratio_test 1 1 = 1" by (simp add: ratio_test_def)
  then show ?thesis using sqrt_ratio_root [OF rm ok] ok rm by simp
qed

end
