(* ===== verification/Spec2Isabelle.thy ===== *)
theory Spec2Isabelle
  imports Wire SSU2_Ack Slab_Pool Packet_Buffer Tunnel_Block Tunnel_Reassembly I2NP Tunnel_Gateway Identity Signatures NetDB_Extended KBucket Tunnel_Pool Streaming Streaming_Timer Garlic_Clove Garlic_Tags SSU2_Session NTCP2 X25519_Correct Field25519_Sqrt
begin

text \<open>
  Verification of IVNP, an I2P router written in Go (module \<open>gosuda.org/ivnp\<close>). File names below are relative to \<open>src/\<close>.

  \<^bold>\<open>The program.\<close> A router exchanges messages with other routers over two transports, SSU2 (datagrams) and NTCP2 (streams). Messages have the
  format I2NP. Client data travels through tunnels: a gateway cuts messages into blocks, an endpoint puts them together again. Inside a tunnel the
  data is a garlic message of cloves, and the streaming protocol on top of it gives ordered connections. Routers and destinations publish
  signed structures in a distributed database, which is searched by Kademlia distance. All buffers come from a slab pool.

  \<^bold>\<open>Conventions.\<close> A byte slice is a list of 8-bit words, a Go integer is a word of its width, or an \<open>int\<close> or \<open>nat\<close> where the width is
  not reached or the wrap-around is written out. A function that returns an error answers a value of \<open>'a result\<close>, with the sentinel errors of the
  sources on the left; \<open>Panic\<close> is a run-time panic. A nil pointer is \<open>None\<close>. A method on a pointer answers the changed object; a function that
  writes to a slice answers its new contents. A Go map is an association list, and the order in which a range loop visits it is a parameter
  that may be any permutation. A mutex makes each method one step. Random sources, clocks, pooled objects and the primitives of the
  cryptographic libraries are arguments; what is documented of them is a named hypothesis (\<open>backend_ok\<close>, \<open>visits_all\<close>), and a witness
  instantiates it.

  \<^bold>\<open>Theories.\<close> Each theory has the definitions of a component in the order of the code, then its invariant and lemmas, then the properties.

  \<^item> \<open>IVNP_Prelude\<close>: types, errors, slices, big-endian numbers and the lemmas that all codecs use.
  \<^item> \<open>Wire\<close> (\<open>internal/wire/cursor.go\<close>): reader and writer; what is written is read back, and no operation leaves its buffer.
  \<^item> \<open>Slab_Pool\<close> (\<open>internal/pool/slab.go\<close>), \<open>Packet_Buffer\<close> (\<open>internal/packet/buffer.go\<close>): leases in a store of shared objects. The
    locale \<open>lease_provider\<close> is the contract of the pool; a lease is never held twice, except through a stale release.
  \<^item> \<open>Iterators\<close>, \<open>Block_Grammar\<close>: the contracts of the block iterators and of the loops over them (locales \<open>item_iterator\<close>, \<open>item_codec\<close>,
    \<open>item_canonical\<close>, \<open>counted_reader\<close>, \<open>block_grammar\<close>), interpreted by every component that has such an iterator.
  \<^item> \<open>Tunnel_Block\<close>, \<open>Tunnel_Reassembly\<close>, \<open>Tunnel_Gateway\<close> (\<open>dataplane/internal/tunnel\<close>: \<open>blocks.go\<close>, \<open>reassembly.go\<close>, \<open>gateway.go\<close>) and
    \<open>Bounded_Store\<close>: blocks, fragments and both ends of a tunnel. Every message arrives whole whatever the order of its fragments, and the
    stores of the endpoint stay within their limits on arbitrary input.
  \<^item> \<open>Sha256\<close>, \<open>I2NP\<close> (\<open>foundation/internal/i2np/i2np.go\<close>): messages, their checksum and the payload formats.
  \<^item> \<open>Identity\<close>, \<open>Signatures\<close> (\<open>foundation/internal/identity\<close>: \<open>types.go\<close>, \<open>signature.go\<close>): certificates, identities, mappings, and the
    verification of signatures up to the primitives.
  \<^item> \<open>NetDB_Structures\<close>, \<open>NetDB_Layout\<close>, \<open>NetDB_LeaseSets\<close>, \<open>NetDB_Extended\<close> (\<open>foundation/internal/netdb\<close>: \<open>structures.go\<close>,
    \<open>extended.go\<close>, \<open>store.go\<close>): the parsers, what exactly they accept, and what a verified structure guarantees.
  \<^item> \<open>KBucket\<close> (\<open>controlplane/internal/netdb/kbucket.go\<close>): distances and the bucket set, whose operations return after every history.
  \<^item> \<open>Tunnel_Pool\<close> (\<open>controlplane/internal/tunnel/pool.go\<close>): selection and promotion of tunnels, independent of map order.
  \<^item> \<open>Streaming\<close>, \<open>Streaming_Timer\<close> (\<open>dataplane/internal/streaming\<close>: \<open>packet.go\<close>, \<open>encode.go\<close>, \<open>state.go\<close>, \<open>reliability.go\<close>): packets,
    the state of a stream as an implementation of the list of unacknowledged packets, and the timer with 64-bit arithmetic.
  \<^item> \<open>Garlic_Clove\<close>, \<open>Garlic_Tags\<close> (\<open>dataplane/internal/garlic\<close>: \<open>clove.go\<close>, \<open>serialize.go\<close>, \<open>tags.go\<close>): clove sets and one-use tags.
  \<^item> \<open>ChaCha\<close> (\<open>cryptography/chacha.go\<close>), \<open>SSU2_Packet\<close>, \<open>SSU2_Blocks\<close>, \<open>SSU2_Codecs\<close>, \<open>SSU2_Session\<close>, \<open>SSU2_Ack\<close>
    (\<open>dataplane/internal/transport/ssu2\<close>): headers and their protection, payload blocks and their grammar, introductions and peer tests with
    the strings they sign, packets outside a session, path validation and acknowledgements.
  \<^item> \<open>Field25519\<close>, \<open>Field25519_Correct\<close>, \<open>Field25519_Power\<close>, \<open>Field25519_Sqrt\<close>, \<open>X25519\<close>, \<open>X25519_Correct\<close> (\<open>cryptography/field25519.go\<close>,
    \<open>x25519.go\<close>): limb arithmetic modulo \<open>2 ^ 255 - 19\<close>, its powers and roots, and the X25519 function as an implementation of RFC 7748.
  \<^item> \<open>NTCP2\<close> (\<open>dataplane/internal/transport/ntcp2\<close>: \<open>frame.go\<close>, \<open>io.go\<close>, \<open>session.go\<close>): frames with masked lengths on a byte stream,
    which the other end reads back in order and which cannot be replayed, and the grammar of their blocks (\<open>Block_Grammar\<close>, shared with SSU2).

  \<^bold>\<open>Lemmas.\<close> Codecs have a layout lemma (the bytes of an accepted or written value are the concatenation of its fields) from which both round
  trips follow. Stateful components have an invariant that holds at the start and that every operation keeps (\<open>slab_ok\<close>, \<open>buffer_ok\<close>
  and their like), and an induction over histories of operations. The stream state, the acknowledgement tracker, the path
  validator and X25519 have a refinement: an abstract object, a relation to the detailed state, and a step lemma. Properties are a few steps over these
  lemmas. They are the theorems after a numbered text.

  \<^bold>\<open>Loops.\<close> Loops whose end is a property of the data are recursive functions with a measure. The loop over an iterator is \<open>drain\<close> with fuel:
  the iterators consume input, so fuel above the length of the input gives the result (\<open>drain_total\<close>), and more fuel does not change it
  (\<open>drain_fuel\<close>). The splitting loop of the bucket set may run forever on an ill-formed set and answers an option; it is shown to return on every
  set that a history can reach.

  \<^bold>\<open>Arithmetic with carry.\<close> \<open>bits.Add64\<close> is documented for carries 0 and 1 only, and \<open>fieldReduce512\<close> can pass 2. The result for other
  carries is a parameter \<open>U\<close> of the field operations, of which nothing is assumed. The operations are exact for every \<open>U\<close> as long as no such
  carry occurs. That is an executable predicate of the inputs: \<open>carries_ok\<close> for one reduction, \<open>invert_ok\<close>, \<open>pow22523_ok\<close> and \<open>sqrt_ok\<close> for the
  powers and roots, \<open>x25519_ok\<close> for a run of X25519, and the theorems are stated under it. For the add-with-carry instruction
  (\<open>flag_carry\<close>) an element that violates it is evaluated, and its square is wrong (\<open>square_double_carry\<close>).

  \<^bold>\<open>Eviction.\<close> A full reassembler evicts the oldest entry that is older than \<open>2 ^ 64 - 1\<close>. Its theorems say how many fragments of that time
  they allow, and one shows what happens beyond; the theorems on the endpoint in \<open>Tunnel_Gateway\<close> exclude that time.

  \<^bold>\<open>Not modelled.\<close> Goroutines, channels, sockets, timers, files, logs and the assembly of the subsystems (routers and session managers of both
  planes, SAM bridge, proxies, web interface, reseeding, NAT, persistence, \<open>cmd\<close>, \<open>node\<close>, \<open>state\<close>, \<open>observability\<close>, \<open>tools\<close>): their
  behaviour is scheduling and I/O around the modelled components. The Noise and ECIES handshakes, the ratchet and tunnel build records need a
  symbolic key schedule. Elligator needs the primality of \<open>2 ^ 255 - 19\<close>. Compression is a library call. That secrets are erased
  is modelled where an operation can observe it and not otherwise; timing is not modelled.
\<close>

end
